(* ===== verification/Prelude.thy ===== *)
theory Prelude
  imports Main "HOL-Library.Monad_Syntax" "HOL-Library.Word" "HOL-Library.Multiset"
begin

text \<open>
  Shared vocabulary of the development: the failure of a kernel assertion, the names of
  C's fixed-width integers, C's rounding macros, and the generic list, option and word
  lemmas that the component theories use.

  A kernel function that may hit \<open>ASSERT\<close> or \<open>PANIC\<close> is modelled as a function into
  \<open>option\<close>: \<open>None\<close> is the panic (the machine stops), \<open>Some\<close> the normal return.
\<close>

named_theorems pintos_simps \<open>unfolding rules of the model's small operations\<close>

unbundle bit_operations_syntax

type_synonym u8 = "8 word"
type_synonym u32 = "32 word"
type_synonym u64 = "64 word"

type_synonym byte = u8

definition ASSERT :: "bool \<Rightarrow> unit option" where
  "ASSERT P = (if P then Some () else None)"

lemma ASSERT_True [simp]: "ASSERT True = Some ()"
  by (simp add: ASSERT_def)

lemma ASSERT_False [simp]: "ASSERT False = None"
  by (simp add: ASSERT_def)

lemma ASSERT_eq_Some [simp]: "ASSERT P = Some u \<longleftrightarrow> P"
  by (simp add: ASSERT_def)

lemma ASSERT_eq_None [simp]: "ASSERT P = None \<longleftrightarrow> \<not> P"
  by (simp add: ASSERT_def)

lemma bind_ASSERT [simp]: "Option.bind (ASSERT P) f = (if P then f () else None)"
  by (simp add: ASSERT_def)

definition DIV_ROUND_UP :: "nat \<Rightarrow> nat \<Rightarrow> nat" where
  "DIV_ROUND_UP x step = (x + step - 1) div step"

lemma DIV_ROUND_UP_mult_ge: "0 < step \<Longrightarrow> x \<le> step * DIV_ROUND_UP x step"
proof -
  assume s: "0 < step"
  have "x + step - 1 < step * ((x + step - 1) div step) + step"
    using dividend_less_times_div [OF s, of "x + step - 1"] by (simp add: add.commute)
  then show ?thesis using s unfolding DIV_ROUND_UP_def by linarith
qed

lemma DIV_ROUND_UP_0 [simp]: "0 < step \<Longrightarrow> DIV_ROUND_UP 0 step = 0"
  by (simp add: DIV_ROUND_UP_def)

lemma DIV_ROUND_UP_eq_0_iff: "0 < step \<Longrightarrow> DIV_ROUND_UP x step = 0 \<longleftrightarrow> x = 0"
  by (cases x) (auto simp: DIV_ROUND_UP_def div_eq_0_iff)

lemma DIV_ROUND_UP_le_iff:
  "0 < step \<Longrightarrow> DIV_ROUND_UP x step \<le> n \<longleftrightarrow> x \<le> n * step"
proof -
  assume s: "0 < step"
  have "DIV_ROUND_UP x step \<le> n \<longleftrightarrow> (x + step - 1) div step < Suc n"
    by (simp add: DIV_ROUND_UP_def less_Suc_eq_le)
  also have "\<dots> \<longleftrightarrow> x + step - 1 < Suc n * step"
    using s by (simp add: less_mult_imp_div_less div_less_iff_less_mult)
  also have "\<dots> \<longleftrightarrow> x \<le> n * step"
    using s by auto
  finally show ?thesis .
qed

lemma less_DIV_ROUND_UP_iff: "0 < step \<Longrightarrow> n < DIV_ROUND_UP x step \<longleftrightarrow> n * step < x"
  using DIV_ROUND_UP_le_iff [of step x n] by auto

section \<open>Overwriting a part of a list\<close>

lemma nth_splice:
  assumes "k + length src \<le> length v" "r < length v"
  shows "(take k v @ src @ drop (k + length src) v) ! r =
    (if k \<le> r \<and> r < k + length src then src ! (r - k) else v ! r)"
  using assms by (auto simp: nth_append)

section \<open>Little-endian words\<close>

text \<open>
  The i386 stores a 32-bit word as four bytes, low byte first; kernel structures are
  written to disk as their bytes.
\<close>

definition le32 :: "u32 \<Rightarrow> byte list" where
  "le32 w = [ucast w, ucast (drop_bit 8 w), ucast (drop_bit 16 w), ucast (drop_bit 24 w)]"

definition un_le32 :: "byte \<Rightarrow> byte \<Rightarrow> byte \<Rightarrow> byte \<Rightarrow> u32" where
  "un_le32 a b c d =
     ucast a OR push_bit 8 (ucast b) OR push_bit 16 (ucast c) OR push_bit 24 (ucast d)"

fun bytes_to_words :: "byte list \<Rightarrow> u32 list" where
  "bytes_to_words (a # b # c # d # r) = un_le32 a b c d # bytes_to_words r"
| "bytes_to_words _ = []"

definition words_to_bytes :: "u32 list \<Rightarrow> byte list" where
  "words_to_bytes ws = concat (map le32 ws)"

lemma length_le32 [simp]: "length (le32 w) = 4"
  by (simp add: le32_def)

lemma length_words_to_bytes [simp]: "length (words_to_bytes ws) = 4 * length ws"
  by (induction ws) (auto simp: words_to_bytes_def)

lemma length_bytes_to_words [simp]: "length (bytes_to_words bs) = length bs div 4"
  by (induction bs rule: bytes_to_words.induct) auto

lemma un_le32_le32:
  "un_le32 (ucast w) (ucast (drop_bit 8 w)) (ucast (drop_bit 16 w)) (ucast (drop_bit 24 w)) = w"
proof (rule bit_word_eqI)
  fix n assume n: "n < LENGTH(32)"
  then have "n < 8 \<or> 8 \<le> n \<and> n < 16 \<or> 16 \<le> n \<and> n < 24 \<or> 24 \<le> n \<and> n < 32" by auto
  then show "bit (un_le32 (ucast w) (ucast (drop_bit 8 w)) (ucast (drop_bit 16 w)) (ucast (drop_bit 24 w))) n = bit w n"
    by (elim disjE) (auto simp: un_le32_def bit_or_iff bit_push_bit_iff bit_ucast_iff bit_drop_bit_eq)
qed

lemma words_bytes_roundtrip [simp]: "bytes_to_words (words_to_bytes ws) = ws"
  by (induction ws) (auto simp: words_to_bytes_def le32_def un_le32_le32)

lemma le32_un_le32: "le32 (un_le32 a b c d) = [a, b, c, d]"
  unfolding le32_def un_le32_def
  by (intro arg_cong2 [where f = "(#)"] refl bit_word_eqI)
    (auto simp: bit_or_iff bit_push_bit_iff bit_ucast_iff bit_drop_bit_eq not_le dest: bit_imp_le_length)

lemma bytes_words_roundtrip:
  "length bs mod 4 = 0 \<Longrightarrow> words_to_bytes (bytes_to_words bs) = bs"
proof (induction bs rule: bytes_to_words.induct)
  case (1 a b c d r)
  then show ?case by (auto simp: words_to_bytes_def le32_un_le32)
qed (auto simp: words_to_bytes_def)

end
