(* ===== verification/Block.thy ===== *)
theory Block
  imports Prelude
begin

text \<open>
  \<^verbatim>\<open>devices/block.c\<close>: the block layer in front of the drivers. The medium behind a
  driver (\<^verbatim>\<open>ops->read\<close>, \<^verbatim>\<open>ops->write\<close>: the ATA controller of \<^verbatim>\<open>devices/ide.c\<close>) is the
  function \<open>medium\<close> from sector numbers to sector contents; a read returns what was last
  written. An access past the end of the device is a \<^verbatim>\<open>PANIC\<close>, so \<open>None\<close>.

  The locale \<open>block_store\<close> is the interface the layers above rely on: a store of sectors
  whose reads and writes act on a \<open>view\<close>. The device provides it here, the buffer cache in
  theory Cache.
\<close>

section \<open>Devices\<close>

definition BLOCK_SECTOR_SIZE :: nat where "BLOCK_SECTOR_SIZE = 512"

datatype block_type =
  BLOCK_KERNEL | BLOCK_FILESYS | BLOCK_SCRATCH | BLOCK_SWAP | BLOCK_RAW | BLOCK_FOREIGN

record block =
  bname :: string
  btype :: block_type
  bsize :: nat
  medium :: "nat \<Rightarrow> byte list"
  read_cnt :: u64
  write_cnt :: u64

definition block_type_name :: "block_type \<Rightarrow> string" where
  "block_type_name t = (case t of
     BLOCK_KERNEL \<Rightarrow> ''kernel'' | BLOCK_FILESYS \<Rightarrow> ''filesys'' | BLOCK_SCRATCH \<Rightarrow> ''scratch''
   | BLOCK_SWAP \<Rightarrow> ''swap'' | BLOCK_RAW \<Rightarrow> ''raw'' | BLOCK_FOREIGN \<Rightarrow> ''foreign'')"

definition check_sector :: "block \<Rightarrow> nat \<Rightarrow> unit option" where
  "check_sector b sector = (if sector \<ge> bsize b then None else Some ())"

definition block_read :: "block \<Rightarrow> nat \<Rightarrow> (byte list \<times> block) option" where
  "block_read b sector = do {
     check_sector b sector;
     let buffer = medium b sector;
     Some (buffer, b\<lparr>read_cnt := read_cnt b + 1\<rparr>) }"

definition block_write :: "block \<Rightarrow> nat \<Rightarrow> byte list \<Rightarrow> block option" where
  "block_write b sector buffer = do {
     check_sector b sector;
     ASSERT (btype b \<noteq> BLOCK_FOREIGN);
     let b = b\<lparr>medium := (medium b)(sector := buffer)\<rparr>;
     Some (b\<lparr>write_cnt := write_cnt b + 1\<rparr>) }"

definition block_size :: "block \<Rightarrow> nat" where
  "block_size b = bsize b"

text \<open>The registry: the devices in probe order, searched by name.\<close>

fun block_get_by_name :: "block list \<Rightarrow> string \<Rightarrow> block option" where
  "block_get_by_name [] name = None"
| "block_get_by_name (b # bs) name = (if name = bname b then Some b else block_get_by_name bs name)"

definition block_ok :: "block \<Rightarrow> bool" where
  "block_ok b \<longleftrightarrow> btype b \<noteq> BLOCK_FOREIGN \<and> (\<forall>s < bsize b. length (medium b s) = BLOCK_SECTOR_SIZE)"

lemma bind_check_sector [simp]:
  "Option.bind (check_sector b s) f = (if s < bsize b then f () else None)"
  by (simp add: check_sector_def)

lemma block_read_ok:
  "s < bsize b \<Longrightarrow> block_read b s = Some (medium b s, b\<lparr>read_cnt := read_cnt b + 1\<rparr>)"
  by (simp add: block_read_def Let_def)

lemma block_write_ok:
  "s < bsize b \<Longrightarrow> btype b \<noteq> BLOCK_FOREIGN \<Longrightarrow>
   block_write b s d = Some (b\<lparr>medium := (medium b)(s := d), write_cnt := write_cnt b + 1\<rparr>)"
  by (simp add: block_write_def Let_def)

lemma block_past_end: "bsize b \<le> s \<Longrightarrow> block_read b s = None \<and> block_write b s d = None"
  by (simp add: block_read_def block_write_def)

section \<open>The interface of a store of sectors\<close>

fun apply_writes :: "(nat \<times> 'd) list \<Rightarrow> (nat \<Rightarrow> 'd) \<Rightarrow> nat \<Rightarrow> 'd" where
  "apply_writes [] v = v"
| "apply_writes ((s, d) # ws) v = apply_writes ws (v(s := d))"

lemma apply_writes_cong: "f t = g t \<Longrightarrow> apply_writes ws f t = apply_writes ws g t"
proof (induction ws arbitrary: f g)
  case (Cons w ws)
  then have "(f(fst w := snd w)) t = (g(fst w := snd w)) t" by simp
  note eq = Cons.IH [where f = "f(fst w := snd w)" and g = "g(fst w := snd w)", OF this]
  obtain x y where "w = (x, y)" by (cases w)
  with eq show ?case by (simp add: fun_upd_def)
qed simp

fun write_all :: "('s \<Rightarrow> nat \<Rightarrow> byte list \<Rightarrow> 's option) \<Rightarrow> 's \<Rightarrow> (nat \<times> byte list) list \<Rightarrow> 's option" where
  "write_all wr c [] = Some c"
| "write_all wr c ((s, d) # ws) = do { c \<leftarrow> wr c s d; write_all wr c ws }"

locale block_store =
  fixes rd :: "'s \<Rightarrow> nat \<Rightarrow> (byte list \<times> 's) option"
    and wr :: "'s \<Rightarrow> nat \<Rightarrow> byte list \<Rightarrow> 's option"
    and view :: "'s \<Rightarrow> nat \<Rightarrow> byte list"
    and size :: "'s \<Rightarrow> nat"
    and ok :: "'s \<Rightarrow> bool"
  assumes rd: "ok c \<Longrightarrow> s < size c \<Longrightarrow>
      \<exists>c'. rd c s = Some (view c s, c') \<and> ok c' \<and> size c' = size c \<and> (\<forall>t. view c' t = view c t)"
    and wr: "ok c \<Longrightarrow> s < size c \<Longrightarrow> length d = BLOCK_SECTOR_SIZE \<Longrightarrow>
      \<exists>c'. wr c s d = Some c' \<and> ok c' \<and> size c' = size c \<and>
        (\<forall>t. view c' t = (if t = s then d else view c t))"
    and len: "ok c \<Longrightarrow> s < size c \<Longrightarrow> length (view c s) = BLOCK_SECTOR_SIZE"
    and past_end: "ok c \<Longrightarrow> size c \<le> s \<Longrightarrow> rd c s = None \<and> wr c s d = None"
begin

text \<open>A sector just written is read back, whatever was done to the others in between.\<close>

lemma read_after_write:
  assumes "ok c" "s < size c" "length d = BLOCK_SECTOR_SIZE" "wr c s d = Some c'"
  shows "\<exists>c''. rd c' s = Some (d, c'')"
proof -
  from wr [OF assms(1-3)] assms(4) have "ok c'" "s < size c'" "view c' s = d" using assms(2) by auto
  then show ?thesis using rd [of c' s] by auto
qed

lemma write_all_view:
  assumes "ok c" "\<forall>(s, d) \<in> set ws. s < size c \<and> length d = BLOCK_SECTOR_SIZE"
  shows "\<exists>c'. write_all wr c ws = Some c' \<and> ok c' \<and> size c' = size c \<and>
    (\<forall>t. view c' t = apply_writes ws (view c) t)"
  using assms
proof (induction ws arbitrary: c)
  case (Cons w ws)
  obtain s d where w: "w = (s, d)" by (cases w)
  from wr [of c s d] Cons.prems w obtain c1 where
    c1: "wr c s d = Some c1" "ok c1" "size c1 = size c"
    "\<forall>t. view c1 t = (if t = s then d else view c t)" by auto
  from Cons.IH [OF c1(2)] Cons.prems c1(3) obtain c' where
    c': "write_all wr c1 ws = Some c'" "ok c'" "size c' = size c1"
    "\<forall>t. view c' t = apply_writes ws (view c1) t" by auto
  have "view c' t = apply_writes (w # ws) (view c) t" for t
    using c'(4) c1(4) w apply_writes_cong [of "view c1" t "(view c)(s := d)" ws] by simp
  with c1 c' w show ?case by simp
qed simp

end

interpretation dev: block_store block_read block_write medium bsize block_ok
  by unfold_locales (auto simp: block_read_ok block_write_ok block_past_end block_ok_def)

end
