(* ===== verification/Cache.thy ===== *)
theory Cache
  imports Block
begin

text \<open>
  \<^verbatim>\<open>filesys/cache.c\<close>: 64 write-back buffers in front of the file system device, evicted by
  the clock algorithm. The static variables (\<open>cache\<close>, the \<open>clock\<close> hand of
  \<^verbatim>\<open>buffer_cache_evict\<close>) and the device are the record \<open>bcache\<close>. Every operation runs
  from beginning to end under \<^verbatim>\<open>buffer_cache_lock\<close>, so each is one step here.
  \<open>cview\<close> is what a reader of the file system sees: the buffered sector if there is one,
  else the sector on the device. The theorems: reads and writes act on \<open>cview\<close> as on a flat
  array of sectors, the clock loop always finds a victim, and closing the cache leaves
  \<open>cview\<close> on the device.
\<close>

section \<open>Operations\<close>

definition BUFFER_CACHE_SIZE :: nat where "BUFFER_CACHE_SIZE = 64"

record cache_entry =
  occupied :: bool
  disk_sector :: nat
  buffer :: "byte list"
  dirty :: bool
  accessed :: bool

record bcache =
  cache :: "cache_entry list"
  clock :: nat
  device :: block

definition upd_entry :: "nat \<Rightarrow> (cache_entry \<Rightarrow> cache_entry) \<Rightarrow> bcache \<Rightarrow> bcache" where
  "upd_entry i f c = c\<lparr>cache := (cache c)[i := f (cache c ! i)]\<rparr>"

definition buffer_cache_init :: "bcache \<Rightarrow> bcache" where
  "buffer_cache_init c = c\<lparr>cache := map (\<lambda>e. e\<lparr>occupied := False\<rparr>) (cache c)\<rparr>"

definition buffer_cache_flush :: "nat \<Rightarrow> bcache \<Rightarrow> bcache option" where
  "buffer_cache_flush i c = do {
     let entry = cache c ! i;
     ASSERT (occupied entry);
     if dirty entry then do {
       dev \<leftarrow> block_write (device c) (disk_sector entry) (buffer entry);
       Some (upd_entry i (\<lambda>e. e\<lparr>dirty := False\<rparr>) (c\<lparr>device := dev\<rparr>)) }
     else Some c }"

fun close_loop :: "nat list \<Rightarrow> bcache \<Rightarrow> bcache option" where
  "close_loop [] c = Some c"
| "close_loop (i # is) c =
     (if \<not> occupied (cache c ! i) then close_loop is c
      else do { c \<leftarrow> buffer_cache_flush i c; close_loop is c })"

definition buffer_cache_close :: "bcache \<Rightarrow> bcache option" where
  "buffer_cache_close c = close_loop [0..<BUFFER_CACHE_SIZE] c"

fun lookup_loop :: "bcache \<Rightarrow> nat \<Rightarrow> nat list \<Rightarrow> nat option" where
  "lookup_loop c sector [] = None"
| "lookup_loop c sector (i # is) =
     (if \<not> occupied (cache c ! i) then lookup_loop c sector is
      else if disk_sector (cache c ! i) = sector then Some i
      else lookup_loop c sector is)"

definition buffer_cache_lookup :: "nat \<Rightarrow> bcache \<Rightarrow> nat option" where
  "buffer_cache_lookup sector c = lookup_loop c sector [0..<BUFFER_CACHE_SIZE]"

text \<open>The clock loop: the slot it stops at, and whether that slot was free.\<close>

partial_function (option) clock_loop :: "bcache \<Rightarrow> (bool \<times> bcache) option" where
  [code]: "clock_loop c =
     (if \<not> occupied (cache c ! clock c) then Some (True, c)
      else if accessed (cache c ! clock c)
      then clock_loop ((upd_entry (clock c) (\<lambda>e. e\<lparr>accessed := False\<rparr>) c)
             \<lparr>clock := (clock c + 1) mod BUFFER_CACHE_SIZE\<rparr>)
      else Some (False, c))"

definition buffer_cache_evict :: "bcache \<Rightarrow> (nat \<times> bcache) option" where
  "buffer_cache_evict c = do {
     (empty, c) \<leftarrow> clock_loop c;
     if empty then Some (clock c, c)
     else do {
       let slot = clock c;
       c \<leftarrow> (if dirty (cache c ! slot) then buffer_cache_flush slot c else Some c);
       Some (slot, upd_entry slot (\<lambda>e. e\<lparr>occupied := False\<rparr>) c) } }"

text \<open>The common part of the two accesses: the slot of the sector, loaded on a miss.\<close>

definition load_slot :: "nat \<Rightarrow> bcache \<Rightarrow> (nat \<times> bcache) option" where
  "load_slot sector c =
     (case buffer_cache_lookup sector c of
        Some slot \<Rightarrow> Some (slot, c)
      | None \<Rightarrow> do {
          (slot, c) \<leftarrow> buffer_cache_evict c;
          ASSERT (\<not> occupied (cache c ! slot));
          let c = upd_entry slot (\<lambda>e. e\<lparr>occupied := True, disk_sector := sector, dirty := False\<rparr>) c;
          (buf, dev) \<leftarrow> block_read (device c) sector;
          Some (slot, upd_entry slot (\<lambda>e. e\<lparr>buffer := buf\<rparr>) (c\<lparr>device := dev\<rparr>)) })"

definition buffer_cache_read :: "bcache \<Rightarrow> nat \<Rightarrow> (byte list \<times> bcache) option" where
  "buffer_cache_read c sector = do {
     (slot, c) \<leftarrow> load_slot sector c;
     let c = upd_entry slot (\<lambda>e. e\<lparr>accessed := True\<rparr>) c;
     Some (buffer (cache c ! slot), c) }"

definition buffer_cache_write :: "bcache \<Rightarrow> nat \<Rightarrow> byte list \<Rightarrow> bcache option" where
  "buffer_cache_write c sector source = do {
     (slot, c) \<leftarrow> load_slot sector c;
     Some (upd_entry slot (\<lambda>e. e\<lparr>accessed := True, dirty := True, buffer := source\<rparr>) c) }"

section \<open>The view and the invariant\<close>

definition holds :: "bcache \<Rightarrow> nat \<Rightarrow> nat \<Rightarrow> bool" where
  "holds c i s \<longleftrightarrow> i < length (cache c) \<and> occupied (cache c ! i) \<and> disk_sector (cache c ! i) = s"

definition cview :: "bcache \<Rightarrow> nat \<Rightarrow> byte list" where
  "cview c s = (case buffer_cache_lookup s c of
     Some i \<Rightarrow> buffer (cache c ! i) | None \<Rightarrow> medium (device c) s)"

definition cache_ok :: "bcache \<Rightarrow> bool" where
  "cache_ok c \<longleftrightarrow> length (cache c) = BUFFER_CACHE_SIZE \<and> clock c < BUFFER_CACHE_SIZE \<and>
     block_ok (device c) \<and>
     (\<forall>i s. holds c i s \<longrightarrow> s < bsize (device c) \<and> length (buffer (cache c ! i)) = BLOCK_SECTOR_SIZE \<and>
        (\<not> dirty (cache c ! i) \<longrightarrow> buffer (cache c ! i) = medium (device c) s)) \<and>
     (\<forall>i j s. holds c i s \<and> holds c j s \<longrightarrow> i = j)"

definition csize :: "bcache \<Rightarrow> nat" where
  "csize c = bsize (device c)"

lemma lookup_loop_Some:
  "lookup_loop c s is = Some i \<Longrightarrow> i \<in> set is \<and> occupied (cache c ! i) \<and> disk_sector (cache c ! i) = s"
  by (induction "is") (auto split: if_splits)

lemma lookup_loop_None:
  "lookup_loop c s is = None \<longleftrightarrow> (\<forall>i \<in> set is. \<not> (occupied (cache c ! i) \<and> disk_sector (cache c ! i) = s))"
  by (induction "is") auto

lemma lookup_Some: "length (cache c) = BUFFER_CACHE_SIZE \<Longrightarrow> buffer_cache_lookup s c = Some i \<Longrightarrow> holds c i s"
  using lookup_loop_Some [of c s "[0..<BUFFER_CACHE_SIZE]" i] by (auto simp: buffer_cache_lookup_def holds_def)

lemma lookup_None:
  "length (cache c) = BUFFER_CACHE_SIZE \<Longrightarrow> buffer_cache_lookup s c = None \<longleftrightarrow> (\<forall>i. \<not> holds c i s)"
  by (auto simp: buffer_cache_lookup_def lookup_loop_None holds_def)

lemma lookup_holds: "cache_ok c \<Longrightarrow> holds c i s \<Longrightarrow> buffer_cache_lookup s c = Some i"
proof (cases "buffer_cache_lookup s c")
  case None
  assume "cache_ok c" "holds c i s"
  with None show ?thesis using lookup_None [of c s] by (auto simp: cache_ok_def)
next
  case (Some j)
  assume "cache_ok c" "holds c i s"
  moreover from this Some have "holds c j s" using lookup_Some [of c s j] by (simp add: cache_ok_def)
  ultimately have "j = i" unfolding cache_ok_def by blast
  with Some show ?thesis by simp
qed

lemma cview_holds: "cache_ok c \<Longrightarrow> holds c i s \<Longrightarrow> cview c s = buffer (cache c ! i)"
  by (simp add: cview_def lookup_holds)

lemma cview_not_held: "cache_ok c \<Longrightarrow> \<forall>i. \<not> holds c i s \<Longrightarrow> cview c s = medium (device c) s"
  using lookup_None [of c s] by (simp add: cview_def cache_ok_def)

text \<open>Two states that differ in the clock hand, the reference bits and the statistics only.\<close>

definition csame :: "bcache \<Rightarrow> bcache \<Rightarrow> bool" where
  "csame c c' \<longleftrightarrow> length (cache c') = length (cache c) \<and> device c' = device c \<and>
     (\<forall>i < length (cache c). occupied (cache c' ! i) = occupied (cache c ! i) \<and>
        disk_sector (cache c' ! i) = disk_sector (cache c ! i) \<and>
        buffer (cache c' ! i) = buffer (cache c ! i) \<and> dirty (cache c' ! i) = dirty (cache c ! i))"

lemma csame_holds: "csame c c' \<Longrightarrow> holds c' i s = holds c i s"
  by (auto simp: csame_def holds_def)

lemma cache_okI:
  assumes "length (cache c) = BUFFER_CACHE_SIZE" "clock c < BUFFER_CACHE_SIZE" "block_ok (device c)"
    and "\<And>i s. holds c i s \<Longrightarrow> s < bsize (device c) \<and> length (buffer (cache c ! i)) = BLOCK_SECTOR_SIZE \<and>
        (\<not> dirty (cache c ! i) \<longrightarrow> buffer (cache c ! i) = medium (device c) s)"
    and "\<And>i j s. holds c i s \<Longrightarrow> holds c j s \<Longrightarrow> i = j"
  shows "cache_ok c"
  unfolding cache_ok_def using assms by blast

lemma holds_ok:
  assumes "cache_ok c" "holds c i s"
  shows "i < length (cache c)" "i < BUFFER_CACHE_SIZE" "s < bsize (device c)"
    "length (buffer (cache c ! i)) = BLOCK_SECTOR_SIZE" "occupied (cache c ! i)"
    "\<not> dirty (cache c ! i) \<Longrightarrow> buffer (cache c ! i) = medium (device c) s" "disk_sector (cache c ! i) = s"
  using assms by (auto simp: cache_ok_def holds_def)

lemma holds_unique: "cache_ok c \<Longrightarrow> holds c i s \<Longrightarrow> holds c j s \<Longrightarrow> i = j"
  unfolding cache_ok_def by blast

lemma cache_ok_basic: "cache_ok c \<Longrightarrow> length (cache c) = BUFFER_CACHE_SIZE"
  "cache_ok c \<Longrightarrow> clock c < BUFFER_CACHE_SIZE" "cache_ok c \<Longrightarrow> block_ok (device c)"
  by (simp_all add: cache_ok_def)

lemma csame_ok:
  assumes cs: "csame c c'" and ok: "cache_ok c" and k: "clock c' < BUFFER_CACHE_SIZE"
  shows "cache_ok c'"
proof (rule cache_okI)
  show "length (cache c') = BUFFER_CACHE_SIZE" "block_ok (device c')"
    using cs cache_ok_basic [OF ok] by (simp_all add: csame_def)
  fix i s assume "holds c' i s"
  then have "holds c i s" by (simp add: csame_holds [OF cs])
  from holds_ok [OF ok this] cs
  show "s < bsize (device c') \<and> length (buffer (cache c' ! i)) = BLOCK_SECTOR_SIZE \<and>
      (\<not> dirty (cache c' ! i) \<longrightarrow> buffer (cache c' ! i) = medium (device c') s)"
    by (simp add: csame_def)
next
  fix i j s assume "holds c' i s" "holds c' j s"
  then show "i = j" using holds_unique [OF ok] by (simp add: csame_holds [OF cs])
qed (rule k)

text \<open>The view of a well-formed cache is determined by what is held.\<close>

lemma cview_cong:
  assumes "cache_ok c" "cache_ok c'"
    and "\<And>i. holds c' i s \<Longrightarrow> cview c s = buffer (cache c' ! i)"
    and "(\<And>i. \<not> holds c' i s) \<Longrightarrow> cview c s = medium (device c') s"
  shows "cview c' s = cview c s"
proof (cases "\<exists>i. holds c' i s")
  case True
  then show ?thesis using assms cview_holds [OF assms(2)] by auto
next
  case False
  then show ?thesis using assms cview_not_held [OF assms(2)] by auto
qed

lemma csame_view:
  assumes cs: "csame c c'" and ok: "cache_ok c" "cache_ok c'"
  shows "cview c' s = cview c s"
proof (rule cview_cong [OF ok])
  fix i assume "holds c' i s"
  then have h: "holds c i s" by (simp add: csame_holds [OF cs])
  show "cview c s = buffer (cache c' ! i)"
    using cview_holds [OF ok(1) h] holds_ok(1) [OF ok(1) h] cs by (simp add: csame_def)
next
  assume "\<And>i. \<not> holds c' i s"
  then have "\<forall>i. \<not> holds c i s" by (simp add: csame_holds [OF cs])
  with cview_not_held [OF ok(1) this] cs show "cview c s = medium (device c') s" by (simp add: csame_def)
qed

lemma cache_upd_entry [simp]:
  "cache (upd_entry i f c) = (cache c)[i := f (cache c ! i)]"
  "clock (upd_entry i f c) = clock c" "device (upd_entry i f c) = device c"
  by (simp_all add: upd_entry_def)

lemma flush_ok:
  assumes ok: "cache_ok c" and h: "holds c i s"
  shows "\<exists>c'. buffer_cache_flush i c = Some c' \<and> cache_ok c' \<and> (\<forall>t. cview c' t = cview c t) \<and>
    csize c' = csize c \<and> clock c' = clock c \<and> (\<forall>j t. holds c' j t = holds c j t) \<and>
    \<not> dirty (cache c' ! i) \<and> (\<forall>j. j \<noteq> i \<longrightarrow> cache c' ! j = cache c ! j)"
proof (cases "dirty (cache c ! i)")
  case False
  then show ?thesis using ok h by (simp add: buffer_cache_flush_def holds_def)
next
  case True
  note hs = holds_ok [OF ok h]
  have f: "btype (device c) \<noteq> BLOCK_FOREIGN" using ok by (simp add: cache_ok_def block_ok_def)
  let ?dev = "device c\<lparr>medium := (medium (device c))(s := buffer (cache c ! i)), write_cnt := write_cnt (device c) + 1\<rparr>"
  let ?c = "upd_entry i (\<lambda>e. e\<lparr>dirty := False\<rparr>) (c\<lparr>device := ?dev\<rparr>)"
  have fl: "buffer_cache_flush i c = Some ?c"
    using True hs block_write_ok [OF hs(3) f] by (simp add: buffer_cache_flush_def)
  have hold: "holds ?c j t = holds c j t" for j t
    by (cases "j = i") (auto simp: holds_def nth_list_update)
  have ok': "cache_ok ?c"
  proof (rule cache_okI)
    show "block_ok (device ?c)" using ok hs(4) by (auto simp: cache_ok_def block_ok_def)
    fix j t assume "holds ?c j t"
    then have j: "holds c j t" by (simp only: hold)
    show "t < bsize (device ?c) \<and> length (buffer (cache ?c ! j)) = BLOCK_SECTOR_SIZE \<and>
        (\<not> dirty (cache ?c ! j) \<longrightarrow> buffer (cache ?c ! j) = medium (device ?c) t)"
    proof (cases "j = i")
      case True
      then have "t = s" using j h by (simp add: holds_def)
      then show ?thesis using True hs by simp
    next
      case False
      then have "t \<noteq> s" using holds_unique [OF ok j] h by auto
      then show ?thesis using False holds_ok [OF ok j] by simp
    qed
  next
    fix j k t assume "holds ?c j t" "holds ?c k t"
    then have "holds c j t" "holds c k t" by (simp_all only: hold)
    then show "j = k" by (rule holds_unique [OF ok])
  qed (use cache_ok_basic [OF ok] in simp_all)
  have "cview ?c t = cview c t" for t
  proof (rule cview_cong [OF ok ok'])
    fix j assume "holds ?c j t"
    then have "holds c j t" by (simp only: hold)
    from cview_holds [OF ok this] show "cview c t = buffer (cache ?c ! j)"
      using hs(1) by (cases "j = i") simp_all
  next
    assume "\<And>j. \<not> holds ?c j t"
    then have n: "\<forall>j. \<not> holds c j t" by (simp only: hold) simp
    then have "t \<noteq> s" using h by blast
    with cview_not_held [OF ok n] show "cview c t = medium (device ?c) t" by simp
  qed
  with fl ok' hold hs(1) show ?thesis by (simp add: csize_def)
qed

lemma clock_loop_ok:
  assumes "cache_ok c"
  shows "\<exists>b c'. clock_loop c = Some (b, c') \<and> csame c c' \<and> clock c' < BUFFER_CACHE_SIZE \<and>
    (b \<longleftrightarrow> \<not> occupied (cache c' ! clock c'))"
  using assms
proof (induction "card {i. i < length (cache c) \<and> accessed (cache c ! i)}" arbitrary: c rule: less_induct)
  case less
  let ?k = "clock c"
  have k: "?k < length (cache c)" "?k < BUFFER_CACHE_SIZE" using less.prems by (auto simp: cache_ok_def)
  show ?case
  proof (cases "occupied (cache c ! ?k) \<and> accessed (cache c ! ?k)")
    case False
    then show ?thesis using k by (subst clock_loop.simps) (auto simp: csame_def)
  next
    case True
    let ?c = "(upd_entry ?k (\<lambda>e. e\<lparr>accessed := False\<rparr>) c)\<lparr>clock := (?k + 1) mod BUFFER_CACHE_SIZE\<rparr>"
    have cs: "csame c ?c" using k(1) by (simp add: csame_def nth_list_update)
    have clk: "clock ?c < BUFFER_CACHE_SIZE" by (simp add: BUFFER_CACHE_SIZE_def)
    have ok': "cache_ok ?c" by (rule csame_ok [OF cs less.prems clk])
    have "{i. i < length (cache ?c) \<and> accessed (cache ?c ! i)} = {i. i < length (cache c) \<and> accessed (cache c ! i)} - {?k}"
      using k by (auto simp: nth_list_update)
    moreover have "?k \<in> {i. i < length (cache c) \<and> accessed (cache c ! i)}" using k True by simp
    moreover have "finite {i. i < length (cache c) \<and> accessed (cache c ! i)}" by simp
    ultimately have "card {i. i < length (cache ?c) \<and> accessed (cache ?c ! i)} < card {i. i < length (cache c) \<and> accessed (cache c ! i)}"
      by (metis card_Diff1_less)
    from less.hyps [OF this ok'] obtain b c' where c': "clock_loop ?c = Some (b, c')" "csame ?c c'"
      "clock c' < BUFFER_CACHE_SIZE" "b \<longleftrightarrow> \<not> occupied (cache c' ! clock c')" by blast
    have "csame c c'" using cs c'(2) by (auto simp: csame_def)
    with c' True show ?thesis by (subst clock_loop.simps) simp
  qed
qed

lemma evict_ok:
  assumes ok: "cache_ok c"
  shows "\<exists>slot c'. buffer_cache_evict c = Some (slot, c') \<and> cache_ok c' \<and> slot < BUFFER_CACHE_SIZE \<and>
    \<not> occupied (cache c' ! slot) \<and> (\<forall>t. cview c' t = cview c t) \<and> csize c' = csize c \<and>
    (\<forall>j t. holds c' j t \<longrightarrow> holds c j t)"
proof -
  obtain b c1 where c1: "clock_loop c = Some (b, c1)" "csame c c1" "clock c1 < BUFFER_CACHE_SIZE"
    "b \<longleftrightarrow> \<not> occupied (cache c1 ! clock c1)" using clock_loop_ok [OF ok] by blast
  note ok1 = csame_ok [OF c1(2) ok c1(3)]
  note v1 = csame_view [OF c1(2) ok ok1]
  let ?k = "clock c1" and ?s = "disk_sector (cache c1 ! clock c1)"
  have sz: "csize c1 = csize c" using c1(2) by (simp add: csame_def csize_def)
  show ?thesis
  proof (cases "occupied (cache c1 ! ?k)")
    case False
    then show ?thesis using c1 ok1 v1 sz by (auto simp: buffer_cache_evict_def csame_holds)
  next
    case True
    then have h: "holds c1 ?k ?s" using ok1 c1(3) by (simp add: holds_def cache_ok_def)
    obtain c2 where c2: "(if dirty (cache c1 ! ?k) then buffer_cache_flush ?k c1 else Some c1) = Some c2"
      "cache_ok c2" "\<forall>t. cview c2 t = cview c1 t" "csize c2 = csize c1" "clock c2 = clock c1"
      "\<forall>j t. holds c2 j t = holds c1 j t" "\<not> dirty (cache c2 ! ?k)"
      using flush_ok [OF ok1 h] ok1 by (cases "dirty (cache c1 ! ?k)") auto
    let ?c = "upd_entry ?k (\<lambda>e. e\<lparr>occupied := False\<rparr>) c2"
    have ev: "buffer_cache_evict c = Some (?k, ?c)"
      using c1(1,4) True c2(1) by (simp add: buffer_cache_evict_def Let_def)
    have h2: "holds c2 ?k ?s" using h c2(6) by simp
    note hs = holds_ok [OF c2(2) h2]
    have hold: "holds ?c j t \<longleftrightarrow> j \<noteq> ?k \<and> holds c2 j t" for j t
      using hs(1) by (cases "j = ?k") (auto simp: holds_def)
    have ok': "cache_ok ?c"
    proof (rule cache_okI)
      fix j t assume "holds ?c j t"
      then show "t < bsize (device ?c) \<and> length (buffer (cache ?c ! j)) = BLOCK_SECTOR_SIZE \<and>
          (\<not> dirty (cache ?c ! j) \<longrightarrow> buffer (cache ?c ! j) = medium (device ?c) t)"
        using holds_ok [OF c2(2), of j t] by (simp add: hold)
    next
      fix i j t assume "holds ?c i t" "holds ?c j t"
      then have "holds c2 i t" "holds c2 j t" by (simp_all only: hold)
      then show "i = j" by (rule holds_unique [OF c2(2)])
    qed (use cache_ok_basic [OF c2(2)] in simp_all)
    have "cview ?c t = cview c2 t" for t
    proof (rule cview_cong [OF c2(2) ok'])
      fix j assume "holds ?c j t"
      then show "cview c2 t = buffer (cache ?c ! j)" using cview_holds [OF c2(2)] hold by simp
    next
      assume n: "\<And>j. \<not> holds ?c j t"
      show "cview c2 t = medium (device ?c) t"
      proof (cases "t = ?s")
        case True
        then show ?thesis using cview_holds [OF c2(2) h2] hs(6) c2(7) by simp
      next
        case False
        have "\<not> holds c2 j t" for j
        proof
          assume "holds c2 j t"
          with n [of j] hold have "j = ?k" by blast
          with \<open>holds c2 j t\<close> False h2 show False by (simp add: holds_def)
        qed
        then show ?thesis using cview_not_held [OF c2(2)] by simp
      qed
    qed
    moreover have "\<not> occupied (cache ?c ! ?k)" using hs(1) by simp
    moreover have "csize ?c = csize c" using c2(4) sz by (simp add: csize_def)
    moreover have "\<forall>j t. holds ?c j t \<longrightarrow> holds c j t" using hold c2(6) c1(2) by (simp add: csame_holds)
    ultimately show ?thesis using ev ok' c1(3) c2(3) v1 by auto
  qed
qed

lemma load_slot_ok:
  assumes ok: "cache_ok c" and s: "s < csize c"
  shows "\<exists>k c'. load_slot s c = Some (k, c') \<and> cache_ok c' \<and> holds c' k s \<and>
    (\<forall>t. cview c' t = cview c t) \<and> csize c' = csize c"
proof (cases "buffer_cache_lookup s c")
  case (Some i)
  then show ?thesis using ok lookup_Some [OF cache_ok_basic(1) [OF ok]] by (simp add: load_slot_def)
next
  case None
  then have nh: "\<forall>i. \<not> holds c i s" using lookup_None [OF cache_ok_basic(1) [OF ok]] by blast
  obtain k c1 where c1: "buffer_cache_evict c = Some (k, c1)" "cache_ok c1" "k < BUFFER_CACHE_SIZE"
    "\<not> occupied (cache c1 ! k)" "\<forall>t. cview c1 t = cview c t" "csize c1 = csize c"
    "\<forall>j t. holds c1 j t \<longrightarrow> holds c j t" using evict_ok [OF ok] by blast
  have s1: "s < bsize (device c1)" using s c1(6) by (simp add: csize_def)
  have nh1: "\<not> holds c1 j s" for j using nh c1(7) by blast
  have len: "k < length (cache c1)" using c1(3) cache_ok_basic(1) [OF c1(2)] by simp
  let ?c = "upd_entry k (\<lambda>e. e\<lparr>occupied := True, disk_sector := s, dirty := False,
      buffer := medium (device c1) s\<rparr>) (c1\<lparr>device := device c1\<lparr>read_cnt := read_cnt (device c1) + 1\<rparr>\<rparr>)"
  have ld: "load_slot s c = Some (k, ?c)"
    using None c1(1,4) s1 len by (simp add: load_slot_def block_read_ok Let_def upd_entry_def)
  have hold: "holds ?c j t \<longleftrightarrow> (if j = k then t = s else holds c1 j t)" for j t
    using len by (auto simp: holds_def)
  have bl: "length (medium (device c1) s) = BLOCK_SECTOR_SIZE"
    using cache_ok_basic(3) [OF c1(2)] s1 by (simp add: block_ok_def)
  have ok': "cache_ok ?c"
  proof (rule cache_okI)
    fix j t assume "holds ?c j t"
    then show "t < bsize (device ?c) \<and> length (buffer (cache ?c ! j)) = BLOCK_SECTOR_SIZE \<and>
        (\<not> dirty (cache ?c ! j) \<longrightarrow> buffer (cache ?c ! j) = medium (device ?c) t)"
      using holds_ok [OF c1(2), of j t] s1 bl len by (cases "j = k") (simp_all add: hold)
  next
    fix i j t assume "holds ?c i t" "holds ?c j t"
    then show "i = j" using holds_unique [OF c1(2), of i t j] nh1
      by (cases "i = k"; cases "j = k") (simp_all add: hold)
  qed (use cache_ok_basic [OF c1(2)] in \<open>simp_all add: block_ok_def\<close>)
  have "cview ?c t = cview c1 t" for t
  proof (rule cview_cong [OF c1(2) ok'])
    fix j assume "holds ?c j t"
    then show "cview c1 t = buffer (cache ?c ! j)"
      using cview_holds [OF c1(2), of j t] cview_not_held [OF c1(2), of s] nh1 len
      by (cases "j = k") (simp_all add: hold)
  next
    assume n: "\<And>j. \<not> holds ?c j t"
    have "\<not> holds c1 j t" for j
      using n [of j] hold [of j t] c1(4) by (cases "j = k") (auto simp: holds_def)
    then show "cview c1 t = medium (device ?c) t" using cview_not_held [OF c1(2)] by simp
  qed
  moreover have "holds ?c k s" by (simp add: hold)
  ultimately show ?thesis using ld ok' c1(5,6) by (simp add: csize_def)
qed

text \<open>Marking a held slot, with or without new contents.\<close>

lemma csame_accessed: "csame c (upd_entry k (\<lambda>e. e\<lparr>accessed := True\<rparr>) c)"
  by (cases "k < length (cache c)") (simp_all add: csame_def nth_list_update)

lemma read_ok:
  assumes ok: "cache_ok c" and s: "s < csize c"
  shows "\<exists>c'. buffer_cache_read c s = Some (cview c s, c') \<and> cache_ok c' \<and> csize c' = csize c \<and>
    (\<forall>t. cview c' t = cview c t)"
proof -
  obtain k c1 where c1: "load_slot s c = Some (k, c1)" "cache_ok c1" "holds c1 k s"
    "\<forall>t. cview c1 t = cview c t" "csize c1 = csize c" using load_slot_ok [OF assms] by blast
  let ?c = "upd_entry k (\<lambda>e. e\<lparr>accessed := True\<rparr>) c1"
  have cs: "csame c1 ?c" by (rule csame_accessed)
  have ok': "cache_ok ?c" by (rule csame_ok [OF cs c1(2)]) (use cache_ok_basic [OF c1(2)] in simp)
  have "buffer_cache_read c s = Some (cview c s, ?c)"
    using c1(1) cview_holds [OF c1(2,3)] c1(4) holds_ok(1) [OF c1(2,3)] by (simp add: buffer_cache_read_def Let_def)
  then show ?thesis using ok' csame_view [OF cs c1(2) ok'] c1(4,5) by (simp add: csize_def)
qed

lemma write_ok:
  assumes ok: "cache_ok c" and s: "s < csize c" and d: "length d = BLOCK_SECTOR_SIZE"
  shows "\<exists>c'. buffer_cache_write c s d = Some c' \<and> cache_ok c' \<and> csize c' = csize c \<and>
    (\<forall>t. cview c' t = (if t = s then d else cview c t))"
proof -
  obtain k c1 where c1: "load_slot s c = Some (k, c1)" "cache_ok c1" "holds c1 k s"
    "\<forall>t. cview c1 t = cview c t" "csize c1 = csize c" using load_slot_ok [OF ok s] by blast
  let ?c = "upd_entry k (\<lambda>e. e\<lparr>accessed := True, dirty := True, buffer := d\<rparr>) c1"
  note hs = holds_ok [OF c1(2,3)]
  have wr: "buffer_cache_write c s d = Some ?c" using c1(1) by (simp add: buffer_cache_write_def)
  have hold: "holds ?c j t = holds c1 j t" for j t
    by (cases "j = k") (auto simp: holds_def)
  have ok': "cache_ok ?c"
  proof (rule cache_okI)
    fix j t assume "holds ?c j t"
    then have "holds c1 j t" by (simp only: hold)
    from holds_ok [OF c1(2) this] show "t < bsize (device ?c) \<and> length (buffer (cache ?c ! j)) = BLOCK_SECTOR_SIZE \<and>
        (\<not> dirty (cache ?c ! j) \<longrightarrow> buffer (cache ?c ! j) = medium (device ?c) t)"
      using d hs(1) by (cases "j = k") simp_all
  next
    fix i j t assume "holds ?c i t" "holds ?c j t"
    then have "holds c1 i t" "holds c1 j t" by (simp_all only: hold)
    then show "i = j" by (rule holds_unique [OF c1(2)])
  qed (use cache_ok_basic [OF c1(2)] in simp_all)
  have "cview ?c t = (if t = s then d else cview c1 t)" for t
  proof (cases "\<exists>j. holds c1 j t")
    case True
    then obtain j where j: "holds c1 j t" by blast
    then have h: "holds ?c j t" by (simp only: hold)
    have "t = s \<longleftrightarrow> j = k"
      using j c1(3) holds_unique [OF c1(2), of j s k] hs(7) holds_ok(7) [OF c1(2) j] by blast
    then show ?thesis using cview_holds [OF ok' h] cview_holds [OF c1(2) j] hs(1) by simp
  next
    case False
    then have "\<forall>j. \<not> holds ?c j t" by (simp only: hold) simp
    moreover have "t \<noteq> s" using False c1(3) by blast
    ultimately show ?thesis using cview_not_held [OF ok'] cview_not_held [OF c1(2)] False by simp
  qed
  with wr ok' c1(4,5) show ?thesis by (simp add: csize_def)
qed

lemma access_past_end:
  assumes ok: "cache_ok c" and s: "csize c \<le> s"
  shows "load_slot s c = None"
proof -
  have nh: "\<not> holds c i s" for i using holds_ok(3) [OF ok, of i s] s by (auto simp: csize_def)
  then have "buffer_cache_lookup s c = None" using lookup_None [OF cache_ok_basic(1) [OF ok]] by blast
  moreover obtain k c1 where c1: "buffer_cache_evict c = Some (k, c1)" "csize c1 = csize c"
    "\<not> occupied (cache c1 ! k)" using evict_ok [OF ok] by blast
  ultimately show ?thesis using s block_past_end [of "device c1" s]
    by (simp add: load_slot_def csize_def Let_def)
qed

section \<open>Initialisation and closing\<close>

lemma init_ok:
  assumes "length (cache c) = BUFFER_CACHE_SIZE" "clock c < BUFFER_CACHE_SIZE" "block_ok (device c)"
  shows "cache_ok (buffer_cache_init c) \<and> cview (buffer_cache_init c) s = medium (device c) s"
proof -
  have nh: "\<not> holds (buffer_cache_init c) i t" for i t by (auto simp: buffer_cache_init_def holds_def)
  have ok: "cache_ok (buffer_cache_init c)"
    by (rule cache_okI) (use assms nh in \<open>auto simp: buffer_cache_init_def\<close>)
  with cview_not_held [OF ok] nh show ?thesis by (simp add: buffer_cache_init_def)
qed

lemma close_loop_ok:
  assumes "cache_ok c" "set is \<subseteq> {..<BUFFER_CACHE_SIZE}"
  shows "\<exists>c'. close_loop is c = Some c' \<and> cache_ok c' \<and> csize c' = csize c \<and> (\<forall>t. cview c' t = cview c t) \<and>
    (\<forall>i t. holds c' i t = holds c i t) \<and>
    (\<forall>i t. holds c i t \<and> (i \<in> set is \<or> \<not> dirty (cache c ! i)) \<longrightarrow> \<not> dirty (cache c' ! i))"
  using assms
proof (induction "is" arbitrary: c)
  case (Cons k "is")
  have k: "k < length (cache c)" using Cons.prems cache_ok_basic(1) [OF Cons.prems(1)] by simp
  show ?case
  proof (cases "occupied (cache c ! k)")
    case False
    then have "\<not> holds c k t" for t by (simp add: holds_def)
    with False Cons.IH [OF Cons.prems(1)] Cons.prems(2) show ?thesis by fastforce
  next
    case True
    then have h: "holds c k (disk_sector (cache c ! k))" using k by (simp add: holds_def)
    obtain c1 where c1: "buffer_cache_flush k c = Some c1" "cache_ok c1" "\<forall>t. cview c1 t = cview c t"
      "csize c1 = csize c" "\<forall>j t. holds c1 j t = holds c j t" "\<not> dirty (cache c1 ! k)"
      "\<forall>j. j \<noteq> k \<longrightarrow> cache c1 ! j = cache c ! j" using flush_ok [OF Cons.prems(1) h] by blast
    obtain c2 where c2: "close_loop is c1 = Some c2" "cache_ok c2" "csize c2 = csize c1"
      "\<forall>t. cview c2 t = cview c1 t" "\<forall>i t. holds c2 i t = holds c1 i t"
      "\<forall>i t. holds c1 i t \<and> (i \<in> set is \<or> \<not> dirty (cache c1 ! i)) \<longrightarrow> \<not> dirty (cache c2 ! i)"
      using Cons.IH [OF c1(2)] Cons.prems(2) by auto
    have "\<forall>i t. holds c i t \<and> (i \<in> set (k # is) \<or> \<not> dirty (cache c ! i)) \<longrightarrow> \<not> dirty (cache c2 ! i)"
      using c2(6) c1(5,6,7) by (metis set_ConsD)
    with c1 c2 True show ?thesis by simp
  qed
qed auto

lemma close_ok:
  assumes "cache_ok c"
  shows "\<exists>c'. buffer_cache_close c = Some c' \<and> cache_ok c' \<and> csize c' = csize c \<and>
    (\<forall>t. medium (device c') t = cview c t)"
proof -
  obtain c' where c': "buffer_cache_close c = Some c'" "cache_ok c'" "csize c' = csize c"
    "\<forall>t. cview c' t = cview c t" "\<forall>i t. holds c' i t = holds c i t"
    "\<forall>i t. holds c i t \<and> i \<in> {..<BUFFER_CACHE_SIZE} \<longrightarrow> \<not> dirty (cache c' ! i)"
    using close_loop_ok [OF assms, of "[0..<BUFFER_CACHE_SIZE]"]
    by (auto simp: buffer_cache_close_def atLeast0LessThan)
  have "medium (device c') t = cview c' t" for t
  proof (cases "\<exists>i. holds c' i t")
    case True
    then obtain i where i: "holds c' i t" by blast
    then have "\<not> dirty (cache c' ! i)" using c'(5,6) holds_ok(2) [OF c'(2) i] by auto
    then show ?thesis using holds_ok(6) [OF c'(2) i] cview_holds [OF c'(2) i] by simp
  next
    case False
    then show ?thesis using cview_not_held [OF c'(2)] by simp
  qed
  with c' show ?thesis by auto
qed

section \<open>The cache is a store of sectors\<close>

lemma cview_length:
  assumes "cache_ok c" "s < csize c" shows "length (cview c s) = BLOCK_SECTOR_SIZE"
proof (cases "\<exists>i. holds c i s")
  case True
  then show ?thesis using assms cview_holds holds_ok(4) by metis
next
  case False
  then show ?thesis using assms cview_not_held [OF assms(1)] cache_ok_basic(3) [OF assms(1)]
    by (simp add: block_ok_def csize_def)
qed

interpretation bc: block_store buffer_cache_read buffer_cache_write cview csize cache_ok
proof (unfold_locales, goal_cases)
  case (1 c s) then show ?case using read_ok [of c s] by fastforce
next
  case (2 c s d) then show ?case using write_ok [of c s d] by fastforce
next
  case (3 c s) then show ?case by (rule cview_length)
next
  case (4 c s d) then show ?case
    using access_past_end [of c s] by (simp add: buffer_cache_read_def buffer_cache_write_def)
qed

end
