(* ===== verification/Bitmap.thy ===== *)
theory Bitmap
  imports Prelude
begin

text \<open>
  \<^verbatim>\<open>lib/kernel/bitmap.c\<close>: a bitmap is a bit count and an array of 32-bit elements. The
  array is a list; an access outside it (\<open>bitmap_mark\<close>, \<open>bitmap_reset\<close> and \<open>bitmap_flip\<close>
  do not check their index) has no defined effect in C and is \<open>None\<close> here, as is a failed
  \<open>ASSERT\<close>. Sizes are \<open>size_t\<close>, 32 bits: \<open>start + cnt\<close> and the rounding in \<open>elem_cnt\<close> wrap.
  The abstraction is \<open>bmap\<close>, the predicate of the set bits.
\<close>

section \<open>Operations\<close>

record bitmap =
  bit_cnt :: nat
  bits :: "u32 list"

abbreviation ELEM_BITS :: nat where "ELEM_BITS \<equiv> 32"

definition SIZE_MOD :: nat where "SIZE_MOD = 2 ^ 32"

definition BITMAP_ERROR :: nat where "BITMAP_ERROR = 2 ^ 32 - 1"

definition size_add :: "nat \<Rightarrow> nat \<Rightarrow> nat" where
  "size_add a b = (a + b) mod SIZE_MOD"

definition elem_idx :: "nat \<Rightarrow> nat" where
  "elem_idx bit_idx = bit_idx div ELEM_BITS"

definition bit_mask :: "nat \<Rightarrow> u32" where
  "bit_mask bit_idx = push_bit (bit_idx mod ELEM_BITS) 1"

definition elem_cnt :: "nat \<Rightarrow> nat" where
  "elem_cnt n = size_add n (ELEM_BITS - 1) div ELEM_BITS"

definition byte_cnt :: "nat \<Rightarrow> nat" where
  "byte_cnt n = 4 * elem_cnt n"

definition last_mask :: "bitmap \<Rightarrow> u32" where
  "last_mask b = (let last_bits = bit_cnt b mod ELEM_BITS
     in if last_bits \<noteq> 0 then push_bit last_bits 1 - 1 else - 1)"

definition bitmap_size :: "bitmap \<Rightarrow> nat" where
  "bitmap_size b = bit_cnt b"

definition bitmap_mark :: "bitmap \<Rightarrow> nat \<Rightarrow> bitmap option" where
  "bitmap_mark b bit_idx = (let idx = elem_idx bit_idx; mask = bit_mask bit_idx in
     if idx < length (bits b) then Some (b\<lparr>bits := (bits b)[idx := bits b ! idx OR mask]\<rparr>) else None)"

definition bitmap_reset :: "bitmap \<Rightarrow> nat \<Rightarrow> bitmap option" where
  "bitmap_reset b bit_idx = (let idx = elem_idx bit_idx; mask = bit_mask bit_idx in
     if idx < length (bits b) then Some (b\<lparr>bits := (bits b)[idx := bits b ! idx AND NOT mask]\<rparr>) else None)"

definition bitmap_flip :: "bitmap \<Rightarrow> nat \<Rightarrow> bitmap option" where
  "bitmap_flip b bit_idx = (let idx = elem_idx bit_idx; mask = bit_mask bit_idx in
     if idx < length (bits b) then Some (b\<lparr>bits := (bits b)[idx := bits b ! idx XOR mask]\<rparr>) else None)"

definition bitmap_set :: "bitmap \<Rightarrow> nat \<Rightarrow> bool \<Rightarrow> bitmap option" where
  "bitmap_set b idx value = do {
     ASSERT (idx < bit_cnt b);
     if value then bitmap_mark b idx else bitmap_reset b idx }"

definition bitmap_test :: "bitmap \<Rightarrow> nat \<Rightarrow> bool option" where
  "bitmap_test b idx = do {
     ASSERT (idx < bit_cnt b);
     if elem_idx idx < length (bits b)
     then Some (bits b ! elem_idx idx AND bit_mask idx \<noteq> 0) else None }"

fun set_multiple_loop :: "bitmap \<Rightarrow> nat \<Rightarrow> nat \<Rightarrow> bool \<Rightarrow> bitmap option" where
  "set_multiple_loop b i 0 value = Some b"
| "set_multiple_loop b i (Suc n) value = do {
     b \<leftarrow> bitmap_set b i value; set_multiple_loop b (Suc i) n value }"

definition bitmap_set_multiple :: "bitmap \<Rightarrow> nat \<Rightarrow> nat \<Rightarrow> bool \<Rightarrow> bitmap option" where
  "bitmap_set_multiple b start cnt value = do {
     ASSERT (start \<le> bit_cnt b);
     ASSERT (size_add start cnt \<le> bit_cnt b);
     set_multiple_loop b start cnt value }"

definition bitmap_set_all :: "bitmap \<Rightarrow> bool \<Rightarrow> bitmap option" where
  "bitmap_set_all b value = bitmap_set_multiple b 0 (bitmap_size b) value"

text \<open>
  \<open>malloc\<close> is a parameter of the two allocations: whether the header was obtained, and the
  (arbitrary) contents of the block of elements if that was.
\<close>

definition bitmap_create :: "bool \<Rightarrow> u32 list option \<Rightarrow> nat \<Rightarrow> bitmap option option" where
  "bitmap_create hdr blk n =
     (if hdr then
        (if blk \<noteq> None \<or> n = 0
         then map_option Some (bitmap_set_all \<lparr>bit_cnt = n, bits = (case blk of None \<Rightarrow> [] | Some w \<Rightarrow> w)\<rparr> False)
         else Some None)
      else Some None)"

definition bitmap_buf_size :: "nat \<Rightarrow> nat" where
  "bitmap_buf_size n = size_add 8 (byte_cnt n)"

text \<open>In a preallocated block; \<open>blk\<close> is what lies behind the header there.\<close>

definition bitmap_create_in_buf :: "nat \<Rightarrow> u32 list \<Rightarrow> nat \<Rightarrow> bitmap option" where
  "bitmap_create_in_buf n blk block_size = do {
     ASSERT (bitmap_buf_size n \<le> block_size);
     bitmap_set_all \<lparr>bit_cnt = n, bits = blk\<rparr> False }"

fun count_loop :: "bitmap \<Rightarrow> nat \<Rightarrow> nat \<Rightarrow> bool \<Rightarrow> nat \<Rightarrow> nat option" where
  "count_loop b i 0 value value_cnt = Some value_cnt"
| "count_loop b i (Suc n) value value_cnt = do {
     t \<leftarrow> bitmap_test b i;
     count_loop b (Suc i) n value (if t = value then value_cnt + 1 else value_cnt) }"

definition bitmap_count :: "bitmap \<Rightarrow> nat \<Rightarrow> nat \<Rightarrow> bool \<Rightarrow> nat option" where
  "bitmap_count b start cnt value = do {
     ASSERT (start \<le> bit_cnt b);
     ASSERT (size_add start cnt \<le> bit_cnt b);
     count_loop b start cnt value 0 }"

fun contains_loop :: "bitmap \<Rightarrow> nat \<Rightarrow> nat \<Rightarrow> bool \<Rightarrow> bool option" where
  "contains_loop b i 0 value = Some False"
| "contains_loop b i (Suc n) value = do {
     t \<leftarrow> bitmap_test b i;
     if t = value then Some True else contains_loop b (Suc i) n value }"

definition bitmap_contains :: "bitmap \<Rightarrow> nat \<Rightarrow> nat \<Rightarrow> bool \<Rightarrow> bool option" where
  "bitmap_contains b start cnt value = do {
     ASSERT (start \<le> bit_cnt b);
     ASSERT (size_add start cnt \<le> bit_cnt b);
     contains_loop b start cnt value }"

definition bitmap_any :: "bitmap \<Rightarrow> nat \<Rightarrow> nat \<Rightarrow> bool option" where
  "bitmap_any b start cnt = bitmap_contains b start cnt True"

definition bitmap_none :: "bitmap \<Rightarrow> nat \<Rightarrow> nat \<Rightarrow> bool option" where
  "bitmap_none b start cnt = map_option Not (bitmap_contains b start cnt True)"

definition bitmap_all :: "bitmap \<Rightarrow> nat \<Rightarrow> nat \<Rightarrow> bool option" where
  "bitmap_all b start cnt = map_option Not (bitmap_contains b start cnt False)"

text \<open>The scan loop tries \<open>i, i + 1, \<dots>\<close> for \<open>n\<close> positions.\<close>

fun scan_loop :: "bitmap \<Rightarrow> nat \<Rightarrow> nat \<Rightarrow> nat \<Rightarrow> bool \<Rightarrow> nat option" where
  "scan_loop b i 0 cnt value = Some BITMAP_ERROR"
| "scan_loop b i (Suc n) cnt value = do {
     c \<leftarrow> bitmap_contains b i cnt (\<not> value);
     if \<not> c then Some i else scan_loop b (Suc i) n cnt value }"

definition bitmap_scan :: "bitmap \<Rightarrow> nat \<Rightarrow> nat \<Rightarrow> bool \<Rightarrow> nat option" where
  "bitmap_scan b start cnt value = do {
     ASSERT (start \<le> bit_cnt b);
     if cnt \<le> bit_cnt b then
       (let last_start = bit_cnt b - cnt in scan_loop b start (Suc last_start - start) cnt value)
     else Some BITMAP_ERROR }"

definition bitmap_scan_and_flip :: "bitmap \<Rightarrow> nat \<Rightarrow> nat \<Rightarrow> bool \<Rightarrow> (nat \<times> bitmap) option" where
  "bitmap_scan_and_flip b start cnt value = do {
     idx \<leftarrow> bitmap_scan b start cnt value;
     b \<leftarrow> (if idx \<noteq> BITMAP_ERROR then bitmap_set_multiple b idx cnt (\<not> value) else Some b);
     Some (idx, b) }"

definition bitmap_file_size :: "bitmap \<Rightarrow> nat" where
  "bitmap_file_size b = byte_cnt (bit_cnt b)"

section \<open>The bits of a bitmap\<close>

definition bm_wf :: "bitmap \<Rightarrow> bool" where
  "bm_wf b \<longleftrightarrow> bit_cnt b + 31 < SIZE_MOD \<and> length (bits b) = elem_cnt (bit_cnt b)"

definition bmap :: "bitmap \<Rightarrow> nat \<Rightarrow> bool" where
  "bmap b i \<longleftrightarrow> bit (bits b ! (i div 32)) (i mod 32)"

text \<open>The whole content as a list of booleans, for statements about ranges.\<close>

definition bools :: "bitmap \<Rightarrow> bool list" where
  "bools b = map (bmap b) [0..<bit_cnt b]"

lemma elem_cnt_eq: "n + 31 < SIZE_MOD \<Longrightarrow> elem_cnt n = (n + 31) div 32"
  by (simp add: elem_cnt_def size_add_def)

lemma wf_idx: "bm_wf b \<Longrightarrow> i < bit_cnt b \<Longrightarrow> elem_idx i < length (bits b)"
  by (auto simp: bm_wf_def elem_cnt_eq elem_idx_def)

lemma bit_mask_bit: "bit (bit_mask i) k \<longleftrightarrow> k = i mod 32"
  by (auto simp: bit_mask_def bit_exp_iff)

lemma and_bit_mask: "(w AND bit_mask i \<noteq> 0) \<longleftrightarrow> bit w (i mod 32)"
proof
  assume "bit w (i mod 32)"
  then have "bit (w AND bit_mask i) (i mod 32)" by (simp add: bit_and_iff bit_mask_bit)
  then show "w AND bit_mask i \<noteq> 0" by auto
next
  assume "w AND bit_mask i \<noteq> 0"
  then obtain k where "bit (w AND bit_mask i) k" using bit_word_eqI [of "w AND bit_mask i" 0] by auto
  then show "bit w (i mod 32)" by (auto simp: bit_and_iff bit_mask_bit)
qed

lemma div_mod_eq_iff: "(i::nat) = j \<longleftrightarrow> i div 32 = j div 32 \<and> i mod 32 = j mod 32"
  by (metis div_mult_mod_eq)

lemma mark_bmap:
  "elem_idx i < length (bits b) \<Longrightarrow>
   \<exists>b'. bitmap_mark b i = Some b' \<and> bit_cnt b' = bit_cnt b \<and> length (bits b') = length (bits b) \<and>
     (\<forall>k. bmap b' k = (k = i \<or> bmap b k))"
  using div_mod_eq_iff [of _ i]
  by (auto simp: bitmap_mark_def Let_def bmap_def elem_idx_def nth_list_update bit_or_iff bit_mask_bit)

lemma reset_bmap:
  "elem_idx i < length (bits b) \<Longrightarrow>
   \<exists>b'. bitmap_reset b i = Some b' \<and> bit_cnt b' = bit_cnt b \<and> length (bits b') = length (bits b) \<and>
     (\<forall>k. bmap b' k = (k \<noteq> i \<and> bmap b k))"
  using div_mod_eq_iff [of _ i]
  by (auto simp: bitmap_reset_def Let_def bmap_def elem_idx_def nth_list_update bit_and_iff bit_not_iff
      bit_mask_bit dest: bit_imp_le_length)

lemma flip_bmap:
  "elem_idx i < length (bits b) \<Longrightarrow>
   \<exists>b'. bitmap_flip b i = Some b' \<and> bit_cnt b' = bit_cnt b \<and> length (bits b') = length (bits b) \<and>
     (\<forall>k. bmap b' k = (if k = i then \<not> bmap b k else bmap b k))"
  using div_mod_eq_iff [of _ i]
  by (auto simp: bitmap_flip_def Let_def bmap_def elem_idx_def nth_list_update bit_xor_iff bit_mask_bit)

text \<open>\<open>bm_upd b b' S v\<close>: \<open>b'\<close> is \<open>b\<close> with the bits in \<open>S\<close> set to \<open>v\<close>.\<close>

definition bm_upd :: "bitmap \<Rightarrow> bitmap \<Rightarrow> nat set \<Rightarrow> bool \<Rightarrow> bool" where
  "bm_upd b b' S v \<longleftrightarrow> bit_cnt b' = bit_cnt b \<and> length (bits b') = length (bits b) \<and>
     (\<forall>k. bmap b' k = (if k \<in> S then v else bmap b k))"

lemma bm_upd_wf: "bm_upd b b' S v \<Longrightarrow> bm_wf b' = bm_wf b"
  by (simp add: bm_upd_def bm_wf_def)

lemma set_bmap:
  assumes "bm_wf b" "i < bit_cnt b"
  shows "\<exists>b'. bitmap_set b i v = Some b' \<and> bm_upd b b' {i} v"
  using mark_bmap [OF wf_idx [OF assms]] reset_bmap [OF wf_idx [OF assms]] assms(2)
  by (auto simp: bitmap_set_def bm_upd_def)

lemma test_bmap: "bm_wf b \<Longrightarrow> i < bit_cnt b \<Longrightarrow> bitmap_test b i = Some (bmap b i)"
  using wf_idx [of b i] by (simp add: bitmap_test_def and_bit_mask bmap_def elem_idx_def)

lemma test_panics: "bit_cnt b \<le> i \<Longrightarrow> bitmap_test b i = None"
  by (simp add: bitmap_test_def)

lemma set_multiple_loop_bmap:
  "bm_wf b \<Longrightarrow> i + n \<le> bit_cnt b \<Longrightarrow>
   \<exists>b'. set_multiple_loop b i n v = Some b' \<and> bm_upd b b' {i..<i + n} v"
proof (induction n arbitrary: b i)
  case 0
  then show ?case by (simp add: bm_upd_def)
next
  case (Suc n)
  obtain b1 where b1: "bitmap_set b i v = Some b1" "bm_upd b b1 {i} v"
    using set_bmap [of b i v] Suc.prems by auto
  have "bm_wf b1" "Suc i + n \<le> bit_cnt b1"
    using bm_upd_wf [OF b1(2)] b1(2) Suc.prems by (auto simp: bm_upd_def)
  from Suc.IH [OF this] obtain b' where
    "set_multiple_loop b1 (Suc i) n v = Some b'" "bm_upd b1 b' {Suc i..<Suc i + n} v" by blast
  with b1 show ?case by (auto simp: bm_upd_def)
qed

lemma size_add_small: "bm_wf b \<Longrightarrow> s + n \<le> bit_cnt b \<Longrightarrow> size_add s n = s + n"
  by (simp add: bm_wf_def size_add_def)

lemma set_multiple_bmap:
  "bm_wf b \<Longrightarrow> s + n \<le> bit_cnt b \<Longrightarrow>
   \<exists>b'. bitmap_set_multiple b s n v = Some b' \<and> bm_upd b b' {s..<s + n} v"
  using set_multiple_loop_bmap [of b s n v] by (simp add: bitmap_set_multiple_def size_add_small)

lemma set_all_bmap: "bm_wf b \<Longrightarrow> \<exists>b'. bitmap_set_all b v = Some b' \<and> bm_upd b b' {0..<bit_cnt b} v"
  using set_multiple_bmap [of b 0 "bit_cnt b" v] by (simp add: bitmap_set_all_def bitmap_size_def)

lemma create_bmap:
  assumes "n + 31 < SIZE_MOD" "length w = elem_cnt n"
  shows "\<exists>b. bitmap_create True (Some w) n = Some (Some b) \<and> bm_wf b \<and> bit_cnt b = n \<and>
    (\<forall>i < n. \<not> bmap b i)"
  using set_all_bmap [of "\<lparr>bit_cnt = n, bits = w\<rparr>" False] assms
    bm_upd_wf [of "\<lparr>bit_cnt = n, bits = w\<rparr>" _ "{0..<n}" False]
  by (auto simp: bitmap_create_def bm_wf_def) (auto simp: bm_upd_def)

lemma count_loop_bmap:
  "bm_wf b \<Longrightarrow> i + n \<le> bit_cnt b \<Longrightarrow>
   count_loop b i n v c = Some (c + card {k \<in> {i..<i + n}. bmap b k = v})"
proof (induction n arbitrary: i c)
  case (Suc n)
  have "{k \<in> {i..<i + Suc n}. bmap b k = v} =
      (if bmap b i = v then insert i {k \<in> {Suc i..<Suc i + n}. bmap b k = v}
       else {k \<in> {Suc i..<Suc i + n}. bmap b k = v})"
    by (auto simp: le_eq_less_or_eq)
  then show ?case using Suc by (simp add: test_bmap)
qed simp

lemma count_bmap:
  "bm_wf b \<Longrightarrow> s + n \<le> bit_cnt b \<Longrightarrow>
   bitmap_count b s n v = Some (card {k \<in> {s..<s + n}. bmap b k = v})"
  by (simp add: bitmap_count_def size_add_small count_loop_bmap)

lemma contains_loop_bmap:
  "bm_wf b \<Longrightarrow> i + n \<le> bit_cnt b \<Longrightarrow>
   contains_loop b i n v = Some (\<exists>k \<in> {i..<i + n}. bmap b k = v)"
proof (induction n arbitrary: i)
  case (Suc n)
  have "{i..<i + Suc n} = insert i {Suc i..<Suc i + n}" by auto
  then have "(\<exists>k \<in> {i..<i + Suc n}. bmap b k = v) \<longleftrightarrow>
      bmap b i = v \<or> (\<exists>k \<in> {Suc i..<Suc i + n}. bmap b k = v)"
    by (simp only: bex_simps)
  then show ?case using Suc by (simp add: test_bmap)
qed simp

lemma contains_bmap:
  "bm_wf b \<Longrightarrow> s + n \<le> bit_cnt b \<Longrightarrow>
   bitmap_contains b s n v = Some (\<exists>k \<in> {s..<s + n}. bmap b k = v)"
  by (simp add: bitmap_contains_def size_add_small contains_loop_bmap)

lemma all_bmap:
  "bm_wf b \<Longrightarrow> s + n \<le> bit_cnt b \<Longrightarrow> bitmap_all b s n = Some (\<forall>k \<in> {s..<s + n}. bmap b k)"
  by (auto simp: bitmap_all_def contains_bmap)

lemma none_bmap:
  "bm_wf b \<Longrightarrow> s + n \<le> bit_cnt b \<Longrightarrow> bitmap_none b s n = Some (\<forall>k \<in> {s..<s + n}. \<not> bmap b k)"
  by (auto simp: bitmap_none_def contains_bmap)

text \<open>A free group: \<open>n\<close> consecutive bits from \<open>i\<close> on, inside the bitmap, all equal to \<open>v\<close>.\<close>

definition bgroup :: "bitmap \<Rightarrow> nat \<Rightarrow> nat \<Rightarrow> bool \<Rightarrow> bool" where
  "bgroup b i n v \<longleftrightarrow> i + n \<le> bit_cnt b \<and> (\<forall>k \<in> {i..<i + n}. bmap b k = v)"

lemma scan_loop_bmap:
  assumes "bm_wf b" "i + m + n \<le> Suc (bit_cnt b)"
  shows "\<exists>r. scan_loop b i m n v = Some r \<and>
    (if \<exists>j \<in> {i..<i + m}. bgroup b j n v
     then r \<in> {i..<i + m} \<and> bgroup b r n v \<and> (\<forall>j \<in> {i..<r}. \<not> bgroup b j n v)
     else r = BITMAP_ERROR)"
  using assms(2)
proof (induction m arbitrary: i)
  case (Suc m)
  have c: "bitmap_contains b i n (\<not> v) = Some (\<not> bgroup b i n v)"
    using contains_bmap [OF assms(1), of i n "\<not> v"] Suc.prems by (auto simp: bgroup_def)
  have split: "{i..<i + Suc m} = insert i {Suc i..<Suc i + m}" by auto
  show ?case
  proof (cases "bgroup b i n v")
    case True
    then show ?thesis using c by auto
  next
    case False
    have sub: "{i..<r} \<subseteq> insert i {Suc i..<r}" for r by auto
    have ex: "(\<exists>j \<in> {i..<i + Suc m}. bgroup b j n v) = (\<exists>j \<in> {Suc i..<Suc i + m}. bgroup b j n v)"
      using False by (simp only: split) blast
    obtain r where r: "scan_loop b (Suc i) m n v = Some r"
      "if \<exists>j \<in> {Suc i..<Suc i + m}. bgroup b j n v
       then r \<in> {Suc i..<Suc i + m} \<and> bgroup b r n v \<and> (\<forall>j \<in> {Suc i..<r}. \<not> bgroup b j n v)
       else r = BITMAP_ERROR" using Suc.IH [of "Suc i"] Suc.prems by auto
    have l: "scan_loop b i (Suc m) n v = Some r" using c False r(1) by simp
    show ?thesis
    proof (cases "\<exists>j \<in> {Suc i..<Suc i + m}. bgroup b j n v")
      case True
      with r(2) have "r \<in> {Suc i..<Suc i + m}" "bgroup b r n v" "\<forall>j \<in> {Suc i..<r}. \<not> bgroup b j n v"
        by simp_all
      with False sub [of r] have "r \<in> {i..<i + Suc m} \<and> bgroup b r n v \<and> (\<forall>j \<in> {i..<r}. \<not> bgroup b j n v)"
        by auto
      with l True show ?thesis by (intro exI [of _ r]) (simp only: ex if_True simp_thms, blast)
    next
      case F: False
      with r(2) have "r = BITMAP_ERROR" by simp
      with l F show ?thesis by (intro exI [of _ r]) (simp only: ex if_False simp_thms)
    qed
  qed
qed simp

lemma scan_bmap:
  assumes "bm_wf b" "s \<le> bit_cnt b"
  shows "\<exists>r. bitmap_scan b s n v = Some r \<and>
    (if \<exists>j \<ge> s. bgroup b j n v
     then s \<le> r \<and> r + n \<le> bit_cnt b \<and> r \<noteq> BITMAP_ERROR \<and> bgroup b r n v \<and> (\<forall>j \<in> {s..<r}. \<not> bgroup b j n v)
     else r = BITMAP_ERROR)"
proof (cases "n \<le> bit_cnt b")
  case True
  let ?m = "Suc (bit_cnt b - n) - s"
  have bound: "bgroup b j n v \<Longrightarrow> s \<le> j \<Longrightarrow> j \<in> {s..<s + ?m}" for j
    using True by (auto simp: bgroup_def)
  show ?thesis
  proof (cases "s \<le> bit_cnt b - n")
    case s: True
    then have "s + ?m + n \<le> Suc (bit_cnt b)" using True by linarith
    from scan_loop_bmap [OF assms(1) this, of v] obtain r where
      r: "scan_loop b s ?m n v = Some r"
      "if \<exists>j \<in> {s..<s + ?m}. bgroup b j n v
       then r \<in> {s..<s + ?m} \<and> bgroup b r n v \<and> (\<forall>j \<in> {s..<r}. \<not> bgroup b j n v)
       else r = BITMAP_ERROR" by blast
    have "r \<noteq> BITMAP_ERROR" if "r < s + ?m"
      using that s True assms(1) by (auto simp: bm_wf_def BITMAP_ERROR_def SIZE_MOD_def)
    with r bound show ?thesis
      using True assms(2) by (auto simp: bitmap_scan_def bgroup_def split: if_splits)
  next
    case False
    then have "\<not> (\<exists>j \<ge> s. bgroup b j n v)" by (auto simp: bgroup_def)
    with False True assms(2) show ?thesis by (auto simp: bitmap_scan_def)
  qed
next
  case False
  then have "\<not> (\<exists>j \<ge> s. bgroup b j n v)" by (auto simp: bgroup_def)
  with False assms(2) show ?thesis by (auto simp: bitmap_scan_def)
qed

lemma scan_and_flip_bmap:
  assumes "bm_wf b" "s \<le> bit_cnt b"
  shows "\<exists>r b'. bitmap_scan_and_flip b s n v = Some (r, b') \<and>
    (if \<exists>j \<ge> s. bgroup b j n v
     then r \<noteq> BITMAP_ERROR \<and> s \<le> r \<and> bgroup b r n v \<and> (\<forall>j \<in> {s..<r}. \<not> bgroup b j n v) \<and>
          bm_upd b b' {r..<r + n} (\<not> v)
     else r = BITMAP_ERROR \<and> b' = b)"
proof (cases "\<exists>j \<ge> s. bgroup b j n v")
  case True
  with scan_bmap [OF assms, of n v] obtain r where r: "bitmap_scan b s n v = Some r"
    "s \<le> r" "r + n \<le> bit_cnt b" "r \<noteq> BITMAP_ERROR" "bgroup b r n v" "\<forall>j \<in> {s..<r}. \<not> bgroup b j n v"
    by auto
  moreover obtain b' where "bitmap_set_multiple b r n (\<not> v) = Some b'" "bm_upd b b' {r..<r + n} (\<not> v)"
    using set_multiple_bmap [OF assms(1) r(3)] by blast
  ultimately show ?thesis unfolding if_P [OF True]
    by (intro exI [of _ r] exI [of _ b']) (simp add: bitmap_scan_and_flip_def)
next
  case False
  with scan_bmap [OF assms, of n v] have "bitmap_scan b s n v = Some BITMAP_ERROR" by simp
  then show ?thesis unfolding if_not_P [OF False] by (simp add: bitmap_scan_and_flip_def)
qed

end
