(* ===== verification/Inode.thy ===== *)
theory Inode
  imports Cache Bitmap
begin

text \<open>
  \<^verbatim>\<open>filesys/inode.c\<close>: on-disk and in-memory inodes, the map from file offsets to sectors
  through 123 direct, 128 indirect and 128 * 128 doubly indirect blocks, reads, writes and
  growth.

  The state \<open>fsys\<close> is what the file system keeps in its static variables: the buffer cache,
  the free map and its file, the list of open inodes and the heap of \<^verbatim>\<open>struct inode\<close>.
  \<open>heap p = None\<close> means that \<open>p\<close> is not an allocated inode, and using it is a memory
  fault, \<open>None\<close>. Whether the k-th allocation succeeds is \<open>mem k\<close>. Sector numbers are
  natural numbers, stored on disk as 32-bit words; offsets (\<^verbatim>\<open>off_t\<close>) are integers.

  Growth allocates sectors, and allocating writes the free map file, which is an inode:
  the operations that can grow a file take the allocator as their argument \<open>alloc\<close>, and
  theory FreeMap ties the knot.
\<close>

section \<open>State\<close>

definition INODE_MAGIC :: nat where "INODE_MAGIC = 0x494e4f44"
definition DIRECT_BLOCKS_COUNT :: nat where "DIRECT_BLOCKS_COUNT = 123"
definition INDIRECT_BLOCKS_PER_SECTOR :: nat where "INDIRECT_BLOCKS_PER_SECTOR = 128"

definition NO_SECTOR :: nat where "NO_SECTOR = 2 ^ 32 - 1"

record inode_disk =
  direct_blocks :: "nat list"
  indirect_block :: nat
  doubly_indirect_block :: nat
  is_dir :: bool
  ilength :: int
  imagic :: nat

record inode =
  sector :: nat
  open_cnt :: int
  removed :: bool
  deny_write_cnt :: int
  data :: inode_disk

record open_file =
  finode :: nat
  pos :: int
  deny_write :: bool

record fsys =
  bc :: bcache
  free_map :: bitmap
  free_map_file :: "open_file option"
  open_inodes :: "nat list"
  heap :: "nat \<Rightarrow> inode option"
  mem :: "nat \<Rightarrow> bool"
  mcount :: nat

subsection \<open>The bytes of an on-disk inode\<close>

definition words_of :: "byte list \<Rightarrow> nat list" where
  "words_of b = map unat (bytes_to_words b)"

definition bytes_of :: "nat list \<Rightarrow> byte list" where
  "bytes_of ws = words_to_bytes (map of_nat ws)"

definition enc_inode :: "inode_disk \<Rightarrow> byte list" where
  "enc_inode d = words_to_bytes (map of_nat (direct_blocks d) @
     [of_nat (indirect_block d), of_nat (doubly_indirect_block d), of_bool (is_dir d),
      of_int (ilength d), of_nat (imagic d)])"

definition dec_inode :: "byte list \<Rightarrow> inode_disk" where
  "dec_inode b = (let w = bytes_to_words b in
     \<lparr>direct_blocks = map unat (take 123 w), indirect_block = unat (w ! 123),
      doubly_indirect_block = unat (w ! 124), is_dir = (w ! 125 AND 255 \<noteq> 0),
      ilength = sint (w ! 126), imagic = unat (w ! 127)\<rparr>)"

section \<open>Memory and sectors\<close>

definition bread :: "nat \<Rightarrow> fsys \<Rightarrow> (byte list \<times> fsys) option" where
  "bread s st = do { (b, c) \<leftarrow> buffer_cache_read (bc st) s; Some (b, st\<lparr>bc := c\<rparr>) }"

definition bwrite :: "nat \<Rightarrow> byte list \<Rightarrow> fsys \<Rightarrow> fsys option" where
  "bwrite s b st = do { c \<leftarrow> buffer_cache_write (bc st) s b; Some (st\<lparr>bc := c\<rparr>) }"

definition alloc_mem :: "fsys \<Rightarrow> bool \<times> fsys" where
  "alloc_mem st = (mem st (mcount st), st\<lparr>mcount := mcount st + 1\<rparr>)"

text \<open>An allocation whose result is used unchecked: a null pointer faults.\<close>

definition must_alloc :: "fsys \<Rightarrow> fsys option" where
  "must_alloc st = (let (ok, st) = alloc_mem st in if ok then Some st else None)"

definition zeros :: "byte list" where
  "zeros = replicate BLOCK_SECTOR_SIZE 0"

definition upd_inode :: "nat \<Rightarrow> (inode \<Rightarrow> inode) \<Rightarrow> fsys \<Rightarrow> fsys option" where
  "upd_inode ip f st = do { i \<leftarrow> heap st ip; Some (st\<lparr>heap := (heap st)(ip \<mapsto> f i)\<rparr>) }"

section \<open>From offsets to sectors\<close>

definition bytes_to_sectors :: "int \<Rightarrow> nat" where
  "bytes_to_sectors sz = DIV_ROUND_UP (nat sz) BLOCK_SECTOR_SIZE"

definition index_to_sector :: "inode_disk \<Rightarrow> nat \<Rightarrow> fsys \<Rightarrow> (nat \<times> fsys) option" where
  "index_to_sector d index st =
     (let limit1 = DIRECT_BLOCKS_COUNT;
          limit2 = limit1 + INDIRECT_BLOCKS_PER_SECTOR;
          limit3 = limit2 + INDIRECT_BLOCKS_PER_SECTOR * INDIRECT_BLOCKS_PER_SECTOR
      in if index < limit1 then Some (direct_blocks d ! index, st)
         else if index < limit2 then do {
           st \<leftarrow> must_alloc st;
           (b, st) \<leftarrow> bread (indirect_block d) st;
           Some (words_of b ! (index - limit1), st) }
         else if index < limit3 then do {
           let first = (index - limit2) div INDIRECT_BLOCKS_PER_SECTOR;
           let second = (index - limit2) mod INDIRECT_BLOCKS_PER_SECTOR;
           st \<leftarrow> must_alloc st;
           (b, st) \<leftarrow> bread (doubly_indirect_block d) st;
           (b, st) \<leftarrow> bread (words_of b ! first) st;
           Some (words_of b ! second, st) }
         else Some (NO_SECTOR, st))"

definition byte_to_sector :: "nat \<Rightarrow> int \<Rightarrow> fsys \<Rightarrow> (nat \<times> fsys) option" where
  "byte_to_sector ip p st = do {
     i \<leftarrow> heap st ip;
     if 0 \<le> p \<and> p < ilength (data i) then index_to_sector (data i) (nat p div BLOCK_SECTOR_SIZE) st
     else Some (NO_SECTOR, st) }"

definition inode_length :: "nat \<Rightarrow> fsys \<Rightarrow> int option" where
  "inode_length ip st = do { i \<leftarrow> heap st ip; Some (ilength (data i)) }"

section \<open>Growth\<close>

text \<open>
  The loops over the slots of a block of pointers: \<open>rsv\<close> reserves one slot and returns its
  new contents. The result is whether the loop ran to its end, the slots, and the number of
  sectors still to be reserved.
\<close>

fun reserve_loop ::
    "(nat \<Rightarrow> nat \<Rightarrow> fsys \<Rightarrow> (bool \<times> nat \<times> fsys) option) \<Rightarrow> nat \<Rightarrow> nat \<Rightarrow> nat \<Rightarrow> nat list \<Rightarrow> nat \<Rightarrow> fsys \<Rightarrow>
     (bool \<times> nat list \<times> nat \<times> fsys) option" where
  "reserve_loop rsv un i 0 blocks num st = Some (True, blocks, num, st)"
| "reserve_loop rsv un i (Suc l) blocks num st = do {
     let subsize = min num un;
     (ok, b, st) \<leftarrow> rsv (blocks ! i) subsize st;
     let blocks = blocks[i := b];
     if \<not> ok then Some (False, blocks, num, st)
     else reserve_loop rsv un (Suc i) l blocks (num - subsize) st }"

text \<open>
  A null slot gets a sector. The loop ignores whether the allocation of an indirect block
  succeeded, as \<^verbatim>\<open>inode_reserve_indirect\<close> does: on failure the slot stays 0 and sector 0
  is written.
\<close>

primrec inode_reserve_indirect ::
    "(fsys \<Rightarrow> (nat option \<times> fsys) option) \<Rightarrow> nat \<Rightarrow> nat \<Rightarrow> nat \<Rightarrow> fsys \<Rightarrow> (bool \<times> nat \<times> fsys) option" where
  "inode_reserve_indirect alloc 0 entry num st =
     (if entry = 0 then do {
        (r, st) \<leftarrow> alloc st;
        case r of None \<Rightarrow> Some (False, entry, st)
        | Some s \<Rightarrow> do { st \<leftarrow> bwrite s zeros st; Some (True, s, st) } }
      else Some (True, entry, st))"
| "inode_reserve_indirect alloc (Suc level) entry num st = do {
     ASSERT (Suc level \<le> 2);
     (entry, st) \<leftarrow>
       (if entry = 0 then do {
          (r, st) \<leftarrow> alloc st;
          let entry = (case r of None \<Rightarrow> entry | Some s \<Rightarrow> s);
          st \<leftarrow> bwrite entry zeros st;
          Some (entry, st) }
        else Some (entry, st));
     (b, st) \<leftarrow> bread entry st;
     let un = (if Suc level = 1 then 1 else INDIRECT_BLOCKS_PER_SECTOR);
     (ok, blocks, num, st) \<leftarrow>
       reserve_loop (inode_reserve_indirect alloc level) un 0 (DIV_ROUND_UP num un) (words_of b) num st;
     if \<not> ok then Some (False, entry, st)
     else do {
       ASSERT (num = 0);
       st \<leftarrow> bwrite entry (bytes_of blocks) st;
       Some (True, entry, st) } }"

definition inode_reserve ::
    "(fsys \<Rightarrow> (nat option \<times> fsys) option) \<Rightarrow> inode_disk \<Rightarrow> int \<Rightarrow> fsys \<Rightarrow> (bool \<times> inode_disk \<times> fsys) option" where
  "inode_reserve alloc d len st =
     (if len < 0 then Some (False, d, st)
      else do {
        let num = bytes_to_sectors len;
        let l = min num DIRECT_BLOCKS_COUNT;
        (ok, blocks, _, st) \<leftarrow>
          reserve_loop (inode_reserve_indirect alloc 0) 1 0 l (direct_blocks d) l st;
        let d = d\<lparr>direct_blocks := blocks\<rparr>;
        let num = num - l;
        if \<not> ok then Some (False, d, st)
        else if num = 0 then Some (True, d, st)
        else do {
          let l = min num INDIRECT_BLOCKS_PER_SECTOR;
          (ok, e, st) \<leftarrow> inode_reserve_indirect alloc 1 (indirect_block d) l st;
          let d = d\<lparr>indirect_block := e\<rparr>;
          let num = num - l;
          if \<not> ok then Some (False, d, st)
          else if num = 0 then Some (True, d, st)
          else do {
            let l = min num (INDIRECT_BLOCKS_PER_SECTOR * INDIRECT_BLOCKS_PER_SECTOR);
            (ok, e, st) \<leftarrow> inode_reserve_indirect alloc 2 (doubly_indirect_block d) l st;
            let d = d\<lparr>doubly_indirect_block := e\<rparr>;
            let num = num - l;
            if \<not> ok then Some (False, d, st)
            else if num = 0 then Some (True, d, st)
            else None } } })"

definition inode_allocate ::
    "(fsys \<Rightarrow> (nat option \<times> fsys) option) \<Rightarrow> inode_disk \<Rightarrow> fsys \<Rightarrow> (bool \<times> inode_disk \<times> fsys) option" where
  "inode_allocate alloc d st = inode_reserve alloc d (ilength d) st"

definition inode_create ::
    "(fsys \<Rightarrow> (nat option \<times> fsys) option) \<Rightarrow> nat \<Rightarrow> int \<Rightarrow> bool \<Rightarrow> fsys \<Rightarrow> (bool \<times> fsys) option" where
  "inode_create alloc sec len dir st = do {
     ASSERT (len \<ge> 0);
     let (ok, st) = alloc_mem st;
     if \<not> ok then Some (False, st)
     else do {
       let d = \<lparr>direct_blocks = replicate DIRECT_BLOCKS_COUNT 0, indirect_block = 0,
         doubly_indirect_block = 0, is_dir = dir, ilength = len, imagic = INODE_MAGIC\<rparr>;
       (ok, d, st) \<leftarrow> inode_allocate alloc d st;
       if ok then do { st \<leftarrow> bwrite sec (enc_inode d) st; Some (True, st) }
       else Some (False, st) } }"

section \<open>Opening\<close>

definition inode_init :: "fsys \<Rightarrow> fsys" where
  "inode_init st = st\<lparr>open_inodes := []\<rparr>"

definition inode_reopen :: "nat \<Rightarrow> fsys \<Rightarrow> fsys option" where
  "inode_reopen ip st = upd_inode ip (\<lambda>i. i\<lparr>open_cnt := open_cnt i + 1\<rparr>) st"

text \<open>The open inode of a sector, in list order.\<close>

fun find_open :: "nat list \<Rightarrow> nat \<Rightarrow> fsys \<Rightarrow> nat option option" where
  "find_open [] sec st = Some None"
| "find_open (ip # r) sec st = do {
     i \<leftarrow> heap st ip;
     if sector i = sec then Some (Some ip) else find_open r sec st }"

text \<open>A new inode lives at an address not used before: one above the allocation counter.\<close>

definition inode_open :: "nat \<Rightarrow> fsys \<Rightarrow> (nat option \<times> fsys) option" where
  "inode_open sec st = do {
     f \<leftarrow> find_open (open_inodes st) sec st;
     case f of
       Some ip \<Rightarrow> do { st \<leftarrow> inode_reopen ip st; Some (Some ip, st) }
     | None \<Rightarrow> do {
         let ip = Suc (mcount st);
         let (ok, st) = alloc_mem st;
         if \<not> ok then Some (None, st)
         else do {
           let st = st\<lparr>open_inodes := ip # open_inodes st\<rparr>;
           (b, st) \<leftarrow> bread sec st;
           Some (Some ip, st\<lparr>heap := (heap st)(ip \<mapsto> \<lparr>sector = sec, open_cnt = 1, removed = False,
             deny_write_cnt = 0, data = dec_inode b\<rparr>)\<rparr>) } } }"

definition inode_get_inumber :: "nat \<Rightarrow> fsys \<Rightarrow> nat option" where
  "inode_get_inumber ip st = do { i \<leftarrow> heap st ip; Some (sector i) }"

definition inode_remove :: "nat \<Rightarrow> fsys \<Rightarrow> fsys option" where
  "inode_remove ip st = upd_inode ip (\<lambda>i. i\<lparr>removed := True\<rparr>) st"

definition inode_is_directory :: "nat \<Rightarrow> fsys \<Rightarrow> bool option" where
  "inode_is_directory ip st = do { i \<leftarrow> heap st ip; Some (is_dir (data i)) }"

definition inode_is_removed :: "nat \<Rightarrow> fsys \<Rightarrow> bool option" where
  "inode_is_removed ip st = do { i \<leftarrow> heap st ip; Some (removed i) }"

definition inode_deny_write :: "nat \<Rightarrow> fsys \<Rightarrow> fsys option" where
  "inode_deny_write ip st = do {
     i \<leftarrow> heap st ip;
     ASSERT (deny_write_cnt i + 1 \<le> open_cnt i);
     upd_inode ip (\<lambda>i. i\<lparr>deny_write_cnt := deny_write_cnt i + 1\<rparr>) st }"

definition inode_allow_write :: "nat \<Rightarrow> fsys \<Rightarrow> fsys option" where
  "inode_allow_write ip st = do {
     i \<leftarrow> heap st ip;
     ASSERT (deny_write_cnt i > 0);
     ASSERT (deny_write_cnt i \<le> open_cnt i);
     upd_inode ip (\<lambda>i. i\<lparr>deny_write_cnt := deny_write_cnt i - 1\<rparr>) st }"

section \<open>Reading and writing\<close>

text \<open>
  The size of the next chunk: what is left of the request, of the inode and of the sector.
\<close>

definition chunk_size :: "int \<Rightarrow> int \<Rightarrow> int \<Rightarrow> int" where
  "chunk_size sz offset len =
     (let sector_left = int BLOCK_SECTOR_SIZE - offset mod int BLOCK_SECTOR_SIZE;
          inode_left = len - offset;
          min_left = (if inode_left < sector_left then inode_left else sector_left)
      in if sz < min_left then sz else min_left)"

text \<open>
  The bounce buffer is allocated on first use, and is an argument of the loop once it is.
\<close>

definition get_bounce :: "bool \<Rightarrow> fsys \<Rightarrow> bool \<times> fsys" where
  "get_bounce bounce st = (if bounce then (True, st) else alloc_mem st)"

function read_loop :: "nat \<Rightarrow> int \<Rightarrow> int \<Rightarrow> bool \<Rightarrow> byte list \<Rightarrow> fsys \<Rightarrow> (byte list \<times> fsys) option" where
  "read_loop ip sz offset bounce buf st =
     (if \<not> 0 < sz then Some (buf, st)
      else do {
        (sector_idx, st) \<leftarrow> byte_to_sector ip offset st;
        len \<leftarrow> inode_length ip st;
        let ofs = offset mod int BLOCK_SECTOR_SIZE;
        let chunk = chunk_size sz offset len;
        if chunk \<le> 0 then Some (buf, st)
        else if ofs = 0 \<and> chunk = int BLOCK_SECTOR_SIZE then do {
          (b, st) \<leftarrow> bread sector_idx st;
          read_loop ip (sz - chunk) (offset + chunk) bounce (buf @ b) st }
        else do {
          let (ok, st) = get_bounce bounce st;
          if \<not> ok then Some (buf, st)
          else do {
            (b, st) \<leftarrow> bread sector_idx st;
            read_loop ip (sz - chunk) (offset + chunk) True
              (buf @ take (nat chunk) (drop (nat ofs) b)) st } } })"
  by pat_completeness auto
termination by (relation "measure (\<lambda>(ip, sz, _). nat sz)") auto

declare read_loop.simps [simp del]

definition inode_read_at :: "nat \<Rightarrow> int \<Rightarrow> int \<Rightarrow> fsys \<Rightarrow> (byte list \<times> fsys) option" where
  "inode_read_at ip sz offset st = read_loop ip sz offset False [] st"

function write_loop :: "nat \<Rightarrow> byte list \<Rightarrow> int \<Rightarrow> int \<Rightarrow> bool \<Rightarrow> int \<Rightarrow> fsys \<Rightarrow> (int \<times> fsys) option" where
  "write_loop ip buf sz offset bounce written st =
     (if \<not> 0 < sz then Some (written, st)
      else do {
        (sector_idx, st) \<leftarrow> byte_to_sector ip offset st;
        len \<leftarrow> inode_length ip st;
        let ofs = offset mod int BLOCK_SECTOR_SIZE;
        let chunk = chunk_size sz offset len;
        let src = take (nat chunk) (drop (nat written) buf);
        if chunk \<le> 0 then Some (written, st)
        else if ofs = 0 \<and> chunk = int BLOCK_SECTOR_SIZE then do {
          st \<leftarrow> bwrite sector_idx src st;
          write_loop ip buf (sz - chunk) (offset + chunk) bounce (written + chunk) st }
        else do {
          let (ok, st) = get_bounce bounce st;
          if \<not> ok then Some (written, st)
          else do {
            (b, st) \<leftarrow>
              (if ofs > 0 \<or> chunk < int BLOCK_SECTOR_SIZE - ofs then bread sector_idx st
               else Some (zeros, st));
            st \<leftarrow> bwrite sector_idx (take (nat ofs) b @ src @ drop (nat ofs + nat chunk) b) st;
            write_loop ip buf (sz - chunk) (offset + chunk) True (written + chunk) st } } })"
  by pat_completeness auto
termination by (relation "measure (\<lambda>(ip, buf, sz, _). nat sz)") auto

declare write_loop.simps [simp del]

text \<open>The part of a write that grows the file; the flag tells whether to go on.\<close>

definition write_extend ::
    "(fsys \<Rightarrow> (nat option \<times> fsys) option) \<Rightarrow> nat \<Rightarrow> int \<Rightarrow> fsys \<Rightarrow> (bool \<times> fsys) option" where
  "write_extend alloc ip end st = do {
     (s, st) \<leftarrow> byte_to_sector ip (end - 1) st;
     if s \<noteq> NO_SECTOR then Some (True, st)
     else do {
       i \<leftarrow> heap st ip;
       (ok, d, st) \<leftarrow> inode_reserve alloc (data i) end st;
       st \<leftarrow> upd_inode ip (\<lambda>i. i\<lparr>data := d\<rparr>) st;
       if \<not> ok then Some (False, st)
       else do {
         let d = d\<lparr>ilength := end\<rparr>;
         st \<leftarrow> upd_inode ip (\<lambda>i. i\<lparr>data := d\<rparr>) st;
         st \<leftarrow> bwrite (sector i) (enc_inode d) st;
         Some (True, st) } } }"

definition inode_write_at ::
    "(fsys \<Rightarrow> (nat option \<times> fsys) option) \<Rightarrow> nat \<Rightarrow> byte list \<Rightarrow> int \<Rightarrow> int \<Rightarrow> fsys \<Rightarrow> (int \<times> fsys) option" where
  "inode_write_at alloc ip buf sz offset st = do {
     i \<leftarrow> heap st ip;
     if deny_write_cnt i \<noteq> 0 then Some (0, st)
     else do {
       (ok, st) \<leftarrow> write_extend alloc ip (offset + sz) st;
       if \<not> ok then Some (0, st) else write_loop ip buf sz offset False 0 st } }"

end
