(* ===== verification/FreeMap.thy ===== *)
theory FreeMap
  imports Inode
begin

text \<open>
  \<^verbatim>\<open>filesys/free-map.c\<close>, \<^verbatim>\<open>filesys/file.c\<close>, the file transfer of the bitmap
  (\<^verbatim>\<open>bitmap_read\<close>, \<^verbatim>\<open>bitmap_write\<close>) and the operations of \<^verbatim>\<open>filesys/inode.c\<close>
  that release sectors.

  Allocating a sector writes the free map file, writing a file may grow it, and growing
  allocates: \<open>free_map_allocate n\<close> allows that recursion to nest \<open>n\<close> deep and is \<open>None\<close>
  beyond (the kernel stack). The free map file is created at its full size, so the write in
  an allocation grows nothing and depth 1 is enough once it exists.
\<close>

definition FREE_MAP_SECTOR :: nat where "FREE_MAP_SECTOR = 0"
definition ROOT_DIR_SECTOR :: nat where "ROOT_DIR_SECTOR = 1"

section \<open>The bitmap's file transfer\<close>

definition bitmap_write ::
    "(fsys \<Rightarrow> (nat option \<times> fsys) option) \<Rightarrow> bitmap \<Rightarrow> open_file \<Rightarrow> fsys \<Rightarrow> (bool \<times> fsys) option" where
  "bitmap_write alloc b f st = do {
     let sz = int (byte_cnt (bit_cnt b));
     (n, st) \<leftarrow> inode_write_at alloc (finode f) (words_to_bytes (bits b)) sz 0 st;
     Some (n = sz, st) }"

definition bitmap_read :: "bitmap \<Rightarrow> open_file \<Rightarrow> fsys \<Rightarrow> (bool \<times> bitmap \<times> fsys) option" where
  "bitmap_read b f st =
     (if bit_cnt b > 0 then do {
        let sz = int (byte_cnt (bit_cnt b));
        (bs, st) \<leftarrow> inode_read_at (finode f) sz 0 st;
        let ws = bytes_to_words (bs @ drop (length bs) (words_to_bytes (bits b)));
        let k = elem_cnt (bit_cnt b) - 1;
        Some (int (length bs) = sz, b\<lparr>bits := ws[k := ws ! k AND last_mask b]\<rparr>, st) }
      else Some (True, b, st))"

section \<open>Allocation and release\<close>

definition allocate_with ::
    "(fsys \<Rightarrow> (nat option \<times> fsys) option) \<Rightarrow> nat \<Rightarrow> fsys \<Rightarrow> (nat option \<times> fsys) option" where
  "allocate_with alloc cnt st = do {
     (sec, fm) \<leftarrow> bitmap_scan_and_flip (free_map st) 0 cnt False;
     let st = st\<lparr>free_map := fm\<rparr>;
     if sec = BITMAP_ERROR then Some (None, st)
     else case free_map_file st of
       None \<Rightarrow> Some (Some sec, st)
     | Some f \<Rightarrow> do {
         (ok, st) \<leftarrow> bitmap_write alloc (free_map st) f st;
         if ok then Some (Some sec, st)
         else do {
           fm \<leftarrow> bitmap_set_multiple (free_map st) sec cnt False;
           Some (None, st\<lparr>free_map := fm\<rparr>) } } }"

primrec free_map_allocate :: "nat \<Rightarrow> nat \<Rightarrow> fsys \<Rightarrow> (nat option \<times> fsys) option" where
  "free_map_allocate 0 cnt st = None"
| "free_map_allocate (Suc n) cnt st = allocate_with (free_map_allocate n 1) cnt st"

definition free_map_release :: "nat \<Rightarrow> nat \<Rightarrow> nat \<Rightarrow> fsys \<Rightarrow> fsys option" where
  "free_map_release n sec cnt st = do {
     used \<leftarrow> bitmap_all (free_map st) sec cnt;
     ASSERT used;
     fm \<leftarrow> bitmap_set_multiple (free_map st) sec cnt False;
     let st = st\<lparr>free_map := fm\<rparr>;
     f \<leftarrow> free_map_file st;
     (_, st) \<leftarrow> bitmap_write (free_map_allocate n 1) (free_map st) f st;
     Some st }"

definition free_map_init :: "u32 list option \<Rightarrow> fsys \<Rightarrow> fsys option" where
  "free_map_init mem_words st = do {
     r \<leftarrow> bitmap_create True mem_words (bsize (device (bc st)));
     b \<leftarrow> r;
     b \<leftarrow> bitmap_mark b FREE_MAP_SECTOR;
     b \<leftarrow> bitmap_mark b ROOT_DIR_SECTOR;
     Some (st\<lparr>free_map := b\<rparr>) }"

section \<open>Closing inodes\<close>

fun deallocate_loop ::
    "(nat \<Rightarrow> nat \<Rightarrow> fsys \<Rightarrow> fsys option) \<Rightarrow> nat \<Rightarrow> nat \<Rightarrow> nat \<Rightarrow> nat list \<Rightarrow> nat \<Rightarrow> fsys \<Rightarrow> (nat \<times> fsys) option" where
  "deallocate_loop dea un i 0 blocks num st = Some (num, st)"
| "deallocate_loop dea un i (Suc l) blocks num st = do {
     let subsize = min num un;
     st \<leftarrow> dea (blocks ! i) subsize st;
     deallocate_loop dea un (Suc i) l blocks (num - subsize) st }"

primrec inode_deallocate_indirect :: "nat \<Rightarrow> nat \<Rightarrow> nat \<Rightarrow> nat \<Rightarrow> fsys \<Rightarrow> fsys option" where
  "inode_deallocate_indirect n 0 entry num st = free_map_release n entry 1 st"
| "inode_deallocate_indirect n (Suc level) entry num st = do {
     ASSERT (Suc level \<le> 2);
     (b, st) \<leftarrow> bread entry st;
     let un = (if Suc level = 1 then 1 else INDIRECT_BLOCKS_PER_SECTOR);
     (num, st) \<leftarrow> deallocate_loop (inode_deallocate_indirect n level) un 0 (DIV_ROUND_UP num un) (words_of b) num st;
     ASSERT (num = 0);
     free_map_release n entry 1 st }"

definition inode_deallocate :: "nat \<Rightarrow> inode_disk \<Rightarrow> fsys \<Rightarrow> (bool \<times> fsys) option" where
  "inode_deallocate n d st =
     (if ilength d < 0 then Some (False, st)
      else do {
        let num = bytes_to_sectors (ilength d);
        let l = min num DIRECT_BLOCKS_COUNT;
        (_, st) \<leftarrow> deallocate_loop (\<lambda>s _. free_map_release n s 1) 1 0 l (direct_blocks d) l st;
        let num = num - l;
        let l = min num INDIRECT_BLOCKS_PER_SECTOR;
        st \<leftarrow> (if l > 0 then inode_deallocate_indirect n 1 (indirect_block d) l st else Some st);
        let num = num - l;
        let l = min num (INDIRECT_BLOCKS_PER_SECTOR * INDIRECT_BLOCKS_PER_SECTOR);
        st \<leftarrow> (if l > 0 then inode_deallocate_indirect n 2 (doubly_indirect_block d) l st else Some st);
        let num = num - l;
        ASSERT (num = 0);
        Some (True, st) })"

definition inode_close :: "nat \<Rightarrow> nat option \<Rightarrow> fsys \<Rightarrow> fsys option" where
  "inode_close n ipo st =
     (case ipo of None \<Rightarrow> Some st
      | Some ip \<Rightarrow> do {
          st \<leftarrow> upd_inode ip (\<lambda>i. i\<lparr>open_cnt := open_cnt i - 1\<rparr>) st;
          i \<leftarrow> heap st ip;
          if open_cnt i \<noteq> 0 then Some st
          else do {
            let st = st\<lparr>open_inodes := remove1 ip (open_inodes st)\<rparr>;
            st \<leftarrow> (if removed i then do {
                st \<leftarrow> free_map_release n (sector i) 1 st;
                (_, st) \<leftarrow> inode_deallocate n (data i) st;
                Some st }
              else Some st);
            Some (st\<lparr>heap := (heap st)(ip := None)\<rparr>) } })"

section \<open>Files\<close>

text \<open>A file object is a value that its owner passes along; closing it consumes it.\<close>

definition file_open :: "nat \<Rightarrow> nat option \<Rightarrow> fsys \<Rightarrow> (open_file option \<times> fsys) option" where
  "file_open n ipo st = do {
     let (ok, st) = alloc_mem st;
     case ipo of
       Some ip \<Rightarrow>
         if ok then Some (Some \<lparr>finode = ip, pos = 0, deny_write = False\<rparr>, st)
         else do { st \<leftarrow> inode_close n ipo st; Some (None, st) }
     | None \<Rightarrow> do { st \<leftarrow> inode_close n ipo st; Some (None, st) } }"

definition file_reopen :: "nat \<Rightarrow> open_file \<Rightarrow> fsys \<Rightarrow> (open_file option \<times> fsys) option" where
  "file_reopen n f st = do { st \<leftarrow> inode_reopen (finode f) st; file_open n (Some (finode f)) st }"

definition file_deny_write :: "open_file \<Rightarrow> fsys \<Rightarrow> (open_file \<times> fsys) option" where
  "file_deny_write f st =
     (if \<not> deny_write f then do {
        st \<leftarrow> inode_deny_write (finode f) st;
        Some (f\<lparr>deny_write := True\<rparr>, st) }
      else Some (f, st))"

definition file_allow_write :: "open_file \<Rightarrow> fsys \<Rightarrow> (open_file \<times> fsys) option" where
  "file_allow_write f st =
     (if deny_write f then do {
        st \<leftarrow> inode_allow_write (finode f) st;
        Some (f\<lparr>deny_write := False\<rparr>, st) }
      else Some (f, st))"

definition file_close :: "nat \<Rightarrow> open_file option \<Rightarrow> fsys \<Rightarrow> fsys option" where
  "file_close n fo st =
     (case fo of None \<Rightarrow> Some st
      | Some f \<Rightarrow> do {
          (f, st) \<leftarrow> file_allow_write f st;
          inode_close n (Some (finode f)) st })"

definition file_get_inode :: "open_file \<Rightarrow> nat" where
  "file_get_inode f = finode f"

definition file_read :: "open_file \<Rightarrow> int \<Rightarrow> fsys \<Rightarrow> (byte list \<times> open_file \<times> fsys) option" where
  "file_read f sz st = do {
     (b, st) \<leftarrow> inode_read_at (finode f) sz (pos f) st;
     Some (b, f\<lparr>pos := pos f + int (length b)\<rparr>, st) }"

definition file_read_at :: "open_file \<Rightarrow> int \<Rightarrow> int \<Rightarrow> fsys \<Rightarrow> (byte list \<times> fsys) option" where
  "file_read_at f sz ofs st = inode_read_at (finode f) sz ofs st"

definition file_write :: "nat \<Rightarrow> open_file \<Rightarrow> byte list \<Rightarrow> int \<Rightarrow> fsys \<Rightarrow> (int \<times> open_file \<times> fsys) option" where
  "file_write n f buf sz st = do {
     (k, st) \<leftarrow> inode_write_at (free_map_allocate n 1) (finode f) buf sz (pos f) st;
     Some (k, f\<lparr>pos := pos f + k\<rparr>, st) }"

definition file_write_at :: "nat \<Rightarrow> open_file \<Rightarrow> byte list \<Rightarrow> int \<Rightarrow> int \<Rightarrow> fsys \<Rightarrow> (int \<times> fsys) option" where
  "file_write_at n f buf sz ofs st = inode_write_at (free_map_allocate n 1) (finode f) buf sz ofs st"

definition file_length :: "open_file \<Rightarrow> fsys \<Rightarrow> int option" where
  "file_length f st = inode_length (finode f) st"

definition file_seek :: "open_file \<Rightarrow> int \<Rightarrow> open_file option" where
  "file_seek f new_pos = do { ASSERT (new_pos \<ge> 0); Some (f\<lparr>pos := new_pos\<rparr>) }"

definition file_tell :: "open_file \<Rightarrow> int" where
  "file_tell f = pos f"

section \<open>The free map file\<close>

definition free_map_open :: "nat \<Rightarrow> fsys \<Rightarrow> fsys option" where
  "free_map_open n st = do {
     (ipo, st) \<leftarrow> inode_open FREE_MAP_SECTOR st;
     (fo, st) \<leftarrow> file_open n ipo st;
     f \<leftarrow> fo;
     (ok, fm, st) \<leftarrow> bitmap_read (free_map st) f st;
     ASSERT ok;
     Some (st\<lparr>free_map_file := Some f, free_map := fm\<rparr>) }"

definition free_map_close :: "nat \<Rightarrow> fsys \<Rightarrow> fsys option" where
  "free_map_close n st = file_close n (free_map_file st) st"

definition free_map_create :: "nat \<Rightarrow> fsys \<Rightarrow> fsys option" where
  "free_map_create n st = do {
     (ok, st) \<leftarrow> inode_create (free_map_allocate n 1) FREE_MAP_SECTOR (int (bitmap_file_size (free_map st))) False st;
     ASSERT ok;
     (ipo, st) \<leftarrow> inode_open FREE_MAP_SECTOR st;
     (fo, st) \<leftarrow> file_open n ipo st;
     f \<leftarrow> fo;
     let st = st\<lparr>free_map_file := Some f\<rparr>;
     (ok, st) \<leftarrow> bitmap_write (free_map_allocate n 1) (free_map st) f st;
     ASSERT ok;
     Some st }"

end
