(* ===== verification/CString.thy ===== *)
theory CString
  imports Prelude
begin

text \<open>
  \<^verbatim>\<open>lib/string.c\<close> over a byte memory, a function from addresses to bytes. A pointer is
  its address, 0 the null pointer. A loop that runs to a terminator is a
  \<^theory_text>\<open>partial_function\<close>: it returns only if there is one. The predicate \<open>cstr m p s\<close>
  says that the string \<open>s\<close> (without its terminator) is at \<open>p\<close>.
\<close>

type_synonym cmem = "nat \<Rightarrow> byte"

section \<open>Blocks\<close>

fun copy_up :: "cmem \<Rightarrow> nat \<Rightarrow> nat \<Rightarrow> nat \<Rightarrow> cmem" where
  "copy_up m dst src 0 = m"
| "copy_up m dst src (Suc n) = copy_up (m(dst := m src)) (dst + 1) (src + 1) n"

fun copy_down :: "cmem \<Rightarrow> nat \<Rightarrow> nat \<Rightarrow> nat \<Rightarrow> cmem" where
  "copy_down m dst src 0 = m"
| "copy_down m dst src (Suc n) = copy_down (m(dst + n := m (src + n))) dst src n"

definition memcpy :: "nat \<Rightarrow> nat \<Rightarrow> nat \<Rightarrow> cmem \<Rightarrow> (nat \<times> cmem) option" where
  "memcpy dst src n m = do {
     ASSERT (dst \<noteq> 0 \<or> n = 0);
     ASSERT (src \<noteq> 0 \<or> n = 0);
     Some (dst, copy_up m dst src n) }"

text \<open>
  The forward loop advances the variable that is returned, the backward loop brings it back
  to where it started.
\<close>

definition memmove :: "nat \<Rightarrow> nat \<Rightarrow> nat \<Rightarrow> cmem \<Rightarrow> (nat \<times> cmem) option" where
  "memmove dst src n m = do {
     ASSERT (dst \<noteq> 0 \<or> n = 0);
     ASSERT (src \<noteq> 0 \<or> n = 0);
     if dst < src then Some (dst + n, copy_up m dst src n)
     else Some (dst, copy_down m dst src n) }"

fun memcmp_loop :: "cmem \<Rightarrow> nat \<Rightarrow> nat \<Rightarrow> nat \<Rightarrow> int" where
  "memcmp_loop m a b 0 = 0"
| "memcmp_loop m a b (Suc n) =
     (if m a \<noteq> m b then (if m a > m b then 1 else - 1) else memcmp_loop m (a + 1) (b + 1) n)"

definition memcmp :: "nat \<Rightarrow> nat \<Rightarrow> nat \<Rightarrow> cmem \<Rightarrow> int option" where
  "memcmp a b n m = do {
     ASSERT (a \<noteq> 0 \<or> n = 0);
     ASSERT (b \<noteq> 0 \<or> n = 0);
     Some (memcmp_loop m a b n) }"

fun memchr_loop :: "cmem \<Rightarrow> nat \<Rightarrow> byte \<Rightarrow> nat \<Rightarrow> nat" where
  "memchr_loop m p ch 0 = 0"
| "memchr_loop m p ch (Suc n) = (if m p = ch then p else memchr_loop m (p + 1) ch n)"

definition memchr :: "nat \<Rightarrow> byte \<Rightarrow> nat \<Rightarrow> cmem \<Rightarrow> nat option" where
  "memchr p ch n m = do { ASSERT (p \<noteq> 0 \<or> n = 0); Some (memchr_loop m p ch n) }"

fun fill :: "cmem \<Rightarrow> nat \<Rightarrow> byte \<Rightarrow> nat \<Rightarrow> cmem" where
  "fill m dst v 0 = m"
| "fill m dst v (Suc n) = fill (m(dst := v)) (dst + 1) v n"

definition memset :: "nat \<Rightarrow> byte \<Rightarrow> nat \<Rightarrow> cmem \<Rightarrow> (nat \<times> cmem) option" where
  "memset dst v n m = do { ASSERT (dst \<noteq> 0 \<or> n = 0); Some (dst, fill m dst v n) }"

section \<open>Strings\<close>

partial_function (option) strlen_loop :: "cmem \<Rightarrow> nat \<Rightarrow> nat option" where
  [code]: "strlen_loop m p = (if m p \<noteq> 0 then strlen_loop m (p + 1) else Some p)"

definition strlen :: "nat \<Rightarrow> cmem \<Rightarrow> nat option" where
  "strlen s m = do { ASSERT (s \<noteq> 0); p \<leftarrow> strlen_loop m s; Some (p - s) }"

partial_function (option) strcmp_loop :: "cmem \<Rightarrow> nat \<Rightarrow> nat \<Rightarrow> (nat \<times> nat) option" where
  [code]: "strcmp_loop m a b = (if m a \<noteq> 0 \<and> m a = m b then strcmp_loop m (a + 1) (b + 1) else Some (a, b))"

definition strcmp :: "nat \<Rightarrow> nat \<Rightarrow> cmem \<Rightarrow> int option" where
  "strcmp a b m = do {
     ASSERT (a \<noteq> 0);
     ASSERT (b \<noteq> 0);
     (a, b) \<leftarrow> strcmp_loop m a b;
     Some (if m a < m b then - 1 else of_bool (m a > m b)) }"

partial_function (option) strchr_loop :: "cmem \<Rightarrow> nat \<Rightarrow> byte \<Rightarrow> nat option" where
  [code]: "strchr_loop m p c = (if m p = c then Some p else if m p = 0 then Some 0 else strchr_loop m (p + 1) c)"

definition strchr :: "nat \<Rightarrow> byte \<Rightarrow> cmem \<Rightarrow> nat option" where
  "strchr s c m = do { ASSERT (s \<noteq> 0); strchr_loop m s c }"

partial_function (option) strrchr_loop :: "cmem \<Rightarrow> nat \<Rightarrow> byte \<Rightarrow> nat \<Rightarrow> nat option" where
  [code]: "strrchr_loop m s c p =
     (if m s \<noteq> 0 then strrchr_loop m (s + 1) c (if m s = c then s else p) else Some p)"

definition strrchr :: "nat \<Rightarrow> byte \<Rightarrow> cmem \<Rightarrow> nat option" where
  "strrchr s c m = strrchr_loop m s c 0"

partial_function (option) strcspn_loop :: "cmem \<Rightarrow> nat \<Rightarrow> nat \<Rightarrow> nat \<Rightarrow> nat option" where
  [code]: "strcspn_loop m s stop len =
     (if m (s + len) \<noteq> 0 then do {
        q \<leftarrow> strchr stop (m (s + len)) m;
        if q \<noteq> 0 then Some len else strcspn_loop m s stop (len + 1) }
      else Some len)"

definition strcspn :: "nat \<Rightarrow> nat \<Rightarrow> cmem \<Rightarrow> nat option" where
  "strcspn s stop m = strcspn_loop m s stop 0"

partial_function (option) strspn_loop :: "cmem \<Rightarrow> nat \<Rightarrow> nat \<Rightarrow> nat \<Rightarrow> nat option" where
  [code]: "strspn_loop m s skp len =
     (if m (s + len) \<noteq> 0 then do {
        q \<leftarrow> strchr skp (m (s + len)) m;
        if q = 0 then Some len else strspn_loop m s skp (len + 1) }
      else Some len)"

definition strspn :: "nat \<Rightarrow> nat \<Rightarrow> cmem \<Rightarrow> nat option" where
  "strspn s skp m = strspn_loop m s skp 0"

partial_function (option) strpbrk_loop :: "cmem \<Rightarrow> nat \<Rightarrow> nat \<Rightarrow> nat option" where
  [code]: "strpbrk_loop m s stop =
     (if m s \<noteq> 0 then do {
        q \<leftarrow> strchr stop (m s) m;
        if q \<noteq> 0 then Some s else strpbrk_loop m (s + 1) stop }
      else Some 0)"

definition strpbrk :: "nat \<Rightarrow> nat \<Rightarrow> cmem \<Rightarrow> nat option" where
  "strpbrk s stop m = strpbrk_loop m s stop"

fun strstr_loop :: "cmem \<Rightarrow> nat \<Rightarrow> nat \<Rightarrow> nat \<Rightarrow> nat \<Rightarrow> nat \<Rightarrow> nat option" where
  "strstr_loop m h nd nl i 0 = Some 0"
| "strstr_loop m h nd nl i (Suc k) = do {
     c \<leftarrow> memcmp (h + i) nd nl m;
     if c = 0 then Some (h + i) else strstr_loop m h nd nl (i + 1) k }"

definition strstr :: "nat \<Rightarrow> nat \<Rightarrow> cmem \<Rightarrow> nat option" where
  "strstr h nd m = do {
     hl \<leftarrow> strlen h m;
     nl \<leftarrow> strlen nd m;
     if hl \<ge> nl then strstr_loop m h nd nl 0 (hl - nl + 1) else Some 0 }"

partial_function (option) skip_delims :: "cmem \<Rightarrow> nat \<Rightarrow> nat \<Rightarrow> (bool \<times> nat) option" where
  [code]: "skip_delims m delims s = do {
     q \<leftarrow> strchr delims (m s) m;
     if q = 0 then Some (False, s)
     else if m s = 0 then Some (True, s)
     else skip_delims m delims (s + 1) }"

partial_function (option) skip_token :: "cmem \<Rightarrow> nat \<Rightarrow> nat \<Rightarrow> nat option" where
  [code]: "skip_token m delims s = do {
     q \<leftarrow> strchr delims (m s) m;
     if q = 0 then skip_token m delims (s + 1) else Some s }"

text \<open>The token (0 at the end), the new saved position and the memory.\<close>

definition strtok_r :: "nat \<Rightarrow> nat \<Rightarrow> nat \<Rightarrow> cmem \<Rightarrow> (nat \<times> nat \<times> cmem) option" where
  "strtok_r s delims save m = do {
     ASSERT (delims \<noteq> 0);
     let s = (if s = 0 then save else s);
     ASSERT (s \<noteq> 0);
     (fin, s) \<leftarrow> skip_delims m delims s;
     if fin then Some (0, s, m)
     else do {
       let tok = s;
       s \<leftarrow> skip_token m delims s;
       if m s \<noteq> 0 then Some (tok, s + 1, m(s := 0)) else Some (tok, s, m) } }"

partial_function (option) strnlen_loop :: "cmem \<Rightarrow> nat \<Rightarrow> nat \<Rightarrow> nat \<Rightarrow> nat option" where
  [code]: "strnlen_loop m s maxlen len =
     (if m (s + len) \<noteq> 0 \<and> len < maxlen then strnlen_loop m s maxlen (len + 1) else Some len)"

definition strnlen :: "nat \<Rightarrow> nat \<Rightarrow> cmem \<Rightarrow> nat option" where
  "strnlen s maxlen m = strnlen_loop m s maxlen 0"

definition strlcpy :: "nat \<Rightarrow> nat \<Rightarrow> nat \<Rightarrow> cmem \<Rightarrow> (nat \<times> cmem) option" where
  "strlcpy dst src n m = do {
     ASSERT (dst \<noteq> 0);
     ASSERT (src \<noteq> 0);
     src_len \<leftarrow> strlen src m;
     if n > 0 then do {
       let dst_len = (if src_len < n - 1 then src_len else n - 1);
       (_, m) \<leftarrow> memcpy dst src dst_len m;
       Some (src_len, m(dst + dst_len := 0)) }
     else Some (src_len, m) }"

definition strlcat :: "nat \<Rightarrow> nat \<Rightarrow> nat \<Rightarrow> cmem \<Rightarrow> (nat \<times> cmem) option" where
  "strlcat dst src n m = do {
     ASSERT (dst \<noteq> 0);
     ASSERT (src \<noteq> 0);
     src_len \<leftarrow> strlen src m;
     dst_len \<leftarrow> strlen dst m;
     if n > 0 \<and> dst_len < n then do {
       let copy_cnt = (if src_len < n - dst_len - 1 then src_len else n - dst_len - 1);
       (_, m) \<leftarrow> memcpy (dst + dst_len) src copy_cnt m;
       Some (src_len + dst_len, m(dst + dst_len + copy_cnt := 0)) }
     else Some (src_len + dst_len, m) }"

section \<open>Bytes and strings in memory\<close>

definition bytes_at :: "cmem \<Rightarrow> nat \<Rightarrow> nat \<Rightarrow> byte list" where
  "bytes_at m p n = map m [p..<p + n]"

definition cstr :: "cmem \<Rightarrow> nat \<Rightarrow> byte list \<Rightarrow> bool" where
  "cstr m p s \<longleftrightarrow> p \<noteq> 0 \<and> 0 \<notin> set s \<and> bytes_at m p (length s + 1) = s @ [0]"

lemma bytes_at_Suc: "bytes_at m p (Suc n) = m p # bytes_at m (p + 1) n"
  by (simp add: bytes_at_def upt_rec)

lemma bytes_at_0 [simp]: "bytes_at m p 0 = []"
  by (simp add: bytes_at_def)

lemma length_bytes_at [simp]: "length (bytes_at m p n) = n"
  by (simp add: bytes_at_def)

lemma bytes_at_eq: "bytes_at m p n = bytes_at m' q n \<longleftrightarrow> (\<forall>i < n. m (p + i) = m' (q + i))"
  by (auto simp: bytes_at_def list_eq_iff_nth_eq)

lemma cstr_Nil [simp]: "cstr m p [] \<longleftrightarrow> p \<noteq> 0 \<and> m p = 0"
  by (simp add: cstr_def bytes_at_def)

lemma cstr_Cons [simp]: "cstr m p (c # s) \<longleftrightarrow> p \<noteq> 0 \<and> m p = c \<and> c \<noteq> 0 \<and> cstr m (p + 1) s"
  by (auto simp: cstr_def bytes_at_Suc)

lemma cstr_nonnull: "cstr m p s \<Longrightarrow> p \<noteq> 0"
  by (simp add: cstr_def)

lemma cstr_at: "cstr m p s \<Longrightarrow> i \<le> length s \<Longrightarrow> m (p + i) = (s @ [0]) ! i"
proof -
  assume c: "cstr m p s" and i: "i \<le> length s"
  have "m (p + i) = bytes_at m p (length s + 1) ! i"
    using i nth_upt [of p i "p + (length s + 1)"] by (simp add: bytes_at_def del: upt_Suc)
  with c show ?thesis by (simp add: cstr_def)
qed

lemma cstr_end: "cstr m p s \<Longrightarrow> m (p + length s) = 0"
  using cstr_at [of m p s "length s"] by simp

lemma cstr_frame: "\<forall>q \<in> {p..p + length s}. m' q = m q \<Longrightarrow> cstr m' p s = cstr m p s"
  by (induction s arbitrary: p) auto

lemma cstr_nth: "cstr m p s \<Longrightarrow> i < length s \<Longrightarrow> m (p + i) = s ! i"
  using cstr_at [of m p s i] by (simp add: nth_append)

section \<open>Block operations\<close>

lemma copy_up_at:
  "dst \<le> src \<or> src + n \<le> dst \<Longrightarrow> copy_up m dst src n x = (if dst \<le> x \<and> x < dst + n then m (src + (x - dst)) else m x)"
proof (induction n arbitrary: m dst src)
  case (Suc n)
  have IH: "copy_up (m(dst := m src)) (dst + 1) (src + 1) n x =
    (if dst + 1 \<le> x \<and> x < dst + 1 + n then (m(dst := m src)) (src + 1 + (x - (dst + 1))) else (m(dst := m src)) x)"
    using Suc.prems by (intro Suc.IH) auto
  have "src + 1 + (x - (dst + 1)) = src + (x - dst)" if "dst + 1 \<le> x" using that by simp
  moreover have "src + (x - dst) \<noteq> dst" if "dst + 1 \<le> x" "x < dst + 1 + n" using that Suc.prems by auto
  ultimately show ?case unfolding copy_up.simps IH by (cases "x = dst") (auto simp: fun_upd_def)
qed auto

lemma copy_down_at:
  "src \<le> dst \<Longrightarrow> copy_down m dst src n x = (if dst \<le> x \<and> x < dst + n then m (src + (x - dst)) else m x)"
proof (induction n arbitrary: m)
  case (Suc n)
  have "src + (x - dst) \<noteq> dst + n" if "dst \<le> x" "x < dst + n" using that Suc.prems by linarith
  then show ?case unfolding copy_down.simps Suc.IH [OF Suc.prems] by (auto simp: less_Suc_eq)
qed auto

lemma memcpy_ok:
  assumes "dst \<noteq> 0" "src \<noteq> 0" "dst + n \<le> src \<or> src + n \<le> dst"
  shows "memcpy dst src n m =
    Some (dst, \<lambda>x. if dst \<le> x \<and> x < dst + n then m (src + (x - dst)) else m x)"
  using assms copy_up_at [of dst src n m] by (auto simp: memcpy_def)

lemma memmove_ok:
  assumes "dst \<noteq> 0" "src \<noteq> 0"
  shows "memmove dst src n m =
    Some (if dst < src then dst + n else dst,
      \<lambda>x. if dst \<le> x \<and> x < dst + n then m (src + (x - dst)) else m x)"
  using assms copy_up_at [of dst src n m] copy_down_at [of src dst m n] by (auto simp: memmove_def)

lemma fill_at: "fill m dst v n x = (if dst \<le> x \<and> x < dst + n then v else m x)"
  by (induction n arbitrary: m dst) auto

lemma memset_ok:
  "dst \<noteq> 0 \<Longrightarrow> memset dst v n m = Some (dst, \<lambda>x. if dst \<le> x \<and> x < dst + n then v else m x)"
  by (auto simp: memset_def fill_at)

lemma memcmp_loop_0: "memcmp_loop m a b n = 0 \<longleftrightarrow> bytes_at m a n = bytes_at m b n"
  by (induction n arbitrary: a b) (auto simp: bytes_at_Suc)

lemma memchr_loop_ok:
  "memchr_loop m p ch n = (if ch \<in> set (bytes_at m p n)
     then p + length (takeWhile (\<lambda>d. d \<noteq> ch) (bytes_at m p n)) else 0)"
  by (induction n arbitrary: p) (auto simp: bytes_at_Suc)


section \<open>String operations\<close>

lemma strlen_loop_ok: "cstr m p s \<Longrightarrow> strlen_loop m p = Some (p + length s)"
  by (induction s arbitrary: p) (auto simp: strlen_loop.simps)

lemma strlen_ok: "cstr m p s \<Longrightarrow> strlen p m = Some (length s)"
  using cstr_nonnull [of m p s] by (simp add: strlen_def strlen_loop_ok)

lemma strnlen_loop_ok:
  "cstr m p (s @ t) \<Longrightarrow> strnlen_loop m p k (length s) = Some (max (length s) (min (length (s @ t)) k))"
proof (induction t arbitrary: s)
  case Nil
  then show ?case using cstr_end [of m p s] by (simp add: strnlen_loop.simps)
next
  case (Cons c t)
  have "m (p + length s) \<noteq> 0"
    using cstr_nth [OF Cons.prems, of "length s"] Cons.prems by (auto simp: cstr_def)
  then show ?case using Cons.IH [of "s @ [c]"] Cons.prems
    by (subst strnlen_loop.simps) auto
qed

lemma strnlen_ok: "cstr m p s \<Longrightarrow> strnlen p k m = Some (min (length s) k)"
  using strnlen_loop_ok [of m p "[]" s k] by (simp add: strnlen_def)

fun lex_cmp :: "byte list \<Rightarrow> byte list \<Rightarrow> int" where
  "lex_cmp [] [] = 0"
| "lex_cmp [] (d # t) = - 1"
| "lex_cmp (c # s) [] = 1"
| "lex_cmp (c # s) (d # t) = (if c < d then - 1 else if d < c then 1 else lex_cmp s t)"

lemma strcmp_loop_ok:
  "cstr m a s \<Longrightarrow> cstr m b t \<Longrightarrow> \<exists>a' b'. strcmp_loop m a b = Some (a', b') \<and>
     (if m a' < m b' then - 1 else of_bool (m a' > m b')) = lex_cmp s t"
proof (induction s t arbitrary: a b rule: lex_cmp.induct)
  case 1 then show ?case by (simp add: strcmp_loop.simps)
next
  case (2 d t) then show ?case by (simp add: strcmp_loop.simps word_gt_0)
next
  case (3 c s) then show ?case by (simp add: strcmp_loop.simps word_gt_0)
next
  case (4 c s d t)
  then show ?case by (cases "c = d") (auto simp: strcmp_loop.simps)
qed

lemma strcmp_ok: "cstr m a s \<Longrightarrow> cstr m b t \<Longrightarrow> strcmp a b m = Some (lex_cmp s t)"
  using strcmp_loop_ok [of m a s b t] cstr_nonnull [of m a s] cstr_nonnull [of m b t]
  by (auto simp: strcmp_def)

lemma lex_cmp_0: "lex_cmp s t = 0 \<longleftrightarrow> s = t"
  by (induction s t rule: lex_cmp.induct) auto

lemma strchr_loop_ok:
  "cstr m p s \<Longrightarrow> strchr_loop m p c =
     Some (if c = 0 then p + length s else if c \<in> set s then p + length (takeWhile (\<lambda>d. d \<noteq> c) s) else 0)"
  by (induction s arbitrary: p) (auto simp: strchr_loop.simps)

lemma strchr_ok:
  "cstr m p s \<Longrightarrow> strchr p c m =
     Some (if c = 0 then p + length s else if c \<in> set s then p + length (takeWhile (\<lambda>d. d \<noteq> c) s) else 0)"
  using cstr_nonnull [of m p s] by (simp add: strchr_def strchr_loop_ok)

lemma strchr_found: "cstr m p s \<Longrightarrow> \<exists>q. strchr p c m = Some q \<and> (q = 0 \<longleftrightarrow> c \<noteq> 0 \<and> c \<notin> set s)"
  using cstr_nonnull [of m p s] by (auto simp: strchr_ok)

lemma cstr_append: "cstr m p (s @ t) \<longleftrightarrow> p \<noteq> 0 \<and> 0 \<notin> set s \<and> bytes_at m p (length s) = s \<and> cstr m (p + length s) t"
proof (induction s arbitrary: p)
  case (Cons c s)
  then show ?case by (auto simp: bytes_at_Suc add.assoc)
qed (auto dest: cstr_nonnull)

lemma strlcpy_ok:
  assumes s: "cstr m src s" and d: "dst \<noteq> 0" "0 < n" "dst + n \<le> src \<or> src + length s < dst"
  shows "\<exists>m'. strlcpy dst src n m = Some (length s, m') \<and> cstr m' dst (take (n - 1) s) \<and>
    (\<forall>x. x < dst \<or> dst + n \<le> x \<longrightarrow> m' x = m x)"
proof -
  let ?k = "min (length s) (n - 1)"
  let ?m = "(\<lambda>x. if dst \<le> x \<and> x < dst + ?k then m (src + (x - dst)) else m x)(dst + ?k := 0)"
  have "memcpy dst src ?k m = Some (dst, \<lambda>x. if dst \<le> x \<and> x < dst + ?k then m (src + (x - dst)) else m x)"
    using cstr_nonnull [OF s] d by (intro memcpy_ok) auto
  then have "strlcpy dst src n m = Some (length s, ?m)"
    using cstr_nonnull [OF s] d(1,2) by (cases "length s < n - Suc 0") (simp_all add: strlcpy_def strlen_ok [OF s] Let_def)
  moreover have "cstr ?m dst (take (n - 1) s)"
  proof -
    have "bytes_at ?m dst (Suc ?k) = take (n - 1) s @ [0]"
      using cstr_nth [OF s] by (intro nth_equalityI) (auto simp: bytes_at_def nth_append less_Suc_eq simp del: upt_Suc)
    moreover have "0 \<notin> set (take (n - 1) s)" using s in_set_takeD [of 0 "n - 1" s] by (auto simp: cstr_def)
    ultimately show ?thesis using d(1) by (simp add: cstr_def min.commute)
  qed
  moreover have "\<forall>x. x < dst \<or> dst + n \<le> x \<longrightarrow> ?m x = m x" using d(2) by auto
  ultimately show ?thesis by blast
qed

lemma strlcat_ok:
  assumes s: "cstr m src s" and d: "cstr m dst t" "length t < n" "dst + n \<le> src \<or> src + length s < dst"
  shows "\<exists>m'. strlcat dst src n m = Some (length s + length t, m') \<and>
    cstr m' dst (take (n - 1) (t @ s)) \<and> (\<forall>x. x < dst \<or> dst + n \<le> x \<longrightarrow> m' x = m x)"
proof -
  let ?d = "dst + length t" and ?k = "min (length s) (n - length t - 1)"
  let ?m = "(\<lambda>x. if ?d \<le> x \<and> x < ?d + ?k then m (src + (x - ?d)) else m x)(?d + ?k := 0)"
  have "memcpy ?d src ?k m = Some (?d, \<lambda>x. if ?d \<le> x \<and> x < ?d + ?k then m (src + (x - ?d)) else m x)"
    using cstr_nonnull [OF s] cstr_nonnull [OF d(1)] d(2,3) by (intro memcpy_ok) auto
  then have "strlcat dst src n m = Some (length s + length t, ?m)"
    using cstr_nonnull [OF s] cstr_nonnull [OF d(1)] d(2)
    by (cases "length s < n - Suc (length t)")
      (simp_all add: strlcat_def strlen_ok [OF s] strlen_ok [OF d(1)] Let_def)
  moreover have "cstr ?m dst (t @ take (n - length t - 1) s)"
  proof -
    have "bytes_at ?m ?d (Suc ?k) = take (n - length t - 1) s @ [0]"
      using cstr_nth [OF s] by (intro nth_equalityI) (auto simp: bytes_at_def nth_append less_Suc_eq simp del: upt_Suc)
    moreover have "0 \<notin> set (take (n - length t - 1) s)"
      using s in_set_takeD [of 0 "n - length t - 1" s] by (auto simp: cstr_def)
    ultimately have "cstr ?m ?d (take (n - length t - 1) s)"
      using cstr_nonnull [OF d(1)] by (simp add: cstr_def min.commute)
    moreover have "bytes_at ?m dst (length t) = t"
      using cstr_nth [OF d(1)] by (intro nth_equalityI) (auto simp: bytes_at_def)
    moreover have "0 \<notin> set t" using d(1) by (simp add: cstr_def)
    ultimately show ?thesis unfolding cstr_append using cstr_nonnull [OF d(1)] by blast
  qed
  moreover have "take (n - 1) (t @ s) = t @ take (n - length t - 1) s" using d(2) by simp
  moreover have "\<forall>x. x < dst \<or> dst + n \<le> x \<longrightarrow> ?m x = m x" using d(2) by auto
  ultimately show ?thesis by auto
qed

section \<open>Tokens\<close>

text \<open>The maximal runs without a delimiter.\<close>

function tokens :: "byte set \<Rightarrow> byte list \<Rightarrow> byte list list" where
  "tokens D s = (case dropWhile (\<lambda>c. c \<in> D) s of [] \<Rightarrow> []
     | c # r \<Rightarrow> (c # takeWhile (\<lambda>c. c \<notin> D) r) # tokens D (drop 1 (dropWhile (\<lambda>c. c \<notin> D) r)))"
  by pat_completeness auto
termination
proof (relation "measure (\<lambda>(D, s). length s)")
  fix D :: "byte set" and s x r
  assume "dropWhile (\<lambda>c. c \<in> D) s = x # r"
  then have "length s \<ge> Suc (length r)" using length_dropWhile_le [of "\<lambda>c. c \<in> D" s] by simp
  then show "((D, drop 1 (dropWhile (\<lambda>c. c \<notin> D) r)), D, s) \<in> measure (\<lambda>(D, s). length s)"
    using length_dropWhile_le [of "\<lambda>c. c \<notin> D" r] by simp
qed simp

declare tokens.simps [simp del]

lemma skip_delims_ok:
  assumes "cstr m d ds"
  shows "cstr m p s \<Longrightarrow> skip_delims m d p =
    Some (dropWhile (\<lambda>c. c \<in> set ds) s = [], p + length (takeWhile (\<lambda>c. c \<in> set ds) s))"
proof (induction s arbitrary: p)
  case Nil
  then show ?case using strchr_found [OF assms, of 0] by (subst skip_delims.simps) auto
next
  case (Cons c s)
  then show ?case using strchr_found [OF assms, of c]
    by (subst skip_delims.simps) (auto simp: Cons.IH [of "p + 1", simplified])
qed

lemma skip_token_ok:
  assumes "cstr m d ds"
  shows "cstr m p s \<Longrightarrow> skip_token m d p = Some (p + length (takeWhile (\<lambda>c. c \<notin> set ds) s))"
proof (induction s arbitrary: p)
  case Nil
  then show ?case using strchr_found [OF assms, of 0] by (subst skip_token.simps) auto
next
  case (Cons c s)
  then show ?case using strchr_found [OF assms, of c]
    by (subst skip_token.simps) (auto simp: Cons.IH [of "p + 1", simplified])
qed

lemma strtok_end:
  assumes "cstr m d ds" "cstr m p s" "s0 = p \<or> s0 = 0 \<and> save = p" "dropWhile (\<lambda>c. c \<in> set ds) s = []"
  shows "\<exists>save'. strtok_r s0 d save m = Some (0, save', m)"
  using assms skip_delims_ok [OF assms(1,2)] cstr_nonnull [OF assms(1)] cstr_nonnull [OF assms(2)]
  by (auto simp: strtok_r_def Let_def)

lemma strtok_token:
  assumes d: "cstr m d ds" and p: "cstr m p s" and s0: "s0 = p \<or> s0 = 0 \<and> save = p"
    and s: "dropWhile (\<lambda>c. c \<in> set ds) s = c # r"
    and dis: "p + length s < d \<or> d + length ds < p"
  defines "u \<equiv> takeWhile (\<lambda>c. c \<notin> set ds) r" and "v \<equiv> dropWhile (\<lambda>c. c \<notin> set ds) r"
  shows "\<exists>tok save' m'. strtok_r s0 d save m = Some (tok, save', m') \<and> p \<le> tok \<and> tok + length u < save' \<and>
    (tok + length u + 1 < save' \<or> drop 1 v = []) \<and>
    cstr m' tok (c # u) \<and> cstr m' save' (drop 1 v) \<and> save' + length (drop 1 v) = p + length s \<and> cstr m' d ds \<and>
    (\<forall>x. x < p \<or> p + length s \<le> x \<longrightarrow> m' x = m x)"
proof -
  let ?pre = "takeWhile (\<lambda>c. c \<in> set ds) s"
  let ?tok = "p + length ?pre" and ?e = "p + length ?pre + length (c # u)"
  have split: "s = ?pre @ c # u @ v" using takeWhile_dropWhile_id [of "\<lambda>c. c \<in> set ds" s] s
    by (simp add: u_def v_def)
  have c: "c \<notin> set ds" using s hd_dropWhile [of "\<lambda>c. c \<in> set ds" s] by auto
  have pt: "cstr m ?tok (c # u @ v)" and pe: "cstr m ?e v"
    using p by (subst (asm) split; simp add: cstr_append add.assoc)+
  have tw: "takeWhile (\<lambda>c. c \<notin> set ds) (c # u @ v) = c # u"
    using c takeWhile_dropWhile_id [of "\<lambda>c. c \<notin> set ds" r] by (simp add: u_def v_def)
  have st: "strtok_r s0 d save m = (if m ?e \<noteq> 0 then Some (?tok, ?e + 1, m(?e := 0)) else Some (?tok, ?e, m))"
    using s0 s cstr_nonnull [OF d] cstr_nonnull [OF p] skip_token_ok [OF d pt, unfolded tw]
    by (auto simp: strtok_r_def skip_delims_ok [OF d p] Let_def)
  have len: "length s = length ?pre + length (c # u) + length v" by (subst split) simp
  show ?thesis
  proof (cases v)
    case Nil
    then have "m ?e = 0" using pe by simp
    then show ?thesis using st pt pe Nil d len by (intro exI [of _ ?tok] exI [of _ ?e] exI [of _ m]) auto
  next
    case (Cons x w)
    let ?m = "m(?e := 0)"
    have "m ?e \<noteq> 0" using pe Cons by simp
    moreover have "cstr ?m ?tok (c # u)"
    proof -
      have "bytes_at ?m ?tok (length (c # u)) = bytes_at m ?tok (length (c # u))"
        by (auto simp: bytes_at_eq)
      moreover have "bytes_at m ?tok (length (c # u)) = c # u" "0 \<notin> set (c # u)" "?tok \<noteq> 0"
        using pt cstr_append [of m ?tok "c # u" v] by auto
      ultimately show ?thesis using cstr_append [of ?m ?tok "c # u" "[]"] by simp
    qed
    moreover have "cstr ?m (?e + 1) w" using pe Cons cstr_frame [of "?e + 1" w ?m m] by auto
    moreover have "cstr ?m d ds" using d dis len Cons cstr_frame [of d ds ?m m] by auto
    ultimately show ?thesis using st Cons len
      by (intro exI [of _ ?tok] exI [of _ "?e + 1"] exI [of _ ?m]) auto
  qed
qed

text \<open>The loop every caller runs: \<open>strtok_r (s, delims, &p)\<close> and then with a null pointer.\<close>

partial_function (option) token_loop ::
    "nat \<Rightarrow> nat \<Rightarrow> nat \<Rightarrow> cmem \<Rightarrow> nat list \<Rightarrow> (nat list \<times> cmem) option" where
  [code]: "token_loop s d save m acc = do {
     (tok, save, m) \<leftarrow> strtok_r s d save m;
     if tok = 0 then Some (acc, m) else token_loop 0 d save m (acc @ [tok]) }"

lemma token_loop_ok:
  assumes "cstr m d ds" "cstr m p s" "s0 = p \<or> s0 = 0 \<and> save = p" "p + length s < d \<or> d + length ds < p"
  shows "\<exists>ts m'. token_loop s0 d save m acc = Some (acc @ ts, m') \<and>
    list_all2 (cstr m') ts (tokens (set ds) s) \<and> (\<forall>x. x < p \<or> p + length s \<le> x \<longrightarrow> m' x = m x)"
  using assms
proof (induction "set ds" s arbitrary: m p s0 save acc rule: tokens.induct)
  case (1 s)
  show ?case
  proof (cases "dropWhile (\<lambda>c. c \<in> set ds) s")
    case Nil
    then have "tokens (set ds) s = []" by (subst tokens.simps) (simp only: list.case)
    then show ?thesis using strtok_end [OF "1.prems"(1-3) Nil]
      by (subst token_loop.simps) auto
  next
    case (Cons c r)
    let ?u = "takeWhile (\<lambda>c. c \<notin> set ds) r" and ?v = "drop 1 (dropWhile (\<lambda>c. c \<notin> set ds) r)"
    obtain tok save' m1 where m1: "strtok_r s0 d save m = Some (tok, save', m1)" "p \<le> tok" "tok + length ?u < save'"
      "tok + length ?u + 1 < save' \<or> ?v = []"
      "cstr m1 tok (c # ?u)" "cstr m1 save' ?v" "save' + length ?v = p + length s" "cstr m1 d ds"
      "\<forall>x. x < p \<or> p + length s \<le> x \<longrightarrow> m1 x = m x"
      using strtok_token [OF "1.prems"(1-3) Cons "1.prems"(4)] by blast
    have "save' + length ?v < d \<or> d + length ds < save'" using m1(2,3,7) "1.prems"(4) by linarith
    from "1.hyps" [OF Cons m1(8) m1(6) _ this, of 0 save' "acc @ [tok]"] obtain ts m' where
      m': "token_loop 0 d save' m1 (acc @ [tok]) = Some ((acc @ [tok]) @ ts, m')"
      "list_all2 (cstr m') ts (tokens (set ds) ?v)"
      "\<forall>x. x < save' \<or> save' + length ?v \<le> x \<longrightarrow> m' x = m1 x" by blast
    have "\<forall>q \<in> {tok..tok + length (c # ?u)}. m' q = m1 q"
    proof
      fix q assume "q \<in> {tok..tok + length (c # ?u)}"
      then have "q < save' \<or> save' + length ?v \<le> q" using m1(3,4,7) by auto
      then show "m' q = m1 q" using m'(3) by blast
    qed
    then have "cstr m' tok (c # ?u)" using m1(5) cstr_frame [of tok "c # ?u" m' m1] by blast
    moreover have "tokens (set ds) s = (c # ?u) # tokens (set ds) ?v" by (subst tokens.simps) (simp add: Cons)
    moreover have "\<forall>x. x < p \<or> p + length s \<le> x \<longrightarrow> m' x = m x" using m1(2,3,7,9) m'(3) by auto
    moreover have "tok \<noteq> 0" using m1(5) by (simp add: cstr_def)
    ultimately show ?thesis using m1(1) m'(1,2)
      by (subst token_loop.simps) auto
  qed
qed

end
