(* ===== verification/Directory.thy ===== *)
theory Directory
  imports FreeMap CString
begin

text \<open>
  \<^verbatim>\<open>filesys/directory.c\<close> and \<^verbatim>\<open>filesys/filesys.c\<close>: directories are files of 20-byte
  entries (sector, 15-byte name, in-use flag), the first of which names the parent.

  A local \<^verbatim>\<open>struct dir_entry e\<close> is its 20 bytes; where the code uses bytes of it that it
  never wrote, they are the argument \<open>junk\<close>. Names and paths are byte strings without their
  terminator; the tokens of a path are those \<^verbatim>\<open>strtok_r\<close> yields (theory CString). The
  working directory of the running thread is the argument \<open>cwd\<close>. The number \<open>n\<close> bounds
  the nesting of free map writes (theory FreeMap).
\<close>

section \<open>Directory entries\<close>

definition NAME_MAX :: nat where "NAME_MAX = 14"
definition ENTRY_SIZE :: nat where "ENTRY_SIZE = 20"

record dir =
  dinode :: nat
  dpos :: int

definition e_sector :: "byte list \<Rightarrow> nat" where
  "e_sector e = unat (un_le32 (e ! 0) (e ! 1) (e ! 2) (e ! 3))"

definition e_name :: "byte list \<Rightarrow> byte list" where
  "e_name e = takeWhile (\<lambda>c. c \<noteq> 0) (take (NAME_MAX + 1) (drop 4 e))"

definition e_in_use :: "byte list \<Rightarrow> bool" where
  "e_in_use e \<longleftrightarrow> e ! 19 \<noteq> 0"

definition set_e_sector :: "nat \<Rightarrow> byte list \<Rightarrow> byte list" where
  "set_e_sector s e = le32 (of_nat s) @ drop 4 e"

text \<open>\<open>strlcpy (e.name, name, sizeof e.name)\<close>: the name cut to 14 bytes and a terminator.\<close>

definition set_e_name :: "byte list \<Rightarrow> byte list \<Rightarrow> byte list" where
  "set_e_name nm e = (let s = take NAME_MAX nm @ [0] in take 4 e @ s @ drop (4 + length s) e)"

definition set_e_in_use :: "bool \<Rightarrow> byte list \<Rightarrow> byte list" where
  "set_e_in_use b e = e[19 := of_bool b]"

text \<open>\<open>inode_read_at (inode, &e, sizeof e, ofs)\<close>; a short read leaves the rest of \<open>e\<close>.\<close>

definition read_entry :: "nat \<Rightarrow> int \<Rightarrow> byte list \<Rightarrow> fsys \<Rightarrow> (bool \<times> byte list \<times> fsys) option" where
  "read_entry ip ofs e st = do {
     (bs, st) \<leftarrow> inode_read_at ip (int ENTRY_SIZE) ofs st;
     Some (length bs = ENTRY_SIZE, bs @ drop (length bs) e, st) }"

definition write_entry :: "nat \<Rightarrow> nat \<Rightarrow> int \<Rightarrow> byte list \<Rightarrow> fsys \<Rightarrow> (bool \<times> fsys) option" where
  "write_entry n ip ofs e st = do {
     (k, st) \<leftarrow> inode_write_at (free_map_allocate n 1) ip e (int ENTRY_SIZE) ofs st;
     Some (k = int ENTRY_SIZE, st) }"

section \<open>Opening and closing\<close>

definition dir_open :: "nat \<Rightarrow> nat option \<Rightarrow> fsys \<Rightarrow> (dir option \<times> fsys) option" where
  "dir_open n ipo st = do {
     let (ok, st) = alloc_mem st;
     case ipo of
       Some ip \<Rightarrow>
         if ok then Some (Some \<lparr>dinode = ip, dpos = int ENTRY_SIZE\<rparr>, st)
         else do { st \<leftarrow> inode_close n ipo st; Some (None, st) }
     | None \<Rightarrow> do { st \<leftarrow> inode_close n ipo st; Some (None, st) } }"

definition dir_open_root :: "nat \<Rightarrow> fsys \<Rightarrow> (dir option \<times> fsys) option" where
  "dir_open_root n st = do { (ipo, st) \<leftarrow> inode_open ROOT_DIR_SECTOR st; dir_open n ipo st }"

definition dir_reopen :: "nat \<Rightarrow> dir \<Rightarrow> fsys \<Rightarrow> (dir option \<times> fsys) option" where
  "dir_reopen n d st = do { st \<leftarrow> inode_reopen (dinode d) st; dir_open n (Some (dinode d)) st }"

definition dir_close :: "nat \<Rightarrow> dir option \<Rightarrow> fsys \<Rightarrow> fsys option" where
  "dir_close n dopt st = (case dopt of None \<Rightarrow> Some st | Some d \<Rightarrow> inode_close n (Some (dinode d)) st)"

definition dir_get_inode :: "dir option \<Rightarrow> nat option" where
  "dir_get_inode dopt = (case dopt of None \<Rightarrow> None | Some d \<Rightarrow> Some (dinode d))"

definition dir_create :: "nat \<Rightarrow> nat \<Rightarrow> nat \<Rightarrow> byte list \<Rightarrow> fsys \<Rightarrow> (bool \<times> fsys) option" where
  "dir_create n sec entry_cnt junk st = do {
     (ok, st) \<leftarrow> inode_create (free_map_allocate n 1) sec (int (entry_cnt * ENTRY_SIZE)) True st;
     if \<not> ok then Some (False, st)
     else do {
       (ipo, st) \<leftarrow> inode_open sec st;
       (dopt, st) \<leftarrow> dir_open n ipo st;
       d \<leftarrow> dopt;
       (ok, st) \<leftarrow> write_entry n (dinode d) 0 (set_e_sector sec junk) st;
       st \<leftarrow> dir_close n (Some d) st;
       Some (ok, st) } }"

section \<open>Searching\<close>

text \<open>The loop of \<^verbatim>\<open>lookup\<close>: the entry found and its offset.\<close>

partial_function (option) lookup_from ::
    "nat \<Rightarrow> byte list \<Rightarrow> int \<Rightarrow> byte list \<Rightarrow> fsys \<Rightarrow> ((byte list \<times> int) option \<times> fsys) option" where
  [code]: "lookup_from ip name ofs e st = do {
     (ok, e, st) \<leftarrow> read_entry ip ofs e st;
     if \<not> ok then Some (None, st)
     else if e_in_use e \<and> name = e_name e then Some (Some (e, ofs), st)
     else lookup_from ip name (ofs + int ENTRY_SIZE) e st }"

definition lookup_entry ::
    "dir \<Rightarrow> byte list \<Rightarrow> byte list \<Rightarrow> fsys \<Rightarrow> ((byte list \<times> int) option \<times> fsys) option" where
  "lookup_entry d name junk st = lookup_from (dinode d) name (int ENTRY_SIZE) junk st"

partial_function (option) is_empty_from :: "nat \<Rightarrow> int \<Rightarrow> byte list \<Rightarrow> fsys \<Rightarrow> (bool \<times> fsys) option" where
  [code]: "is_empty_from ip ofs e st = do {
     (ok, e, st) \<leftarrow> read_entry ip ofs e st;
     if \<not> ok then Some (True, st)
     else if e_in_use e then Some (False, st)
     else is_empty_from ip (ofs + int ENTRY_SIZE) e st }"

definition dir_is_empty :: "dir \<Rightarrow> byte list \<Rightarrow> fsys \<Rightarrow> (bool \<times> fsys) option" where
  "dir_is_empty d junk st = is_empty_from (dinode d) (int ENTRY_SIZE) junk st"

definition DOT :: "byte list" where "DOT = [46]"
definition DOTDOT :: "byte list" where "DOTDOT = [46, 46]"

definition dir_lookup :: "dir \<Rightarrow> byte list \<Rightarrow> byte list \<Rightarrow> fsys \<Rightarrow> (nat option \<times> fsys) option" where
  "dir_lookup d name junk st =
     (if name = DOT then do { st \<leftarrow> inode_reopen (dinode d) st; Some (Some (dinode d), st) }
      else if name = DOTDOT then do {
        (_, e, st) \<leftarrow> read_entry (dinode d) 0 junk st;
        inode_open (e_sector e) st }
      else do {
        (r, st) \<leftarrow> lookup_entry d name junk st;
        case r of None \<Rightarrow> Some (None, st)
        | Some (e, _) \<Rightarrow> inode_open (e_sector e) st })"

section \<open>Adding and removing\<close>

text \<open>The first offset whose slot is free, or the end of the file, and the last bytes read.\<close>

partial_function (option) free_slot :: "nat \<Rightarrow> int \<Rightarrow> byte list \<Rightarrow> fsys \<Rightarrow> (int \<times> byte list \<times> fsys) option" where
  [code]: "free_slot ip ofs e st = do {
     (ok, e, st) \<leftarrow> read_entry ip ofs e st;
     if \<not> ok then Some (ofs, e, st)
     else if \<not> e_in_use e then Some (ofs, e, st)
     else free_slot ip (ofs + int ENTRY_SIZE) e st }"

definition set_parent :: "nat \<Rightarrow> dir \<Rightarrow> nat \<Rightarrow> byte list \<Rightarrow> fsys \<Rightarrow> (bool \<times> byte list \<times> fsys) option" where
  "set_parent n d sec junk st = do {
     (ipo, st) \<leftarrow> inode_open sec st;
     (child, st) \<leftarrow> dir_open n ipo st;
     case child of None \<Rightarrow> Some (False, junk, st)
     | Some c \<Rightarrow> do {
         up \<leftarrow> inode_get_inumber (dinode d) st;
         let e = set_e_sector up junk;
         (ok, st) \<leftarrow> write_entry n (dinode c) 0 e st;
         st \<leftarrow> dir_close n (Some c) st;
         Some (ok, e, st) } }"

definition dir_add :: "nat \<Rightarrow> dir \<Rightarrow> byte list \<Rightarrow> nat \<Rightarrow> bool \<Rightarrow> byte list \<Rightarrow> fsys \<Rightarrow> (bool \<times> fsys) option" where
  "dir_add n d name sec isdir junk st =
     (if name = [] \<or> length name > NAME_MAX then Some (False, st)
      else do {
        (r, st) \<leftarrow> lookup_entry d name junk st;
        if r \<noteq> None then Some (False, st)
        else do {
          (ok, e, st) \<leftarrow> (if isdir then set_parent n d sec junk st else Some (True, junk, st));
          if \<not> ok then Some (False, st)
          else do {
            (ofs, e, st) \<leftarrow> free_slot (dinode d) 0 e st;
            let e = set_e_sector sec (set_e_name name (set_e_in_use True e));
            write_entry n (dinode d) ofs e st } } })"

definition dir_remove :: "nat \<Rightarrow> dir \<Rightarrow> byte list \<Rightarrow> byte list \<Rightarrow> fsys \<Rightarrow> (bool \<times> fsys) option" where
  "dir_remove n d name junk st = do {
     (r, st) \<leftarrow> lookup_entry d name junk st;
     case r of None \<Rightarrow> Some (False, st)
     | Some (e, ofs) \<Rightarrow> do {
         (ipo, st) \<leftarrow> inode_open (e_sector e) st;
         case ipo of None \<Rightarrow> Some (False, st)
         | Some ip \<Rightarrow> do {
             isdir \<leftarrow> inode_is_directory ip st;
             (may, st) \<leftarrow>
               (if isdir then do {
                  (target, st) \<leftarrow> dir_open n (Some ip) st;
                  t \<leftarrow> target;
                  (emp, st) \<leftarrow> dir_is_empty t junk st;
                  st \<leftarrow> dir_close n target st;
                  Some (emp, st) }
                else Some (True, st));
             if \<not> may then do { st \<leftarrow> inode_close n ipo st; Some (False, st) }
             else do {
               (ok, st) \<leftarrow> write_entry n (dinode d) ofs (set_e_in_use False e) st;
               if \<not> ok then do { st \<leftarrow> inode_close n ipo st; Some (False, st) }
               else do {
                 st \<leftarrow> inode_remove ip st;
                 st \<leftarrow> inode_close n ipo st;
                 Some (True, st) } } } } }"

partial_function (option) readdir_loop ::
    "dir \<Rightarrow> byte list \<Rightarrow> fsys \<Rightarrow> (byte list option \<times> dir \<times> fsys) option" where
  [code]: "readdir_loop d e st = do {
     (ok, e, st) \<leftarrow> read_entry (dinode d) (dpos d) e st;
     if \<not> ok then Some (None, d, st)
     else do {
       let d = d\<lparr>dpos := dpos d + int ENTRY_SIZE\<rparr>;
       if e_in_use e then Some (Some (e_name e), d, st) else readdir_loop d e st } }"

definition dir_readdir :: "dir \<Rightarrow> byte list \<Rightarrow> fsys \<Rightarrow> (byte list option \<times> dir \<times> fsys) option" where
  "dir_readdir d junk st = readdir_loop d junk st"

section \<open>Paths\<close>

definition SLASH :: byte where "SLASH = 47"

fun split_loop :: "byte list list \<Rightarrow> byte list \<Rightarrow> byte list \<Rightarrow> byte list \<times> byte list" where
  "split_loop [] d last_token = (d, last_token)"
| "split_loop (t # ts) d last_token =
     split_loop ts (if length last_token > 0 then d @ last_token @ [SLASH] else d) t"

definition split_path_filename :: "byte list \<Rightarrow> byte list \<times> byte list" where
  "split_path_filename path =
     split_loop (tokens {SLASH} path)
       (if length path > 0 \<and> path ! 0 = SLASH then [SLASH] else []) []"

fun walk :: "nat \<Rightarrow> byte list list \<Rightarrow> dir \<Rightarrow> byte list \<Rightarrow> fsys \<Rightarrow> (dir option \<times> fsys) option" where
  "walk n [] cur junk st = Some (Some cur, st)"
| "walk n (t # ts) cur junk st = do {
     (ipo, st) \<leftarrow> dir_lookup cur t junk st;
     case ipo of None \<Rightarrow> do { st \<leftarrow> dir_close n (Some cur) st; Some (None, st) }
     | Some ip \<Rightarrow> do {
         (nx, st) \<leftarrow> dir_open n (Some ip) st;
         case nx of None \<Rightarrow> do { st \<leftarrow> dir_close n (Some cur) st; Some (None, st) }
         | Some d \<Rightarrow> do {
             st \<leftarrow> dir_close n (Some cur) st;
             walk n ts d junk st } } }"

text \<open>A failed \<^verbatim>\<open>dir_open_root\<close> or \<^verbatim>\<open>dir_reopen\<close> is not checked before \<open>cur\<close> is used.\<close>

definition dir_open_path :: "nat \<Rightarrow> dir option \<Rightarrow> byte list \<Rightarrow> byte list \<Rightarrow> fsys \<Rightarrow> (dir option \<times> fsys) option" where
  "dir_open_path n cwd path junk st = do {
     (cur, st) \<leftarrow>
       (if path \<noteq> [] \<and> path ! 0 = SLASH then dir_open_root n st
        else case cwd of None \<Rightarrow> dir_open_root n st | Some d \<Rightarrow> dir_reopen n d st);
     cur \<leftarrow> cur;
     (cur, st) \<leftarrow> walk n (tokens {SLASH} path) cur junk st;
     case cur of None \<Rightarrow> Some (None, st)
     | Some d \<Rightarrow> do {
         rm \<leftarrow> inode_is_removed (dinode d) st;
         if rm then do { st \<leftarrow> dir_close n (Some d) st; Some (None, st) }
         else Some (Some d, st) } }"

section \<open>The file system interface\<close>

definition filesys_create ::
    "nat \<Rightarrow> dir option \<Rightarrow> byte list \<Rightarrow> int \<Rightarrow> bool \<Rightarrow> byte list \<Rightarrow> fsys \<Rightarrow> (bool \<times> fsys) option" where
  "filesys_create n cwd path initial_size isdir junk st = do {
     let (directory, file_name) = split_path_filename path;
     (d, st) \<leftarrow> dir_open_path n cwd directory junk st;
     (ok, sec, st) \<leftarrow>
       (case d of None \<Rightarrow> Some (False, 0, st)
        | Some d \<Rightarrow> do {
            (r, st) \<leftarrow> free_map_allocate n 1 st;
            case r of None \<Rightarrow> Some (False, 0, st)
            | Some sec \<Rightarrow> do {
                (ok, st) \<leftarrow> inode_create (free_map_allocate n 1) sec initial_size isdir st;
                if \<not> ok then Some (False, sec, st)
                else do {
                  (ok, st) \<leftarrow> dir_add n d file_name sec isdir junk st;
                  Some (ok, sec, st) } } });
     st \<leftarrow> (if \<not> ok \<and> sec \<noteq> 0 then free_map_release n sec 1 st else Some st);
     st \<leftarrow> dir_close n d st;
     Some (ok, st) }"

definition filesys_open ::
    "nat \<Rightarrow> dir option \<Rightarrow> byte list \<Rightarrow> byte list \<Rightarrow> fsys \<Rightarrow> (open_file option \<times> fsys) option" where
  "filesys_open n cwd name junk st =
     (if length name = 0 then Some (None, st)
      else do {
        let (directory, file_name) = split_path_filename name;
        (dopt, st) \<leftarrow> dir_open_path n cwd directory junk st;
        case dopt of None \<Rightarrow> Some (None, st)
        | Some d \<Rightarrow> do {
            (ipo, st) \<leftarrow>
              (if length file_name > 0 then do {
                 (ipo, st) \<leftarrow> dir_lookup d file_name junk st;
                 st \<leftarrow> dir_close n (Some d) st;
                 Some (ipo, st) }
               else Some (Some (dinode d), st));
            case ipo of None \<Rightarrow> Some (None, st)
            | Some ip \<Rightarrow> do {
                rm \<leftarrow> inode_is_removed ip st;
                if rm then Some (None, st) else file_open n (Some ip) st } } })"

definition filesys_remove ::
    "nat \<Rightarrow> dir option \<Rightarrow> byte list \<Rightarrow> byte list \<Rightarrow> fsys \<Rightarrow> (bool \<times> fsys) option" where
  "filesys_remove n cwd name junk st = do {
     let (directory, file_name) = split_path_filename name;
     (d, st) \<leftarrow> dir_open_path n cwd directory junk st;
     (ok, st) \<leftarrow> (case d of None \<Rightarrow> Some (False, st) | Some d \<Rightarrow> dir_remove n d file_name junk st);
     st \<leftarrow> dir_close n d st;
     Some (ok, st) }"

definition filesys_chdir ::
    "nat \<Rightarrow> dir option \<Rightarrow> byte list \<Rightarrow> byte list \<Rightarrow> fsys \<Rightarrow> (bool \<times> dir option \<times> fsys) option" where
  "filesys_chdir n cwd name junk st = do {
     (d, st) \<leftarrow> dir_open_path n cwd name junk st;
     case d of None \<Rightarrow> Some (False, cwd, st)
     | Some _ \<Rightarrow> do { st \<leftarrow> dir_close n cwd st; Some (True, d, st) } }"

definition do_format :: "nat \<Rightarrow> byte list \<Rightarrow> fsys \<Rightarrow> fsys option" where
  "do_format n junk st = do {
     st \<leftarrow> free_map_create n st;
     (ok, st) \<leftarrow> dir_create n ROOT_DIR_SECTOR 16 junk st;
     ASSERT ok;
     free_map_close n st }"

definition filesys_init :: "nat \<Rightarrow> bool \<Rightarrow> u32 list option \<Rightarrow> byte list \<Rightarrow> fsys \<Rightarrow> fsys option" where
  "filesys_init n format_disk mem_words junk st = do {
     let st = inode_init st;
     st \<leftarrow> free_map_init mem_words st;
     let st = st\<lparr>bc := buffer_cache_init (bc st)\<rparr>;
     st \<leftarrow> (if format_disk then do_format n junk st else Some st);
     free_map_open n st }"

definition filesys_done :: "nat \<Rightarrow> fsys \<Rightarrow> fsys option" where
  "filesys_done n st = do {
     st \<leftarrow> free_map_close n st;
     c \<leftarrow> buffer_cache_close (bc st);
     Some (st\<lparr>bc := c\<rparr>) }"

end
