(* ===== verification/InodeFacts.thy ===== *)
theory InodeFacts
  imports Inode
begin

text \<open>
  What reads and in-place writes of \<^verbatim>\<open>filesys/inode.c\<close> compute. \<open>sec_at c d i\<close> is the
  sector of the \<open>i\<close>-th block of an inode, read off the cache's view; \<open>fbyte st d p\<close> is byte
  \<open>p\<close> of the file. A layout is well formed when the sectors of a file are on the device, are
  different from each other and from the file's pointer blocks.
\<close>

section \<open>The store below\<close>

definition fs_ok :: "fsys \<Rightarrow> bool" where
  "fs_ok st \<longleftrightarrow> cache_ok (bc st) \<and> csize (bc st) \<le> NO_SECTOR \<and> (\<forall>k. mem st k)"

text \<open>Everything but the cache and the allocation counter is the same.\<close>

definition fs_frame :: "fsys \<Rightarrow> fsys \<Rightarrow> bool" where
  "fs_frame st st' \<longleftrightarrow> fs_ok st' \<and> csize (bc st') = csize (bc st) \<and> heap st' = heap st \<and>
     free_map st' = free_map st \<and> free_map_file st' = free_map_file st \<and>
     open_inodes st' = open_inodes st \<and> mem st' = mem st"

definition fs_same :: "fsys \<Rightarrow> fsys \<Rightarrow> bool" where
  "fs_same st st' \<longleftrightarrow> fs_frame st st' \<and> (\<forall>s. cview (bc st') s = cview (bc st) s)"

lemma fs_frame_refl: "fs_ok st \<Longrightarrow> fs_frame st st"
  by (simp add: fs_frame_def)

lemma fs_frame_trans: "fs_frame a b \<Longrightarrow> fs_frame b c \<Longrightarrow> fs_frame a c"
  by (simp add: fs_frame_def)

lemma fs_same_refl: "fs_ok st \<Longrightarrow> fs_same st st"
  by (simp add: fs_same_def fs_frame_refl)

lemma fs_same_trans: "fs_same a b \<Longrightarrow> fs_same b c \<Longrightarrow> fs_same a c"
  by (auto simp: fs_same_def intro: fs_frame_trans)

lemma fs_sameD:
  assumes "fs_same st st'"
  shows "fs_ok st'" "heap st' = heap st" "csize (bc st') = csize (bc st)" "cview (bc st') s = cview (bc st) s"
    "fs_frame st st'"
  using assms by (simp_all add: fs_same_def fs_frame_def)

lemma bread_ok:
  assumes "fs_ok st" "s < csize (bc st)"
  shows "\<exists>st'. bread s st = Some (cview (bc st) s, st') \<and> fs_same st st' \<and> mcount st' = mcount st"
  using bc.rd [of "bc st" s] assms by (auto simp: bread_def fs_ok_def fs_same_def fs_frame_def)

lemma bwrite_ok:
  assumes "fs_ok st" "s < csize (bc st)" "length d = BLOCK_SECTOR_SIZE"
  shows "\<exists>st'. bwrite s d st = Some st' \<and> fs_frame st st' \<and> mcount st' = mcount st \<and>
    (\<forall>t. cview (bc st') t = (if t = s then d else cview (bc st) t))"
  using bc.wr [of "bc st" s d] assms by (auto simp: bwrite_def fs_ok_def fs_frame_def)

lemma cview_len: "fs_ok st \<Longrightarrow> s < csize (bc st) \<Longrightarrow> length (cview (bc st) s) = BLOCK_SECTOR_SIZE"
  using bc.len by (simp add: fs_ok_def)

lemma must_alloc_ok: "fs_ok st \<Longrightarrow> \<exists>st'. must_alloc st = Some st' \<and> fs_same st st'"
  by (auto simp: must_alloc_def alloc_mem_def fs_ok_def fs_same_def fs_frame_def)

lemma get_bounce_ok: "fs_ok st \<Longrightarrow> \<exists>st'. get_bounce b st = (True, st') \<and> fs_same st st'"
  by (auto simp: get_bounce_def alloc_mem_def fs_ok_def fs_same_def fs_frame_def)

text \<open>The file system's block access is again a store of sectors.\<close>

interpretation fsb: block_store "\<lambda>st s. bread s st" "\<lambda>st s d. bwrite s d st"
  "\<lambda>st. cview (bc st)" "\<lambda>st. csize (bc st)" fs_ok
proof (unfold_locales, goal_cases)
  case (1 st s) then show ?case using bread_ok [of st s] by (auto simp: fs_same_def fs_frame_def)
next
  case (2 st s d) then show ?case using bwrite_ok [of st s d] by (auto simp: fs_frame_def)
next
  case (3 st s) then show ?case by (rule cview_len)
next
  case (4 st s d) then show ?case using bc.past_end [of "bc st" s]
    by (simp add: bread_def bwrite_def fs_ok_def)
qed

section \<open>Layouts\<close>

definition sec_at :: "bcache \<Rightarrow> inode_disk \<Rightarrow> nat \<Rightarrow> nat" where
  "sec_at c d i =
     (if i < 123 then direct_blocks d ! i
      else if i < 251 then words_of (cview c (indirect_block d)) ! (i - 123)
      else words_of (cview c (words_of (cview c (doubly_indirect_block d)) ! ((i - 251) div 128))) ! ((i - 251) mod 128))"

definition meta_secs :: "bcache \<Rightarrow> inode_disk \<Rightarrow> nat \<Rightarrow> nat set" where
  "meta_secs c d n = (if 123 < n then {indirect_block d} else {}) \<union>
     (if 251 < n then insert (doubly_indirect_block d)
        ((\<lambda>j. words_of (cview c (doubly_indirect_block d)) ! j) ` {j. 251 + j * 128 < n}) else {})"

definition nsec :: "inode_disk \<Rightarrow> nat" where
  "nsec d = bytes_to_sectors (ilength d)"

definition layout_ok :: "bcache \<Rightarrow> inode_disk \<Rightarrow> bool" where
  "layout_ok c d \<longleftrightarrow> nsec d \<le> 16635 \<and> meta_secs c d (nsec d) \<subseteq> {..<csize c} \<and>
     sec_at c d ` {..<nsec d} \<subseteq> {..<csize c} \<and> inj_on (sec_at c d) {..<nsec d} \<and>
     sec_at c d ` {..<nsec d} \<inter> meta_secs c d (nsec d) = {}"

lemma sec_at_cong:
  assumes "\<And>s. s \<in> meta_secs c d n \<Longrightarrow> cview c' s = cview c s"
  shows "i < n \<Longrightarrow> sec_at c' d i = sec_at c d i" "meta_secs c' d n = meta_secs c d n"
proof -
  assume i: "i < n"
  show "sec_at c' d i = sec_at c d i"
  proof (cases "251 \<le> i")
    case True
    have "251 + (i - 251) div 128 * 128 < n" using i True by linarith
    then have "doubly_indirect_block d \<in> meta_secs c d n"
      "words_of (cview c (doubly_indirect_block d)) ! ((i - 251) div 128) \<in> meta_secs c d n"
      using i True by (auto simp: meta_secs_def)
    then show ?thesis using assms True by (simp add: sec_at_def)
  next
    case False
    then show ?thesis using assms i by (auto simp: sec_at_def meta_secs_def)
  qed
next
  show "meta_secs c' d n = meta_secs c d n"
  proof (cases "251 < n")
    case True
    then have "doubly_indirect_block d \<in> meta_secs c d n" by (simp add: meta_secs_def)
    then show ?thesis using assms by (simp add: meta_secs_def)
  qed (simp add: meta_secs_def)
qed

lemma layout_cong:
  assumes "\<And>s. s \<in> meta_secs c d (nsec d) \<Longrightarrow> cview c' s = cview c s" "csize c' = csize c" "layout_ok c d"
  shows "layout_ok c' d"
proof -
  note e = sec_at_cong [OF assms(1)]
  have "sec_at c' d ` {..<nsec d} = sec_at c d ` {..<nsec d}" using e(1) by (intro image_cong) auto
  moreover have "inj_on (sec_at c' d) {..<nsec d} = inj_on (sec_at c d) {..<nsec d}"
    using e(1) by (intro inj_on_cong) auto
  ultimately show ?thesis using assms(2,3) e(2) by (simp add: layout_ok_def)
qed

lemma nsec_iff: "i < nsec d \<longleftrightarrow> int i * 512 < ilength d"
  by (simp add: nsec_def bytes_to_sectors_def less_DIV_ROUND_UP_iff BLOCK_SECTOR_SIZE_def) linarith

lemma index_to_sector_ok:
  assumes ok: "fs_ok st" and l: "layout_ok (bc st) d" and i: "i < nsec d"
  shows "\<exists>st'. index_to_sector d i st = Some (sec_at (bc st) d i, st') \<and> fs_same st st'"
proof (cases "i < 123")
  case True
  then show ?thesis using ok by (simp add: index_to_sector_def sec_at_def DIRECT_BLOCKS_COUNT_def fs_same_refl)
next
  case False
  have m: "meta_secs (bc st) d (nsec d) \<subseteq> {..<csize (bc st)}" and n: "nsec d \<le> 16635"
    using l by (auto simp: layout_ok_def)
  obtain st1 where st1: "must_alloc st = Some st1" "fs_same st st1" using must_alloc_ok [OF ok] by blast
  note e1 = fs_sameD [OF st1(2)]
  show ?thesis
  proof (cases "i < 251")
    case True
    have "indirect_block d < csize (bc st1)" using m i False e1(3) by (auto simp: meta_secs_def)
    then obtain st2 where "bread (indirect_block d) st1 = Some (cview (bc st1) (indirect_block d), st2)" "fs_same st1 st2"
      using bread_ok [OF e1(1)] by blast
    then show ?thesis using st1 True False e1(4)
      by (auto simp: index_to_sector_def sec_at_def DIRECT_BLOCKS_COUNT_def INDIRECT_BLOCKS_PER_SECTOR_def intro: fs_same_trans)
  next
    case F2: False
    let ?j = "(i - 251) div 128" and ?w = "words_of (cview (bc st) (doubly_indirect_block d))"
    have "251 + ?j * 128 < nsec d" using i F2 by linarith
    then have b: "doubly_indirect_block d < csize (bc st1)" "?w ! ?j < csize (bc st1)"
      using m i F2 e1(3) by (auto simp: meta_secs_def)
    obtain st2 where st2: "bread (doubly_indirect_block d) st1 = Some (cview (bc st1) (doubly_indirect_block d), st2)"
      "fs_same st1 st2" using bread_ok [OF e1(1) b(1)] by blast
    note e2 = fs_sameD [OF st2(2)]
    have "?w ! ?j < csize (bc st2)" using b(2) e2(3) by simp
    from bread_ok [OF e2(1) this] obtain st3 where
      "bread (?w ! ?j) st2 = Some (cview (bc st2) (?w ! ?j), st3)" "fs_same st2 st3" by blast
    then show ?thesis using st1 st2 False F2 e1(4) e2(4) i n
      by (auto simp: index_to_sector_def sec_at_def DIRECT_BLOCKS_COUNT_def INDIRECT_BLOCKS_PER_SECTOR_def Let_def
          intro: fs_same_trans)
  qed
qed

section \<open>Bytes\<close>

definition fbyte :: "bcache \<Rightarrow> inode_disk \<Rightarrow> nat \<Rightarrow> byte" where
  "fbyte c d p = cview c (sec_at c d (p div 512)) ! (p mod 512)"

definition fbytes :: "bcache \<Rightarrow> inode_disk \<Rightarrow> nat \<Rightarrow> nat \<Rightarrow> byte list" where
  "fbytes c d a b = map (fbyte c d) [a..<b]"

lemma fbytes_append: "a \<le> b \<Longrightarrow> b \<le> e \<Longrightarrow> fbytes c d a b @ fbytes c d b e = fbytes c d a e"
  unfolding fbytes_def by (metis le_add_diff_inverse map_append upt_add_eq_append)

lemma fbytes_empty [simp]: "b \<le> a \<Longrightarrow> fbytes c d a b = []"
  by (simp add: fbytes_def)

lemma length_fbytes [simp]: "length (fbytes c d a b) = b - a"
  by (simp add: fbytes_def)

lemma fbytes_same:
  assumes s: "fs_same st st'"
  shows "fbytes (bc st') d a b = fbytes (bc st) d a b" "layout_ok (bc st) d \<Longrightarrow> layout_ok (bc st') d"
proof -
  have v: "cview (bc st') t = cview (bc st) t" for t using s by (simp add: fs_sameD)
  show "fbytes (bc st') d a b = fbytes (bc st) d a b"
    by (simp add: fbytes_def fbyte_def sec_at_def v)
  show "layout_ok (bc st) d \<Longrightarrow> layout_ok (bc st') d"
    by (rule layout_cong [of "bc st"]) (use s v in \<open>auto simp: fs_sameD\<close>)
qed

text \<open>A chunk is a part of one sector.\<close>

lemma chunk_bounds:
  assumes "0 < sz" "0 \<le> offset" "offset < len"
  shows "0 < chunk_size sz offset len" "chunk_size sz offset len \<le> sz"
    "offset + chunk_size sz offset len \<le> len"
    "offset mod 512 + chunk_size sz offset len \<le> 512"
  using assms by (auto simp: chunk_size_def BLOCK_SECTOR_SIZE_def Let_def)

lemma chunk_past_end: "0 < sz \<Longrightarrow> len \<le> offset \<Longrightarrow> chunk_size sz offset len \<le> 0"
  by (simp add: chunk_size_def Let_def)

lemma same_sector:
  fixes p k :: nat
  assumes "k < 512 - p mod 512"
  shows "(p + k) div 512 = p div 512" "(p + k) mod 512 = p mod 512 + k"
proof -
  have "(p mod 512 + k) div 512 = 0" using assms by simp
  then show "(p + k) div 512 = p div 512" by (simp add: div_add1_eq [of p k 512])
  then show "(p + k) mod 512 = p mod 512 + k" by (metis add.assoc add_left_cancel div_mult_mod_eq)
qed

lemma fbytes_chunk:
  assumes "length (cview c (sec_at c d (p div 512))) = 512" "p mod 512 + n \<le> 512"
  shows "take n (drop (p mod 512) (cview c (sec_at c d (p div 512)))) = fbytes c d p (p + n)"
proof (rule nth_equalityI)
  show "length (take n (drop (p mod 512) (cview c (sec_at c d (p div 512))))) = length (fbytes c d p (p + n))"
    using assms by simp
  fix k assume "k < length (take n (drop (p mod 512) (cview c (sec_at c d (p div 512)))))"
  then have k: "k < n" by simp
  then show "take n (drop (p mod 512) (cview c (sec_at c d (p div 512)))) ! k = fbytes c d p (p + n) ! k"
    using assms same_sector [of k p] by (simp add: fbytes_def fbyte_def)
qed

section \<open>Reading\<close>

lemma byte_to_sector_ok:
  assumes ok: "fs_ok st" and h: "heap st ip = Some i" and l: "layout_ok (bc st) (data i)"
    and p: "0 \<le> p" "p < ilength (data i)"
  shows "\<exists>st'. byte_to_sector ip p st = Some (sec_at (bc st) (data i) (nat p div 512), st') \<and> fs_same st st'"
    "nat p div 512 < nsec (data i)" "sec_at (bc st) (data i) (nat p div 512) < csize (bc st)"
proof -
  show n: "nat p div 512 < nsec (data i)" using p by (simp add: nsec_iff)
  show "\<exists>st'. byte_to_sector ip p st = Some (sec_at (bc st) (data i) (nat p div 512), st') \<and> fs_same st st'"
    using index_to_sector_ok [OF ok l n] h p by (simp add: byte_to_sector_def BLOCK_SECTOR_SIZE_def)
  show "sec_at (bc st) (data i) (nat p div 512) < csize (bc st)"
    using l n by (auto simp: layout_ok_def)
qed

lemma byte_to_sector_past_end:
  "heap st ip = Some i \<Longrightarrow> \<not> (0 \<le> p \<and> p < ilength (data i)) \<Longrightarrow> byte_to_sector ip p st = Some (NO_SECTOR, st)"
  by (auto simp: byte_to_sector_def)

lemma nat_chunk:
  assumes "0 < sz" "0 \<le> offset" "offset < len"
  shows "nat (offset mod 512) = nat offset mod 512"
    "nat offset mod 512 + nat (chunk_size sz offset len) \<le> 512"
    "nat (offset + chunk_size sz offset len) = nat offset + nat (chunk_size sz offset len)"
proof -
  show m: "nat (offset mod 512) = nat offset mod 512" using assms(2) by (simp add: nat_mod_distrib)
  have "nat (offset mod 512) + nat (chunk_size sz offset len) = nat (offset mod 512 + chunk_size sz offset len)"
    using chunk_bounds(1) [OF assms] by (simp add: nat_add_distrib)
  also have "\<dots> \<le> 512" using chunk_bounds(4) [OF assms] by simp
  finally show "nat offset mod 512 + nat (chunk_size sz offset len) \<le> 512" using m by simp
  show "nat (offset + chunk_size sz offset len) = nat offset + nat (chunk_size sz offset len)"
    using chunk_bounds(1) [OF assms] assms(2) by (simp add: nat_add_distrib)
qed

lemma read_loop_ok:
  assumes "fs_ok st" "heap st ip = Some i" "layout_ok (bc st) (data i)" "0 \<le> offset"
  shows "\<exists>st'. read_loop ip sz offset bounce buf st =
      Some (buf @ fbytes (bc st) (data i) (nat offset) (nat (min (offset + sz) (ilength (data i)))), st') \<and> fs_same st st'"
  using assms
proof (induction "nat sz" arbitrary: sz offset bounce buf st rule: less_induct)
  case less
  let ?d = "data i" and ?len = "ilength (data i)" and ?c = "chunk_size sz offset (ilength (data i))"
  show ?case
  proof (cases "0 < sz \<and> offset < ?len")
    case False
    have rng: "nat (min (offset + sz) ?len) \<le> nat offset" using False less.prems(4) by auto
    show ?thesis
    proof (cases "0 < sz")
      case True
      then have "byte_to_sector ip offset st = Some (NO_SECTOR, st)" "?c \<le> 0"
        using False less.prems(2) byte_to_sector_past_end chunk_past_end by auto
      then show ?thesis using True rng less.prems(1,2)
        by (subst read_loop.simps) (simp add: inode_length_def fs_same_refl)
    qed (use rng less.prems(1) in \<open>simp add: fs_same_refl read_loop.simps\<close>)
  next
    case True
    note cb = chunk_bounds [of sz offset ?len] and nc = nat_chunk [of sz offset ?len]
    obtain st1 where st1: "byte_to_sector ip offset st = Some (sec_at (bc st) ?d (nat offset div 512), st1)"
      "fs_same st st1" using byte_to_sector_ok(1) [OF less.prems(1-4)] True by blast
    note e1 = fs_sameD [OF st1(2)]
    let ?s = "sec_at (bc st) ?d (nat offset div 512)"
    have s: "?s < csize (bc st)" using byte_to_sector_ok(3) [OF less.prems(1-4)] True by blast
    have slen: "length (cview (bc st) ?s) = 512" using cview_len [OF less.prems(1) s] by (simp add: BLOCK_SECTOR_SIZE_def)
    have len1: "inode_length ip st1 = Some ?len" using less.prems(2) e1(2) by (simp add: inode_length_def)
    let ?bounce = "if offset mod 512 = 0 \<and> ?c = 512 then bounce else True"
    let ?buf = "buf @ fbytes (bc st) ?d (nat offset) (nat offset + nat ?c)"
    have piece: "take (nat ?c) (drop (nat offset mod 512) (cview (bc st) ?s)) = fbytes (bc st) ?d (nat offset) (nat offset + nat ?c)"
      using fbytes_chunk [OF slen] nc(2) True less.prems(4) by blast
    have "\<exists>st2. read_loop ip sz offset bounce buf st = read_loop ip (sz - ?c) (offset + ?c) ?bounce ?buf st2 \<and> fs_same st st2"
    proof (cases "offset mod 512 = 0 \<and> ?c = 512")
      case full: True
      obtain st2 where st2: "bread ?s st1 = Some (cview (bc st1) ?s, st2)" "fs_same st1 st2"
        using bread_ok [OF e1(1)] s e1(3) by fastforce
      have "nat offset mod 512 = 0" using full nc(1) True less.prems(4) by auto
      then have "cview (bc st) ?s = fbytes (bc st) ?d (nat offset) (nat offset + nat ?c)"
        using piece full slen by simp
      then have "read_loop ip sz offset bounce buf st = read_loop ip (sz - ?c) (offset + ?c) ?bounce ?buf st2"
        using st1(1) st2(1) full True len1 e1(4)
        by (subst read_loop.simps) (simp add: BLOCK_SECTOR_SIZE_def Let_def)
      then show ?thesis using fs_same_trans [OF st1(2) st2(2)] by blast
    next
      case part: False
      obtain st1b where b: "get_bounce bounce st1 = (True, st1b)" "fs_same st1 st1b" using get_bounce_ok [OF e1(1)] by blast
      note eb = fs_sameD [OF b(2)]
      obtain st2 where st2: "bread ?s st1b = Some (cview (bc st1b) ?s, st2)" "fs_same st1b st2"
        using bread_ok [OF eb(1)] s e1(3) eb(3) by fastforce
      have "read_loop ip sz offset bounce buf st = read_loop ip (sz - ?c) (offset + ?c) ?bounce ?buf st2"
        using st1(1) st2(1) b(1) part True len1 e1(4) eb(4) cb(1) less.prems(4) piece nc(1)
        by (subst read_loop.simps) (auto simp add: BLOCK_SECTOR_SIZE_def Let_def)
      then show ?thesis using fs_same_trans [OF st1(2) fs_same_trans [OF b(2) st2(2)]] by blast
    qed
    then obtain st2 where st2: "read_loop ip sz offset bounce buf st = read_loop ip (sz - ?c) (offset + ?c) ?bounce ?buf st2"
      "fs_same st st2" by blast
    note e2 = fs_sameD [OF st2(2)] and same = fbytes_same [OF st2(2)]
    have "nat (sz - ?c) < nat sz" using cb(1) True less.prems(4) by auto
    from less.hyps [OF this e2(1) _ same(2) [OF less.prems(3)], of "offset + ?c" ?bounce ?buf] less.prems(2,4) e2(2) cb(1) True
    obtain st3 where st3: "read_loop ip (sz - ?c) (offset + ?c) ?bounce ?buf st2 =
        Some (?buf @ fbytes (bc st2) ?d (nat (offset + ?c)) (nat (min (offset + sz) ?len)), st3)" "fs_same st2 st3"
      by auto
    have "fbytes (bc st) ?d (nat offset) (nat offset + nat ?c) @
        fbytes (bc st2) ?d (nat (offset + ?c)) (nat (min (offset + sz) ?len)) =
        fbytes (bc st) ?d (nat offset) (nat (min (offset + sz) ?len))"
      unfolding same(1) using nc(3) cb True less.prems(4) by (simp add: fbytes_append)
    then show ?thesis using st2 st3 fs_same_trans by auto
  qed
qed

lemma inode_read_at_ok:
  assumes "fs_ok st" "heap st ip = Some i" "layout_ok (bc st) (data i)" "0 \<le> offset"
  shows "\<exists>st'. inode_read_at ip sz offset st =
      Some (fbytes (bc st) (data i) (nat offset) (nat (min (offset + sz) (ilength (data i)))), st') \<and> fs_same st st'"
  using read_loop_ok [OF assms, of sz False "[]"] by (simp add: inode_read_at_def)

section \<open>Writing in place\<close>

text \<open>The file after the bytes \<open>src\<close> went to offset \<open>a\<close>.\<close>

definition overwritten :: "(nat \<Rightarrow> byte) \<Rightarrow> nat \<Rightarrow> byte list \<Rightarrow> nat \<Rightarrow> byte" where
  "overwritten f a src p = (if a \<le> p \<and> p < a + length src then src ! (p - a) else f p)"

definition file_secs :: "bcache \<Rightarrow> inode_disk \<Rightarrow> nat set" where
  "file_secs c d = sec_at c d ` {..<nsec d}"

text \<open>
  A write inside the file: the file's bytes change as told, its layout and every sector that
  is not one of its data sectors stay.
\<close>

definition wrote :: "inode_disk \<Rightarrow> nat \<Rightarrow> byte list \<Rightarrow> fsys \<Rightarrow> fsys \<Rightarrow> bool" where
  "wrote d a src st st' \<longleftrightarrow> fs_frame st st' \<and> layout_ok (bc st') d \<and>
     file_secs (bc st') d = file_secs (bc st) d \<and>
     (\<forall>p. p div 512 < nsec d \<longrightarrow> fbyte (bc st') d p = overwritten (fbyte (bc st) d) a src p) \<and>
     (\<forall>s. s \<notin> file_secs (bc st) d \<longrightarrow> cview (bc st') s = cview (bc st) s)"

lemma wrote_same: "fs_same st st' \<Longrightarrow> layout_ok (bc st) d \<Longrightarrow> wrote d a [] st st'"
  using fbytes_same(2) [of st st' d]
  by (auto simp: wrote_def overwritten_def fs_sameD file_secs_def sec_at_def fbyte_def)

lemma wrote_trans:
  assumes "wrote d a s1 st st1" "wrote d (a + length s1) s2 st1 st2"
  shows "wrote d a (s1 @ s2) st st2"
  using assms by (auto simp: wrote_def overwritten_def nth_append intro: fs_frame_trans)

lemma bwrite_wrote:
  assumes ok: "fs_ok st" and l: "layout_ok (bc st) d" and k: "a div 512 < nsec d"
    and fit: "a mod 512 + length src \<le> 512"
    and b: "b = take (a mod 512) (cview (bc st) (sec_at (bc st) d (a div 512))) @ src @
      drop (a mod 512 + length src) (cview (bc st) (sec_at (bc st) d (a div 512)))"
  shows "\<exists>st'. bwrite (sec_at (bc st) d (a div 512)) b st = Some st' \<and> wrote d a src st st'"
proof -
  let ?s = "sec_at (bc st) d (a div 512)"
  have s: "?s < csize (bc st)" using l k by (auto simp: layout_ok_def)
  have slen: "length (cview (bc st) ?s) = 512" using cview_len [OF ok s] by (simp add: BLOCK_SECTOR_SIZE_def)
  have blen: "length b = BLOCK_SECTOR_SIZE" using b slen fit by (simp add: BLOCK_SECTOR_SIZE_def)
  obtain st' where st': "bwrite ?s b st = Some st'" "fs_frame st st'"
    "\<forall>t. cview (bc st') t = (if t = ?s then b else cview (bc st) t)" using bwrite_ok [OF ok s blen] by blast
  have notmeta: "?s \<notin> meta_secs (bc st) d (nsec d)" using l k by (auto simp: layout_ok_def)
  then have mv: "cview (bc st') t = cview (bc st) t" if "t \<in> meta_secs (bc st) d (nsec d)" for t
    using st'(3) that by auto
  have e: "sec_at (bc st') d j = sec_at (bc st) d j" if "j < nsec d" for j
    by (rule sec_at_cong(1) [OF _ that]) (rule mv)
  have l': "layout_ok (bc st') d" using layout_cong [OF mv _ l] st'(2) by (auto simp: fs_frame_def)
  have fs: "file_secs (bc st') d = file_secs (bc st) d" unfolding file_secs_def using e by (intro image_cong) auto
  have "fbyte (bc st') d p = overwritten (fbyte (bc st) d) a src p" if p: "p div 512 < nsec d" for p
  proof (cases "p div 512 = a div 512")
    case True
    have pa: "p mod 512 < a mod 512 \<longleftrightarrow> p < a" "p mod 512 - a mod 512 = p - a" "p mod 512 < 512"
      using True div_mult_mod_eq [of p 512] div_mult_mod_eq [of a 512] by linarith+
    have "p mod 512 < a mod 512 + length src \<longleftrightarrow> p < a + length src"
      using True div_mult_mod_eq [of p 512] div_mult_mod_eq [of a 512] by linarith
    moreover have "a mod 512 \<le> p mod 512 \<longleftrightarrow> a \<le> p" using pa(1) by linarith
    moreover have "b ! (p mod 512) = (if a mod 512 \<le> p mod 512 \<and> p mod 512 < a mod 512 + length src
        then src ! (p mod 512 - a mod 512) else cview (bc st) ?s ! (p mod 512))"
      unfolding b by (rule nth_splice) (use slen fit pa(3) in simp_all)
    ultimately show ?thesis using True e [OF p] st'(3) pa(2)
      by (simp only: fbyte_def overwritten_def if_True) simp
  next
    case False
    then have "sec_at (bc st) d (p div 512) \<noteq> ?s" using l k p by (auto simp: layout_ok_def inj_on_def)
    moreover have "\<not> (a \<le> p \<and> p < a + length src)"
    proof
      assume "a \<le> p \<and> p < a + length src"
      then have "p div 512 = a div 512" using fit same_sector(1) [of "p - a" a] by auto
      with False show False by simp
    qed
    ultimately show ?thesis using e [OF p] st'(3) by (auto simp: fbyte_def overwritten_def)
  qed
  moreover have "\<forall>s. s \<notin> file_secs (bc st) d \<longrightarrow> cview (bc st') s = cview (bc st) s"
    using st'(3) k by (auto simp: file_secs_def)
  ultimately show ?thesis using st' l' fs by (auto simp: wrote_def)
qed

lemma wroteD:
  assumes "wrote d a src st st'"
  shows "fs_ok st'" "heap st' = heap st" "layout_ok (bc st') d"
  using assms by (simp_all add: wrote_def fs_frame_def)

lemma write_loop_ok:
  assumes "fs_ok st" "heap st ip = Some i" "layout_ok (bc st) (data i)" "0 \<le> offset" "0 \<le> sz"
    "offset + sz \<le> ilength (data i)" "0 \<le> written" "written + sz \<le> int (length buf)"
  shows "\<exists>st'. write_loop ip buf sz offset bounce written st = Some (written + sz, st') \<and>
    wrote (data i) (nat offset) (take (nat sz) (drop (nat written) buf)) st st'"
  using assms
proof (induction "nat sz" arbitrary: sz offset bounce written st rule: less_induct)
  case less
  let ?d = "data i" and ?len = "ilength (data i)" and ?c = "chunk_size sz offset (ilength (data i))"
  show ?case
  proof (cases "0 < sz")
    case False
    then show ?thesis using less.prems fs_same_refl [OF less.prems(1)] wrote_same by (auto simp: write_loop.simps)
  next
    case True
    have off: "offset < ?len" using True less.prems(6) by simp
    note cb = chunk_bounds [OF True less.prems(4) off] and nc = nat_chunk [OF True less.prems(4) off]
    let ?src = "take (nat ?c) (drop (nat written) buf)"
    have srclen: "length ?src = nat ?c" using cb(2) less.prems(7,8) by auto
    note bs = byte_to_sector_ok [OF less.prems(1-4) off]
    obtain st1 where st1: "byte_to_sector ip offset st = Some (sec_at (bc st) ?d (nat offset div 512), st1)"
      "fs_same st st1" using bs(1) by blast
    note e1 = fs_sameD [OF st1(2)]
    let ?s = "sec_at (bc st) ?d (nat offset div 512)"
    have slen: "length (cview (bc st) ?s) = 512" using cview_len [OF less.prems(1) bs(3)] by (simp add: BLOCK_SECTOR_SIZE_def)
    have len1: "inode_length ip st1 = Some ?len" using less.prems(2) e1(2) by (simp add: inode_length_def)
    let ?bounce = "if offset mod 512 = 0 \<and> ?c = 512 then bounce else True"
    let ?b = "take (nat offset mod 512) (cview (bc st) ?s) @ ?src @ drop (nat offset mod 512 + nat ?c) (cview (bc st) ?s)"
    have step: "\<exists>st3. bwrite ?s ?b st2 = Some st3 \<and> wrote ?d (nat offset) ?src st st3" if s2: "fs_same st st2" for st2
    proof -
      note e2 = fs_sameD [OF s2]
      have sv: "sec_at (bc st2) ?d j = sec_at (bc st) ?d j" for j by (simp add: sec_at_def e2(4))
      have fit: "nat offset mod 512 + length ?src \<le> 512" unfolding srclen by (rule nc(2))
      obtain st3 where "bwrite ?s ?b st2 = Some st3" "wrote ?d (nat offset) ?src st2 st3"
        using bwrite_wrote [OF e2(1) fbytes_same(2) [OF s2 less.prems(3)] bs(2) fit refl]
        unfolding sv e2(4) srclen by blast
      then show ?thesis using wrote_trans [OF wrote_same [OF s2 less.prems(3)]] by fastforce
    qed
    have "\<exists>st3. write_loop ip buf sz offset bounce written st =
        write_loop ip buf (sz - ?c) (offset + ?c) ?bounce (written + ?c) st3 \<and> wrote ?d (nat offset) ?src st st3"
    proof (cases "offset mod 512 = 0 \<and> ?c = 512")
      case full: True
      have "?b = ?src" using full nc(1) slen by simp
      moreover obtain st3 where "bwrite ?s ?b st1 = Some st3" "wrote ?d (nat offset) ?src st st3"
        using step [OF st1(2)] by blast
      ultimately show ?thesis using st1(1) full True len1
        by (intro exI [of _ st3]) (subst write_loop.simps, simp add: BLOCK_SECTOR_SIZE_def Let_def)
    next
      case part: False
      obtain st1b where b: "get_bounce bounce st1 = (True, st1b)" "fs_same st1 st1b" using get_bounce_ok [OF e1(1)] by blast
      note eb = fs_sameD [OF b(2)]
      have "?s < csize (bc st1b)" using bs(3) e1(3) eb(3) by simp
      then obtain st2 where st2: "bread ?s st1b = Some (cview (bc st) ?s, st2)" "fs_same st1b st2"
        using bread_ok [OF eb(1)] e1(4) eb(4) by fastforce
      obtain st3 where st3: "bwrite ?s ?b st2 = Some st3" "wrote ?d (nat offset) ?src st st3"
        using step [OF fs_same_trans [OF st1(2) fs_same_trans [OF b(2) st2(2)]]] by blast
      have cond: "offset mod 512 > 0 \<or> ?c < 512 - offset mod 512" using part cb(4) by auto
      show ?thesis using st1(1) b(1) st2(1) st3 part cond True len1 cb(1) nc(1)
        by (subst write_loop.simps) (auto simp add: BLOCK_SECTOR_SIZE_def Let_def)
    qed
    then obtain st3 where st3: "write_loop ip buf sz offset bounce written st =
        write_loop ip buf (sz - ?c) (offset + ?c) ?bounce (written + ?c) st3" "wrote ?d (nat offset) ?src st st3" by blast
    note w3 = wroteD [OF st3(2)]
    have "nat (sz - ?c) < nat sz" using cb(1) True by auto
    from less.hyps [OF this w3(1) _ w3(3), of "offset + ?c" "written + ?c" ?bounce] less.prems cb w3(2)
    obtain st4 where st4: "write_loop ip buf (sz - ?c) (offset + ?c) ?bounce (written + ?c) st3 = Some (written + sz, st4)"
      "wrote ?d (nat (offset + ?c)) (take (nat (sz - ?c)) (drop (nat (written + ?c)) buf)) st3 st4" by auto
    have "take (nat sz) (drop (nat written) buf) = ?src @ take (nat (sz - ?c)) (drop (nat (written + ?c)) buf)"
    proof -
      have "nat sz = nat ?c + nat (sz - ?c)" "nat (written + ?c) = nat ?c + nat written"
        using cb less.prems(7) by auto
      then show ?thesis by (simp add: take_add)
    qed
    moreover have "nat (offset + ?c) = nat offset + length ?src" using nc(3) srclen by simp
    ultimately show ?thesis using st3 st4 wrote_trans by auto
  qed
qed

text \<open>A write that ends inside the file does not consult the allocator.\<close>

lemma inode_write_at_ok:
  assumes ok: "fs_ok st" and h: "heap st ip = Some i" and dw: "deny_write_cnt i = 0"
    and l: "layout_ok (bc st) (data i)" and r: "0 \<le> offset" "0 < sz" "offset + sz \<le> ilength (data i)"
    and buf: "sz \<le> int (length buf)"
  shows "\<exists>st'. inode_write_at alloc ip buf sz offset st = Some (sz, st') \<and>
    wrote (data i) (nat offset) (take (nat sz) buf) st st'"
proof -
  have e: "0 \<le> offset + sz - 1" "offset + sz - 1 < ilength (data i)" using r by auto
  note bs = byte_to_sector_ok [OF ok h l e]
  obtain st1 where st1: "byte_to_sector ip (offset + sz - 1) st = Some (sec_at (bc st) (data i) (nat (offset + sz - 1) div 512), st1)"
    "fs_same st st1" using bs(1) by blast
  have "sec_at (bc st) (data i) (nat (offset + sz - 1) div 512) \<noteq> NO_SECTOR" using bs(3) ok by (auto simp: fs_ok_def)
  then have ext: "write_extend alloc ip (offset + sz) st = Some (True, st1)" using st1(1) by (simp add: write_extend_def)
  note e1 = fs_sameD [OF st1(2)]
  obtain st2 where "write_loop ip buf sz offset False 0 st1 = Some (sz, st2)"
    "wrote (data i) (nat offset) (take (nat sz) buf) st1 st2"
    using write_loop_ok [OF e1(1) _ fbytes_same(2) [OF st1(2) l] r(1), of ip sz 0 buf False] h e1(2) r buf by auto
  then show ?thesis using ext h dw wrote_trans [OF wrote_same [OF st1(2) l], of "nat offset"]
    by (fastforce simp: inode_write_at_def)
qed

lemma length_enc_inode: "length (direct_blocks d) = 123 \<Longrightarrow> length (enc_inode d) = BLOCK_SECTOR_SIZE"
  by (simp add: enc_inode_def BLOCK_SECTOR_SIZE_def)

lemma inode_reserve_0: "inode_reserve alloc d 0 st = Some (True, d, st)"
  by (simp add: inode_reserve_def bytes_to_sectors_def BLOCK_SECTOR_SIZE_def Let_def)

end
