(* ===== verification/KListSort.thy ===== *)
theory KListSort
  imports KList
begin

text \<open>
  \<^verbatim>\<open>list_sort\<close> of \<^verbatim>\<open>lib/kernel/list.c\<close>: the natural, in-place, iterative merge sort.
  The locale \<open>list_order\<close> is the contract a \<^verbatim>\<open>list_less_func\<close> has to keep: a strict
  weak order. Under it the pass over the list preserves the result of the reference sort
  \<open>kl_sort\<close> (repeated ordered insertion, so stable), every pass at least halves the
  number of descents, and so the C loop returns with the list in that order.
\<close>

section \<open>List-level reference functions\<close>

fun kl_merge :: "('a \<Rightarrow> 'a \<Rightarrow> bool) \<Rightarrow> 'a list \<Rightarrow> 'a list \<Rightarrow> 'a list" where
  "kl_merge lt [] B = B"
| "kl_merge lt (a # A) [] = a # A"
| "kl_merge lt (a # A) (b # B) =
     (if \<not> lt b a then a # kl_merge lt A (b # B) else b # kl_merge lt (a # A) B)"

fun kl_run :: "('a \<Rightarrow> 'a \<Rightarrow> bool) \<Rightarrow> 'a \<Rightarrow> 'a list \<Rightarrow> 'a list \<times> 'a list" where
  "kl_run lt x [] = ([], [])"
| "kl_run lt x (y # ys) =
     (if \<not> lt y x then (let (r, s) = kl_run lt y ys in (y # r, s)) else ([], y # ys))"

lemma kl_run_append: "fst (kl_run lt x ys) @ snd (kl_run lt x ys) = ys"
  by (induction lt x ys rule: kl_run.induct) (auto simp: case_prod_beta Let_def)

lemma kl_run_length: "length (snd (kl_run lt x ys)) \<le> length ys"
  by (induction lt x ys rule: kl_run.induct) (auto simp: case_prod_beta Let_def)

function kl_pass :: "('a \<Rightarrow> 'a \<Rightarrow> bool) \<Rightarrow> 'a list \<Rightarrow> nat \<times> 'a list" where
  "kl_pass lt [] = (0, [])"
| "kl_pass lt (x # xs) =
     (case snd (kl_run lt x xs) of
        [] \<Rightarrow> (1, x # xs)
      | y # s \<Rightarrow>
          (let (n, zs) = kl_pass lt (snd (kl_run lt y s))
           in (Suc n, kl_merge lt (x # fst (kl_run lt x xs)) (y # fst (kl_run lt y s)) @ zs)))"
  by pat_completeness auto
termination
proof (relation "measure (length \<circ> snd)")
  fix lt :: "'a \<Rightarrow> 'a \<Rightarrow> bool" and x xs y s
  assume "snd (kl_run lt x xs) = y # s"
  then show "((lt, snd (kl_run lt y s)), lt, x # xs) \<in> measure (length \<circ> snd)"
    using kl_run_length [of lt x xs] kl_run_length [of lt y s] by simp
qed simp

definition kl_sort :: "('a \<Rightarrow> 'a \<Rightarrow> bool) \<Rightarrow> 'a list \<Rightarrow> 'a list" where
  "kl_sort lt xs = fold (kl_insert lt) xs []"

definition adj :: "('a \<Rightarrow> 'a \<Rightarrow> bool) \<Rightarrow> 'a list \<Rightarrow> bool" where
  "adj lt xs = successively (\<lambda>x y. \<not> lt y x) xs"

fun descents :: "('a \<Rightarrow> 'a \<Rightarrow> bool) \<Rightarrow> 'a list \<Rightarrow> nat" where
  "descents lt (x # y # r) = (if lt y x then 1 else 0) + descents lt (y # r)"
| "descents lt [] = 0"
| "descents lt [x] = 0"

lemma adj_simps [simp]:
  "adj lt []" "adj lt [x]" "adj lt (x # y # r) \<longleftrightarrow> \<not> lt y x \<and> adj lt (y # r)"
  by (auto simp: adj_def)

lemma mset_kl_insert [simp]: "mset (kl_insert lt e xs) = add_mset e (mset xs)"
  by (induction xs) auto

lemma mset_fold_insert: "mset (fold (kl_insert lt) xs ys) = mset xs + mset ys"
  by (induction xs arbitrary: ys) auto

lemma mset_kl_sort [simp]: "mset (kl_sort lt xs) = mset xs"
  by (simp add: kl_sort_def mset_fold_insert)

lemma set_kl_sort [simp]: "set (kl_sort lt xs) = set xs"
  by (metis mset_kl_sort set_mset_mset)

lemma mset_kl_merge: "mset (kl_merge lt A B) = mset A + mset B"
  by (induction lt A B rule: kl_merge.induct) auto

lemma set_kl_merge [simp]: "set (kl_merge lt A B) = set A \<union> set B"
  by (metis mset_kl_merge set_mset_mset set_mset_union)

lemma kl_run_adj: "adj lt (x # fst (kl_run lt x ys))"
  by (induction lt x ys rule: kl_run.induct) (auto simp: case_prod_beta Let_def)

lemma descents_adj: "descents lt xs = 0 \<longleftrightarrow> adj lt xs"
  by (induction lt xs rule: descents.induct) auto

lemma descents_append: "descents lt (xs @ ys) \<le> descents lt xs + 1 + descents lt ys"
proof (induction lt xs rule: descents.induct)
  case (3 lt v)
  then show ?case by (cases ys) auto
qed auto

lemma descents_run:
  "descents lt (x # ys) = (case snd (kl_run lt x ys) of [] \<Rightarrow> 0 | y # s \<Rightarrow> Suc (descents lt (y # s)))"
  by (induction lt x ys rule: kl_run.induct) (auto simp: case_prod_beta Let_def split: list.splits)

section \<open>The contract of a comparison function\<close>

locale list_order =
  fixes lt :: "'a \<Rightarrow> 'a \<Rightarrow> bool"
  assumes irrefl: "\<not> lt x x"
    and trans: "lt x y \<Longrightarrow> lt y z \<Longrightarrow> lt x z"
    and negtrans: "lt x z \<Longrightarrow> lt x y \<or> lt y z"
begin

abbreviation in_order :: "'a list \<Rightarrow> bool" where
  "in_order xs \<equiv> sorted_wrt (\<lambda>x y. \<not> lt y x) xs"

lemma asym: "lt x y \<Longrightarrow> \<not> lt y x"
  using irrefl trans by blast

lemma adj_in_order: "adj lt xs \<longleftrightarrow> in_order xs"
  unfolding adj_def by (rule successively_iff_sorted_wrt_strong) (use negtrans in blast)

lemma insert_in_order: "in_order (kl_insert lt e xs) \<longleftrightarrow> in_order xs"
proof (induction xs)
  case (Cons x xs)
  show ?case
  proof (cases "lt e x")
    case True
    then have "in_order (x # xs) \<Longrightarrow> \<forall>y \<in> set xs. \<not> lt y e" using trans by auto
    with True asym [OF True] show ?thesis by auto
  next
    case False
    then show ?thesis using Cons by auto
  qed
qed simp

lemma fold_insert_in_order: "in_order ys \<Longrightarrow> in_order (fold (kl_insert lt) xs ys)"
  by (induction xs arbitrary: ys) (auto simp: insert_in_order)

lemma sort_in_order: "in_order (kl_sort lt xs)"
  by (simp add: kl_sort_def fold_insert_in_order)

text \<open>Elements that compare equal keep their order: insertion goes behind its equals.\<close>

lemma insert_stable:
  "in_order xs \<Longrightarrow> filter (\<lambda>y. \<not> lt x y \<and> \<not> lt y x) (kl_insert lt e xs) =
   filter (\<lambda>y. \<not> lt x y \<and> \<not> lt y x) xs @ (if \<not> lt x e \<and> \<not> lt e x then [e] else [])"
proof (induction xs)
  case (Cons z zs)
  show ?case
  proof (cases "lt e z")
    case True
    have "lt x y" if "\<not> lt e x" "\<not> lt x e" "y \<in> set (z # zs)" for y
    proof -
      from Cons.prems that(3) have "y = z \<or> \<not> lt y z" by auto
      with True negtrans [of e z y] have "lt e y" by blast
      with that(1) negtrans [of e y x] show ?thesis by blast
    qed
    then have "filter (\<lambda>y. \<not> lt x y \<and> \<not> lt y x) (z # zs) = []" if "\<not> lt e x" "\<not> lt x e"
      using that by (auto simp: filter_empty_conv)
    with True show ?thesis by auto
  next
    case False
    with Cons show ?thesis by simp
  qed
qed simp

lemma fold_insert_stable:
  "in_order ys \<Longrightarrow> filter (\<lambda>y. \<not> lt x y \<and> \<not> lt y x) (fold (kl_insert lt) xs ys) =
   filter (\<lambda>y. \<not> lt x y \<and> \<not> lt y x) ys @ filter (\<lambda>y. \<not> lt x y \<and> \<not> lt y x) xs"
  by (induction xs arbitrary: ys) (auto simp: insert_in_order insert_stable)

lemma sort_stable:
  "filter (\<lambda>y. \<not> lt x y \<and> \<not> lt y x) (kl_sort lt xs) = filter (\<lambda>y. \<not> lt x y \<and> \<not> lt y x) xs"
  by (simp add: kl_sort_def fold_insert_stable)

lemma insert_commute:
  "lt x y \<Longrightarrow> kl_insert lt x (kl_insert lt y S) = kl_insert lt y (kl_insert lt x S)"
proof (induction S)
  case Nil
  then show ?case using asym by auto
next
  case (Cons s S)
  then show ?case using trans [of x y s] asym [of x y] negtrans [of y s x] by auto
qed

lemma fold_insert_commute:
  "\<forall>x \<in> set A. lt b x \<Longrightarrow>
     fold (kl_insert lt) A (kl_insert lt b S) = kl_insert lt b (fold (kl_insert lt) A S)"
proof (induction A arbitrary: S)
  case (Cons a A)
  then have "kl_insert lt a (kl_insert lt b S) = kl_insert lt b (kl_insert lt a S)"
    using insert_commute [of b a S] by simp
  with Cons show ?case by simp
qed simp

lemma fold_merge:
  "in_order A \<Longrightarrow> fold (kl_insert lt) (kl_merge lt A B) S = fold (kl_insert lt) (A @ B) S"
proof (induction A arbitrary: B S)
  case Nil
  show ?case by simp
next
  case (Cons a A)
  note IH = Cons.IH
  have oA: "in_order A" and aA: "\<forall>x \<in> set A. \<not> lt x a" using Cons.prems by auto
  show ?case
  proof (induction B arbitrary: S)
    case Nil
    show ?case by simp
  next
    case (Cons b B)
    show ?case
    proof (cases "lt b a")
      case False
      then show ?thesis using IH [OF oA, of "b # B"] by simp
    next
      case True
      have "\<forall>x \<in> set (a # A). lt b x" using True aA negtrans by fastforce
      from fold_insert_commute [OF this, of S]
      show ?thesis using True Cons.IH [of "kl_insert lt b S"] by simp
    qed
  qed
qed

lemma merge_in_order: "in_order A \<Longrightarrow> in_order B \<Longrightarrow> in_order (kl_merge lt A B)"
proof (induction A arbitrary: B)
  case (Cons a A)
  note IH = Cons.IH and oA = Cons.prems(1)
  show ?case using Cons.prems(2)
  proof (induction B)
    case (Cons b B)
    show ?case
    proof (cases "lt b a")
      case True
      have "\<forall>x \<in> set A. \<not> lt x b" using True oA trans asym negtrans by (metis sorted_wrt.simps(2))
      then show ?thesis using True Cons asym [OF True] by auto
    next
      case False
      have "\<forall>x \<in> set B. \<not> lt x a" using False Cons.prems negtrans by (metis sorted_wrt.simps(2))
      then show ?thesis using False oA IH [of "b # B"] Cons.prems by auto
    qed
  qed (use oA in simp)
qed simp

lemma insert_last: "\<forall>x \<in> set S. \<not> lt e x \<Longrightarrow> kl_insert lt e S = S @ [e]"
  by (induction S) auto

lemma fold_insert_ordered: "in_order (S @ xs) \<Longrightarrow> fold (kl_insert lt) xs S = S @ xs"
proof (induction xs arbitrary: S)
  case (Cons x xs)
  then have "kl_insert lt x S = S @ [x]"
    by (intro insert_last) (auto simp: sorted_wrt_append)
  then show ?case using Cons.IH [of "S @ [x]"] Cons.prems by simp
qed simp

lemma sort_ordered: "in_order xs \<Longrightarrow> kl_sort lt xs = xs"
  using fold_insert_ordered [of "[]" xs] by (simp add: kl_sort_def)

lemma run_in_order: "in_order (x # fst (kl_run lt x ys))"
  using kl_run_adj [of lt x ys] adj_in_order by blast

lemma pass_props:
  "fold (kl_insert lt) (snd (kl_pass lt xs)) S = fold (kl_insert lt) xs S \<and>
   descents lt (snd (kl_pass lt xs)) + 1 \<le> fst (kl_pass lt xs) + (if xs = [] then 1 else 0) \<and>
   2 * fst (kl_pass lt xs) \<le> descents lt xs + 2"
proof (induction "length xs" arbitrary: xs S rule: less_induct)
  case less
  show ?case
  proof (cases xs)
    case Nil
    then show ?thesis by simp
  next
    case (Cons x ys)
    let ?r = "fst (kl_run lt x ys)"
    show ?thesis
    proof (cases "snd (kl_run lt x ys)")
      case Nil
      then have "descents lt xs = 0" using Cons by (simp add: descents_run)
      with Nil Cons show ?thesis by simp
    next
      case (Cons y s)
      let ?q = "fst (kl_run lt y s)" and ?t = "snd (kl_run lt y s)"
      let ?M = "kl_merge lt (x # ?r) (y # ?q)"
      have len: "length ?t < length xs"
        using kl_run_length [of lt x ys] kl_run_length [of lt y s] \<open>xs = x # ys\<close> Cons by simp
      note IH = less [OF len]
      have IHd: "descents lt (snd (kl_pass lt ?t)) + 1 \<le> fst (kl_pass lt ?t) + (if ?t = [] then 1 else 0)"
        "2 * fst (kl_pass lt ?t) \<le> descents lt ?t + 2" using IH [of S] by auto
      have pass: "kl_pass lt xs = (Suc (fst (kl_pass lt ?t)), ?M @ snd (kl_pass lt ?t))"
        using \<open>xs = x # ys\<close> Cons by (simp add: case_prod_beta Let_def)
      have xs: "xs = (x # ?r) @ (y # ?q) @ ?t"
        using kl_run_append [of lt x ys] kl_run_append [of lt y s] \<open>xs = x # ys\<close> Cons by simp
      have f: "fold (kl_insert lt) (snd (kl_pass lt xs)) S = fold (kl_insert lt) xs S"
        using IH [THEN conjunct1] fold_merge [OF run_in_order, of x ys "y # ?q"]
        by (simp add: pass) (simp add: xs)
      have M0: "descents lt ?M = 0"
        using merge_in_order [OF run_in_order run_in_order] adj_in_order descents_adj by blast
      have d1: "descents lt (snd (kl_pass lt xs)) + 1 \<le> fst (kl_pass lt xs)"
      proof (cases "?t = []")
        case True
        then show ?thesis using pass M0 by simp
      next
        case False
        then show ?thesis using pass M0 IHd descents_append [of lt ?M "snd (kl_pass lt ?t)"]
          by (simp del: kl_merge.simps)
      qed
      have "descents lt xs = Suc (case ?t of [] \<Rightarrow> 0 | z # w \<Rightarrow> Suc (descents lt (z # w)))"
        using \<open>xs = x # ys\<close> Cons descents_run [of lt x ys] descents_run [of lt y s] by simp
      then have "2 * fst (kl_pass lt xs) \<le> descents lt xs + 2"
        using pass IHd by (cases ?t) (auto simp del: kl_merge.simps)
      with f d1 show ?thesis using \<open>xs = x # ys\<close> by simp
    qed
  qed
qed

lemma pass_sort: "kl_sort lt (snd (kl_pass lt xs)) = kl_sort lt xs"
  unfolding kl_sort_def using pass_props by blast

lemma pass_one_run: "fst (kl_pass lt xs) \<le> 1 \<Longrightarrow> in_order (snd (kl_pass lt xs))"
proof (cases "xs = []")
  case False
  assume "fst (kl_pass lt xs) \<le> 1"
  with False have "descents lt (snd (kl_pass lt xs)) = 0" using pass_props [of xs "[]"] by auto
  then show ?thesis by (simp add: descents_adj adj_in_order)
qed simp

lemma pass_decreases: "1 < fst (kl_pass lt xs) \<Longrightarrow> descents lt (snd (kl_pass lt xs)) < descents lt xs"
  using pass_props [of xs "[]"] by (cases "xs = []") auto

end

section \<open>The sort on the heap\<close>

lemma is_sorted_loop_dlist:
  "dlist h l (P @ x # A @ R) \<Longrightarrow> (A = [] \<longrightarrow> pos l R \<noteq> x) \<Longrightarrow>
   is_sorted_loop lt h x (pos l R) = Some (adj lt (x # A))"
proof (induction A arbitrary: P x)
  case Nil
  then show ?case using dlist_next [of h l P x R] by (subst is_sorted_loop.simps) simp
next
  case (Cons y A)
  have "pos l R \<noteq> y" using dlist_distinct [OF Cons.prems(1)] by (cases R) (auto simp: full_def)
  then show ?case
    using Cons.prems Cons.IH [of "P @ [x]" y] dlist_next [of h l P x "y # A @ R"]
      dlist_prev [of h l P x "y # A @ R"]
    by (subst is_sorted_loop.simps) simp
qed

lemma is_sorted_dlist:
  assumes d: "dlist h l (P @ A @ R)"
  shows "is_sorted lt h (pos l (A @ R)) (pos l R) = Some (adj lt A)"
proof (cases A)
  case (Cons x A')
  have "pos l R \<noteq> x" using dlist_distinct [OF d] Cons by (cases R) (auto simp: full_def)
  then show ?thesis using is_sorted_loop_dlist [of h l P x A' R lt] d Cons by (simp add: is_sorted_def)
qed (simp add: is_sorted_def)

lemma run_loop_dlist:
  "dlist h l (P @ x # R) \<Longrightarrow>
   run_loop lt h x (tail_of l) = Some (pos l (snd (kl_run lt x R)))"
proof (induction R arbitrary: P x)
  case Nil
  then show ?case using dlist_next [of h l P x "[]"] by (subst run_loop.simps) simp
next
  case (Cons y R)
  have "y \<noteq> tail_of l" using dlist_distinct [OF Cons.prems(1)] by (auto simp: full_def)
  then show ?case
    using Cons.prems Cons.IH [of "P @ [x]" y] dlist_next [of h l P x "y # R"] dlist_prev [of h l P x "y # R"]
    by (subst run_loop.simps) (simp add: case_prod_beta Let_def)
qed

lemma find_end_of_run_dlist:
  assumes d: "dlist h l (P @ x # R)"
  shows "find_end_of_run lt h x (tail_of l) = Some (pos l (snd (kl_run lt x R)))"
  using run_loop_dlist [OF d] dlist_elem_nonnull [OF d, of x] dlist_nonnull(2) [OF d]
    dlist_pos_eq_tail [OF d] by (simp add: find_end_of_run_def)

lemma dlist_move:
  assumes d: "dlist h l (P @ A @ b # R)" and A: "A \<noteq> []"
  shows "\<exists>h'. list_splice (pos l (A @ b # R)) b (pos l R) h = Some h' \<and>
    dlist h' l (P @ b # A @ R) \<and> same_except (set (full l (P @ A @ b # R))) h h'"
proof -
  let ?us = "butlast (head_of l # P)" and ?p = "last (head_of l # P)" and ?vs = "tl (R @ [tail_of l])"
  have HP: "?us @ [?p] = head_of l # P" by simp
  have RT: "pos l R # ?vs = R @ [tail_of l]" by (simp add: pos_def)
  have F: "full l (P @ A @ b # R) = ?us @ [?p] @ A @ [b] @ [pos l R] @ ?vs"
    unfolding full_def using HP RT by (metis append.assoc append_Cons append_Nil)
  have F': "full l (P @ b # A @ R) = ?us @ [?p] @ [b] @ A @ [pos l R] @ ?vs"
    unfolding full_def using HP RT by (metis append.assoc append_Cons append_Nil)
  have "pos l (A @ b # R) = hd A" using A by (simp add: pos_def)
  with chain_splice [of h ?us ?p A "[b]" "pos l R" ?vs] A d show ?thesis
    by (simp only: dlist_def F F') simp
qed

lemma merge_loop_dlist:
  assumes "dlist h l (P @ A @ B @ C)"
  shows "\<exists>h'. merge_loop lt (pos l (A @ B @ C)) (pos l (B @ C)) (pos l C) h = Some h' \<and>
    dlist h' l (P @ kl_merge lt A B @ C) \<and> same_except (set (full l (P @ A @ B @ C))) h h'"
  using assms
proof (induction lt A B arbitrary: P h rule: kl_merge.induct)
  case (1 lt B)
  then show ?case by (subst merge_loop.simps) auto
next
  case (2 lt a A)
  then show ?case by (subst merge_loop.simps) auto
next
  case (3 lt a A b B)
  have ne: "a \<noteq> b" "b \<noteq> pos l C"
    using dlist_distinct [OF "3.prems"] by (cases C; auto simp: full_def)+
  show ?case
  proof (cases "lt b a")
    case False
    have "list_next a h = Some (pos l (A @ b # B @ C))"
      using dlist_next [of h l P a "A @ (b # B) @ C"] "3.prems" by simp
    then show ?thesis using "3.IH"(1) [of h "P @ [a]"] "3.prems" False ne
      by (subst merge_loop.simps) simp
  next
    case True
    have nb: "list_next b h = Some (pos l (B @ C))" "list_prev (pos l (B @ C)) h = Some b"
      using dlist_next [of h l "P @ a # A" b "B @ C"] dlist_prev [of h l "P @ a # A" b "B @ C"] "3.prems"
      by simp_all
    obtain h1 where h1: "list_splice a b (pos l (B @ C)) h = Some h1"
      "dlist h1 l (P @ b # (a # A) @ B @ C)"
      "same_except (set (full l (P @ (a # A) @ (b # B) @ C))) h h1"
      using dlist_move [of h l P "a # A" b "B @ C"] "3.prems" by auto
    from "3.IH"(2) [of h1 "P @ [b]"] True h1(2) obtain h' where
      h': "merge_loop lt (pos l ((a # A) @ B @ C)) (pos l (B @ C)) (pos l C) h1 = Some h'"
      "dlist h' l ((P @ [b]) @ kl_merge lt (a # A) B @ C)"
      "same_except (set (full l ((P @ [b]) @ (a # A) @ B @ C))) h1 h'" by auto
    have "same_except (set (full l (P @ (a # A) @ (b # B) @ C))) h h'"
      by (rule same_except_trans [OF h1(3) same_except_mono [OF h'(3)]]) (auto simp: full_def)
    with h' h1(1) nb True ne show ?thesis
      by (subst merge_loop.simps) simp
  qed
qed

lemma inplace_merge_dlist:
  assumes d: "dlist h l (P @ A @ B @ C)" and r: "adj lt A" "adj lt B"
  shows "\<exists>h'. inplace_merge lt (pos l (A @ B @ C)) (pos l (B @ C)) (pos l C) h = Some h' \<and>
    dlist h' l (P @ kl_merge lt A B @ C) \<and> same_except (set (full l (P @ A @ B @ C))) h h'"
proof -
  have nn: "pos l (A @ B @ C) \<noteq> NULL" "pos l (B @ C) \<noteq> NULL" "pos l C \<noteq> NULL"
    using dlist_elem_nonnull [OF d] dlist_nonnull(2) [OF d]
    by (cases A; cases B; cases C; simp)+
  show ?thesis
    using is_sorted_dlist [of h l P A "B @ C" lt] is_sorted_dlist [of h l "P @ A" B C lt]
      merge_loop_dlist [OF d, of lt] d r nn by (simp add: inplace_merge_def)
qed

lemma sort_pass_dlist:
  assumes "dlist h l (P @ xs)"
  shows "\<exists>h'. sort_pass lt (pos l xs) (tail_of l) n h = Some (n + fst (kl_pass lt xs), h') \<and>
    dlist h' l (P @ snd (kl_pass lt xs)) \<and> same_except (set (full l (P @ xs))) h h'"
  using assms
proof (induction lt xs arbitrary: P n h rule: kl_pass.induct)
  case (1 lt)
  then show ?case by (subst sort_pass.simps) auto
next
  case (2 lt x xs)
  let ?r = "fst (kl_run lt x xs)" and ?rest = "snd (kl_run lt x xs)"
  have xt: "x \<noteq> tail_of l" using dlist_pos_eq_tail [OF "2.prems"] by simp
  note f1 = find_end_of_run_dlist [OF "2.prems", of lt]
  show ?case
  proof (cases ?rest)
    case Nil
    then show ?thesis using "2.prems" f1 xt by (subst sort_pass.simps) simp
  next
    case (Cons y s)
    let ?q = "fst (kl_run lt y s)" and ?t = "snd (kl_run lt y s)"
    have xs: "x # xs = (x # ?r) @ (y # ?q) @ ?t"
      using kl_run_append [of lt x xs] kl_run_append [of lt y s] Cons by simp
    have d: "dlist h l ((P @ x # ?r) @ y # s)"
      using "2.prems" kl_run_append [of lt x xs] Cons by simp
    have yt: "y \<noteq> tail_of l" using dlist_pos_eq_tail [OF d] by simp
    note f2 = find_end_of_run_dlist [OF d, of lt]
    obtain h1 where h1:
      "inplace_merge lt x y (pos l ?t) h = Some h1"
      "dlist h1 l ((P @ kl_merge lt (x # ?r) (y # ?q)) @ ?t)"
      "same_except (set (full l (P @ x # xs))) h h1"
      using inplace_merge_dlist [of h l P "x # ?r" "y # ?q" ?t lt] kl_run_adj [of lt x xs]
        kl_run_adj [of lt y s] "2.prems" xs by (auto simp del: kl_merge.simps)
    from "2.IH" [OF Cons h1(2), of "n + 1"] obtain h' where
      h': "sort_pass lt (pos l ?t) (tail_of l) (n + 1) h1 = Some (n + 1 + fst (kl_pass lt ?t), h')"
      "dlist h' l ((P @ kl_merge lt (x # ?r) (y # ?q)) @ snd (kl_pass lt ?t))"
      "same_except (set (full l ((P @ kl_merge lt (x # ?r) (y # ?q)) @ ?t))) h1 h'" by blast
    have "same_except (set (full l (P @ x # xs))) h h'"
      by (rule same_except_trans [OF h1(3) same_except_mono [OF h'(3)]])
        (use arg_cong [OF xs, of set] in \<open>auto simp: full_def simp del: kl_merge.simps\<close>)
    with h' h1(1) f1 f2 Cons xt yt show ?thesis
      by (subst sort_pass.simps) (simp add: case_prod_beta Let_def del: kl_merge.simps)
  qed
qed

lemma sort_loop_dlist:
  assumes lt: "list_order lt" and d: "dlist h l xs"
  shows "\<exists>h'. sort_loop lt l h = Some h' \<and> dlist h' l (kl_sort lt xs) \<and>
    same_except (set (full l xs)) h h'"
  using d
proof (induction "descents lt xs" arbitrary: xs h rule: less_induct)
  case less
  let ?n = "fst (kl_pass lt xs)" and ?zs = "snd (kl_pass lt xs)"
  obtain h1 where h1: "sort_pass lt (pos l xs) (tail_of l) 0 h = Some (?n, h1)"
    "dlist h1 l ?zs" "same_except (set (full l xs)) h h1"
    using sort_pass_dlist [of h l "[]" xs lt 0] less.prems by auto
  have s: "kl_sort lt ?zs = kl_sort lt xs" by (rule list_order.pass_sort [OF lt])
  show ?case
  proof (cases "1 < ?n")
    case True
    from less.hyps [OF list_order.pass_decreases [OF lt True] h1(2)] obtain h' where
      h': "sort_loop lt l h1 = Some h'" "dlist h' l (kl_sort lt xs)"
      "same_except (set (full l ?zs)) h1 h'" using s by auto
    have "set ?zs = set xs" using s by (metis set_kl_sort)
    then have "same_except (set (full l xs)) h h'"
      using same_except_trans [OF h1(3)] h'(3) by (simp add: full_def)
    with h' h1 True dlist_begin [OF less.prems] dlist_end [OF less.prems] show ?thesis
      by (subst sort_loop.simps) simp
  next
    case False
    then have "kl_sort lt xs = ?zs"
      using list_order.pass_one_run [OF lt] list_order.sort_ordered [OF lt] s by simp
    with h1 False dlist_begin [OF less.prems] dlist_end [OF less.prems] show ?thesis
      by (subst sort_loop.simps) simp
  qed
qed

theorem list_sort_dlist:
  assumes lt: "list_order lt" and d: "dlist h l xs"
  shows "\<exists>h'. list_sort lt l h = Some h' \<and> dlist h' l (kl_sort lt xs) \<and>
    same_except (set (full l xs)) h h'"
proof -
  obtain h' where h': "sort_loop lt l h = Some h'" "dlist h' l (kl_sort lt xs)"
    "same_except (set (full l xs)) h h'" using sort_loop_dlist [OF assms] by blast
  have "adj lt (kl_sort lt xs)"
    using list_order.sort_in_order [OF lt] list_order.adj_in_order [OF lt] by blast
  with h' show ?thesis
    using is_sorted_dlist [of h' l "[]" "kl_sort lt xs" "[]" lt] dlist_begin [OF h'(2)]
      dlist_end [OF h'(2)] dlist_nonnull(1) [OF d] by (simp add: list_sort_def)
qed

end
