(* ===== verification/HashTable.thy ===== *)
theory HashTable
  imports KListSort
begin

text \<open>
  \<^verbatim>\<open>lib/kernel/hash.c\<close>: a chained hash table whose number of buckets is a power of two
  kept near half the number of elements. A bucket is a kernel list, here the sequence of
  its elements (theory KList refines the list operations to these sequences). The hash and
  comparison functions are arguments, as they are members of \<^verbatim>\<open>struct hash\<close>; the locale
  \<open>hash_contract\<close> is what they have to satisfy. Whether the allocation inside
  \<open>rehash\<close> succeeds is the argument \<open>mem\<close>, a predicate on the size requested.
\<close>

section \<open>Operations\<close>

record 'e htable =
  elem_cnt :: nat
  bucket_cnt :: nat
  buckets :: "'e list list"

definition FNV_32_PRIME :: u32 where "FNV_32_PRIME = 16777619"
definition FNV_32_BASIS :: u32 where "FNV_32_BASIS = 2166136261"

definition hash_bytes :: "byte list \<Rightarrow> u32" where
  "hash_bytes buf = foldl (\<lambda>hash c. (hash * FNV_32_PRIME) XOR ucast c) FNV_32_BASIS buf"

text \<open>The bytes up to the terminating null.\<close>

fun hash_string_loop :: "u32 \<Rightarrow> byte list \<Rightarrow> u32" where
  "hash_string_loop hash [] = hash"
| "hash_string_loop hash (c # s) =
     (if c \<noteq> 0 then hash_string_loop ((hash * FNV_32_PRIME) XOR ucast c) s else hash)"

definition hash_string :: "byte list \<Rightarrow> u32" where
  "hash_string s = hash_string_loop FNV_32_BASIS s"

definition hash_int :: "u32 \<Rightarrow> u32" where
  "hash_int i = hash_bytes (le32 i)"

definition find_bucket :: "('e \<Rightarrow> u32) \<Rightarrow> 'e htable \<Rightarrow> 'e \<Rightarrow> nat" where
  "find_bucket hsh h e = unat (hsh e AND (of_nat (bucket_cnt h) - 1))"

fun find_elem_loop :: "('e \<Rightarrow> 'e \<Rightarrow> bool) \<Rightarrow> 'e list \<Rightarrow> 'e \<Rightarrow> 'e option" where
  "find_elem_loop lt [] e = None"
| "find_elem_loop lt (hi # r) e =
     (if \<not> lt hi e \<and> \<not> lt e hi then Some hi else find_elem_loop lt r e)"

definition find_elem :: "('e \<Rightarrow> 'e \<Rightarrow> bool) \<Rightarrow> 'e htable \<Rightarrow> nat \<Rightarrow> 'e \<Rightarrow> 'e option" where
  "find_elem lt h bucket e = find_elem_loop lt (buckets h ! bucket) e"

definition insert_elem :: "'e htable \<Rightarrow> nat \<Rightarrow> 'e \<Rightarrow> 'e htable" where
  "insert_elem h bucket e =
     h\<lparr>elem_cnt := elem_cnt h + 1, buckets := (buckets h)[bucket := e # buckets h ! bucket]\<rparr>"

text \<open>\<open>list_remove\<close> unlinks the element from whichever bucket holds it.\<close>

definition remove_elem :: "'e htable \<Rightarrow> 'e \<Rightarrow> 'e htable" where
  "remove_elem h e = h\<lparr>elem_cnt := elem_cnt h - 1, buckets := map (remove1 e) (buckets h)\<rparr>"

definition turn_off_least_1bit :: "nat \<Rightarrow> nat" where
  "turn_off_least_1bit x = x AND (x - 1)"

definition is_power_of_2 :: "nat \<Rightarrow> bool" where
  "is_power_of_2 x \<longleftrightarrow> x \<noteq> 0 \<and> turn_off_least_1bit x = 0"

lemma turn_off_less: "0 < x \<Longrightarrow> turn_off_least_1bit x < x"
proof -
  assume "0 < x"
  have "x AND (x - 1) \<le> x - 1"
    by (metis and.commute and_nat_def int_ops(1) nat_int nat_le_iff of_nat_0_le_iff AND_upper1)
  with \<open>0 < x\<close> show ?thesis by (simp add: turn_off_least_1bit_def)
qed

function round_pow2 :: "nat \<Rightarrow> nat" where
  "round_pow2 x = (if x = 0 \<or> is_power_of_2 x then x else round_pow2 (turn_off_least_1bit x))"
  by pat_completeness auto
termination by (relation "measure id") (auto intro: turn_off_less)

declare round_pow2.simps [simp del]

definition new_bucket_count :: "nat \<Rightarrow> nat" where
  "new_bucket_count n = round_pow2 (let c = n div 2 in if c < 4 then 4 else c)"

text \<open>Moving one element to the front of its new bucket, and all of them in order.\<close>

definition move_elem :: "('e \<Rightarrow> u32) \<Rightarrow> 'e \<Rightarrow> 'e htable \<Rightarrow> 'e htable" where
  "move_elem hsh e h = (let b = find_bucket hsh h e in h\<lparr>buckets := (buckets h)[b := e # buckets h ! b]\<rparr>)"

definition rehash :: "('e \<Rightarrow> u32) \<Rightarrow> (nat \<Rightarrow> bool) \<Rightarrow> 'e htable \<Rightarrow> 'e htable" where
  "rehash hsh mem h =
     (let old = buckets h; n = new_bucket_count (elem_cnt h) in
      if n = bucket_cnt h then h
      else if \<not> mem (16 * n) then h
      else fold (move_elem hsh) (concat old) (h\<lparr>buckets := replicate n [], bucket_cnt := n\<rparr>))"

definition hash_init :: "bool \<Rightarrow> 'e htable option" where
  "hash_init mem = (if mem then Some \<lparr>elem_cnt = 0, bucket_cnt = 4, buckets = replicate 4 []\<rparr> else None)"

text \<open>
  \<open>hash_clear\<close> pops every element and hands it to the destructor, bucket by bucket:
  the elements in destruction order, and the empty table.
\<close>

definition hash_clear :: "'e htable \<Rightarrow> 'e list \<times> 'e htable" where
  "hash_clear h = (concat (buckets h), h\<lparr>elem_cnt := 0, buckets := map (\<lambda>_. []) (buckets h)\<rparr>)"

definition hash_insert ::
    "('e \<Rightarrow> u32) \<Rightarrow> ('e \<Rightarrow> 'e \<Rightarrow> bool) \<Rightarrow> (nat \<Rightarrow> bool) \<Rightarrow> 'e htable \<Rightarrow> 'e \<Rightarrow> 'e option \<times> 'e htable" where
  "hash_insert hsh lt mem h new =
     (let bucket = find_bucket hsh h new;
          old = find_elem lt h bucket new;
          h = (if old = None then insert_elem h bucket new else h)
      in (old, rehash hsh mem h))"

definition hash_replace ::
    "('e \<Rightarrow> u32) \<Rightarrow> ('e \<Rightarrow> 'e \<Rightarrow> bool) \<Rightarrow> (nat \<Rightarrow> bool) \<Rightarrow> 'e htable \<Rightarrow> 'e \<Rightarrow> 'e option \<times> 'e htable" where
  "hash_replace hsh lt mem h new =
     (let bucket = find_bucket hsh h new;
          old = find_elem lt h bucket new;
          h = (case old of Some x \<Rightarrow> remove_elem h x | None \<Rightarrow> h);
          h = insert_elem h bucket new
      in (old, rehash hsh mem h))"

definition hash_find :: "('e \<Rightarrow> u32) \<Rightarrow> ('e \<Rightarrow> 'e \<Rightarrow> bool) \<Rightarrow> 'e htable \<Rightarrow> 'e \<Rightarrow> 'e option" where
  "hash_find hsh lt h e = find_elem lt h (find_bucket hsh h e) e"

definition hash_delete ::
    "('e \<Rightarrow> u32) \<Rightarrow> ('e \<Rightarrow> 'e \<Rightarrow> bool) \<Rightarrow> (nat \<Rightarrow> bool) \<Rightarrow> 'e htable \<Rightarrow> 'e \<Rightarrow> 'e option \<times> 'e htable" where
  "hash_delete hsh lt mem h e =
     (case find_elem lt h (find_bucket hsh h e) e of
        None \<Rightarrow> (None, h)
      | Some x \<Rightarrow> (Some x, rehash hsh mem (remove_elem h x)))"

definition hash_size :: "'e htable \<Rightarrow> nat" where
  "hash_size h = elem_cnt h"

definition hash_empty :: "'e htable \<Rightarrow> bool" where
  "hash_empty h \<longleftrightarrow> elem_cnt h = 0"

text \<open>
  The iterator is the index of its bucket and the rest of that bucket behind the current
  element (\<open>hash_first\<close> stands on the head sentinel of the first bucket).
\<close>

definition hash_first :: "'e htable \<Rightarrow> nat \<times> 'e list" where
  "hash_first h = (0, buckets h ! 0)"

function hash_next :: "'e htable \<Rightarrow> nat \<Rightarrow> 'e list \<Rightarrow> ('e \<times> nat \<times> 'e list) option" where
  "hash_next h i (e # r) = Some (e, i, r)"
| "hash_next h i [] = (if Suc i \<ge> bucket_cnt h then None else hash_next h (Suc i) (buckets h ! Suc i))"
  by pat_completeness auto
termination by (relation "measure (\<lambda>(h, i, r). bucket_cnt h - i)") auto

text \<open>\<open>hash_apply\<close> visits the buckets in order.\<close>

definition hash_apply :: "('e \<Rightarrow> 's \<Rightarrow> 's) \<Rightarrow> 'e htable \<Rightarrow> 's \<Rightarrow> 's" where
  "hash_apply action h s = fold action (concat (buckets h)) s"

section \<open>Powers of two\<close>

lemma turn_off_0_pow2: "x \<noteq> 0 \<Longrightarrow> x AND (x - 1) = (0::nat) \<Longrightarrow> \<exists>k. x = 2 ^ k"
proof (induction x rule: less_induct)
  case (less x)
  show ?case
  proof (cases "even x")
    case True
    then obtain y where y: "x = 2 * y" by blast
    then have y0: "y \<noteq> 0" using less.prems by simp
    have "x - 1 = 2 * (y - 1) + 1" using y y0 by simp
    then have "x AND (x - 1) = 2 * (y AND (y - 1))"
      using y by (simp add: and_nat_rec [of "2 * y"])
    then have "\<exists>k. y = 2 ^ k" using less.IH [of y] less.prems y y0 by simp
    then show ?thesis using y by (metis power_Suc)
  next
    case False
    then obtain y where y: "x = 2 * y + 1" by (metis oddE)
    then have "x AND (x - 1) = 2 * y" by (simp add: and_nat_rec [of "Suc (2 * y)"])
    then have "y = 0" using less.prems by simp
    then show ?thesis using y by (intro exI [of _ 0]) simp
  qed
qed

lemma is_power_of_2_ex: "is_power_of_2 x \<Longrightarrow> \<exists>k. x = 2 ^ k"
  using turn_off_0_pow2 by (auto simp: is_power_of_2_def turn_off_least_1bit_def)

lemma and_pow2_minus_1: "(2 ^ k AND (2 ^ k - 1)) = (0::nat)"
  unfolding mask_eq_exp_minus_1 [symmetric]
  by (rule bit_eqI) (auto simp: bit_and_iff bit_exp_iff bit_mask_iff)

lemma is_power_of_2_pow: "is_power_of_2 (2 ^ k)"
  using and_pow2_minus_1 [of k] by (simp add: is_power_of_2_def turn_off_least_1bit_def)

lemma round_pow2_props: "x \<noteq> 0 \<Longrightarrow> is_power_of_2 (round_pow2 x) \<and> round_pow2 x \<le> x"
proof (induction x rule: round_pow2.induct)
  case (1 x)
  show ?case
  proof (cases "is_power_of_2 x")
    case False
    have "turn_off_least_1bit x \<noteq> 0" using False 1 by (simp add: is_power_of_2_def)
    with 1 False turn_off_less [of x] show ?thesis by (subst (1 2) round_pow2.simps) auto
  qed (simp add: round_pow2.simps)
qed

text \<open>At least four buckets, a power of two, and no more than half the elements.\<close>

lemma new_bucket_count_props:
  "\<exists>k. new_bucket_count n = 2 ^ k" "new_bucket_count n \<le> max 4 (n div 2)" "0 < new_bucket_count n"
proof -
  let ?c = "let c = n div 2 in if c < 4 then 4 else c"
  have c: "?c \<noteq> 0" "?c \<le> max 4 (n div 2)" by (auto simp: Let_def)
  from round_pow2_props [OF c(1)] have r: "is_power_of_2 (new_bucket_count n)" "new_bucket_count n \<le> ?c"
    by (auto simp: new_bucket_count_def)
  from is_power_of_2_ex [OF r(1)] show "\<exists>k. new_bucket_count n = 2 ^ k" .
  from r(2) c(2) show "new_bucket_count n \<le> max 4 (n div 2)" by linarith
  from r(1) show "0 < new_bucket_count n" by (simp add: is_power_of_2_def)
qed

lemma and_mask_mod: "unat (w AND (2 ^ k - 1) :: u32) = unat w mod 2 ^ k"
proof -
  have "(2 ^ k - 1 :: u32) = mask k" by (simp add: mask_eq_exp_minus_1)
  then have "w AND (2 ^ k - 1) = take_bit k w" by (simp only: take_bit_eq_mask)
  then have "unat (w AND (2 ^ k - 1)) = take_bit k (unat w)" by (simp only: unsigned_take_bit_eq)
  then show ?thesis by (simp only: take_bit_eq_mod)
qed

section \<open>Well-formed tables and their contents\<close>

definition ht_list :: "'e htable \<Rightarrow> 'e list" where
  "ht_list h = concat (buckets h)"

definition ht_shape :: "('e \<Rightarrow> u32) \<Rightarrow> 'e htable \<Rightarrow> bool" where
  "ht_shape hsh h \<longleftrightarrow> length (buckets h) = bucket_cnt h \<and> (\<exists>k < 32. bucket_cnt h = 2 ^ k) \<and>
     (\<forall>i < bucket_cnt h. \<forall>e \<in> set (buckets h ! i). find_bucket hsh h e = i)"

definition ht_wf :: "('e \<Rightarrow> u32) \<Rightarrow> ('e \<Rightarrow> 'e \<Rightarrow> bool) \<Rightarrow> 'e htable \<Rightarrow> bool" where
  "ht_wf hsh lt h \<longleftrightarrow> ht_shape hsh h \<and> elem_cnt h = length (ht_list h) \<and> distinct (ht_list h) \<and>
     (\<forall>x \<in> set (ht_list h). \<forall>y \<in> set (ht_list h). \<not> lt x y \<and> \<not> lt y x \<longrightarrow> x = y)"

text \<open>The invariant reads the hash and comparison functions on the stored elements only.\<close>

lemma ht_wf_cong:
  assumes h: "\<And>p. p \<in> set (ht_list h) \<Longrightarrow> hsh' p = hsh p"
    and l: "\<And>p q. p \<in> set (ht_list h) \<Longrightarrow> q \<in> set (ht_list h) \<Longrightarrow> lt' p q = lt p q"
  shows "ht_wf hsh' lt' h = ht_wf hsh lt h"
proof -
  have "ht_shape hsh' h = ht_shape hsh h"
  proof (cases "length (buckets h) = bucket_cnt h")
    case True
    have "find_bucket hsh' h e = find_bucket hsh h e" if "i < bucket_cnt h" "e \<in> set (buckets h ! i)" for i e
    proof -
      have "e \<in> set (ht_list h)" using that True nth_mem [of i "buckets h"] by (auto simp: ht_list_def)
      then show ?thesis using h by (simp add: find_bucket_def)
    qed
    then show ?thesis by (auto simp: ht_shape_def)
  qed (simp add: ht_shape_def)
  then show ?thesis using l by (auto simp: ht_wf_def)
qed

lemma find_bucket_less: "ht_shape hsh h \<Longrightarrow> find_bucket hsh h e < bucket_cnt h"
  by (auto simp: ht_shape_def find_bucket_def and_mask_mod)

lemma find_bucket_cong: "bucket_cnt h = bucket_cnt h' \<Longrightarrow> find_bucket hsh h e = find_bucket hsh h' e"
  by (simp add: find_bucket_def)

lemma in_bucket: "ht_shape hsh h \<Longrightarrow> e \<in> set (ht_list h) \<longleftrightarrow> e \<in> set (buckets h ! find_bucket hsh h e)"
proof
  assume s: "ht_shape hsh h" and "e \<in> set (ht_list h)"
  then obtain b where "b \<in> set (buckets h)" "e \<in> set b" by (auto simp: ht_list_def)
  then obtain i where "i < length (buckets h)" "e \<in> set (buckets h ! i)" by (metis in_set_conv_nth)
  with s show "e \<in> set (buckets h ! find_bucket hsh h e)" by (auto simp: ht_shape_def)
next
  assume s: "ht_shape hsh h" and e: "e \<in> set (buckets h ! find_bucket hsh h e)"
  have "find_bucket hsh h e < length (buckets h)"
    using find_bucket_less [OF s, of e] s by (simp add: ht_shape_def)
  with e show "e \<in> set (ht_list h)" unfolding ht_list_def by (metis UN_I nth_mem set_concat)
qed

lemma mset_concat_update:
  "b < length bs \<Longrightarrow> mset (concat (bs[b := e # bs ! b])) = add_mset e (mset (concat bs))"
proof -
  assume b: "b < length bs"
  then have "bs = take b bs @ bs ! b # drop (Suc b) bs" by (simp add: id_take_nth_drop)
  moreover have "bs[b := e # bs ! b] = take b bs @ (e # bs ! b) # drop (Suc b) bs"
    using b by (simp add: upd_conv_take_nth_drop)
  ultimately show ?thesis by (metis (no_types, lifting) add_mset_add_single append_Cons concat.simps(2)
        concat_append mset.simps(2) mset_append union_mset_add_mset_left union_mset_add_mset_right)
qed

lemma shape_elem_cnt: "ht_shape hsh (h\<lparr>elem_cnt := n\<rparr>) = ht_shape hsh h"
  by (simp add: ht_shape_def find_bucket_def)

lemma shape_cons:
  assumes "ht_shape hsh h" "b = find_bucket hsh h e"
  shows "ht_shape hsh (h\<lparr>buckets := (buckets h)[b := e # buckets h ! b]\<rparr>)"
  using assms find_bucket_less [OF assms(1), of e]
    find_bucket_cong [of "h\<lparr>buckets := (buckets h)[b := e # buckets h ! b]\<rparr>" h hsh]
  by (auto simp: ht_shape_def nth_list_update)

lemma move_elem_props:
  assumes "ht_shape hsh h"
  shows "ht_shape hsh (move_elem hsh e h)" "mset (ht_list (move_elem hsh e h)) = add_mset e (mset (ht_list h))"
    "elem_cnt (move_elem hsh e h) = elem_cnt h"
proof -
  have b: "find_bucket hsh h e < length (buckets h)"
    using find_bucket_less [OF assms, of e] assms by (simp add: ht_shape_def)
  show "ht_shape hsh (move_elem hsh e h)"
    using shape_cons [OF assms refl] by (simp add: move_elem_def Let_def)
  show "mset (ht_list (move_elem hsh e h)) = add_mset e (mset (ht_list h))"
    using mset_concat_update [OF b] by (simp add: move_elem_def Let_def ht_list_def)
  show "elem_cnt (move_elem hsh e h) = elem_cnt h" by (simp add: move_elem_def Let_def)
qed

lemma fold_move_props:
  assumes "ht_shape hsh h"
  shows "ht_shape hsh (fold (move_elem hsh) es h) \<and>
    mset (ht_list (fold (move_elem hsh) es h)) = mset es + mset (ht_list h) \<and>
    elem_cnt (fold (move_elem hsh) es h) = elem_cnt h"
  using assms by (induction es arbitrary: h) (auto simp: move_elem_props)

lemma rehash_props:
  assumes s: "ht_shape hsh h" and n: "elem_cnt h < 2 ^ 32"
  shows "ht_shape hsh (rehash hsh mem h)" "mset (ht_list (rehash hsh mem h)) = mset (ht_list h)"
    "elem_cnt (rehash hsh mem h) = elem_cnt h"
proof -
  let ?n = "new_bucket_count (elem_cnt h)"
  let ?h = "h\<lparr>buckets := replicate ?n [], bucket_cnt := ?n\<rparr>"
  obtain k where k: "?n = 2 ^ k" using new_bucket_count_props(1) by blast
  have "?n < 2 ^ 32" using new_bucket_count_props(2) [of "elem_cnt h"] n
    by (auto simp: max_def split: if_splits)
  then have "k < 32" using k by (metis nat_power_less_imp_less zero_less_numeral)
  then have sh: "ht_shape hsh ?h" using k by (auto simp: ht_shape_def)
  have e: "mset (ht_list ?h) = {#}" by (simp add: ht_list_def)
  note f = fold_move_props [OF sh, of "concat (buckets h)"]
  from f s show "ht_shape hsh (rehash hsh mem h)" by (simp add: rehash_def Let_def)
  from f e show "mset (ht_list (rehash hsh mem h)) = mset (ht_list h)"
    by (simp add: rehash_def Let_def) (simp add: ht_list_def)
  from f show "elem_cnt (rehash hsh mem h) = elem_cnt h" by (simp add: rehash_def Let_def)
qed

lemma rehash_wf:
  assumes w: "ht_wf hsh lt h" and n: "elem_cnt h < 2 ^ 32"
  shows "ht_wf hsh lt (rehash hsh mem h)" "set (ht_list (rehash hsh mem h)) = set (ht_list h)"
proof -
  have s: "ht_shape hsh h" using w by (simp add: ht_wf_def)
  note r = rehash_props [OF s n, of mem]
  have set_eq: "set (ht_list (rehash hsh mem h)) = set (ht_list h)" by (metis r(2) set_mset_mset)
  have "length (ht_list (rehash hsh mem h)) = length (ht_list h)" by (metis r(2) size_mset)
  moreover have "distinct (ht_list (rehash hsh mem h)) = distinct (ht_list h)"
    using r(2) mset_eq_imp_distinct_iff by blast
  ultimately show "ht_wf hsh lt (rehash hsh mem h)" using w r set_eq by (auto simp: ht_wf_def)
  show "set (ht_list (rehash hsh mem h)) = set (ht_list h)" by (rule set_eq)
qed

lemma concat_remove1:
  "distinct (concat bs) \<Longrightarrow> concat (map (remove1 x) bs) = remove1 x (concat bs)"
proof (induction bs)
  case (Cons b bs)
  then have "x \<in> set b \<Longrightarrow> map (remove1 x) bs = bs"
    by (intro map_idI remove1_idem) auto
  with Cons show ?case by (auto simp: remove1_append remove1_idem)
qed simp

section \<open>The contract of the hash and comparison functions\<close>

locale hash_contract = list_order lt for lt :: "'e \<Rightarrow> 'e \<Rightarrow> bool" +
  fixes hsh :: "'e \<Rightarrow> u32"
  assumes hash_cong: "\<not> lt a b \<Longrightarrow> \<not> lt b a \<Longrightarrow> hsh a = hsh b"
begin

abbreviation eqv :: "'e \<Rightarrow> 'e \<Rightarrow> bool" where
  "eqv a b \<equiv> \<not> lt a b \<and> \<not> lt b a"

lemma eqv_trans: "eqv a b \<Longrightarrow> eqv b c \<Longrightarrow> eqv a c"
  using negtrans by blast

lemma find_elem_loop_Some: "find_elem_loop lt b e = Some x \<Longrightarrow> x \<in> set b \<and> eqv x e"
  by (induction lt b e rule: find_elem_loop.induct) (auto split: if_splits)

lemma find_elem_loop_None: "find_elem_loop lt b e = None \<longleftrightarrow> (\<forall>x \<in> set b. \<not> eqv x e)"
  by (induction lt b e rule: find_elem_loop.induct) auto

lemma eqv_bucket: "eqv x e \<Longrightarrow> find_bucket hsh h x = find_bucket hsh h e"
  using hash_cong [of x e] by (simp add: find_bucket_def)

theorem find_correct:
  assumes w: "ht_wf hsh lt h"
  shows "hash_find hsh lt h e = Some x \<longleftrightarrow> x \<in> set (ht_list h) \<and> eqv x e"
proof
  have s: "ht_shape hsh h" using w by (simp add: ht_wf_def)
  assume "hash_find hsh lt h e = Some x"
  then have x: "x \<in> set (buckets h ! find_bucket hsh h e)" "eqv x e"
    using find_elem_loop_Some by (auto simp: hash_find_def find_elem_def)
  then show "x \<in> set (ht_list h) \<and> eqv x e"
    using in_bucket [OF s, of x] eqv_bucket [of x e h] by simp
next
  have s: "ht_shape hsh h" using w by (simp add: ht_wf_def)
  assume x: "x \<in> set (ht_list h) \<and> eqv x e"
  then have "x \<in> set (buckets h ! find_bucket hsh h e)"
    using in_bucket [OF s, of x] eqv_bucket [of x e h] by simp
  then obtain y where y: "hash_find hsh lt h e = Some y"
    using find_elem_loop_None x by (fastforce simp: hash_find_def find_elem_def)
  then have "y \<in> set (buckets h ! find_bucket hsh h e)" "eqv y e"
    using find_elem_loop_Some by (auto simp: hash_find_def find_elem_def)
  then have "y \<in> set (ht_list h)" using in_bucket [OF s, of y] eqv_bucket [of y e h] by simp
  moreover have "eqv y x" using \<open>eqv y e\<close> x negtrans by blast
  ultimately have "y = x" using w x by (auto simp: ht_wf_def)
  with y show "hash_find hsh lt h e = Some x" by simp
qed

lemma find_None:
  assumes w: "ht_wf hsh lt h"
  shows "hash_find hsh lt h e = None \<longleftrightarrow> (\<forall>x \<in> set (ht_list h). \<not> eqv x e)"
proof (cases "hash_find hsh lt h e")
  case None
  then have "\<not> eqv x e" if "x \<in> set (ht_list h)" for x
    using find_correct [OF w, of e x] that by auto
  with None show ?thesis by blast
next
  case (Some x)
  then show ?thesis using find_correct [OF w, of e x] by auto
qed

lemma insert_elem_wf:
  assumes w: "ht_wf hsh lt h" and new: "\<forall>x \<in> set (ht_list h). \<not> eqv x e"
  defines "h' \<equiv> insert_elem h (find_bucket hsh h e) e"
  shows "ht_wf hsh lt h'" "set (ht_list h') = insert e (set (ht_list h))" "elem_cnt h' = elem_cnt h + 1"
proof -
  have s: "ht_shape hsh h" using w by (simp add: ht_wf_def)
  have h': "h' = (h\<lparr>buckets := (buckets h)[find_bucket hsh h e := e # buckets h ! find_bucket hsh h e]\<rparr>)
      \<lparr>elem_cnt := elem_cnt h + 1\<rparr>" by (simp add: h'_def insert_elem_def)
  have m: "mset (ht_list h') = add_mset e (mset (ht_list h))"
    using mset_concat_update [of "find_bucket hsh h e" "buckets h" e] find_bucket_less [OF s, of e] s
    by (simp add: h' ht_list_def ht_shape_def)
  show set_eq: "set (ht_list h') = insert e (set (ht_list h))"
    by (metis m set_mset_add_mset_insert set_mset_mset)
  have sh: "ht_shape hsh h'"
    unfolding h' shape_elem_cnt by (rule shape_cons [OF s refl])
  have e: "e \<notin> set (ht_list h)" using new irrefl by blast
  have "distinct (ht_list h') = distinct (e # ht_list h)"
    using m mset_eq_imp_distinct_iff [of "ht_list h'" "e # ht_list h"] by simp
  then have d: "distinct (ht_list h')" using e w by (simp add: ht_wf_def)
  have "length (ht_list h') = Suc (length (ht_list h))" by (metis m size_add_mset size_mset)
  then show "ht_wf hsh lt h'"
    using w sh d set_eq new unfolding ht_wf_def by (auto simp: h')
  show "elem_cnt h' = elem_cnt h + 1" by (simp add: h')
qed

theorem insert_correct:
  assumes w: "ht_wf hsh lt h" and n: "elem_cnt h + 1 < 2 ^ 32"
    and ins: "hash_insert hsh lt mem h e = (old, h')"
  shows "old = hash_find hsh lt h e" "ht_wf hsh lt h'"
    "set (ht_list h') = (if old = None then insert e (set (ht_list h)) else set (ht_list h))"
proof -
  show old: "old = hash_find hsh lt h e"
    using ins by (simp add: hash_insert_def hash_find_def Let_def)
  have "ht_wf hsh lt h' \<and>
    set (ht_list h') = (if old = None then insert e (set (ht_list h)) else set (ht_list h))"
  proof (cases "old = None")
    case True
    then have new: "\<forall>x \<in> set (ht_list h). \<not> eqv x e" using find_None [OF w] old by simp
    note i = insert_elem_wf [OF w new]
    have "h' = rehash hsh mem (insert_elem h (find_bucket hsh h e) e)"
      using ins True by (auto simp: hash_insert_def Let_def)
    then show ?thesis
      using rehash_wf [OF i(1), of mem] i n True by simp_all
  next
    case False
    then have "h' = rehash hsh mem h" using ins by (auto simp: hash_insert_def Let_def)
    then show ?thesis
      using rehash_wf [OF w, of mem] n False by auto
  qed
  then show "ht_wf hsh lt h'"
    "set (ht_list h') = (if old = None then insert e (set (ht_list h)) else set (ht_list h))"
    by simp_all
qed

lemma remove_elem_wf:
  assumes w: "ht_wf hsh lt h" and x: "x \<in> set (ht_list h)"
  shows "ht_wf hsh lt (remove_elem h x)" "set (ht_list (remove_elem h x)) = set (ht_list h) - {x}"
    "elem_cnt (remove_elem h x) + 1 = elem_cnt h"
proof -
  have d: "distinct (ht_list h)" and c: "elem_cnt h = length (ht_list h)" and s: "ht_shape hsh h"
    using w by (simp_all add: ht_wf_def)
  have l: "ht_list (remove_elem h x) = remove1 x (ht_list h)"
    using d by (simp add: ht_list_def remove_elem_def concat_remove1)
  show set_eq: "set (ht_list (remove_elem h x)) = set (ht_list h) - {x}"
    using d by (simp add: l)
  have pos: "0 < length (ht_list h)" using x by (cases "ht_list h") auto
  then show "elem_cnt (remove_elem h x) + 1 = elem_cnt h" by (simp add: remove_elem_def c)
  have "ht_shape hsh (remove_elem h x)"
    using s by (auto simp: ht_shape_def remove_elem_def find_bucket_def dest: notin_set_remove1 [rotated])
  moreover have "elem_cnt (remove_elem h x) = length (ht_list (remove_elem h x))"
    using x by (simp add: l length_remove1) (simp add: remove_elem_def c)
  moreover have "distinct (ht_list (remove_elem h x))" using d by (simp add: l)
  ultimately show "ht_wf hsh lt (remove_elem h x)"
    using w by (auto simp: ht_wf_def set_eq)
qed

theorem delete_correct:
  assumes w: "ht_wf hsh lt h" and n: "elem_cnt h < 2 ^ 32"
    and del: "hash_delete hsh lt mem h e = (old, h')"
  shows "old = hash_find hsh lt h e" "ht_wf hsh lt h'"
    "set (ht_list h') = {x \<in> set (ht_list h). \<not> eqv x e}"
proof -
  show old: "old = hash_find hsh lt h e"
    using del by (auto simp: hash_delete_def hash_find_def split: option.splits)
  have "ht_wf hsh lt h' \<and> set (ht_list h') = {x \<in> set (ht_list h). \<not> eqv x e}"
  proof (cases old)
    case None
    then have "h' = h" using del by (auto simp: hash_delete_def split: option.splits)
    with None old find_None [OF w] w show ?thesis by auto
  next
    case (Some x)
    then have x: "x \<in> set (ht_list h)" "eqv x e" using old find_correct [OF w] by auto
    have "h' = rehash hsh mem (remove_elem h x)"
      using del Some by (auto simp: hash_delete_def split: option.splits)
    moreover have "set (ht_list h) - {x} = {y \<in> set (ht_list h). \<not> eqv y e}"
    proof -
      have "y = x" if "y \<in> set (ht_list h)" "eqv y e" for y
      proof -
        have "eqv y x" using that x negtrans by blast
        with that x w show ?thesis by (auto simp: ht_wf_def)
      qed
      with x show ?thesis by blast
    qed
    ultimately show ?thesis
      using rehash_wf [OF remove_elem_wf(1) [OF w x(1)], of mem] remove_elem_wf [OF w x(1)] n by simp
  qed
  then show "ht_wf hsh lt h'" "set (ht_list h') = {x \<in> set (ht_list h). \<not> eqv x e}" by simp_all
qed

theorem replace_correct:
  assumes w: "ht_wf hsh lt h" and n: "elem_cnt h + 1 < 2 ^ 32"
    and rep: "hash_replace hsh lt mem h e = (old, h')"
  shows "old = hash_find hsh lt h e" "ht_wf hsh lt h'"
    "set (ht_list h') = insert e {x \<in> set (ht_list h). \<not> eqv x e}"
proof -
  show old: "old = hash_find hsh lt h e"
    using rep by (simp add: hash_replace_def hash_find_def Let_def)
  have "ht_wf hsh lt h' \<and> set (ht_list h') = insert e {x \<in> set (ht_list h). \<not> eqv x e}"
  proof (cases old)
    case None
    then have new: "\<forall>x \<in> set (ht_list h). \<not> eqv x e" using find_None [OF w] old by simp
    have "h' = rehash hsh mem (insert_elem h (find_bucket hsh h e) e)"
      using rep None by (auto simp: hash_replace_def Let_def)
    moreover have "{x \<in> set (ht_list h). \<not> eqv x e} = set (ht_list h)" using new by blast
    ultimately show ?thesis
      using rehash_wf [OF insert_elem_wf(1) [OF w new], of mem] insert_elem_wf [OF w new] n by simp
  next
    case (Some x)
    then have x: "x \<in> set (ht_list h)" "eqv x e" using old find_correct [OF w] by auto
    let ?h = "remove_elem h x"
    note r = remove_elem_wf [OF w x(1)]
    have "y = x" if "y \<in> set (ht_list h)" "eqv y e" for y
    proof -
      have "eqv y x" using that x negtrans by blast
      with that x w show ?thesis by (auto simp: ht_wf_def)
    qed
    then have set_eq: "set (ht_list ?h) = {y \<in> set (ht_list h). \<not> eqv y e}" using r(2) x by blast
    then have new: "\<forall>y \<in> set (ht_list ?h). \<not> eqv y e" by blast
    have "find_bucket hsh h e = find_bucket hsh ?h e" by (simp add: find_bucket_def remove_elem_def)
    then have "h' = rehash hsh mem (insert_elem ?h (find_bucket hsh ?h e) e)"
      using rep Some by (auto simp: hash_replace_def Let_def)
    then show ?thesis
      using rehash_wf [OF insert_elem_wf(1) [OF r(1) new], of mem] insert_elem_wf [OF r(1) new] n r(3) set_eq
      by simp
  qed
  then show "ht_wf hsh lt h'" "set (ht_list h') = insert e {x \<in> set (ht_list h). \<not> eqv x e}" by simp_all
qed

lemma empty_wf:
  assumes "length bs = n" "n = 2 ^ k" "k < 32" "\<forall>b \<in> set bs. b = []"
  shows "ht_wf hsh lt \<lparr>elem_cnt = 0, bucket_cnt = n, buckets = bs\<rparr>"
proof -
  have c: "concat bs = []" using assms(4) by (simp only: concat_eq_Nil_conv)
  have e: "set (bs ! i) = {}" if "i < n" for i using that assms(1,4) by (metis nth_mem list.set(1))
  have "ht_shape hsh \<lparr>elem_cnt = 0, bucket_cnt = n, buckets = bs\<rparr>"
    unfolding ht_shape_def using assms(1-3) e by auto
  then show ?thesis by (simp add: ht_wf_def ht_list_def c)
qed

lemma init_wf:
  assumes "hash_init True = Some h"
  shows "ht_wf hsh lt h" "ht_list h = []"
proof -
  have h: "h = \<lparr>elem_cnt = 0, bucket_cnt = 4, buckets = replicate 4 []\<rparr>"
    using assms unfolding hash_init_def by (simp only: if_True option.inject)
  have "(4::nat) = 2 ^ 2" by (simp add: power2_eq_square)
  then show "ht_wf hsh lt h" unfolding h by (intro empty_wf [of _ _ 2]) simp_all
  show "ht_list h = []" by (simp add: h ht_list_def)
qed

lemma clear_wf:
  assumes "ht_wf hsh lt h"
  shows "ht_wf hsh lt (snd (hash_clear h))" "ht_list (snd (hash_clear h)) = []"
proof -
  from assms obtain k where "length (buckets h) = bucket_cnt h" "bucket_cnt h = 2 ^ k" "k < 32"
    by (auto simp: ht_wf_def ht_shape_def)
  then have "ht_wf hsh lt \<lparr>elem_cnt = 0, bucket_cnt = bucket_cnt h, buckets = map (\<lambda>_. []) (buckets h)\<rparr>"
    by (intro empty_wf) auto
  then show "ht_wf hsh lt (snd (hash_clear h))"
    by (simp add: hash_clear_def ht_wf_def ht_shape_def ht_list_def find_bucket_def)
  show "ht_list (snd (hash_clear h)) = []" by (simp add: hash_clear_def ht_list_def)
qed

end

end
