(* ===== verification/Supt.thy ===== *)
theory Supt
  imports HashTable
begin

text \<open>
  \<^verbatim>\<open>vm/page.c\<close>: the supplemental page table, a hash table keyed by user page. The table
  stores addresses of entries; their fields are in the store \<open>entries\<close>, so that an update
  through \<open>spte->...\<close> is a store update and the comparison function reads the store, as in
  the code. The address of the stack temporary \<open>spte_temp\<close> and the address \<open>malloc\<close>
  returns are arguments; writing through a null result of \<open>malloc\<close> faults (\<open>None\<close>).
  \<open>supt_map\<close> is the partial map from pages to entries the table implements.
\<close>

section \<open>Data\<close>

datatype page_status = ALL_ZERO | ON_FRAME | ON_SWAP | FROM_FILESYS

record spte =
  upage :: u32
  kpage :: u32
  status :: page_status
  pdirty :: bool
  swap_index :: u32
  pfile :: nat
  file_offset :: int
  read_bytes :: u32
  zero_bytes :: u32
  writable :: bool

record supt =
  page_map :: "ptr htable"
  entries :: "ptr \<Rightarrow> spte"

definition spte_hash_func :: "(ptr \<Rightarrow> spte) \<Rightarrow> ptr \<Rightarrow> u32" where
  "spte_hash_func s e = hash_int (upage (s e))"

definition spte_less_func :: "(ptr \<Rightarrow> spte) \<Rightarrow> ptr \<Rightarrow> ptr \<Rightarrow> bool" where
  "spte_less_func s a b \<longleftrightarrow> upage (s a) < upage (s b)"

section \<open>Operations\<close>

definition vm_supt_create :: "bool \<Rightarrow> (ptr \<Rightarrow> spte) \<Rightarrow> supt option" where
  "vm_supt_create mem s = do {
     h \<leftarrow> hash_init mem;
     Some \<lparr>page_map = h, entries = s\<rparr> }"

text \<open>The insertion the three installers share; the result tells whether the page was new.\<close>

definition supt_insert :: "(nat \<Rightarrow> bool) \<Rightarrow> ptr \<Rightarrow> (spte \<Rightarrow> spte) \<Rightarrow> supt \<Rightarrow> (bool \<times> supt) option" where
  "supt_insert mem p f st = do {
     ASSERT (p \<noteq> NULL);
     let s = (entries st)(p := f (entries st p));
     let (old, h) = hash_insert (spte_hash_func s) (spte_less_func s) mem (page_map st) p;
     Some (old = None, \<lparr>page_map = h, entries = s\<rparr>) }"

definition vm_supt_install_frame ::
    "(nat \<Rightarrow> bool) \<Rightarrow> ptr \<Rightarrow> supt \<Rightarrow> u32 \<Rightarrow> u32 \<Rightarrow> (bool \<times> supt) option" where
  "vm_supt_install_frame mem p st up kp =
     supt_insert mem p (\<lambda>e. e\<lparr>upage := up, kpage := kp, status := ON_FRAME, pdirty := False,
       swap_index := - 1\<rparr>) st"

definition vm_supt_install_zeropage ::
    "(nat \<Rightarrow> bool) \<Rightarrow> ptr \<Rightarrow> supt \<Rightarrow> u32 \<Rightarrow> (bool \<times> supt) option" where
  "vm_supt_install_zeropage mem p st up = do {
     (new, st) \<leftarrow> supt_insert mem p
       (\<lambda>e. e\<lparr>upage := up, kpage := 0, status := ALL_ZERO, pdirty := False\<rparr>) st;
     ASSERT new;
     Some (True, st) }"

definition vm_supt_install_filesys ::
    "(nat \<Rightarrow> bool) \<Rightarrow> ptr \<Rightarrow> supt \<Rightarrow> u32 \<Rightarrow> nat \<Rightarrow> int \<Rightarrow> u32 \<Rightarrow> u32 \<Rightarrow> bool \<Rightarrow> (bool \<times> supt) option" where
  "vm_supt_install_filesys mem p st up f offset rb zb w = do {
     (new, st) \<leftarrow> supt_insert mem p
       (\<lambda>e. e\<lparr>upage := up, kpage := 0, status := FROM_FILESYS, pdirty := False, pfile := f,
          file_offset := offset, read_bytes := rb, zero_bytes := zb, writable := w\<rparr>) st;
     ASSERT new;
     Some (True, st) }"

definition vm_supt_lookup :: "ptr \<Rightarrow> supt \<Rightarrow> u32 \<Rightarrow> ptr option" where
  "vm_supt_lookup tmp st page =
     (let s = (entries st)(tmp := (entries st tmp)\<lparr>upage := page\<rparr>)
      in hash_find (spte_hash_func s) (spte_less_func s) (page_map st) tmp)"

definition vm_supt_has_entry :: "ptr \<Rightarrow> supt \<Rightarrow> u32 \<Rightarrow> bool" where
  "vm_supt_has_entry tmp st page \<longleftrightarrow> vm_supt_lookup tmp st page \<noteq> None"

definition upd_spte :: "ptr \<Rightarrow> (spte \<Rightarrow> spte) \<Rightarrow> supt \<Rightarrow> supt" where
  "upd_spte p f st = st\<lparr>entries := (entries st)(p := f (entries st p))\<rparr>"

definition vm_supt_set_swap :: "ptr \<Rightarrow> supt \<Rightarrow> u32 \<Rightarrow> u32 \<Rightarrow> bool \<times> supt" where
  "vm_supt_set_swap tmp st page idx =
     (case vm_supt_lookup tmp st page of
        None \<Rightarrow> (False, st)
      | Some p \<Rightarrow> (True, upd_spte p (\<lambda>e. e\<lparr>status := ON_SWAP, kpage := 0, swap_index := idx\<rparr>) st))"

definition vm_supt_set_dirty :: "ptr \<Rightarrow> supt \<Rightarrow> u32 \<Rightarrow> bool \<Rightarrow> (bool \<times> supt) option" where
  "vm_supt_set_dirty tmp st page value = do {
     p \<leftarrow> vm_supt_lookup tmp st page;
     Some (True, upd_spte p (\<lambda>e. e\<lparr>pdirty := pdirty e \<or> value\<rparr>) st) }"

section \<open>The contract with the hash table\<close>

interpretation spte_order: list_order "spte_less_func s" for s
  by unfold_locales (auto simp: spte_less_func_def)

interpretation spte_hash: hash_contract "spte_less_func s" "spte_hash_func s" for s
proof
  fix a b assume "\<not> spte_less_func s a b" "\<not> spte_less_func s b a"
  then have "upage (s a) = upage (s b)" by (simp add: spte_less_func_def)
  then show "spte_hash_func s a = spte_hash_func s b" by (simp add: spte_hash_func_def)
qed

lemma spte_eqv: "\<not> spte_less_func s a b \<and> \<not> spte_less_func s b a \<longleftrightarrow> upage (s a) = upage (s b)"
  by (auto simp: spte_less_func_def)

section \<open>The map of pages\<close>

definition supt_ok :: "supt \<Rightarrow> bool" where
  "supt_ok st \<longleftrightarrow> ht_wf (spte_hash_func (entries st)) (spte_less_func (entries st)) (page_map st) \<and>
     elem_cnt (page_map st) + 1 < 2 ^ 32"

definition supt_ptrs :: "supt \<Rightarrow> ptr set" where
  "supt_ptrs st = set (ht_list (page_map st))"

lemma keys_distinct:
  "supt_ok st \<Longrightarrow> p \<in> supt_ptrs st \<Longrightarrow> q \<in> supt_ptrs st \<Longrightarrow> upage (entries st p) = upage (entries st q) \<Longrightarrow> p = q"
  by (auto simp: supt_ok_def ht_wf_def supt_ptrs_def spte_less_func_def)

text \<open>The invariant reads the keys of the stored entries only.\<close>

lemma wf_same_keys:
  assumes "\<And>p. p \<in> set (ht_list h) \<Longrightarrow> upage (s' p) = upage (s p)"
  shows "ht_wf (spte_hash_func s') (spte_less_func s') h = ht_wf (spte_hash_func s) (spte_less_func s) h"
  by (rule ht_wf_cong) (use assms in \<open>simp_all add: spte_hash_func_def spte_less_func_def\<close>)

lemma wf_fresh:
  "p \<notin> set (ht_list h) \<Longrightarrow> ht_wf (spte_hash_func (s(p := e))) (spte_less_func (s(p := e))) h =
     ht_wf (spte_hash_func s) (spte_less_func s) h"
  by (rule wf_same_keys) auto

lemma supt_lookup_correct:
  assumes ok: "supt_ok st" and tmp: "tmp \<notin> supt_ptrs st"
  shows "vm_supt_lookup tmp st page = Some p \<longleftrightarrow> p \<in> supt_ptrs st \<and> upage (entries st p) = page"
proof -
  let ?s = "(entries st)(tmp := (entries st tmp)\<lparr>upage := page\<rparr>)"
  have "ht_wf (spte_hash_func ?s) (spte_less_func ?s) (page_map st)"
    using ok wf_fresh [of tmp "page_map st"] tmp by (simp add: supt_ok_def supt_ptrs_def)
  from spte_hash.find_correct [OF this, of tmp p]
  have "vm_supt_lookup tmp st page = Some p \<longleftrightarrow> p \<in> supt_ptrs st \<and> upage (?s p) = upage (?s tmp)"
    by (simp only: spte_eqv vm_supt_lookup_def supt_ptrs_def Let_def)
  then show ?thesis using tmp by auto
qed

lemma supt_lookup_None:
  assumes "supt_ok st" "tmp \<notin> supt_ptrs st"
  shows "vm_supt_lookup tmp st page = None \<longleftrightarrow> (\<forall>p \<in> supt_ptrs st. upage (entries st p) \<noteq> page)"
  using supt_lookup_correct [OF assms, of page] by (metis option.exhaust option.distinct(1))

definition supt_map :: "ptr \<Rightarrow> supt \<Rightarrow> u32 \<Rightarrow> spte option" where
  "supt_map tmp st page = map_option (entries st) (vm_supt_lookup tmp st page)"

text \<open>Inserting an entry whose page is new extends the map by it; else the map stays.\<close>

lemma supt_insert_ok:
  fixes f :: "spte \<Rightarrow> spte"
  assumes ok: "supt_ok st" and p: "p \<noteq> NULL" "p \<notin> supt_ptrs st" and tmp: "tmp \<notin> supt_ptrs st" "tmp \<noteq> p"
    and cnt: "elem_cnt (page_map st) + 2 < 2 ^ 32"
  defines "e \<equiv> f (entries st p)"
  shows "\<exists>st'. supt_insert mem p f st = Some (supt_map tmp st (upage e) = None, st') \<and> supt_ok st' \<and>
    supt_ptrs st' = (if supt_map tmp st (upage e) = None then insert p (supt_ptrs st) else supt_ptrs st) \<and>
    supt_map tmp st' = (if supt_map tmp st (upage e) = None then (supt_map tmp st)(upage e \<mapsto> e) else supt_map tmp st)"
proof -
  let ?s = "(entries st)(p := e)"
  obtain old h where ins: "hash_insert (spte_hash_func ?s) (spte_less_func ?s) mem (page_map st) p = (old, h)"
    by (meson surj_pair)
  let ?st = "\<lparr>page_map = h, entries = ?s\<rparr>"
  have w: "ht_wf (spte_hash_func ?s) (spte_less_func ?s) (page_map st)"
    using ok wf_fresh [of p "page_map st"] p by (simp add: supt_ok_def supt_ptrs_def)
  have c: "elem_cnt (page_map st) + 1 < 2 ^ 32" using cnt by simp
  note i = spte_hash.insert_correct [OF w c ins]
  have old: "old = None \<longleftrightarrow> supt_map tmp st (upage e) = None"
    using spte_hash.find_None [OF w, of p] i(1) supt_lookup_None [OF ok tmp(1), of "upage e"] p(2)
    by (auto simp: spte_eqv supt_map_def supt_ptrs_def)
  have ptrs: "supt_ptrs ?st = (if old = None then insert p (supt_ptrs st) else supt_ptrs st)"
    using i(3) by (simp add: supt_ptrs_def)
  have "length (ht_list h) = card (set (ht_list h))" using i(2) by (simp add: ht_wf_def distinct_card)
  also have "\<dots> \<le> Suc (card (set (ht_list (page_map st))))" using i(3) by (simp add: card_insert_if)
  also have "\<dots> = Suc (elem_cnt (page_map st))" using w by (simp add: ht_wf_def distinct_card)
  finally have "elem_cnt h + 1 < 2 ^ 32" using cnt i(2) by (simp add: ht_wf_def)
  then have ok': "supt_ok ?st" using i(2) by (simp add: supt_ok_def)
  have tmp': "tmp \<notin> supt_ptrs ?st" using ptrs tmp by simp
  have "supt_map tmp ?st q = (if old = None then (supt_map tmp st)(upage e \<mapsto> e) else supt_map tmp st) q" for q
  proof (cases "vm_supt_lookup tmp ?st q")
    case None
    then have "\<forall>r \<in> supt_ptrs ?st. upage (?s r) \<noteq> q" using supt_lookup_None [OF ok' tmp', of q] by simp
    then have "\<forall>r \<in> supt_ptrs st. upage (entries st r) \<noteq> q" "old = None \<longrightarrow> upage e \<noteq> q"
      using ptrs p(2) by (auto split: if_splits)
    then show ?thesis using None supt_lookup_None [OF ok tmp(1), of q] by (auto simp: supt_map_def)
  next
    case (Some r)
    then have r: "r \<in> supt_ptrs ?st" "upage (?s r) = q" using supt_lookup_correct [OF ok' tmp', of q r] by simp_all
    show ?thesis
    proof (cases "r = p")
      case True
      then show ?thesis using r ptrs p(2) Some by (auto simp: supt_map_def split: if_splits)
    next
      case False
      then have "r \<in> supt_ptrs st" "upage (entries st r) = q" using r ptrs by (auto split: if_splits)
      then have l: "vm_supt_lookup tmp st q = Some r" using supt_lookup_correct [OF ok tmp(1)] by blast
      have "old = None \<longrightarrow> upage e \<noteq> q" using l old by (auto simp: supt_map_def)
      then show ?thesis using Some l False by (auto simp: supt_map_def)
    qed
  qed
  then have "supt_map tmp ?st = (if old = None then (supt_map tmp st)(upage e \<mapsto> e) else supt_map tmp st)" by blast
  then show ?thesis using ins ok' ptrs old p(1)
    by (intro exI [of _ ?st]) (simp add: supt_insert_def e_def Let_def)
qed

text \<open>Updating an entry that keeps its key updates the map at that page.\<close>

lemma upd_spte_map:
  assumes ok: "supt_ok st" and tmp: "tmp \<notin> supt_ptrs st" and l: "vm_supt_lookup tmp st page = Some p"
    and key: "upage (f (entries st p)) = upage (entries st p)"
  shows "supt_ok (upd_spte p f st)" "supt_ptrs (upd_spte p f st) = supt_ptrs st"
    "supt_map tmp (upd_spte p f st) = (supt_map tmp st)(page \<mapsto> f (entries st p))"
proof -
  have keys: "upage (entries (upd_spte p f st) q) = upage (entries st q)" for q
    using key by (simp add: upd_spte_def)
  show ptrs: "supt_ptrs (upd_spte p f st) = supt_ptrs st" by (simp add: supt_ptrs_def upd_spte_def)
  show ok': "supt_ok (upd_spte p f st)"
    using ok wf_same_keys [of "page_map st" "entries (upd_spte p f st)" "entries st"] keys
    by (simp add: supt_ok_def) (simp add: upd_spte_def)
  have tmp': "tmp \<notin> supt_ptrs (upd_spte p f st)" using tmp ptrs by simp
  have same: "vm_supt_lookup tmp (upd_spte p f st) q = vm_supt_lookup tmp st q" for q
  proof (rule option.exhaust [of "vm_supt_lookup tmp st q"])
    assume n: "vm_supt_lookup tmp st q = None"
    then have "vm_supt_lookup tmp (upd_spte p f st) q = None"
      unfolding supt_lookup_None [OF ok tmp] supt_lookup_None [OF ok' tmp'] keys ptrs .
    with n show ?thesis by simp
  next
    fix r assume r: "vm_supt_lookup tmp st q = Some r"
    then have "vm_supt_lookup tmp (upd_spte p f st) q = Some r"
      unfolding supt_lookup_correct [OF ok tmp] supt_lookup_correct [OF ok' tmp'] keys ptrs .
    with r show ?thesis by simp
  qed
  show "supt_map tmp (upd_spte p f st) = (supt_map tmp st)(page \<mapsto> f (entries st p))"
  proof
    fix q
    show "supt_map tmp (upd_spte p f st) q = ((supt_map tmp st)(page \<mapsto> f (entries st p))) q"
    proof (cases "vm_supt_lookup tmp st q")
      case None
      with l have "q \<noteq> page" by auto
      then show ?thesis using None by (simp add: supt_map_def same)
    next
      case (Some r)
      show ?thesis
      proof (cases "q = page")
        case True
        then show ?thesis using l by (simp add: supt_map_def same) (simp add: upd_spte_def)
      next
        case False
        then have "r \<noteq> p" using Some l by (simp only: supt_lookup_correct [OF ok tmp]) auto
        then show ?thesis using Some False by (simp add: supt_map_def same) (simp add: upd_spte_def)
      qed
    qed
  qed
qed

end
