(* ===== verification/Demo.thy ===== *)
theory Demo
  imports Directory InodeFacts Supt
begin

text \<open>
  Concrete states on which the properties of the root theory are applied: a kernel list of
  three elements, and a file system on a device of 40 sectors with one open file.
\<close>

section \<open>Lists\<close>

text \<open>A kernel list at address 200 with the elements 24, 8, 16.\<close>

definition demo_heap :: lheap where
  "demo_heap = \<lparr>prv = (\<lambda>_. 0)(24 := 200, 8 := 24, 16 := 8, 208 := 16),
     nxt = (\<lambda>_. 0)(200 := 24, 24 := 8, 8 := 16, 16 := 208)\<rparr>"

lemma demo_dlist: "dlist demo_heap 200 [24, 8, 16]"
  by (simp add: dlist_def full_def chain_def demo_heap_def head_of_def tail_of_def)

lemma nat_greater_order: "list_order (\<lambda>a b. a > (b::nat))"
  by unfold_locales auto

text \<open>The same list in descending order, and a list of pairs beside an empty list.\<close>

definition demo_heap3 :: lheap where
  "demo_heap3 = \<lparr>prv = (\<lambda>_. 0)(24 := 200, 16 := 24, 8 := 16, 208 := 8),
     nxt = (\<lambda>_. 0)(200 := 24, 24 := 16, 16 := 8, 8 := 208)\<rparr>"

lemma demo_dlist3: "dlist demo_heap3 200 [24, 16, 8]"
  by (simp add: dlist_def full_def chain_def demo_heap3_def head_of_def tail_of_def)

definition demo_heap2 :: lheap where
  "demo_heap2 = \<lparr>prv = (\<lambda>_. 0)(10 := 200, 11 := 10, 14 := 11, 208 := 14, 308 := 300),
     nxt = (\<lambda>_. 0)(200 := 10, 10 := 11, 11 := 14, 14 := 208, 300 := 308)\<rparr>"

lemma demo_dlist2: "dlist demo_heap2 200 [10, 11, 14]" "dlist demo_heap2 300 []"
  by (simp_all add: dlist_def full_def chain_def demo_heap2_def head_of_def tail_of_def)

lemma nat_list_order: "list_order ((<) :: nat \<Rightarrow> nat \<Rightarrow> bool)"
  by unfold_locales auto

section \<open>A file system\<close>

definition demo_dev :: block where
  "demo_dev = \<lparr>bname = ''hdb1'', btype = BLOCK_FILESYS, bsize = 40,
     medium = (\<lambda>_. replicate BLOCK_SECTOR_SIZE 0), read_cnt = 0, write_cnt = 0\<rparr>"

definition demo_cache :: bcache where
  "demo_cache = buffer_cache_init \<lparr>cache = replicate BUFFER_CACHE_SIZE
     \<lparr>occupied = False, disk_sector = 0, buffer = [], dirty = False, accessed = False\<rparr>,
     clock = 0, device = demo_dev\<rparr>"

definition demo_inode :: inode where
  "demo_inode = \<lparr>sector = 9, open_cnt = 1, removed = False, deny_write_cnt = 0,
     data = \<lparr>direct_blocks = 5 # 6 # replicate 121 0, indirect_block = 0, doubly_indirect_block = 0,
       is_dir = False, ilength = 1000, imagic = INODE_MAGIC\<rparr>\<rparr>"

definition demo_fs :: fsys where
  "demo_fs = \<lparr>bc = demo_cache, free_map = \<lparr>bit_cnt = 40, bits = [0, 0]\<rparr>, free_map_file = None,
     open_inodes = [7], heap = (\<lambda>_. None)(7 \<mapsto> demo_inode), mem = (\<lambda>_. True), mcount = 0\<rparr>"

lemma demo_cache_ok: "cache_ok demo_cache" "csize demo_cache = 40"
  "cview demo_cache s = replicate BLOCK_SECTOR_SIZE 0"
proof -
  have d: "block_ok demo_dev" by (simp add: block_ok_def demo_dev_def)
  let ?c = "\<lparr>cache = replicate BUFFER_CACHE_SIZE
     \<lparr>occupied = False, disk_sector = 0, buffer = [], dirty = False, accessed = False\<rparr>,
     clock = 0, device = demo_dev\<rparr>"
  have "cache_ok (buffer_cache_init ?c) \<and> cview (buffer_cache_init ?c) s = medium (device ?c) s"
    by (rule init_ok) (simp_all add: d BUFFER_CACHE_SIZE_def)
  then show "cache_ok demo_cache" "cview demo_cache s = replicate BLOCK_SECTOR_SIZE 0"
    by (simp_all add: demo_cache_def demo_dev_def)
  show "csize demo_cache = 40" by (simp add: csize_def demo_cache_def buffer_cache_init_def demo_dev_def)
qed

lemma demo_fs_ok: "fs_ok demo_fs"
  by (simp add: fs_ok_def demo_fs_def demo_cache_ok NO_SECTOR_def)

lemma demo_nsec: "nsec (data demo_inode) = 2"
  by (simp add: nsec_def demo_inode_def bytes_to_sectors_def DIV_ROUND_UP_def BLOCK_SECTOR_SIZE_def)

lemma demo_layout: "layout_ok (bc demo_fs) (data demo_inode)"
proof -
  have two: "{..<2::nat} = {0, 1}" by auto
  show ?thesis unfolding layout_ok_def demo_nsec two
    by (simp add: meta_secs_def sec_at_def inj_on_def demo_inode_def demo_fs_def demo_cache_ok)
qed

lemma demo_heap_at: "heap demo_fs 7 = Some demo_inode"
  by (simp add: demo_fs_def)

section \<open>A page table and a memory with two strings\<close>

definition demo_supt :: supt where
  "demo_supt = \<lparr>page_map = \<lparr>elem_cnt = 0, bucket_cnt = 4, buckets = replicate 4 []\<rparr>,
     entries = (\<lambda>_. \<lparr>upage = 0, kpage = 0, status = ALL_ZERO, pdirty = False, swap_index = 0, pfile = 0,
       file_offset = 0, read_bytes = 0, zero_bytes = 0, writable = False\<rparr>)\<rparr>"

lemma demo_supt_ok: "supt_ok demo_supt"
  using spte_hash.init_wf(1) [of "page_map demo_supt" "entries demo_supt"]
  by (simp add: supt_ok_def demo_supt_def hash_init_def)

lemma demo_supt_facts: "supt_ptrs demo_supt = {}" "supt_map tmp demo_supt q = None" "elem_cnt (page_map demo_supt) = 0"
proof -
  show e: "supt_ptrs demo_supt = {}" by (simp add: supt_ptrs_def demo_supt_def ht_list_def)
  show "supt_map tmp demo_supt q = None"
    using supt_lookup_None [OF demo_supt_ok, of tmp q] e by (simp add: supt_map_def)
  show "elem_cnt (page_map demo_supt) = 0" by (simp add: demo_supt_def)
qed

definition demo_mem :: cmem where
  "demo_mem = (\<lambda>_. 0)(50 := 47, 100 := 47, 101 := 97, 102 := 47, 103 := 98)"

lemma demo_mem_strings: "cstr demo_mem 50 [47]" "cstr demo_mem 100 [47, 97, 47, 98]"
  by (simp_all add: demo_mem_def)

end
