(* ===== verification/Thread.thy ===== *)
theory Thread
  imports KListSort
begin

text \<open>
  \<^verbatim>\<open>threads/thread.c\<close>: thread states, the ready list kept by priority, sleeping threads, the
  timer tick and priority changes. The static variables of the scheduler and the kernel
  objects of \<^verbatim>\<open>threads/synch.c\<close> are the record \<open>kernel\<close>; a thread, semaphore, lock or condition
  is named by its address, and a kernel list is the sequence of its elements (theories KList
  and KListSort refine the list operations to these sequences).

  A context switch happens inside \<^verbatim>\<open>schedule\<close>, in the middle of the functions that call it.
  What such a function still has to do when its thread runs again is kept in the thread's
  \<open>frames\<close>: the model's kernel stack. A function that may switch pushes the rest of its work
  first; \<open>run_frame\<close> of theory Synch does it later.

  The interrupt flag is not a part of the state: the functions below run with interrupts
  off, and an interrupt is a step of its own (\<open>timer_interrupt\<close>). \<open>in_intr\<close> is
  \<^verbatim>\<open>intr_context ()\<close>.
\<close>

section \<open>State\<close>

definition PRI_MIN :: int where "PRI_MIN = 0"
definition PRI_DEFAULT :: int where "PRI_DEFAULT = 31"
definition PRI_MAX :: int where "PRI_MAX = 63"
definition TIME_SLICE :: nat where "TIME_SLICE = 4"

datatype thread_status = THREAD_RUNNING | THREAD_READY | THREAD_BLOCKED | THREAD_DYING

text \<open>A semaphore stands alone or is the one inside a lock.\<close>

datatype sema_id = Sema nat | LockSema nat

text \<open>The work a thread resumes with, innermost first.\<close>

datatype frame =
    SemaWait sema_id
  | LockTaken nat
  | LockGiven nat
  | LockAgain nat
  | ExitLocks "nat option"
  | CreateYield int
  | Broadcast nat nat

record thread =
  tid :: nat
  t_status :: thread_status
  priority :: int
  original_priority :: int
  waiting_lock :: "nat option"
  held_locks :: "nat list"
  sleep_endtick :: int
  frames :: "frame list"

record semaphore =
  svalue :: nat
  waiters :: "nat list"
  spriority :: int

record lock =
  holder :: "nat option"
  lpriority :: int

record kernel =
  thr :: "nat \<Rightarrow> thread"
  semas :: "sema_id \<Rightarrow> semaphore"
  klocks :: "nat \<Rightarrow> lock"
  conds :: "nat \<Rightarrow> nat list"
  ready_list :: "nat list"
  wait_list :: "nat list"
  all_list :: "nat list"
  cur :: nat
  idle_thread :: "nat option"
  initial_thread :: nat
  freed :: "nat list"
  next_tid :: nat
  thread_ticks :: nat
  in_intr :: bool
  yield_on_return :: bool

definition upd_thr :: "nat \<Rightarrow> (thread \<Rightarrow> thread) \<Rightarrow> kernel \<Rightarrow> kernel" where
  "upd_thr t f k = k\<lparr>thr := (thr k)(t := f (thr k t))\<rparr>"

definition comparator_greater_thread_priority :: "kernel \<Rightarrow> nat \<Rightarrow> nat \<Rightarrow> bool" where
  "comparator_greater_thread_priority k a b \<longleftrightarrow> priority (thr k a) > priority (thr k b)"

section \<open>Scheduling\<close>

definition next_thread_to_run :: "kernel \<Rightarrow> (nat \<times> kernel) option" where
  "next_thread_to_run k =
     (case ready_list k of
        [] \<Rightarrow> do { t \<leftarrow> idle_thread k; Some (t, k) }
      | t # r \<Rightarrow> Some (t, k\<lparr>ready_list := r\<rparr>))"

definition thread_schedule_tail :: "nat option \<Rightarrow> kernel \<Rightarrow> kernel option" where
  "thread_schedule_tail prev k = do {
     let k = upd_thr (cur k) (\<lambda>t. t\<lparr>t_status := THREAD_RUNNING\<rparr>) k;
     let k = k\<lparr>thread_ticks := 0\<rparr>;
     case prev of None \<Rightarrow> Some k
     | Some p \<Rightarrow>
         if t_status (thr k p) = THREAD_DYING \<and> p \<noteq> initial_thread k then do {
           ASSERT (p \<noteq> cur k);
           Some (k\<lparr>freed := p # freed k\<rparr>) }
         else Some k }"

definition schedule :: "kernel \<Rightarrow> kernel option" where
  "schedule k = do {
     let c = cur k;
     (n, k) \<leftarrow> next_thread_to_run k;
     ASSERT (t_status (thr k c) \<noteq> THREAD_RUNNING);
     if c \<noteq> n then thread_schedule_tail (Some c) (k\<lparr>cur := n\<rparr>)
     else thread_schedule_tail None k }"

definition thread_current :: "kernel \<Rightarrow> nat option" where
  "thread_current k = do { ASSERT (t_status (thr k (cur k)) = THREAD_RUNNING); Some (cur k) }"

definition thread_block :: "kernel \<Rightarrow> kernel option" where
  "thread_block k = do {
     ASSERT (\<not> in_intr k);
     c \<leftarrow> thread_current k;
     schedule (upd_thr c (\<lambda>t. t\<lparr>t_status := THREAD_BLOCKED\<rparr>) k) }"

definition ready_insert :: "nat \<Rightarrow> kernel \<Rightarrow> kernel" where
  "ready_insert t k = k\<lparr>ready_list := kl_insert (comparator_greater_thread_priority k) t (ready_list k)\<rparr>"

definition thread_yield :: "kernel \<Rightarrow> kernel option" where
  "thread_yield k = do {
     c \<leftarrow> thread_current k;
     ASSERT (\<not> in_intr k);
     let k = (if Some c \<noteq> idle_thread k then ready_insert c k else k);
     schedule (upd_thr c (\<lambda>t. t\<lparr>t_status := THREAD_READY\<rparr>) k) }"

definition thread_unblock :: "nat \<Rightarrow> kernel \<Rightarrow> kernel option" where
  "thread_unblock t k = do {
     ASSERT (t_status (thr k t) = THREAD_BLOCKED);
     let k = ready_insert t k;
     let k = upd_thr t (\<lambda>t. t\<lparr>t_status := THREAD_READY\<rparr>) k;
     c \<leftarrow> thread_current k;
     if Some c \<noteq> idle_thread k \<and> priority (thr k c) < priority (thr k t) then thread_yield k
     else Some k }"

section \<open>Creation, sleeping and the timer\<close>

definition init_thread :: "nat \<Rightarrow> int \<Rightarrow> kernel \<Rightarrow> kernel option" where
  "init_thread t pri k = do {
     ASSERT (PRI_MIN \<le> pri \<and> pri \<le> PRI_MAX);
     let k = upd_thr t (\<lambda>_. \<lparr>tid = 0, t_status = THREAD_BLOCKED, priority = pri, original_priority = pri,
       waiting_lock = None, held_locks = [], sleep_endtick = 0, frames = []\<rparr>) k;
     Some (k\<lparr>all_list := all_list k @ [t]\<rparr>) }"

definition allocate_tid :: "kernel \<Rightarrow> nat \<times> kernel" where
  "allocate_tid k = (next_tid k, k\<lparr>next_tid := next_tid k + 1\<rparr>)"

definition thread_init :: "nat \<Rightarrow> kernel \<Rightarrow> kernel option" where
  "thread_init main k = do {
     let k = k\<lparr>ready_list := [], wait_list := [], all_list := [], initial_thread := main, cur := main\<rparr>;
     k \<leftarrow> init_thread main PRI_DEFAULT k;
     let (i, k) = allocate_tid k;
     Some (upd_thr main (\<lambda>t. t\<lparr>t_status := THREAD_RUNNING, tid := i, sleep_endtick := 0\<rparr>) k) }"

text \<open>
  The page of the new thread, or \<open>None\<close> when \<^verbatim>\<open>palloc_get_page\<close> fails. The result is the
  thread identifier, \<open>None\<close> for \<^verbatim>\<open>TID_ERROR\<close>. \<open>thread_unblock\<close> may switch to the new
  thread, so the comparison behind it is left as a frame. (The lock around the identifier
  counter is not modelled.)
\<close>

definition push_frame :: "frame \<Rightarrow> kernel \<Rightarrow> kernel" where
  "push_frame f k = upd_thr (cur k) (\<lambda>t. t\<lparr>frames := f # frames t\<rparr>) k"

definition thread_create :: "nat option \<Rightarrow> int \<Rightarrow> kernel \<Rightarrow> (nat option \<times> kernel) option" where
  "thread_create page pri k =
     (case page of None \<Rightarrow> Some (None, k)
      | Some t \<Rightarrow> do {
          k \<leftarrow> init_thread t pri k;
          let (i, k) = allocate_tid k;
          let k = upd_thr t (\<lambda>t. t\<lparr>tid := i\<rparr>) k;
          k \<leftarrow> thread_unblock t (push_frame (CreateYield pri) k);
          Some (Some i, k) })"

definition create_yield :: "int \<Rightarrow> kernel \<Rightarrow> kernel option" where
  "create_yield pri k = do {
     c \<leftarrow> thread_current k;
     if pri > priority (thr k c) then thread_yield k else Some k }"

definition thread_sleep_until :: "int \<Rightarrow> kernel \<Rightarrow> kernel option" where
  "thread_sleep_until ticks_end k = do {
     c \<leftarrow> thread_current k;
     let k = upd_thr c (\<lambda>t. t\<lparr>sleep_endtick := ticks_end\<rparr>) k;
     thread_block (k\<lparr>wait_list := wait_list k @ [c]\<rparr>) }"

text \<open>The loop over the sleeping threads; a removed element keeps its link to the next one.\<close>

fun awake_loop :: "int \<Rightarrow> nat list \<Rightarrow> kernel \<Rightarrow> kernel option" where
  "awake_loop tick [] k = Some k"
| "awake_loop tick (t # ts) k =
     (if sleep_endtick (thr k t) \<le> tick then do {
        let k = upd_thr t (\<lambda>t. t\<lparr>sleep_endtick := 0\<rparr>) k;
        k \<leftarrow> thread_unblock t (k\<lparr>wait_list := remove1 t (wait_list k)\<rparr>);
        awake_loop tick ts k }
      else awake_loop tick ts k)"

definition thread_awake :: "int \<Rightarrow> kernel \<Rightarrow> kernel option" where
  "thread_awake tick k = awake_loop tick (wait_list k) k"

definition thread_tick :: "int \<Rightarrow> kernel \<Rightarrow> kernel option" where
  "thread_tick tick k = do {
     c \<leftarrow> thread_current k;
     k \<leftarrow> thread_awake tick k;
     let k = k\<lparr>thread_ticks := thread_ticks k + 1\<rparr>;
     if thread_ticks k \<ge> TIME_SLICE then Some (k\<lparr>yield_on_return := True\<rparr>) else Some k }"

text \<open>The timer interrupt: the handler runs in interrupt context, the yield after it.\<close>

definition timer_interrupt :: "int \<Rightarrow> kernel \<Rightarrow> kernel option" where
  "timer_interrupt tick k = do {
     k \<leftarrow> thread_tick tick (k\<lparr>in_intr := True, yield_on_return := False\<rparr>);
     let k = k\<lparr>in_intr := False\<rparr>;
     if yield_on_return k then thread_yield k else Some k }"

section \<open>Priorities\<close>

text \<open>The foremost ready thread preempts a thread whose priority was lowered below it.\<close>

definition yield_if_lower :: "int \<Rightarrow> kernel \<Rightarrow> kernel option" where
  "yield_if_lower new_priority k =
     (case ready_list k of [] \<Rightarrow> Some k
      | n # _ \<Rightarrow> if priority (thr k n) > new_priority then thread_yield k else Some k)"

definition thread_set_priority :: "int \<Rightarrow> kernel \<Rightarrow> kernel option" where
  "thread_set_priority new_priority k = do {
     c \<leftarrow> thread_current k;
     let k = (if priority (thr k c) = original_priority (thr k c)
       then upd_thr c (\<lambda>t. t\<lparr>priority := new_priority, original_priority := new_priority\<rparr>) k
       else upd_thr c (\<lambda>t. t\<lparr>original_priority := new_priority\<rparr>) k);
     yield_if_lower new_priority k }"

definition thread_priority_donate :: "nat \<Rightarrow> int \<Rightarrow> kernel \<Rightarrow> kernel option" where
  "thread_priority_donate target new_priority k = do {
     let k = upd_thr target (\<lambda>t. t\<lparr>priority := new_priority\<rparr>) k;
     c \<leftarrow> thread_current k;
     if target = c then yield_if_lower new_priority k else Some k }"

definition thread_get_priority :: "kernel \<Rightarrow> int option" where
  "thread_get_priority k = do { c \<leftarrow> thread_current k; Some (priority (thr k c)) }"

definition thread_tid :: "kernel \<Rightarrow> nat option" where
  "thread_tid k = do { c \<leftarrow> thread_current k; Some (tid (thr k c)) }"

definition thread_foreach :: "(nat \<Rightarrow> kernel \<Rightarrow> kernel) \<Rightarrow> kernel \<Rightarrow> kernel" where
  "thread_foreach action k = fold action (all_list k) k"

interpretation thread_order: list_order "comparator_greater_thread_priority k" for k
  by unfold_locales (auto simp: comparator_greater_thread_priority_def)

end
