(* ===== verification/Synch.thy ===== *)
theory Synch
  imports Thread
begin

text \<open>
  \<^verbatim>\<open>threads/synch.c\<close>: semaphores, locks with priority donation and condition variables, on
  the scheduler of theory Thread, and \<^verbatim>\<open>thread_exit\<close>, which releases the locks its thread
  holds. A blocking operation leaves the rest of its work in the frames of its thread;
  \<open>run_frame\<close> does the work of the innermost frame of the running thread, and \<open>kstep\<close> is the
  transition relation of the kernel: a call by the running thread, the continuation of a
  call, or a timer interrupt.
\<close>

section \<open>Semaphores\<close>

definition upd_sema :: "sema_id \<Rightarrow> (semaphore \<Rightarrow> semaphore) \<Rightarrow> kernel \<Rightarrow> kernel" where
  "upd_sema s f k = k\<lparr>semas := (semas k)(s := f (semas k s))\<rparr>"

definition upd_lock :: "nat \<Rightarrow> (lock \<Rightarrow> lock) \<Rightarrow> kernel \<Rightarrow> kernel" where
  "upd_lock l f k = k\<lparr>klocks := (klocks k)(l := f (klocks k l))\<rparr>"

definition comparator_greater_lock_priority :: "kernel \<Rightarrow> nat \<Rightarrow> nat \<Rightarrow> bool" where
  "comparator_greater_lock_priority k a b \<longleftrightarrow> lpriority (klocks k a) > lpriority (klocks k b)"

definition comparator_greater_sema_priority :: "kernel \<Rightarrow> nat \<Rightarrow> nat \<Rightarrow> bool" where
  "comparator_greater_sema_priority k a b \<longleftrightarrow> spriority (semas k (Sema a)) > spriority (semas k (Sema b))"

definition sema_init :: "sema_id \<Rightarrow> nat \<Rightarrow> kernel \<Rightarrow> kernel" where
  "sema_init s value k = upd_sema s (\<lambda>x. x\<lparr>svalue := value, waiters := []\<rparr>) k"

definition pop_frame :: "kernel \<Rightarrow> kernel" where
  "pop_frame k = upd_thr (cur k) (\<lambda>t. t\<lparr>frames := tl (frames t)\<rparr>) k"

text \<open>
  One round of the loop in \<^verbatim>\<open>sema_down\<close>, with the frame \<open>SemaWait s\<close> on top: block if the
  value is 0, to come back to the same frame, else take the semaphore and leave.
\<close>

definition sema_round :: "sema_id \<Rightarrow> kernel \<Rightarrow> kernel option" where
  "sema_round s k =
     (if svalue (semas k s) = 0 then do {
        c \<leftarrow> thread_current k;
        let w = kl_insert (comparator_greater_thread_priority k) c (waiters (semas k s));
        thread_block (upd_sema s (\<lambda>x. x\<lparr>waiters := w\<rparr>) k) }
      else Some (pop_frame (upd_sema s (\<lambda>x. x\<lparr>svalue := svalue x - 1\<rparr>) k)))"

definition sema_down :: "sema_id \<Rightarrow> kernel \<Rightarrow> kernel option" where
  "sema_down s k = do {
     ASSERT (\<not> in_intr k);
     Some (push_frame (SemaWait s) k) }"

definition sema_try_down :: "sema_id \<Rightarrow> kernel \<Rightarrow> bool \<times> kernel" where
  "sema_try_down s k =
     (if svalue (semas k s) > 0 then (True, upd_sema s (\<lambda>x. x\<lparr>svalue := svalue x - 1\<rparr>) k)
      else (False, k))"

definition sema_up :: "sema_id \<Rightarrow> kernel \<Rightarrow> kernel option" where
  "sema_up s k =
     (let k = upd_sema s (\<lambda>x. x\<lparr>svalue := svalue x + 1\<rparr>) k
      in case kl_sort (comparator_greater_thread_priority k) (waiters (semas k s)) of
           [] \<Rightarrow> Some k
         | t # r \<Rightarrow> thread_unblock t (upd_sema s (\<lambda>x. x\<lparr>waiters := r\<rparr>) k))"

section \<open>Locks\<close>

definition lock_init :: "nat \<Rightarrow> kernel \<Rightarrow> kernel" where
  "lock_init l k = sema_init (LockSema l) 1 (upd_lock l (\<lambda>_. \<lparr>holder = None, lpriority = PRI_MIN\<rparr>) k)"

definition lock_held_by_current_thread :: "nat \<Rightarrow> kernel \<Rightarrow> bool option" where
  "lock_held_by_current_thread l k = do {
     c \<leftarrow> thread_current k;
     Some (holder (klocks k l) = Some c) }"

text \<open>The donation along the chain of holders; \<open>l\<close> is \<^verbatim>\<open>current_lock\<close>.\<close>

partial_function (option) donate_loop :: "nat \<Rightarrow> nat option \<Rightarrow> nat \<Rightarrow> kernel \<Rightarrow> kernel option" where
  [code]: "donate_loop l h c k =
     (case h of None \<Rightarrow> Some k
      | Some t \<Rightarrow>
          if priority (thr k t) < priority (thr k c) then do {
            k \<leftarrow> thread_priority_donate t (priority (thr k c)) k;
            let k = (if lpriority (klocks k l) < priority (thr k c)
              then upd_lock l (\<lambda>x. x\<lparr>lpriority := priority (thr k c)\<rparr>) k else k);
            case waiting_lock (thr k t) of None \<Rightarrow> Some k
            | Some l' \<Rightarrow> donate_loop l' (holder (klocks k l')) c k }
          else Some k)"

definition lock_acquire :: "nat \<Rightarrow> kernel \<Rightarrow> kernel option" where
  "lock_acquire l k = do {
     ASSERT (\<not> in_intr k);
     held \<leftarrow> lock_held_by_current_thread l k;
     ASSERT (\<not> held);
     let h = holder (klocks k l);
     c \<leftarrow> thread_current k;
     let k = upd_thr c (\<lambda>t. t\<lparr>waiting_lock := Some l\<rparr>) k;
     let k = (if h = None then upd_lock l (\<lambda>x. x\<lparr>lpriority := priority (thr k c)\<rparr>) k else k);
     k \<leftarrow> donate_loop l h c k;
     sema_down (LockSema l) (push_frame (LockTaken l) k) }"

text \<open>The end of \<^verbatim>\<open>lock_acquire\<close>, once the semaphore is down.\<close>

definition lock_taken :: "nat \<Rightarrow> kernel \<Rightarrow> kernel option" where
  "lock_taken l k = do {
     c \<leftarrow> thread_current k;
     let k = upd_lock l (\<lambda>x. x\<lparr>holder := Some c\<rparr>) k;
     let ls = kl_insert (comparator_greater_lock_priority k) l (held_locks (thr k c));
     Some (upd_thr c (\<lambda>t. t\<lparr>waiting_lock := None, held_locks := ls\<rparr>) k) }"

definition lock_try_acquire :: "nat \<Rightarrow> kernel \<Rightarrow> (bool \<times> kernel) option" where
  "lock_try_acquire l k = do {
     held \<leftarrow> lock_held_by_current_thread l k;
     ASSERT (\<not> held);
     let (ok, k) = sema_try_down (LockSema l) k;
     if ok then do {
       c \<leftarrow> thread_current k;
       Some (True, upd_lock l (\<lambda>x. x\<lparr>holder := Some c\<rparr>) k) }
     else Some (False, k) }"

definition lock_release :: "nat \<Rightarrow> kernel \<Rightarrow> kernel option" where
  "lock_release l k = do {
     held \<leftarrow> lock_held_by_current_thread l k;
     ASSERT held;
     let k = upd_lock l (\<lambda>x. x\<lparr>holder := None\<rparr>) k;
     sema_up (LockSema l) (push_frame (LockGiven l) k) }"

text \<open>
  The end of \<^verbatim>\<open>lock_release\<close>: unlink the lock (a list element that is in no list fails the
  assertions of \<^verbatim>\<open>list_remove\<close>) and restore the priority from the locks that remain.
\<close>

definition lock_given :: "nat \<Rightarrow> kernel \<Rightarrow> kernel option" where
  "lock_given l k = do {
     c \<leftarrow> thread_current k;
     ASSERT (l \<in> set (held_locks (thr k c)));
     let k = upd_thr c (\<lambda>t. t\<lparr>held_locks := remove1 l (held_locks t)\<rparr>) k;
     case kl_sort (comparator_greater_lock_priority k) (held_locks (thr k c)) of
       [] \<Rightarrow> thread_priority_donate c (original_priority (thr k c)) k
     | m # r \<Rightarrow> thread_priority_donate c (lpriority (klocks k m))
         (upd_thr c (\<lambda>t. t\<lparr>held_locks := m # r\<rparr>) k) }"

section \<open>Condition variables\<close>

definition cond_init :: "nat \<Rightarrow> kernel \<Rightarrow> kernel" where
  "cond_init v k = k\<lparr>conds := (conds k)(v := [])\<rparr>"

text \<open>\<open>w\<close> is the address of the semaphore element on the stack of the caller.\<close>

definition cond_wait :: "nat \<Rightarrow> nat \<Rightarrow> nat \<Rightarrow> kernel \<Rightarrow> kernel option" where
  "cond_wait w v l k = do {
     ASSERT (\<not> in_intr k);
     held \<leftarrow> lock_held_by_current_thread l k;
     ASSERT held;
     c \<leftarrow> thread_current k;
     let k = upd_sema (Sema w) (\<lambda>x. x\<lparr>svalue := 0, waiters := [], spriority := priority (thr k c)\<rparr>) k;
     let k = k\<lparr>conds := (conds k)(v := kl_insert (comparator_greater_sema_priority k) w (conds k v))\<rparr>;
     lock_release l (push_frame (SemaWait (Sema w)) (push_frame (LockAgain l) k)) }"

definition cond_signal :: "nat \<Rightarrow> nat \<Rightarrow> kernel \<Rightarrow> kernel option" where
  "cond_signal v l k = do {
     ASSERT (\<not> in_intr k);
     held \<leftarrow> lock_held_by_current_thread l k;
     ASSERT held;
     case conds k v of [] \<Rightarrow> Some k
     | w # r \<Rightarrow> sema_up (Sema w) (k\<lparr>conds := (conds k)(v := r)\<rparr>) }"

text \<open>The loop of \<^verbatim>\<open>cond_broadcast\<close>; it is resumed by its frame when a signal switches.\<close>

definition broadcast_round :: "nat \<Rightarrow> nat \<Rightarrow> kernel \<Rightarrow> kernel option" where
  "broadcast_round v l k = (if conds k v = [] then Some (pop_frame k) else cond_signal v l k)"

definition cond_broadcast :: "nat \<Rightarrow> nat \<Rightarrow> kernel \<Rightarrow> kernel option" where
  "cond_broadcast v l k = Some (push_frame (Broadcast v l) k)"

section \<open>Exit and the idle thread\<close>

fun lock_after :: "nat list \<Rightarrow> nat \<Rightarrow> nat option" where
  "lock_after (x # y # r) l = (if x = l then Some y else lock_after (y # r) l)"
| "lock_after [x] l = None"
| "lock_after [] l = None"

definition thread_exit :: "kernel \<Rightarrow> kernel option" where
  "thread_exit k = do {
     ASSERT (\<not> in_intr k);
     c \<leftarrow> thread_current k;
     Some (push_frame (ExitLocks (case held_locks (thr k c) of [] \<Rightarrow> None | l # _ \<Rightarrow> Some l)) k) }"

text \<open>
  One round of the loop over the held locks: the next element is the successor the released
  one had when it was unlinked. At the end the thread leaves the scheduler for good.
\<close>

definition exit_round :: "nat option \<Rightarrow> kernel \<Rightarrow> kernel option" where
  "exit_round lo k = do {
     c \<leftarrow> thread_current k;
     case lo of
       Some l \<Rightarrow> lock_release l (push_frame (ExitLocks (lock_after (held_locks (thr k c)) l)) (pop_frame k))
     | None \<Rightarrow> do {
         let k = pop_frame (k\<lparr>all_list := remove1 c (all_list k)\<rparr>);
         schedule (upd_thr c (\<lambda>t. t\<lparr>t_status := THREAD_DYING\<rparr>) k) } }"

text \<open>The start of the idle thread, and one round of its loop.\<close>

definition idle_start :: "sema_id \<Rightarrow> kernel \<Rightarrow> kernel option" where
  "idle_start idle_started k = do {
     c \<leftarrow> thread_current k;
     sema_up idle_started (k\<lparr>idle_thread := Some c\<rparr>) }"

definition idle_round :: "kernel \<Rightarrow> kernel option" where
  "idle_round k = thread_block k"

definition thread_start :: "nat \<Rightarrow> nat option \<Rightarrow> kernel \<Rightarrow> kernel option" where
  "thread_start idle_started page k = do {
     let k = sema_init (Sema idle_started) 0 k;
     k \<leftarrow> sema_down (Sema idle_started) k;
     (_, k) \<leftarrow> thread_create page PRI_MIN k;
     Some k }"

section \<open>Transitions\<close>

definition run_frame :: "kernel \<Rightarrow> kernel option" where
  "run_frame k = (case frames (thr k (cur k)) of
     [] \<Rightarrow> None
   | SemaWait s # _ \<Rightarrow> sema_round s k
   | LockTaken l # _ \<Rightarrow> lock_taken l (pop_frame k)
   | LockGiven l # _ \<Rightarrow> lock_given l (pop_frame k)
   | LockAgain l # _ \<Rightarrow> lock_acquire l (pop_frame k)
   | ExitLocks lo # _ \<Rightarrow> exit_round lo k
   | CreateYield p # _ \<Rightarrow> create_yield p (pop_frame k)
   | Broadcast v l # _ \<Rightarrow> broadcast_round v l k)"

text \<open>The calls a thread makes, on its own semaphores, on locks and on conditions.\<close>

datatype call =
    Yield | Block | Sleep int | SetPriority int | Create nat int | Exit
  | SemaDown nat | SemaTryDown nat | SemaUp nat
  | LockAcquire nat | LockTryAcquire nat | LockRelease nat
  | CondWait nat nat nat | CondSignal nat nat | CondBroadcast nat nat

definition do_call :: "call \<Rightarrow> kernel \<Rightarrow> kernel option" where
  "do_call c k = (case c of
     Yield \<Rightarrow> thread_yield k
   | Block \<Rightarrow> thread_block k
   | Sleep t \<Rightarrow> thread_sleep_until t k
   | SetPriority p \<Rightarrow> thread_set_priority p k
   | Create t p \<Rightarrow> map_option snd (thread_create (Some t) p k)
   | Exit \<Rightarrow> thread_exit k
   | SemaDown s \<Rightarrow> sema_down (Sema s) k
   | SemaTryDown s \<Rightarrow> Some (snd (sema_try_down (Sema s) k))
   | SemaUp s \<Rightarrow> sema_up (Sema s) k
   | LockAcquire l \<Rightarrow> lock_acquire l k
   | LockTryAcquire l \<Rightarrow> map_option snd (lock_try_acquire l k)
   | LockRelease l \<Rightarrow> lock_release l k
   | CondWait w v l \<Rightarrow> cond_wait w v l k
   | CondSignal v l \<Rightarrow> cond_signal v l k
   | CondBroadcast v l \<Rightarrow> cond_broadcast v l k)"

text \<open>A page that \<^verbatim>\<open>palloc_get_page\<close> may return is not the page of a thread in use.\<close>

definition fresh_page :: "nat \<Rightarrow> kernel \<Rightarrow> bool" where
  "fresh_page t k \<longleftrightarrow> t \<noteq> cur k \<and> t \<notin> set (ready_list k) \<and> frames (thr k t) = []"

inductive kstep :: "kernel \<Rightarrow> kernel \<Rightarrow> bool" where
  call: "frames (thr k (cur k)) = [] \<Longrightarrow> (\<And>t p. c = Create t p \<Longrightarrow> fresh_page t k) \<Longrightarrow>
    do_call c k = Some k' \<Longrightarrow> kstep k k'"
| continue: "run_frame k = Some k' \<Longrightarrow> kstep k k'"
| interrupt: "timer_interrupt tick k = Some k' \<Longrightarrow> kstep k k'"

inductive_cases kstepE: "kstep k k'"

interpretation lock_order: list_order "comparator_greater_lock_priority k" for k
  by unfold_locales (auto simp: comparator_greater_lock_priority_def)

interpretation sema_order: list_order "comparator_greater_sema_priority k" for k
  by unfold_locales (auto simp: comparator_greater_sema_priority_def)

end
