(* ===== verification/SynchFacts.thy ===== *)
theory SynchFacts
  imports Synch
begin

text \<open>
  Invariants of the scheduler and of locks over the kernel's transitions, and what the
  priority operations compute.
\<close>

section \<open>What scheduling leaves alone\<close>

text \<open>The values of semaphores, the holders of locks and the pending work of every thread.\<close>

definition same_sync :: "kernel \<Rightarrow> kernel \<Rightarrow> bool" where
  "same_sync k k' \<longleftrightarrow> (\<forall>s. svalue (semas k' s) = svalue (semas k s)) \<and>
     (\<forall>l. holder (klocks k' l) = holder (klocks k l)) \<and> (\<forall>t. frames (thr k' t) = frames (thr k t))"

named_theorems sync_intros \<open>operations that keep the synchronisation state\<close>

lemma same_sync_refl [simp]: "same_sync k k"
  by (simp add: same_sync_def)

lemma same_sync_trans: "same_sync a b \<Longrightarrow> same_sync b c \<Longrightarrow> same_sync a c"
  by (simp add: same_sync_def)

lemma upd_thr_simps [simp]:
  "thr (upd_thr t f k) x = (if x = t then f (thr k t) else thr k x)"
  "semas (upd_thr t f k) = semas k" "klocks (upd_thr t f k) = klocks k" "conds (upd_thr t f k) = conds k"
  "ready_list (upd_thr t f k) = ready_list k" "wait_list (upd_thr t f k) = wait_list k"
  "cur (upd_thr t f k) = cur k" "idle_thread (upd_thr t f k) = idle_thread k" "in_intr (upd_thr t f k) = in_intr k"
  "initial_thread (upd_thr t f k) = initial_thread k" "all_list (upd_thr t f k) = all_list k"
  "yield_on_return (upd_thr t f k) = yield_on_return k"
  by (simp_all add: upd_thr_def)

lemma upd_sema_simps [simp]:
  "thr (upd_sema s f k) = thr k" "semas (upd_sema s f k) x = (if x = s then f (semas k s) else semas k x)"
  "klocks (upd_sema s f k) = klocks k" "ready_list (upd_sema s f k) = ready_list k" "cur (upd_sema s f k) = cur k"
  "idle_thread (upd_sema s f k) = idle_thread k" "in_intr (upd_sema s f k) = in_intr k" "conds (upd_sema s f k) = conds k"
  by (simp_all add: upd_sema_def)

lemma upd_lock_simps [simp]:
  "thr (upd_lock l f k) = thr k" "semas (upd_lock l f k) = semas k"
  "klocks (upd_lock l f k) x = (if x = l then f (klocks k l) else klocks k x)"
  "ready_list (upd_lock l f k) = ready_list k" "cur (upd_lock l f k) = cur k"
  "idle_thread (upd_lock l f k) = idle_thread k" "in_intr (upd_lock l f k) = in_intr k" "conds (upd_lock l f k) = conds k"
  by (simp_all add: upd_lock_def)

lemma ready_insert_simps [simp]:
  "thr (ready_insert t k) = thr k" "semas (ready_insert t k) = semas k" "klocks (ready_insert t k) = klocks k"
  "cur (ready_insert t k) = cur k" "idle_thread (ready_insert t k) = idle_thread k" "in_intr (ready_insert t k) = in_intr k"
  "set (ready_list (ready_insert t k)) = insert t (set (ready_list k))" "conds (ready_insert t k) = conds k"
  by (simp_all add: ready_insert_def)

lemma thread_current_Some [simp]: "thread_current k = Some c \<longleftrightarrow> t_status (thr k (cur k)) = THREAD_RUNNING \<and> c = cur k"
  by (auto simp: thread_current_def)

lemma bind_current:
  "Option.bind (thread_current k) f = Some r \<longleftrightarrow> t_status (thr k (cur k)) = THREAD_RUNNING \<and> f (cur k) = Some r"
  by (auto simp: thread_current_def)

lemma tail_props:
  assumes "thread_schedule_tail prev k = Some k'"
  shows "thr k' = (thr k)(cur k := (thr k (cur k))\<lparr>t_status := THREAD_RUNNING\<rparr>)" "cur k' = cur k"
    "semas k' = semas k" "klocks k' = klocks k" "ready_list k' = ready_list k" "idle_thread k' = idle_thread k"
    "in_intr k' = in_intr k" "conds k' = conds k"
  using assms by (auto simp: thread_schedule_tail_def Let_def upd_thr_def split: option.splits if_splits)

text \<open>A switch runs the front of the ready list, or the idle thread when the list is empty.\<close>

lemma schedule_props:
  assumes "schedule k = Some k'"
  shows "ready_list k = cur k' # ready_list k' \<or>
      ready_list k = [] \<and> ready_list k' = [] \<and> idle_thread k = Some (cur k')"
    "thr k' = (thr k)(cur k' := (thr k (cur k'))\<lparr>t_status := THREAD_RUNNING\<rparr>)"
    "semas k' = semas k" "klocks k' = klocks k" "idle_thread k' = idle_thread k" "in_intr k' = in_intr k"
    "conds k' = conds k" "t_status (thr k (cur k)) \<noteq> THREAD_RUNNING"
proof -
  obtain n k1 where k1: "next_thread_to_run k = Some (n, k1)"
    using assms by (cases "next_thread_to_run k") (auto simp: schedule_def Let_def)
  then have n: "ready_list k = n # ready_list k1 \<or> ready_list k = [] \<and> ready_list k1 = [] \<and> idle_thread k = Some n"
    "thr k1 = thr k" "semas k1 = semas k" "klocks k1 = klocks k" "idle_thread k1 = idle_thread k"
    "in_intr k1 = in_intr k" "conds k1 = conds k" "cur k1 = cur k"
    by (auto simp: next_thread_to_run_def split: list.splits Option.bind_splits)
  have st: "t_status (thr k (cur k)) \<noteq> THREAD_RUNNING"
    using assms k1 n(2) by (auto simp: schedule_def Let_def split: if_splits)
  obtain prev where tl: "thread_schedule_tail prev (k1\<lparr>cur := n\<rparr>) = Some k'"
  proof (cases "cur k = n")
    case True
    then have "k1\<lparr>cur := n\<rparr> = k1" using n(8) by simp
    then show ?thesis using assms k1 True n(2) that [of None] by (auto simp: schedule_def Let_def split: if_splits)
  next
    case False
    then show ?thesis using assms k1 n(2) that [of "Some (cur k)"] by (auto simp: schedule_def Let_def split: if_splits)
  qed
  note t = tail_props [OF tl]
  show "ready_list k = cur k' # ready_list k' \<or> ready_list k = [] \<and> ready_list k' = [] \<and> idle_thread k = Some (cur k')"
    "thr k' = (thr k)(cur k' := (thr k (cur k'))\<lparr>t_status := THREAD_RUNNING\<rparr>)"
    "semas k' = semas k" "klocks k' = klocks k" "idle_thread k' = idle_thread k" "in_intr k' = in_intr k"
    "conds k' = conds k" "t_status (thr k (cur k)) \<noteq> THREAD_RUNNING"
    using t n st by auto
qed

lemma schedule_same: "schedule k = Some k' \<Longrightarrow> same_sync k k'"
  by (simp add: same_sync_def schedule_props)

lemma thread_block_same: "thread_block k = Some k' \<Longrightarrow> same_sync k k'"
  unfolding thread_block_def by (auto simp: bind_current dest!: schedule_same simp: same_sync_def split: if_splits)

lemma thread_yield_same: "thread_yield k = Some k' \<Longrightarrow> same_sync k k'"
  unfolding thread_yield_def
  by (auto simp: bind_current Let_def dest!: schedule_same simp: same_sync_def split: if_splits)

lemma thread_unblock_same: "thread_unblock t k = Some k' \<Longrightarrow> same_sync k k'"
  unfolding thread_unblock_def
  by (auto simp: bind_current Let_def dest!: thread_yield_same simp: same_sync_def split: if_splits)

lemma awake_loop_same: "awake_loop tick ts k = Some k' \<Longrightarrow> same_sync k k'"
proof (induction tick ts k arbitrary: k' rule: awake_loop.induct)
  case (2 tick t ts k)
  show ?case
  proof (cases "sleep_endtick (thr k t) \<le> tick")
    case True
    let ?k = "upd_thr t (\<lambda>t. t\<lparr>sleep_endtick := 0\<rparr>) k"
    from "2.prems" True obtain k1 where k1: "thread_unblock t (?k\<lparr>wait_list := remove1 t (wait_list ?k)\<rparr>) = Some k1"
      "awake_loop tick ts k1 = Some k'" by (auto simp: Let_def split: Option.bind_splits)
    have "same_sync k k1" using thread_unblock_same [OF k1(1)] by (auto simp: same_sync_def)
    moreover have "same_sync k1 k'" by (rule "2.IH"(1) [OF True refl k1])
    ultimately show ?thesis by (rule same_sync_trans)
  qed (use 2 in auto)
qed simp

lemma timer_interrupt_same: "timer_interrupt tick k = Some k' \<Longrightarrow> same_sync k k'"
  unfolding timer_interrupt_def thread_tick_def thread_awake_def
  by (auto simp: bind_current Let_def split: if_splits Option.bind_splits
      dest!: awake_loop_same thread_yield_same simp: same_sync_def)

lemma yield_if_lower_same: "yield_if_lower p k = Some k' \<Longrightarrow> same_sync k k'"
  by (auto simp: yield_if_lower_def dest!: thread_yield_same split: list.splits if_splits)

lemma donate_same: "thread_priority_donate t p k = Some k' \<Longrightarrow> same_sync k k'"
  unfolding thread_priority_donate_def
  by (auto simp: bind_current Let_def dest!: yield_if_lower_same simp: same_sync_def split: if_splits)

lemma set_priority_same: "thread_set_priority p k = Some k' \<Longrightarrow> same_sync k k'"
  unfolding thread_set_priority_def
  by (auto simp: bind_current Let_def dest!: yield_if_lower_same simp: same_sync_def split: if_splits)

section \<open>Mutual exclusion\<close>

text \<open>
  The frames of a thread: \<open>LockTaken l\<close> occurs only below the wait for the semaphore of \<open>l\<close>,
  or on top once that wait is over.
\<close>

fun clean :: "frame list \<Rightarrow> bool" where
  "clean [] = True"
| "clean (SemaWait (LockSema l) # r) = (case r of LockTaken l' # r' \<Rightarrow> l' = l \<and> clean r' | _ \<Rightarrow> False)"
| "clean (SemaWait (Sema s) # r) = clean r"
| "clean (LockTaken l # r) = False"
| "clean (LockGiven l # r) = clean r"
| "clean (LockAgain l # r) = clean r"
| "clean (ExitLocks l # r) = clean r"
| "clean (CreateYield p # r) = clean r"
| "clean (Broadcast v l # r) = clean r"

definition top_taken :: "frame list \<Rightarrow> nat option" where
  "top_taken fs = (case fs of LockTaken l # _ \<Rightarrow> Some l | _ \<Rightarrow> None)"

definition frames_ok :: "frame list \<Rightarrow> bool" where
  "frames_ok fs \<longleftrightarrow> clean (if top_taken fs = None then fs else tl fs)"

text \<open>The threads that own the semaphore of a lock and have not yet made themselves its holder.\<close>

definition passing :: "kernel \<Rightarrow> nat \<Rightarrow> nat set" where
  "passing k l = {t. top_taken (frames (thr k t)) = Some l}"

definition lock_inv :: "kernel \<Rightarrow> nat \<Rightarrow> bool" where
  "lock_inv k l \<longleftrightarrow>
     (holder (klocks k l) = None \<and> svalue (semas k (LockSema l)) = 1 \<and> passing k l = {}) \<or>
     (holder (klocks k l) \<noteq> None \<and> svalue (semas k (LockSema l)) = 0 \<and> passing k l = {}) \<or>
     (holder (klocks k l) = None \<and> svalue (semas k (LockSema l)) = 0 \<and> (\<exists>t. passing k l = {t}))"

definition sync_ok :: "kernel \<Rightarrow> bool" where
  "sync_ok k \<longleftrightarrow> (\<forall>t. frames_ok (frames (thr k t))) \<and> (\<forall>l. lock_inv k l)"

lemma clean_top: "clean fs \<Longrightarrow> top_taken fs = None"
  by (induction fs rule: clean.induct) (auto simp: top_taken_def)

lemma clean_ok: "clean fs \<Longrightarrow> frames_ok fs"
  by (simp add: frames_ok_def clean_top)

lemma sync_ok_same: "same_sync k k' \<Longrightarrow> sync_ok k \<Longrightarrow> sync_ok k'"
  by (simp add: same_sync_def sync_ok_def lock_inv_def passing_def)

text \<open>
  A change of a stand-alone semaphore, and of the frames of one thread between two lists
  without a taken lock on top.
\<close>

lemma sync_ok_frames:
  assumes ok: "sync_ok k" and fs: "top_taken (frames (thr k t)) = None" "clean fs"
    and thr: "\<And>x. frames (thr k' x) = (if x = t then fs else frames (thr k x))"
    and sem: "\<And>l. svalue (semas k' (LockSema l)) = svalue (semas k (LockSema l))"
    and hol: "\<And>l. holder (klocks k' l) = holder (klocks k l)"
  shows "sync_ok k'"
proof -
  have "passing k' l = passing k l" for l using fs clean_top [OF fs(2)] by (auto simp: passing_def thr)
  then have "lock_inv k' l = lock_inv k l" for l by (simp add: lock_inv_def sem hol)
  then show ?thesis using ok clean_ok [OF fs(2)] by (simp add: sync_ok_def thr)
qed

lemma frames_push [simp]: "frames (thr (push_frame f k) t) = (if t = cur k then f # frames (thr k t) else frames (thr k t))"
  by (simp add: push_frame_def)

lemma frames_pop [simp]: "frames (thr (pop_frame k) t) = (if t = cur k then tl (frames (thr k t)) else frames (thr k t))"
  by (simp add: pop_frame_def)

lemma push_pop_simps [simp]:
  "semas (push_frame f k) = semas k" "klocks (push_frame f k) = klocks k" "cur (push_frame f k) = cur k"
  "semas (pop_frame k) = semas k" "klocks (pop_frame k) = klocks k" "cur (pop_frame k) = cur k"
  "in_intr (push_frame f k) = in_intr k" "in_intr (pop_frame k) = in_intr k"
  "t_status (thr (push_frame f k) t) = t_status (thr k t)" "t_status (thr (pop_frame k) t) = t_status (thr k t)"
  "held_locks (thr (push_frame f k) t) = held_locks (thr k t)" "held_locks (thr (pop_frame k) t) = held_locks (thr k t)"
  "conds (push_frame f k) = conds k" "conds (pop_frame k) = conds k"
  "ready_list (push_frame f k) = ready_list k" "ready_list (pop_frame k) = ready_list k"
  "idle_thread (push_frame f k) = idle_thread k" "idle_thread (pop_frame k) = idle_thread k"
  "original_priority (thr (push_frame f k) t) = original_priority (thr k t)"
  "original_priority (thr (pop_frame k) t) = original_priority (thr k t)"
  "waiting_lock (thr (push_frame f k) t) = waiting_lock (thr k t)" "waiting_lock (thr (pop_frame k) t) = waiting_lock (thr k t)"
  "priority (thr (push_frame f k) t) = priority (thr k t)" "priority (thr (pop_frame k) t) = priority (thr k t)"
  by (simp_all add: push_frame_def pop_frame_def)

text \<open>Raising a semaphore: the value grows by one, the rest of the synchronisation state stays.\<close>

lemma sema_up_sync:
  assumes "sema_up s k = Some k'"
  shows "svalue (semas k' x) = (if x = s then svalue (semas k s) + 1 else svalue (semas k x))"
    "holder (klocks k' l) = holder (klocks k l)" "frames (thr k' t) = frames (thr k t)"
proof -
  let ?k = "upd_sema s (\<lambda>x. x\<lparr>svalue := svalue x + 1\<rparr>) k"
  obtain k1 where k1: "same_sync k1 k'" "\<And>x. svalue (semas k1 x) = svalue (semas ?k x)" "klocks k1 = klocks k" "thr k1 = thr k"
  proof (cases "kl_sort (comparator_greater_thread_priority ?k) (waiters (semas ?k s))")
    case Nil
    then have "k' = ?k" using assms by (simp add: sema_up_def)
    then show ?thesis using that [of ?k] by simp
  next
    case (Cons t r)
    then show ?thesis using assms that [of "upd_sema s (\<lambda>x. x\<lparr>waiters := r\<rparr>) ?k"]
      by (auto simp: sema_up_def dest: thread_unblock_same)
  qed
  then show "svalue (semas k' x) = (if x = s then svalue (semas k s) + 1 else svalue (semas k x))"
    "holder (klocks k' l) = holder (klocks k l)" "frames (thr k' t) = frames (thr k t)"
    by (simp_all add: same_sync_def)
qed

lemma held_by_current:
  "Option.bind (lock_held_by_current_thread l k) f = Some r \<longleftrightarrow>
     t_status (thr k (cur k)) = THREAD_RUNNING \<and> f (holder (klocks k l) = Some (cur k)) = Some r"
  by (auto simp: lock_held_by_current_thread_def thread_current_def)

lemma donate_other:
  assumes "thread_priority_donate t p k = Some k'" "t \<noteq> cur k"
  shows "k' = upd_thr t (\<lambda>t. t\<lparr>priority := p\<rparr>) k"
  using assms by (auto simp: thread_priority_donate_def bind_current Let_def)

text \<open>
  The donation loop runs for the current thread and never reaches it: it does not switch, and
  a thread's priority only grows, to the donor's.
\<close>

definition donated :: "kernel \<Rightarrow> kernel \<Rightarrow> bool" where
  "donated k k' \<longleftrightarrow> same_sync k k' \<and> cur k' = cur k \<and> ready_list k' = ready_list k \<and> in_intr k' = in_intr k \<and>
     idle_thread k' = idle_thread k \<and>
     (\<forall>t. thr k' t = thr k t \<or>
       (t \<noteq> cur k \<and> priority (thr k t) < priority (thr k (cur k)) \<and>
        thr k' t = (thr k t)\<lparr>priority := priority (thr k (cur k))\<rparr>))"

lemma donated_refl: "donated k k"
  by (simp add: donated_def)

lemma donated_thr:
  assumes "donated k k'"
  shows "t_status (thr k' t) = t_status (thr k t)" "waiting_lock (thr k' t) = waiting_lock (thr k t)"
    "held_locks (thr k' t) = held_locks (thr k t)" "thr k' (cur k) = thr k (cur k)"
    "priority (thr k t) \<le> priority (thr k' t)"
proof -
  have "thr k' t = thr k t \<or> (priority (thr k t) < priority (thr k (cur k)) \<and>
    thr k' t = (thr k t)\<lparr>priority := priority (thr k (cur k))\<rparr>)" using assms unfolding donated_def by blast
  then show "t_status (thr k' t) = t_status (thr k t)" "waiting_lock (thr k' t) = waiting_lock (thr k t)"
    "held_locks (thr k' t) = held_locks (thr k t)" "priority (thr k t) \<le> priority (thr k' t)" by auto
  show "thr k' (cur k) = thr k (cur k)" using assms unfolding donated_def by blast
qed

lemma donated_trans:
  assumes ab: "donated a b" and bc: "donated b c"
  shows "donated a c"
proof -
  have b: "cur b = cur a" "thr b (cur a) = thr a (cur a)" using ab by (auto simp: donated_def)
  have "thr c t = thr a t \<or> (t \<noteq> cur a \<and> priority (thr a t) < priority (thr a (cur a)) \<and>
      thr c t = (thr a t)\<lparr>priority := priority (thr a (cur a))\<rparr>)" for t
  proof (cases "thr b t = thr a t")
    case True
    moreover have "thr c t = thr b t \<or> (t \<noteq> cur b \<and> priority (thr b t) < priority (thr b (cur b)) \<and>
      thr c t = (thr b t)\<lparr>priority := priority (thr b (cur b))\<rparr>)" using bc unfolding donated_def by blast
    ultimately show ?thesis using b by simp
  next
    case False
    moreover have "thr b t = thr a t \<or> (t \<noteq> cur a \<and> priority (thr a t) < priority (thr a (cur a)) \<and>
      thr b t = (thr a t)\<lparr>priority := priority (thr a (cur a))\<rparr>)" using ab unfolding donated_def by blast
    ultimately have t: "t \<noteq> cur a" "priority (thr a t) < priority (thr a (cur a))"
      "thr b t = (thr a t)\<lparr>priority := priority (thr a (cur a))\<rparr>" by blast+
    moreover have "thr c t = thr b t \<or> priority (thr b t) < priority (thr b (cur b))" using bc unfolding donated_def by blast
    ultimately have "thr c t = thr b t" using b by simp
    with t show ?thesis by simp
  qed
  then show ?thesis using ab bc same_sync_trans [of a b c] unfolding donated_def by simp
qed

lemma donate_loop_donated: "donate_loop l h c k = Some k' \<Longrightarrow> c = cur k \<Longrightarrow> donated k k'"
proof (induction rule: donate_loop.raw_induct [rotated 1, consumes 1, case_names step])
  case (step dn l h c k k')
  show ?case
  proof (cases h)
    case None
    then show ?thesis using step(2) by (simp add: donated_refl)
  next
    case h: (Some t)
    show ?thesis
    proof (cases "priority (thr k t) < priority (thr k c)")
      case True
      then have tc: "t \<noteq> cur k" using step.prems by auto
      obtain k1 where k1: "thread_priority_donate t (priority (thr k c)) k = Some k1"
        using step(2) h True by (auto split: Option.bind_splits)
      note k1e = donate_other [OF k1 tc]
      let ?k2 = "if lpriority (klocks k1 l) < priority (thr k1 c)
        then upd_lock l (\<lambda>x. x\<lparr>lpriority := priority (thr k1 c)\<rparr>) k1 else k1"
      have s2: "donated k ?k2" using tc True step.prems by (auto simp: donated_def same_sync_def k1e)
      have c2: "c = cur ?k2" using step.prems by (simp add: k1e)
      show ?thesis
      proof (cases "waiting_lock (thr ?k2 t)")
        case None
        then show ?thesis using step(2) h True k1 s2 by (simp add: Let_def)
      next
        case (Some l')
        then have "dn l' (holder (klocks ?k2 l')) c ?k2 = Some k'"
          using step(2) h True k1 by (simp add: Let_def)
        from step(1) [OF this c2] s2 show ?thesis by (rule donated_trans [rotated])
      qed
    qed (use step h in \<open>simp add: donated_refl\<close>)
  qed
qed

text \<open>The operations on locks.\<close>

lemma lock_acquire_sync:
  assumes ok: "sync_ok k" and cl: "clean (frames (thr k (cur k)))" and a: "lock_acquire l k = Some k'"
  shows "sync_ok k'"
proof -
  let ?k1 = "upd_thr (cur k) (\<lambda>t. t\<lparr>waiting_lock := Some l\<rparr>) k"
  let ?k2 = "if holder (klocks k l) = None then upd_lock l (\<lambda>x. x\<lparr>lpriority := priority (thr ?k1 (cur k))\<rparr>) ?k1 else ?k1"
  obtain k3 where k3: "donate_loop l (holder (klocks k l)) (cur k) ?k2 = Some k3"
    "k' = push_frame (SemaWait (LockSema l)) (push_frame (LockTaken l) k3)"
    using a by (auto simp: lock_acquire_def held_by_current bind_current sema_down_def Let_def split: Option.bind_splits if_splits)
  have "donated ?k2 k3" by (rule donate_loop_donated [OF k3(1)]) simp
  then have s3: "\<And>t. frames (thr k3 t) = frames (thr k t)" "\<And>s. svalue (semas k3 s) = svalue (semas k s)"
    "\<And>l. holder (klocks k3 l) = holder (klocks k l)" "cur k3 = cur k"
    by (auto simp: donated_def same_sync_def split: if_splits)
  show ?thesis
    by (rule sync_ok_frames [OF ok, of "cur k" "SemaWait (LockSema l) # LockTaken l # frames (thr k (cur k))"])
      (use cl s3 clean_top [OF cl] in \<open>simp_all add: k3(2)\<close>)
qed

lemma lock_invD:
  assumes "sync_ok k"
  shows "top_taken (frames (thr k t)) = Some l \<Longrightarrow> holder (klocks k l) = None \<and> svalue (semas k (LockSema l)) = 0 \<and> passing k l = {t}"
    "holder (klocks k l) = Some t \<Longrightarrow> svalue (semas k (LockSema l)) = 0 \<and> passing k l = {}"
    "svalue (semas k (LockSema l)) \<noteq> 0 \<Longrightarrow> holder (klocks k l) = None \<and> svalue (semas k (LockSema l)) = 1 \<and> passing k l = {}"
proof -
  have i: "lock_inv k l" using assms by (simp add: sync_ok_def)
  show "holder (klocks k l) = None \<and> svalue (semas k (LockSema l)) = 0 \<and> passing k l = {t}"
    if "top_taken (frames (thr k t)) = Some l"
  proof -
    have "t \<in> passing k l" using that by (simp add: passing_def)
    then show ?thesis using i by (auto simp: lock_inv_def)
  qed
  show "holder (klocks k l) = Some t \<Longrightarrow> svalue (semas k (LockSema l)) = 0 \<and> passing k l = {}"
    "svalue (semas k (LockSema l)) \<noteq> 0 \<Longrightarrow> holder (klocks k l) = None \<and> svalue (semas k (LockSema l)) = 1 \<and> passing k l = {}"
    using i by (auto simp: lock_inv_def)
qed

text \<open>A change of one lock and of the current thread's frames.\<close>

lemma sync_ok_lock:
  assumes ok: "sync_ok k" and inv: "lock_inv k' l" and cl: "frames_ok fs"
    and thr: "\<And>x. frames (thr k' x) = (if x = t then fs else frames (thr k x))"
    and top: "\<And>m. m \<noteq> l \<Longrightarrow> (top_taken fs = Some m) = (top_taken (frames (thr k t)) = Some m)"
    and sem: "\<And>m. m \<noteq> l \<Longrightarrow> svalue (semas k' (LockSema m)) = svalue (semas k (LockSema m))"
    and hol: "\<And>m. m \<noteq> l \<Longrightarrow> holder (klocks k' m) = holder (klocks k m)"
  shows "sync_ok k'"
proof -
  have "lock_inv k' m" for m
  proof (cases "m = l")
    case False
    then have "passing k' m = passing k m" using top by (auto simp: passing_def thr)
    with False show ?thesis using ok by (simp add: sync_ok_def lock_inv_def sem hol)
  qed (use inv in simp)
  then show ?thesis using ok cl by (simp add: sync_ok_def thr)
qed

lemma lock_release_sync:
  assumes ok: "sync_ok k" and cl: "clean (frames (thr k (cur k)))" and r: "lock_release l k = Some k'"
  shows "sync_ok k'"
proof -
  let ?k = "push_frame (LockGiven l) (upd_lock l (\<lambda>x. x\<lparr>holder := None\<rparr>) k)"
  have h: "holder (klocks k l) = Some (cur k)" and u: "sema_up (LockSema l) ?k = Some k'"
    using r by (auto simp: lock_release_def held_by_current Let_def split: if_splits)
  note s = sema_up_sync [OF u]
  have top: "top_taken (LockGiven l # fs) = None" for fs by (simp add: top_taken_def)
  have fr: "frames (thr k' x) = (if x = cur k then LockGiven l # frames (thr k (cur k)) else frames (thr k x))" for x
    using s(3) [of x] by simp
  have p: "passing k' l = passing k l" using top clean_top [OF cl] by (auto simp: passing_def fr)
  have inv: "lock_inv k' l" using lock_invD(2) [OF ok h] s(1) [of "LockSema l"] s(2) [of l] p by (simp add: lock_inv_def)
  show ?thesis
    by (rule sync_ok_lock [OF ok inv _ fr]) (use cl top clean_top [OF cl] s(1,2) in \<open>simp_all add: clean_ok\<close>)
qed

lemma lock_try_sync:
  assumes ok: "sync_ok k" and t: "lock_try_acquire l k = Some (b, k')"
  shows "sync_ok k'"
proof (cases "svalue (semas k (LockSema l)) = 0")
  case True
  then have "k' = k" using t by (auto simp: lock_try_acquire_def held_by_current sema_try_down_def split: if_splits)
  with ok show ?thesis by simp
next
  case False
  then have k': "k' = upd_lock l (\<lambda>x. x\<lparr>holder := Some (cur k)\<rparr>) (upd_sema (LockSema l) (\<lambda>x. x\<lparr>svalue := svalue x - 1\<rparr>) k)"
    using t by (auto simp: lock_try_acquire_def held_by_current sema_try_down_def bind_current split: if_splits)
  have inv: "lock_inv k' l" using lock_invD(3) [OF ok False] by (simp add: lock_inv_def k' passing_def)
  show ?thesis
    by (rule sync_ok_lock [OF ok inv, where fs = "frames (thr k (cur k))" and t = "cur k"])
      (use ok in \<open>auto simp: k' sync_ok_def\<close>)
qed

lemma lock_taken_sync:
  assumes ok: "sync_ok k" and fs: "frames (thr k (cur k)) = LockTaken l # r" and t: "lock_taken l (pop_frame k) = Some k'"
  shows "sync_ok k'"
proof -
  have top: "top_taken (frames (thr k (cur k))) = Some l" by (simp add: fs top_taken_def)
  note inv = lock_invD(1) [OF ok top]
  have cl: "clean r" using ok fs unfolding sync_ok_def frames_ok_def by (metis list.sel(3) option.distinct(1) top)
  have k': "frames (thr k' x) = (if x = cur k then r else frames (thr k x))" "semas k' = semas k"
    "holder (klocks k' m) = (if m = l then Some (cur k) else holder (klocks k m))" for x m
    using t by (auto simp: lock_taken_def bind_current Let_def fs)
  have pass: "passing k' l = {}"
    using inv clean_top [OF cl] by (auto simp: passing_def k' split: if_splits)
  have "lock_inv k' l" using inv pass by (simp add: lock_inv_def k')
  then show ?thesis
    by (rule sync_ok_lock [OF ok _ _ k'(1)]) (use cl clean_top [OF cl] top in \<open>auto simp: k' clean_ok\<close>)
qed

lemma sync_ok_clean: "sync_ok k \<Longrightarrow> top_taken (frames (thr k t)) = None \<Longrightarrow> clean (frames (thr k t))"
  unfolding sync_ok_def frames_ok_def by metis

lemma sema_round_sync:
  assumes ok: "sync_ok k" and fs: "frames (thr k (cur k)) = SemaWait s # r" and t: "sema_round s k = Some k'"
  shows "sync_ok k'"
proof (cases "svalue (semas k s) = 0")
  case True
  then obtain w where "thread_block (upd_sema s (\<lambda>x. x\<lparr>waiters := w\<rparr>) k) = Some k'"
    using t by (auto simp: sema_round_def bind_current Let_def)
  then have "same_sync (upd_sema s (\<lambda>x. x\<lparr>waiters := w\<rparr>) k) k'" by (rule thread_block_same)
  then have "same_sync k k'" by (auto simp: same_sync_def split: if_splits)
  then show ?thesis using ok by (rule sync_ok_same)
next
  case False
  then have k': "k' = pop_frame (upd_sema s (\<lambda>x. x\<lparr>svalue := svalue x - 1\<rparr>) k)" using t by (simp add: sema_round_def)
  have top: "top_taken (frames (thr k (cur k))) = None" by (simp add: fs top_taken_def)
  have cl: "clean (SemaWait s # r)" using sync_ok_clean [OF ok top] by (simp add: fs)
  show ?thesis
  proof (cases s)
    case (Sema n)
    show ?thesis by (rule sync_ok_frames [OF ok top, of r]) (use cl Sema fs in \<open>auto simp: k'\<close>)
  next
    case (LockSema l)
    then obtain r' where r: "r = LockTaken l # r'" "clean r'" using cl by (auto split: list.splits frame.splits)
    have val: "svalue (semas k (LockSema l)) \<noteq> 0" using False LockSema by simp
    note inv = lock_invD(3) [OF ok val]
    have fr: "frames (thr k' x) = (if x = cur k then r else frames (thr k x))" for x by (simp add: k' fs)
    have "passing k' l = {cur k}" using inv r(1) by (auto simp: passing_def fr top_taken_def split: if_splits)
    then have "lock_inv k' l" using inv by (simp add: lock_inv_def k' LockSema)
    then show ?thesis
      by (rule sync_ok_lock [OF ok _ _ fr]) (use r top in \<open>auto simp: k' LockSema frames_ok_def top_taken_def\<close>)
  qed
qed

lemma lock_given_sync:
  assumes ok: "sync_ok k" and fs: "frames (thr k (cur k)) = LockGiven l # r" and t: "lock_given l (pop_frame k) = Some k'"
  shows "sync_ok k'"
proof -
  have top: "top_taken (frames (thr k (cur k))) = None" by (simp add: fs top_taken_def)
  have cl: "clean r" using sync_ok_clean [OF ok top] by (simp add: fs)
  have "sync_ok (pop_frame k)"
    by (rule sync_ok_frames [OF ok top cl]) (simp_all add: fs)
  moreover have "same_sync (pop_frame k) k'"
    using t unfolding lock_given_def
    by (auto simp: bind_current Let_def same_sync_def split: if_splits list.splits dest!: donate_same)
  ultimately show ?thesis using sync_ok_same by blast
qed

lemma pop_sync:
  assumes "sync_ok k" "frames (thr k (cur k)) = f # r" "clean (f # r) \<Longrightarrow> clean r" "top_taken (f # r) = None"
  shows "sync_ok (pop_frame k)" "clean (frames (thr (pop_frame k) (cur (pop_frame k))))"
proof -
  have c: "clean r" using sync_ok_clean [OF assms(1), of "cur k"] assms(2-4) by simp
  show "sync_ok (pop_frame k)"
    by (rule sync_ok_frames [OF assms(1), of "cur k", OF _ c]) (use assms(2,4) in simp_all)
  show "clean (frames (thr (pop_frame k) (cur (pop_frame k))))" using c assms(2) by simp
qed

lemma push_sync:
  assumes "sync_ok k" "clean (frames (thr k (cur k)))" "clean (frames (thr k (cur k))) \<Longrightarrow> clean (f # frames (thr k (cur k)))"
  shows "sync_ok (push_frame f k)"
  by (rule sync_ok_frames [OF assms(1) clean_top [OF assms(2)] assms(3)]) (use assms in simp_all)

lemma signal_sync:
  assumes ok: "sync_ok k" and s: "cond_signal v l k = Some k'"
  shows "sync_ok k'"
proof (cases "conds k v")
  case Nil
  then show ?thesis using s ok by (auto simp: cond_signal_def held_by_current split: if_splits)
next
  case (Cons w r)
  then have u: "sema_up (Sema w) (k\<lparr>conds := (conds k)(v := r)\<rparr>) = Some k'"
    using s by (auto simp: cond_signal_def held_by_current split: if_splits)
  note s = sema_up_sync [OF u]
  have "\<And>m. passing k' m = passing k m" by (simp add: passing_def s(3))
  then show ?thesis using ok s by (simp add: sync_ok_def lock_inv_def)
qed

lemma up_sync:
  assumes ok: "sync_ok k" and u: "sema_up (Sema w) k = Some k'"
  shows "sync_ok k'"
proof -
  note s = sema_up_sync [OF u]
  have "\<And>m. passing k' m = passing k m" by (simp add: passing_def s(3))
  then show ?thesis using ok s by (simp add: sync_ok_def lock_inv_def)
qed

lemma exit_round_sync:
  assumes ok: "sync_ok k" and fs: "frames (thr k (cur k)) = ExitLocks lo # r" and t: "exit_round lo k = Some k'"
  shows "sync_ok k'"
proof (cases lo)
  case None
  let ?k1 = "upd_thr (cur k) (\<lambda>t. t\<lparr>t_status := THREAD_DYING\<rparr>) (pop_frame (k\<lparr>all_list := remove1 (cur k) (all_list k)\<rparr>))"
  have "schedule ?k1 = Some k'" using t None by (auto simp: exit_round_def bind_current Let_def)
  then have "same_sync ?k1 k'" by (rule schedule_same)
  then have "same_sync (pop_frame k) k'" by (auto simp: same_sync_def split: if_splits)
  moreover have "sync_ok (pop_frame k)" by (rule pop_sync(1) [OF ok fs]) (simp_all add: top_taken_def)
  ultimately show ?thesis using sync_ok_same by blast
next
  case (Some l)
  let ?k1 = "push_frame (ExitLocks (lock_after (held_locks (thr k (cur k))) l)) (pop_frame k)"
  have r: "lock_release l ?k1 = Some k'" using t Some by (simp add: exit_round_def bind_current)
  have p: "sync_ok (pop_frame k)" "clean (frames (thr (pop_frame k) (cur (pop_frame k))))"
    by (rule pop_sync [OF ok fs]; simp add: top_taken_def)+
  have "sync_ok ?k1" by (rule push_sync [OF p]) simp
  moreover have "clean (frames (thr ?k1 (cur ?k1)))" using p(2) by simp
  ultimately show ?thesis using r by (rule lock_release_sync)
qed


lemma clean_Nil_top: "frames (thr k (cur k)) = [] \<Longrightarrow> clean (frames (thr k (cur k)))"
  by simp

lemma create_same:
  assumes "thread_create (Some t) p k = Some (r, k')" "fresh_page t k"
  shows "same_sync (push_frame (CreateYield p) k) k'"
proof -
  obtain k1 where k1: "init_thread t p k = Some k1" using assms(1) by (cases "init_thread t p k") (auto simp: thread_create_def)
  have t: "t \<noteq> cur k" "frames (thr k t) = []" using assms(2) by (auto simp: fresh_page_def)
  let ?k2 = "push_frame (CreateYield p) (upd_thr t (\<lambda>x. x\<lparr>tid := next_tid k1\<rparr>) (k1\<lparr>next_tid := next_tid k1 + 1\<rparr>))"
  have "thread_unblock t ?k2 = Some k'"
    using assms(1) k1 by (auto simp: thread_create_def allocate_tid_def Let_def split: Option.bind_splits)
  then have "same_sync ?k2 k'" by (rule thread_unblock_same)
  moreover have "same_sync (push_frame (CreateYield p) k) ?k2"
    using k1 t by (auto simp: init_thread_def Let_def same_sync_def split: if_splits)
  ultimately show ?thesis using same_sync_trans by blast
qed

lemma create_yield_same: "create_yield p k = Some k' \<Longrightarrow> same_sync k k'"
  by (auto simp: create_yield_def bind_current dest: thread_yield_same split: if_splits)

lemma sleep_same: "thread_sleep_until e k = Some k' \<Longrightarrow> same_sync k k'"
  by (auto simp: thread_sleep_until_def bind_current Let_def same_sync_def dest!: thread_block_same split: if_splits)

lemma cond_wait_sync:
  assumes ok: "sync_ok k" and cl: "clean (frames (thr k (cur k)))" and w: "cond_wait w v l k = Some k'"
  shows "sync_ok k'"
proof -
  define k0 where "k0 = upd_sema (Sema w) (\<lambda>x. x\<lparr>svalue := 0, waiters := [], spriority := priority (thr k (cur k))\<rparr>) k"
  define k1 where "k1 = k0\<lparr>conds := (conds k0)(v := kl_insert (comparator_greater_sema_priority k0) w (conds k0 v))\<rparr>"
  let ?k2 = "push_frame (LockAgain l) k1"
  let ?k3 = "push_frame (SemaWait (Sema w)) ?k2"
  have r: "lock_release l ?k3 = Some k'"
    using w by (auto simp: cond_wait_def held_by_current bind_current Let_def k0_def k1_def split: if_splits)
  have s1: "sync_ok k1" using ok by (simp add: sync_ok_def lock_inv_def passing_def k1_def k0_def)
  have c1: "clean (frames (thr k1 (cur k1)))" using cl by (simp add: k1_def k0_def)
  have s2: "sync_ok ?k2" by (rule push_sync [OF s1 c1]) simp
  have c2: "clean (frames (thr ?k2 (cur ?k2)))" using c1 by simp
  have s3: "sync_ok ?k3" by (rule push_sync [OF s2 c2]) simp
  have c3: "clean (frames (thr ?k3 (cur ?k3)))" using c2 by simp
  show ?thesis by (rule lock_release_sync [OF s3 c3 r])
qed

lemma sema_try_sync: "sync_ok k \<Longrightarrow> sync_ok (snd (sema_try_down (Sema s) k))"
  by (simp add: sema_try_down_def sync_ok_def lock_inv_def passing_def)

lemma call_sync:
  assumes ok: "sync_ok k" and fs: "frames (thr k (cur k)) = []" and fr: "\<And>t p. c = Create t p \<Longrightarrow> fresh_page t k"
    and d: "do_call c k = Some k'"
  shows "sync_ok k'"
proof -
  note cl = clean_Nil_top [OF fs]
  note same = sync_ok_same [OF _ ok]
  show ?thesis
  proof (cases c)
    case (Create t p)
    then obtain r where "thread_create (Some t) p k = Some (r, k')" using d by (auto simp: do_call_def)
    then have "same_sync (push_frame (CreateYield p) k) k'" using fr [OF Create] by (rule create_same)
    moreover have "sync_ok (push_frame (CreateYield p) k)" by (rule push_sync [OF ok cl]) simp
    ultimately show ?thesis by (rule sync_ok_same)
  next
    case (LockTryAcquire l)
    then show ?thesis using d lock_try_sync [OF ok] by (auto simp: do_call_def)
  next
    case (SemaDown s)
    then have "k' = push_frame (SemaWait (Sema s)) k" using d by (auto simp: do_call_def sema_down_def split: if_splits)
    then show ?thesis using push_sync [OF ok cl, of "SemaWait (Sema s)"] by simp
  next
    case Exit
    then obtain lo where "k' = push_frame (ExitLocks lo) k" using d
      by (auto simp: do_call_def thread_exit_def bind_current split: if_splits)
    then show ?thesis using push_sync [OF ok cl, of "ExitLocks lo"] by simp
  next
    case (CondBroadcast v l)
    then have "k' = push_frame (Broadcast v l) k" using d by (simp add: do_call_def cond_broadcast_def)
    then show ?thesis using push_sync [OF ok cl, of "Broadcast v l"] by simp
  qed (use d cl in \<open>auto simp: do_call_def intro: same thread_yield_same thread_block_same sleep_same set_priority_same
      up_sync [OF ok] sema_try_sync [OF ok] signal_sync [OF ok] lock_acquire_sync [OF ok] lock_release_sync [OF ok]
      cond_wait_sync [OF ok]\<close>)
qed

lemma frame_sync:
  assumes ok: "sync_ok k" and d: "run_frame k = Some k'"
  shows "sync_ok k'"
proof -
  obtain f r where fs: "frames (thr k (cur k)) = f # r" using d by (cases "frames (thr k (cur k))") (auto simp: run_frame_def)
  note d = d [unfolded run_frame_def fs, simplified]
  show ?thesis
  proof (cases f)
    case (SemaWait s)
    show ?thesis by (rule sema_round_sync [OF ok fs [unfolded SemaWait]]) (use d SemaWait in simp)
  next
    case (LockTaken l)
    show ?thesis by (rule lock_taken_sync [OF ok fs [unfolded LockTaken]]) (use d LockTaken in simp)
  next
    case (LockGiven l)
    show ?thesis by (rule lock_given_sync [OF ok fs [unfolded LockGiven]]) (use d LockGiven in simp)
  next
    case (ExitLocks lo)
    show ?thesis by (rule exit_round_sync [OF ok fs [unfolded ExitLocks]]) (use d ExitLocks in simp)
  next
    case (LockAgain l)
    note p = pop_sync [OF ok fs [unfolded LockAgain]]
    have "sync_ok (pop_frame k)" "clean (frames (thr (pop_frame k) (cur (pop_frame k))))"
      by (rule p; simp add: top_taken_def)+
    then show ?thesis by (rule lock_acquire_sync [where l = l]) (use d LockAgain in simp)
  next
    case (CreateYield p)
    have "sync_ok (pop_frame k)"
      by (rule pop_sync(1) [OF ok fs [unfolded CreateYield]]; simp add: top_taken_def)
    then show ?thesis using sync_ok_same [OF create_yield_same, of p "pop_frame k" k'] d CreateYield by simp
  next
    case (Broadcast v l)
    show ?thesis
    proof (cases "conds k v = []")
      case True
      have "sync_ok (pop_frame k)"
        by (rule pop_sync(1) [OF ok fs [unfolded Broadcast]]; simp add: top_taken_def)
      then show ?thesis using d Broadcast True by (simp add: broadcast_round_def)
    qed (use d Broadcast signal_sync [OF ok] in \<open>simp add: broadcast_round_def\<close>)
  qed
qed

theorem kstep_sync: "kstep k k' \<Longrightarrow> sync_ok k \<Longrightarrow> sync_ok k'"
  by (auto elim!: kstepE intro: frame_sync sync_ok_same timer_interrupt_same call_sync)

theorem ksteps_sync: "kstep\<^sup>*\<^sup>* k k' \<Longrightarrow> sync_ok k \<Longrightarrow> sync_ok k'"
  by (induction rule: rtranclp_induct) (auto intro: kstep_sync)

end
