(* ===== verification/SchedFacts.thy ===== *)
theory SchedFacts
  imports SynchFacts
begin

text \<open>
  The scheduler: one running thread, a ready list of the ready threads, and priorities. The
  first section is the invariant over all transitions; the second compares the priorities
  of the running and the ready threads; the third is the donation along a chain of locks.
\<close>

section \<open>The running thread and the ready list\<close>

text \<open>
  Only the current thread runs; the ready list holds each ready thread once, the idle thread
  aside.
\<close>

definition sched_ok :: "kernel \<Rightarrow> bool" where
  "sched_ok k \<longleftrightarrow> \<not> in_intr k \<and> t_status (thr k (cur k)) = THREAD_RUNNING \<and>
     (\<forall>t. t \<noteq> cur k \<longrightarrow> t_status (thr k t) \<noteq> THREAD_RUNNING) \<and> distinct (ready_list k) \<and>
     (\<forall>t\<in>set (ready_list k). t_status (thr k t) = THREAD_READY) \<and>
     (\<forall>t. t_status (thr k t) = THREAD_READY \<longrightarrow> t \<in> set (ready_list k) \<or> idle_thread k = Some t)"

text \<open>The same with no thread running, as \<open>schedule\<close> finds it.\<close>

definition sched_pre :: "kernel \<Rightarrow> bool" where
  "sched_pre k \<longleftrightarrow> \<not> in_intr k \<and> (\<forall>t. t_status (thr k t) \<noteq> THREAD_RUNNING) \<and> distinct (ready_list k) \<and>
     (\<forall>t\<in>set (ready_list k). t_status (thr k t) = THREAD_READY) \<and>
     (\<forall>t. t_status (thr k t) = THREAD_READY \<longrightarrow> t \<in> set (ready_list k) \<or> idle_thread k = Some t)"

definition same_sched :: "kernel \<Rightarrow> kernel \<Rightarrow> bool" where
  "same_sched k k' \<longleftrightarrow> in_intr k' = in_intr k \<and> cur k' = cur k \<and> ready_list k' = ready_list k \<and>
     idle_thread k' = idle_thread k \<and> (\<forall>t. t_status (thr k' t) = t_status (thr k t))"

lemma same_sched_ok: "same_sched k k' \<Longrightarrow> sched_ok k \<Longrightarrow> sched_ok k'"
  by (simp add: same_sched_def sched_ok_def)

lemma schedule_ok:
  assumes "sched_pre k" "schedule k = Some k'"
  shows "sched_ok k'"
  using assms schedule_props [OF assms(2)] unfolding sched_pre_def sched_ok_def by auto

lemma distinct_kl_insert [simp]: "distinct (kl_insert r x xs) \<longleftrightarrow> x \<notin> set xs \<and> distinct xs"
  by (induction xs) auto

lemma mset_ready_insert: "distinct (ready_list (ready_insert t k)) \<longleftrightarrow> t \<notin> set (ready_list k) \<and> distinct (ready_list k)"
  by (simp add: ready_insert_def)

lemma sched_pre_block:
  assumes "sched_ok k" "st \<noteq> THREAD_RUNNING" "st \<noteq> THREAD_READY"
  shows "sched_pre (upd_thr (cur k) (\<lambda>t. t\<lparr>t_status := st\<rparr>) k)"
  using assms by (auto simp: sched_ok_def sched_pre_def)

lemma block_ok:
  assumes k: "sched_ok k" and b: "thread_block k = Some k'"
  shows "sched_ok k'"
proof -
  have "schedule (upd_thr (cur k) (\<lambda>t. t\<lparr>t_status := THREAD_BLOCKED\<rparr>) k) = Some k'"
    using b by (auto simp: thread_block_def bind_current split: if_splits)
  with sched_pre_block [OF k, of THREAD_BLOCKED] show ?thesis by (simp add: schedule_ok)
qed

lemma yieldD:
  assumes "thread_yield k = Some k'"
  shows "t_status (thr k (cur k)) = THREAD_RUNNING" "\<not> in_intr k"
    "schedule (upd_thr (cur k) (\<lambda>t. t\<lparr>t_status := THREAD_READY\<rparr>)
      (if Some (cur k) \<noteq> idle_thread k then ready_insert (cur k) k else k)) = Some k'"
  using assms by (auto simp: thread_yield_def bind_current Let_def split: if_splits)

lemma yield_ok:
  assumes k: "sched_ok k" and y: "thread_yield k = Some k'"
  shows "sched_ok k'"
proof -
  have "sched_pre (upd_thr (cur k) (\<lambda>t. t\<lparr>t_status := THREAD_READY\<rparr>)
      (if Some (cur k) \<noteq> idle_thread k then ready_insert (cur k) k else k))"
    using k by (auto simp: sched_ok_def sched_pre_def mset_ready_insert)
  then show ?thesis using yieldD(3) [OF y] by (rule schedule_ok)
qed

text \<open>Unblocking, in a thread or in an interrupt handler.\<close>

definition sched_intr :: "kernel \<Rightarrow> bool" where
  "sched_intr k \<longleftrightarrow> sched_ok (k\<lparr>in_intr := False\<rparr>)"

lemma unblocked_ok:
  assumes "sched_intr k" "t_status (thr k t) = THREAD_BLOCKED"
  shows "sched_intr (upd_thr t (\<lambda>t. t\<lparr>t_status := THREAD_READY\<rparr>) (ready_insert t k))"
  using assms by (auto simp: sched_intr_def sched_ok_def mset_ready_insert)

lemma intr_ok: "\<not> in_intr k \<Longrightarrow> sched_intr k \<longleftrightarrow> sched_ok k"
  by (simp add: sched_intr_def sched_ok_def)

lemma yield_no_intr:
  assumes "thread_yield k = Some k'"
  shows "\<not> in_intr k \<and> \<not> in_intr k'"
  using yieldD(2) [OF assms] schedule_props(6) [OF yieldD(3) [OF assms]] by simp

lemma unblock_ok:
  assumes k: "sched_intr k" and u: "thread_unblock t k = Some k'"
  shows "sched_intr k' \<and> in_intr k' = in_intr k"
proof -
  let ?k = "upd_thr t (\<lambda>t. t\<lparr>t_status := THREAD_READY\<rparr>) (ready_insert t k)"
  have b: "t_status (thr k t) = THREAD_BLOCKED" and y: "k' = ?k \<or> thread_yield ?k = Some k'"
    using u by (auto simp: thread_unblock_def Let_def bind_current split: if_splits)
  note s = unblocked_ok [OF k b]
  from y show ?thesis
  proof
    assume "k' = ?k"
    then show ?thesis using s by simp
  next
    assume y: "thread_yield ?k = Some k'"
    note n = yield_no_intr [OF y]
    then have "sched_ok k'" using yield_ok [OF _ y] s intr_ok by blast
    with n show ?thesis by (simp add: intr_ok)
  qed
qed


lemma awake_ok:
  "awake_loop tick ts k = Some k' \<Longrightarrow> sched_intr k \<Longrightarrow> sched_intr k' \<and> in_intr k' = in_intr k"
proof (induction tick ts k arbitrary: k' rule: awake_loop.induct)
  case (2 tick t ts k)
  show ?case
  proof (cases "sleep_endtick (thr k t) \<le> tick")
    case True
    let ?k = "upd_thr t (\<lambda>t. t\<lparr>sleep_endtick := 0\<rparr>) k"
    from "2.prems" True obtain k1 where k1: "thread_unblock t (?k\<lparr>wait_list := remove1 t (wait_list ?k)\<rparr>) = Some k1"
      "awake_loop tick ts k1 = Some k'" by (auto simp: Let_def split: Option.bind_splits)
    have "sched_intr (?k\<lparr>wait_list := remove1 t (wait_list ?k)\<rparr>)"
      using "2.prems"(2) unfolding sched_intr_def by (rule same_sched_ok [rotated]) (auto simp: same_sched_def)
    from unblock_ok [OF this k1(1)] have "sched_intr k1" "in_intr k1 = in_intr k" by simp_all
    with "2.IH"(1) [OF True refl k1(1,2)] show ?thesis by simp
  qed (use 2 in auto)
qed simp

lemma timer_ok:
  assumes k: "sched_ok k" and t: "timer_interrupt tick k = Some k'"
  shows "sched_ok k'"
proof -
  let ?k = "k\<lparr>in_intr := True, yield_on_return := False\<rparr>"
  obtain k0 where k0: "thread_tick tick ?k = Some k0"
    and k': "k' = k0\<lparr>in_intr := False\<rparr> \<or> thread_yield (k0\<lparr>in_intr := False\<rparr>) = Some k'"
    using t by (cases "thread_tick tick ?k") (auto simp: timer_interrupt_def Let_def split: if_splits)
  obtain k1 where k1: "awake_loop tick (wait_list k) ?k = Some k1"
    using k0 by (cases "awake_loop tick (wait_list k) ?k") (auto simp: thread_tick_def thread_awake_def bind_current)
  have k0': "same_sched k1 k0"
    using k0 k1 by (auto simp: thread_tick_def thread_awake_def bind_current Let_def same_sched_def split: if_splits)
  have "sched_intr ?k" using k unfolding sched_intr_def
    by (rule same_sched_ok [rotated]) (use k in \<open>auto simp: same_sched_def sched_ok_def\<close>)
  from awake_ok [OF k1 this] have s: "sched_ok (k1\<lparr>in_intr := False\<rparr>)" by (simp add: sched_intr_def)
  have "sched_ok (k0\<lparr>in_intr := False\<rparr>)"
    by (rule same_sched_ok [OF _ s]) (use k0' in \<open>auto simp: same_sched_def\<close>)
  with k' show ?thesis using yield_ok by blast
qed

lemma lower_ok: "sched_ok k \<Longrightarrow> yield_if_lower p k = Some k' \<Longrightarrow> sched_ok k'"
  by (auto simp: yield_if_lower_def dest: yield_ok split: list.splits if_splits)

text \<open>Updates that leave the scheduler's view of the threads alone.\<close>

lemma same_sched_upd_thr: "(\<And>x. t_status (f x) = t_status x) \<Longrightarrow> same_sched k (upd_thr t f k)"
  by (auto simp: same_sched_def)

lemma donate_ok:
  assumes "sched_ok k" "thread_priority_donate t p k = Some k'"
  shows "sched_ok k'"
proof -
  let ?k = "upd_thr t (\<lambda>t. t\<lparr>priority := p\<rparr>) k"
  have "sched_ok ?k" by (rule same_sched_ok [OF same_sched_upd_thr assms(1)]) simp
  then show ?thesis using assms(2) lower_ok [of ?k]
    by (auto simp: thread_priority_donate_def bind_current Let_def split: if_splits)
qed

lemma set_priority_ok:
  assumes "sched_ok k" "thread_set_priority p k = Some k'"
  shows "sched_ok k'"
proof -
  have "sched_ok (if priority (thr k (cur k)) = original_priority (thr k (cur k))
       then upd_thr (cur k) (\<lambda>t. t\<lparr>priority := p, original_priority := p\<rparr>) k
       else upd_thr (cur k) (\<lambda>t. t\<lparr>original_priority := p\<rparr>) k)" (is "sched_ok ?k")
    by (rule same_sched_ok [OF _ assms(1)]) (auto simp: same_sched_def)
  then show ?thesis using assms(2) lower_ok [of ?k]
    by (auto simp: thread_set_priority_def bind_current Let_def)
qed

lemma push_frame_ok [simp]: "sched_ok (push_frame f k) = sched_ok k" "sched_ok (pop_frame k) = sched_ok k"
  by (rule iffI; rule same_sched_ok; auto simp: same_sched_def push_frame_def pop_frame_def)+

lemma upd_sync_ok [simp]: "sched_ok (upd_sema s f k) = sched_ok k" "sched_ok (upd_lock l g k) = sched_ok k"
  "sched_ok (k\<lparr>conds := c\<rparr>) = sched_ok k" "sched_ok (k\<lparr>wait_list := w\<rparr>) = sched_ok k"
  "sched_ok (k\<lparr>all_list := w\<rparr>) = sched_ok k"
  by (simp_all add: sched_ok_def)

lemma sema_up_ok:
  assumes k: "sched_ok k" and u: "sema_up s k = Some k'"
  shows "sched_ok k'"
proof -
  let ?k = "upd_sema s (\<lambda>x. x\<lparr>svalue := svalue x + 1\<rparr>) k"
  have n: "\<not> in_intr k" using k by (simp add: sched_ok_def)
  show ?thesis
  proof (cases "kl_sort (comparator_greater_thread_priority ?k) (waiters (semas ?k s))")
    case Nil
    then show ?thesis using k u by (auto simp: sema_up_def)
  next
    case (Cons t r)
    then have t: "thread_unblock t (upd_sema s (\<lambda>x. x\<lparr>waiters := r\<rparr>) ?k) = Some k'" using u by (simp add: sema_up_def)
    have "sched_intr (upd_sema s (\<lambda>x. x\<lparr>waiters := r\<rparr>) ?k)" by (subst intr_ok) (use k n in simp_all)
    from unblock_ok [OF this t] n show ?thesis using intr_ok [of k'] by simp
  qed
qed

lemma signal_ok: "sched_ok k \<Longrightarrow> cond_signal v l k = Some k' \<Longrightarrow> sched_ok k'"
  by (auto simp: cond_signal_def held_by_current split: if_splits list.splits elim!: sema_up_ok [rotated])

lemma release_ok: "sched_ok k \<Longrightarrow> lock_release l k = Some k' \<Longrightarrow> sched_ok k'"
  by (auto simp: lock_release_def held_by_current Let_def split: if_splits elim!: sema_up_ok [rotated])

lemma acquire_ok:
  assumes k: "sched_ok k" and a: "lock_acquire l k = Some k'"
  shows "sched_ok k'"
proof -
  let ?k1 = "upd_thr (cur k) (\<lambda>t. t\<lparr>waiting_lock := Some l\<rparr>) k"
  let ?k2 = "if holder (klocks k l) = None then upd_lock l (\<lambda>x. x\<lparr>lpriority := priority (thr ?k1 (cur k))\<rparr>) ?k1 else ?k1"
  obtain k3 where k3: "donate_loop l (holder (klocks k l)) (cur k) ?k2 = Some k3"
    "k' = push_frame (SemaWait (LockSema l)) (push_frame (LockTaken l) k3)"
    using a by (auto simp: lock_acquire_def held_by_current bind_current sema_down_def Let_def split: Option.bind_splits if_splits)
  have d: "donated ?k2 k3" by (rule donate_loop_donated [OF k3(1)]) simp
  have "sched_ok ?k1" by (rule same_sched_ok [OF same_sched_upd_thr k]) simp
  then have "sched_ok ?k2" by simp
  moreover have "same_sched ?k2 k3" using d donated_thr(1) [OF d] unfolding donated_def same_sched_def by simp
  ultimately show ?thesis using k3(2) same_sched_ok by simp
qed

lemma taken_ok:
  assumes k: "sched_ok k" and t: "lock_taken l k = Some k'"
  shows "sched_ok k'"
  by (rule same_sched_ok [OF _ k]) (use t in \<open>auto simp: lock_taken_def bind_current Let_def same_sched_def\<close>)

lemma given_ok:
  assumes k: "sched_ok k" and g: "lock_given l k = Some k'"
  shows "sched_ok k'"
proof -
  let ?k1 = "upd_thr (cur k) (\<lambda>t. t\<lparr>held_locks := remove1 l (held_locks t)\<rparr>) k"
  have k1: "sched_ok ?k1" by (rule same_sched_ok [OF same_sched_upd_thr k]) simp
  show ?thesis
  proof (cases "kl_sort (comparator_greater_lock_priority ?k1) (held_locks (thr ?k1 (cur k)))")
    case Nil
    then show ?thesis using g donate_ok [OF k1] by (auto simp: lock_given_def bind_current Let_def split: if_splits)
  next
    case (Cons m r)
    let ?k2 = "upd_thr (cur k) (\<lambda>t. t\<lparr>held_locks := m # r\<rparr>) ?k1"
    have k2: "sched_ok ?k2" by (rule same_sched_ok [OF same_sched_upd_thr k1]) simp
    from Cons show ?thesis using g donate_ok [OF k2] by (auto simp: lock_given_def bind_current Let_def split: if_splits)
  qed
qed

lemma sema_round_ok:
  assumes k: "sched_ok k" and g: "sema_round s k = Some k'"
  shows "sched_ok k'"
proof (cases "svalue (semas k s) = 0")
  case True
  then show ?thesis using g k
    by (auto simp: sema_round_def bind_current Let_def elim!: block_ok [rotated])
qed (use g k in \<open>auto simp: sema_round_def\<close>)

lemma exit_round_ok:
  assumes k: "sched_ok k" and g: "exit_round lo k = Some k'"
  shows "sched_ok k'"
proof (cases lo)
  case None
  have s: "schedule (upd_thr (cur k) (\<lambda>t. t\<lparr>t_status := THREAD_DYING\<rparr>) (pop_frame (k\<lparr>all_list := remove1 (cur k) (all_list k)\<rparr>))) = Some k'"
    using g None by (simp add: exit_round_def bind_current Let_def)
  have "sched_ok (pop_frame (k\<lparr>all_list := remove1 (cur k) (all_list k)\<rparr>))" using k by simp
  from sched_pre_block [OF this, of THREAD_DYING] s show ?thesis by (simp add: schedule_ok)
next
  case (Some l)
  then show ?thesis using g k by (auto simp: exit_round_def bind_current elim!: release_ok [rotated])
qed

lemma create_ok:
  assumes k: "sched_ok k" and c: "thread_create (Some t) p k = Some (r, k')" and f: "fresh_page t k"
  shows "sched_ok k'"
proof -
  obtain k1 where k1: "init_thread t p k = Some k1" using c by (cases "init_thread t p k") (auto simp: thread_create_def)
  let ?k2 = "upd_thr t (\<lambda>x. x\<lparr>tid := next_tid k1\<rparr>) (k1\<lparr>next_tid := next_tid k1 + 1\<rparr>)"
  have u: "thread_unblock t (push_frame (CreateYield p) ?k2) = Some k'"
    using c k1 by (auto simp: thread_create_def allocate_tid_def Let_def split: Option.bind_splits)
  have "sched_ok ?k2" using k k1 f
    by (auto simp: init_thread_def Let_def sched_ok_def fresh_page_def split: if_splits)
  then have "sched_ok (push_frame (CreateYield p) ?k2)" by simp
  moreover from this have n: "\<not> in_intr (push_frame (CreateYield p) ?k2)" by (simp add: sched_ok_def)
  ultimately show ?thesis using unblock_ok [OF _ u] intr_ok by blast
qed

lemma sleep_ok:
  assumes k: "sched_ok k" and s: "thread_sleep_until e k = Some k'"
  shows "sched_ok k'"
proof -
  let ?k1 = "upd_thr (cur k) (\<lambda>t. t\<lparr>sleep_endtick := e\<rparr>) k"
  have "sched_ok ?k1" by (rule same_sched_ok [OF same_sched_upd_thr k]) simp
  then show ?thesis using s
    by (auto simp: thread_sleep_until_def bind_current Let_def elim!: block_ok [rotated])
qed

lemma try_ok: "sched_ok k \<Longrightarrow> lock_try_acquire l k = Some (b, k') \<Longrightarrow> sched_ok k'"
  by (auto simp: lock_try_acquire_def held_by_current bind_current sema_try_down_def Let_def split: if_splits)

lemma wait_ok: "sched_ok k \<Longrightarrow> cond_wait w v l k = Some k' \<Longrightarrow> sched_ok k'"
  by (auto simp: cond_wait_def held_by_current bind_current Let_def split: if_splits elim!: release_ok [rotated])

lemma create_yield_ok: "sched_ok k \<Longrightarrow> create_yield p k = Some k' \<Longrightarrow> sched_ok k'"
  by (auto simp: create_yield_def bind_current dest: yield_ok split: if_splits)

lemma call_ok:
  assumes k: "sched_ok k" and f: "\<And>t p. c = Create t p \<Longrightarrow> fresh_page t k" and d: "do_call c k = Some k'"
  shows "sched_ok k'"
proof (cases c)
  case (Create t p)
  then show ?thesis using d create_ok [OF k _ f [OF Create]] by (auto simp: do_call_def)
next
  case (LockTryAcquire l)
  then show ?thesis using d try_ok [OF k] by (auto simp: do_call_def)
next
  case (SemaTryDown s)
  then show ?thesis using d k by (auto simp: do_call_def sema_try_down_def)
next
  case Exit
  then show ?thesis using d k by (auto simp: do_call_def thread_exit_def bind_current split: if_splits)
qed (use d k in \<open>auto simp: do_call_def sema_down_def cond_broadcast_def split: if_splits
    intro: yield_ok block_ok sleep_ok set_priority_ok sema_up_ok signal_ok acquire_ok release_ok wait_ok\<close>)

lemma frame_ok:
  assumes k: "sched_ok k" and d: "run_frame k = Some k'"
  shows "sched_ok k'"
proof -
  obtain f r where fs: "frames (thr k (cur k)) = f # r" using d by (cases "frames (thr k (cur k))") (auto simp: run_frame_def)
  have p: "sched_ok (pop_frame k)" using k by simp
  show ?thesis using d [unfolded run_frame_def fs, simplified]
    by (cases f) (auto simp: broadcast_round_def k split: if_splits
      intro: sema_round_ok [OF k] taken_ok [OF p] given_ok [OF p] acquire_ok [OF p] exit_round_ok [OF k]
        create_yield_ok [OF p] signal_ok [OF k])
qed

theorem kstep_sched: "kstep k k' \<Longrightarrow> sched_ok k \<Longrightarrow> sched_ok k'"
  by (auto elim!: kstepE intro: frame_ok call_ok timer_ok)

theorem ksteps_sched: "kstep\<^sup>*\<^sup>* k k' \<Longrightarrow> sched_ok k \<Longrightarrow> sched_ok k'"
  by (induction rule: rtranclp_induct) (auto intro: kstep_sched)

section \<open>Priorities\<close>

definition by_priority :: "kernel \<Rightarrow> nat list \<Rightarrow> bool" where
  "by_priority k xs \<longleftrightarrow> sorted_wrt (\<lambda>a b. priority (thr k b) \<le> priority (thr k a)) xs"

text \<open>No ready thread has a higher priority than the running one, unless that is the idle thread.\<close>

definition prio_ok :: "kernel \<Rightarrow> bool" where
  "prio_ok k \<longleftrightarrow> by_priority k (ready_list k) \<and>
     (idle_thread k = Some (cur k) \<or> (\<forall>t\<in>set (ready_list k). priority (thr k t) \<le> priority (thr k (cur k))))"

lemma by_priority_order:
  "by_priority k xs \<longleftrightarrow> sorted_wrt (\<lambda>x y. \<not> comparator_greater_thread_priority k y x) xs"
  by (simp add: by_priority_def comparator_greater_thread_priority_def not_less)

lemma by_priority_insert [simp]:
  "by_priority k (kl_insert (comparator_greater_thread_priority k) t xs) \<longleftrightarrow> by_priority k xs"
  by (simp add: by_priority_order thread_order.insert_in_order)

lemma by_priority_cong:
  "(\<And>t. t \<in> set xs \<Longrightarrow> priority (thr k' t) = priority (thr k t)) \<Longrightarrow> by_priority k' xs = by_priority k xs"
  unfolding by_priority_def by (rule sorted_wrt_iff_nth_less [THEN trans]) (auto simp: sorted_wrt_iff_nth_less)

lemma by_priority_ready_insert [simp]:
  "by_priority k (ready_list (ready_insert t k)) \<longleftrightarrow> by_priority k (ready_list k)"
  by (simp add: ready_insert_def)

lemma schedule_prio:
  assumes s: "schedule k = Some k'" and o: "by_priority k (ready_list k)"
  shows "prio_ok k'"
    "\<And>t. t \<in> set (ready_list k) \<Longrightarrow> priority (thr k t) \<le> priority (thr k (cur k'))"
    "\<And>t. priority (thr k' t) = priority (thr k t)"
proof -
  note p = schedule_props [OF s]
  show pr: "priority (thr k' t) = priority (thr k t)" for t using p(2) by simp
  show le: "priority (thr k t) \<le> priority (thr k (cur k'))" if "t \<in> set (ready_list k)" for t
    using p(1) o that by (auto simp: by_priority_def)
  have "by_priority k (ready_list k')" "set (ready_list k') \<subseteq> set (ready_list k)"
    using p(1) o by (auto simp: by_priority_def)
  then show "prio_ok k'" using le pr by (auto simp: prio_ok_def by_priority_cong [OF pr])
qed

text \<open>After a yield no runnable thread, the one that yielded included, beats the one that runs.\<close>

lemma yield_prio:
  assumes y: "thread_yield k = Some k'" and o: "by_priority k (ready_list k)"
  shows "prio_ok k'"
    "\<And>t. t \<in> set (ready_list k) \<Longrightarrow> priority (thr k t) \<le> priority (thr k (cur k'))"
    "\<And>t. priority (thr k' t) = priority (thr k t)"
    "idle_thread k \<noteq> Some (cur k) \<Longrightarrow> priority (thr k (cur k)) \<le> priority (thr k (cur k'))"
proof -
  let ?k = "upd_thr (cur k) (\<lambda>t. t\<lparr>t_status := THREAD_READY\<rparr>) (if Some (cur k) \<noteq> idle_thread k then ready_insert (cur k) k else k)"
  have pr: "priority (thr ?k t) = priority (thr k t)" for t by simp
  have o': "by_priority ?k (ready_list ?k)" using o by (simp add: by_priority_cong [OF pr])
  note s = schedule_prio [OF yieldD(3) [OF y] o']
  show "prio_ok k'" by (rule s)
  show "priority (thr k' t) = priority (thr k t)" for t using s(3) pr by simp
  show "priority (thr k t) \<le> priority (thr k (cur k'))" if "t \<in> set (ready_list k)" for t
    using s(2) [of t] pr that by simp
  show "priority (thr k (cur k)) \<le> priority (thr k (cur k'))" if "idle_thread k \<noteq> Some (cur k)"
    using s(2) [of "cur k"] pr that by simp
qed

lemma block_prio:
  assumes b: "thread_block k = Some k'" and o: "by_priority k (ready_list k)"
  shows "prio_ok k'"
proof -
  let ?k = "upd_thr (cur k) (\<lambda>t. t\<lparr>t_status := THREAD_BLOCKED\<rparr>) k"
  have "by_priority ?k (ready_list ?k)" using o by (simp add: by_priority_cong [of _ ?k k])
  moreover have "schedule ?k = Some k'" using b by (auto simp: thread_block_def bind_current split: if_splits)
  ultimately show ?thesis using schedule_prio(1) by blast
qed

lemma unblock_prio:
  assumes u: "thread_unblock t k = Some k'" and p: "prio_ok k"
  shows "prio_ok k'"
proof -
  let ?k = "upd_thr t (\<lambda>t. t\<lparr>t_status := THREAD_READY\<rparr>) (ready_insert t k)"
  have pr: "priority (thr ?k t) = priority (thr k t)" for t by simp
  have o: "by_priority ?k (ready_list ?k)" using p by (simp add: by_priority_cong [OF pr] prio_ok_def)
  from u have "thread_yield ?k = Some k' \<or>
     k' = ?k \<and> (idle_thread k = Some (cur k) \<or> priority (thr k t) \<le> priority (thr k (cur k)))"
    by (auto simp: thread_unblock_def Let_def bind_current split: if_splits)
  then show ?thesis
  proof
    assume "thread_yield ?k = Some k'"
    then show ?thesis using yield_prio(1) o by blast
  next
    assume "k' = ?k \<and> (idle_thread k = Some (cur k) \<or> priority (thr k t) \<le> priority (thr k (cur k)))"
    then show ?thesis using p o by (auto simp: prio_ok_def)
  qed
qed

lemma set_priority_prio:
  assumes s: "thread_set_priority p k = Some k'" and pk: "prio_ok k" and ni: "idle_thread k \<noteq> Some (cur k)"
    and nr: "cur k \<notin> set (ready_list k)"
  shows "prio_ok k'"
proof -
  define k1 where "k1 = (if priority (thr k (cur k)) = original_priority (thr k (cur k))
       then upd_thr (cur k) (\<lambda>t. t\<lparr>priority := p, original_priority := p\<rparr>) k
       else upd_thr (cur k) (\<lambda>t. t\<lparr>original_priority := p\<rparr>) k)"
  have k1: "ready_list k1 = ready_list k" "cur k1 = cur k" "idle_thread k1 = idle_thread k" by (simp_all add: k1_def)
  have pr: "priority (thr k1 t) = priority (thr k t)" if "t \<in> set (ready_list k)" for t
    using that nr by (auto simp: k1_def)
  have o: "by_priority k1 (ready_list k1)" using pk by (simp add: by_priority_cong [of _ k1 k, OF pr] k1 prio_ok_def)
  have y: "yield_if_lower p k1 = Some k'" using s by (simp add: thread_set_priority_def bind_current Let_def k1_def)
  have pc: "priority (thr k1 (cur k)) \<in> {p, priority (thr k (cur k))}" by (auto simp: k1_def)
  show ?thesis
  proof (cases "ready_list k")
    case Nil
    then have "k' = k1" "ready_list k1 = []" using y k1 by (simp_all add: yield_if_lower_def)
    then show ?thesis using o by (simp add: prio_ok_def)
  next
    case (Cons n r)
    show ?thesis
    proof (cases "priority (thr k1 n) > p")
      case True
      then have "thread_yield k1 = Some k'" using y Cons by (simp add: yield_if_lower_def k1)
      then show ?thesis using o by (rule yield_prio)
    next
      case False
      then have k': "k' = k1" using y Cons by (simp add: yield_if_lower_def k1)
      have "priority (thr k1 t) \<le> p" if "t \<in> set (ready_list k)" for t
        using o False that by (auto simp: k1 Cons by_priority_def)
      then show ?thesis using pk pc pr ni o by (auto simp: k' k1 prio_ok_def)
    qed
  qed
qed

section \<open>Round robin\<close>

text \<open>
  A thread that yields goes behind the ready threads of its priority and before the lower
  ones; with \<open>g\<close> the ready threads of the running thread's priority, the threads of \<open>g\<close> run
  one after another.
\<close>

fun yields :: "nat \<Rightarrow> kernel \<Rightarrow> kernel option" where
  "yields 0 k = Some k"
| "yields (Suc n) k = do { k \<leftarrow> thread_yield k; yields n k }"

lemma insert_behind:
  "\<forall>x\<in>set g. \<not> lt c x \<Longrightarrow> r = [] \<or> lt c (hd r) \<Longrightarrow> kl_insert lt c (g @ r) = g @ c # r"
  by (induction g) (cases r; auto)+

lemma yield_rotates:
  assumes k: "sched_ok k" and ni: "idle_thread k \<noteq> Some (cur k)"
    and r: "ready_list k = (x # g) @ low"
    and g: "\<forall>t\<in>set (x # g). priority (thr k t) = priority (thr k (cur k))"
    and low: "\<forall>t\<in>set low. priority (thr k t) < priority (thr k (cur k))"
  obtains k' where "thread_yield k = Some k'" "cur k' = x" "ready_list k' = (g @ [cur k]) @ low"
    "idle_thread k' = idle_thread k" "\<And>t. priority (thr k' t) = priority (thr k t)"
proof -
  let ?k = "upd_thr (cur k) (\<lambda>t. t\<lparr>t_status := THREAD_READY\<rparr>) (ready_insert (cur k) k)"
  have rl: "ready_list (ready_insert (cur k) k) = x # g @ cur k # low"
    using insert_behind [of "x # g" "comparator_greater_thread_priority k" "cur k" low] g low
    by (cases low) (auto simp: ready_insert_def r comparator_greater_thread_priority_def)
  have xc: "x \<noteq> cur k" using k r by (auto simp: sched_ok_def)
  let ?k1 = "?k\<lparr>ready_list := g @ cur k # low\<rparr>"
  have n: "next_thread_to_run ?k = Some (x, ?k1)" by (simp add: next_thread_to_run_def rl)
  obtain k' where t: "thread_schedule_tail (Some (cur k)) (?k1\<lparr>cur := x\<rparr>) = Some k'"
    using xc by (auto simp: thread_schedule_tail_def Let_def)
  have "schedule ?k = Some k'" using n t xc by (simp add: schedule_def Let_def)
  moreover have "t_status (thr k (cur k)) = THREAD_RUNNING" "\<not> in_intr k" using k by (auto simp: sched_ok_def)
  ultimately have "thread_yield k = Some k'" using ni
    by (auto simp: thread_yield_def thread_current_def)
  moreover note p = tail_props [OF t]
  moreover have "priority (thr k' t) = priority (thr k t)" for t using p(1) by simp
  ultimately show ?thesis using that by simp
qed

lemma yields_reach:
  assumes "sched_ok k" "idle_thread k \<noteq> Some (cur k)" "idle_thread k \<notin> Some ` set g"
    and "ready_list k = g @ low"
    and "\<forall>t\<in>set g. priority (thr k t) = priority (thr k (cur k))"
    and "\<forall>t\<in>set low. priority (thr k t) < priority (thr k (cur k))"
    and "i < length g"
  shows "\<exists>k'. yields (Suc i) k = Some k' \<and> cur k' = g ! i"
  using assms
proof (induction i arbitrary: k g)
  case 0
  then obtain x g' where g: "g = x # g'" by (cases g) auto
  from yield_rotates [OF 0(1,2) 0(4)[unfolded g] 0(5)[unfolded g] 0(6)] obtain k' where
    "thread_yield k = Some k'" "cur k' = x" by metis
  then show ?case by (simp add: g)
next
  case (Suc i)
  then obtain x g' where g: "g = x # g'" by (cases g) auto
  from yield_rotates [OF Suc.prems(1,2) Suc.prems(4)[unfolded g] Suc.prems(5)[unfolded g] Suc.prems(6)] obtain k' where
    k': "thread_yield k = Some k'" "cur k' = x" "ready_list k' = (g' @ [cur k]) @ low" "idle_thread k' = idle_thread k"
    "\<And>t. priority (thr k' t) = priority (thr k t)" by metis
  have "\<exists>k''. yields (Suc i) k' = Some k'' \<and> cur k'' = (g' @ [cur k]) ! i"
    by (rule Suc.IH) (use Suc.prems yield_ok [OF Suc.prems(1) k'(1)] in \<open>auto simp: k' g\<close>)
  moreover have "(g' @ [cur k]) ! i = g ! Suc i" using Suc.prems(7) by (simp add: g nth_append)
  ultimately show ?case using k'(1) by auto
qed


section \<open>Donation\<close>

text \<open>
  Priority inheritance: the holder of a lock has at least the priority of every thread that
  waits for the lock.
\<close>

definition inherits :: "kernel \<Rightarrow> nat \<Rightarrow> bool" where
  "inherits k t \<longleftrightarrow> (\<forall>l h. waiting_lock (thr k t) = Some l \<longrightarrow> holder (klocks k l) = Some h \<longrightarrow>
     priority (thr k t) \<le> priority (thr k h))"

lemma donate_step:
  assumes "t_status (thr k c) = THREAD_RUNNING" "c = cur k" "priority (thr k t) < priority (thr k c)"
  shows "thread_priority_donate t p k = Some (upd_thr t (\<lambda>t. t\<lparr>priority := p\<rparr>) k)"
  using assms by (auto simp: thread_priority_donate_def thread_current_def Let_def)

text \<open>One turn of the loop, with the state it goes on with.\<close>

definition donate_turn :: "nat \<Rightarrow> nat \<Rightarrow> nat \<Rightarrow> kernel \<Rightarrow> kernel" where
  "donate_turn l t c k =
     (let k = upd_thr t (\<lambda>t. t\<lparr>priority := priority (thr k c)\<rparr>) k
      in if lpriority (klocks k l) < priority (thr k c)
        then upd_lock l (\<lambda>x. x\<lparr>lpriority := priority (thr k c)\<rparr>) k else k)"

lemma donate_turn_simps [simp]:
  "thr (donate_turn l t c k) x = (if x = t then (thr k t)\<lparr>priority := priority (thr k c)\<rparr> else thr k x)"
    "holder (klocks (donate_turn l t c k) m) = holder (klocks k m)" "cur (donate_turn l t c k) = cur k"
  by (simp_all add: donate_turn_def Let_def)

lemma donate_loop_turn:
  assumes "t_status (thr k c) = THREAD_RUNNING" "c = cur k" "priority (thr k t) < priority (thr k c)"
  shows "donate_loop l (Some t) c k =
    (let k = donate_turn l t c k in case waiting_lock (thr k t) of None \<Rightarrow> Some k
      | Some l' \<Rightarrow> donate_loop l' (holder (klocks k l')) c k)"
  by (subst donate_loop.simps)
    (simp only: option.case if_P [OF assms(3)] donate_step [OF assms] Option.bind.simps donate_turn_def Let_def)

lemma donate_loop_stop:
  "h = None \<or> h = Some t \<and> priority (thr k c) \<le> priority (thr k t) \<Longrightarrow> donate_loop l h c k = Some k"
  by (subst donate_loop.simps) auto

text \<open>
  The loop ends: every turn lifts one more of the threads that hold locks to the donor's
  priority.
\<close>

definition below :: "nat set \<Rightarrow> nat \<Rightarrow> kernel \<Rightarrow> nat set" where
  "below T c k = {t \<in> T. priority (thr k t) < priority (thr k c)}"

lemma donate_loop_ends:
  assumes "finite T" "\<And>m t. holder (klocks k m) = Some t \<Longrightarrow> t \<in> T" "h \<in> insert None (Some ` T)"
    and "t_status (thr k c) = THREAD_RUNNING" "c = cur k"
  shows "\<exists>k'. donate_loop l h c k = Some k'"
  using assms(2-)
proof (induction "card (below T c k)" arbitrary: l h k rule: less_induct)
  case less
  show ?case
  proof (cases "\<exists>t. h = Some t \<and> priority (thr k t) < priority (thr k c)")
    case False
    then show ?thesis using donate_loop_stop [of h _ k c l] by (cases h) (auto simp: not_less)
  next
    case True
    then obtain t where t: "h = Some t" "priority (thr k t) < priority (thr k c)" by blast
    then have tc: "t \<noteq> c" and tT: "t \<in> T" using less.prems(2) by auto
    let ?k = "donate_turn l t c k"
    have "below T c ?k = below T c k - {t}" "t \<in> below T c k" using t(2) tc tT by (auto simp: below_def)
    then have card: "card (below T c ?k) < card (below T c k)"
      using assms(1) by (metis below_def card_Diff1_less finite_Collect_conjI Collect_mem_eq)
    have "\<exists>k'. donate_loop l' (holder (klocks ?k l')) c ?k = Some k'" for l'
    proof (rule less.hyps [OF card])
      show "holder (klocks ?k l') \<in> insert None (Some ` T)" using less.prems(1) [of l']
        by (cases "holder (klocks k l')") auto
    qed (use less.prems tc in auto)
    then show ?thesis using less.prems t
      by (auto simp: donate_loop_turn Let_def split: option.splits)
  qed
qed

text \<open>
  It passes the priority on along the chain: if every waiting thread but \<open>x\<close> is dominated by
  the holder it waits for, and \<open>x\<close> has the donor's priority, then at the end all are.
\<close>

lemma donate_loop_inherits:
  assumes "donate_loop l h c k = Some k'" "t_status (thr k c) = THREAD_RUNNING" "c = cur k"
    and "waiting_lock (thr k x) = Some l" "h = holder (klocks k l)" "priority (thr k x) = priority (thr k c)"
    and "\<And>y. y \<noteq> x \<Longrightarrow> inherits k y"
  shows "inherits k' y"
  using assms
proof (induction arbitrary: x rule: donate_loop.raw_induct [rotated 1, consumes 1, case_names step])
  case (step dn l h c k k')
  show ?case
  proof (cases "\<exists>t. h = Some t \<and> priority (thr k t) < priority (thr k c)")
    case False
    then have "k' = k" using step(2) by (cases h) (auto split: if_splits)
    moreover have "inherits k x" using False step by (auto simp: inherits_def)
    ultimately show ?thesis using step by (cases "y = x") auto
  next
    case True
    then obtain t where t: "h = Some t" "priority (thr k t) < priority (thr k c)" by blast
    then have tc: "t \<noteq> c" by auto
    let ?k = "donate_turn l t c k"
    have body: "(case waiting_lock (thr ?k t) of None \<Rightarrow> Some ?k | Some l' \<Rightarrow> dn l' (holder (klocks ?k l')) c ?k) = Some k'"
      using step(2) by (simp only: t(1) option.case if_P [OF t(2)] donate_step [OF step.prems(1,2) t(2)]
        Option.bind.simps donate_turn_def Let_def)
    have others: "inherits ?k y" if "y \<noteq> t" for y
    proof (cases "y = x")
      case False
      then have "inherits k y" using step.prems by simp
      then show ?thesis using that t(2) tc by (auto simp: inherits_def)
    qed (use that t tc step.prems in \<open>auto simp: inherits_def\<close>)
    show ?thesis
    proof (cases "waiting_lock (thr ?k t)")
      case None
      then have "inherits ?k t" by (simp add: inherits_def)
      then show ?thesis using None body others by (cases "y = t") auto
    next
      case (Some l')
      then show ?thesis
        by (intro step(1) [of l' "holder (klocks ?k l')" c ?k k' t]) (use body step.prems tc others in auto)
    qed
  qed
qed

end
