(* ===== verification/ThreadProps.thy ===== *)
theory ThreadProps
  imports SchedFacts
begin

text \<open>
  The properties of threads and locks, with small kernels on which they are applied.
\<close>

section \<open>Small kernels\<close>

definition demo_thread :: "thread_status \<Rightarrow> int \<Rightarrow> thread" where
  "demo_thread st p = \<lparr>tid = 1, t_status = st, priority = p, original_priority = p, waiting_lock = None,
     held_locks = [], sleep_endtick = 0, frames = []\<rparr>"

text \<open>
  Thread 1 runs with the default priority, 2 is the idle thread, 3 and 4 are ready, 6 is
  ready with a lower priority, 5 sleeps until tick 10 with a higher one; all locks are free.
\<close>

definition demo_kernel :: kernel where
  "demo_kernel = \<lparr>thr = (\<lambda>_. demo_thread THREAD_BLOCKED 0)(1 := demo_thread THREAD_RUNNING 31,
       3 := demo_thread THREAD_READY 31, 4 := demo_thread THREAD_READY 31, 6 := demo_thread THREAD_READY 7,
       5 := (demo_thread THREAD_BLOCKED 40)\<lparr>sleep_endtick := 10\<rparr>),
     semas = (\<lambda>s. \<lparr>svalue = 1, waiters = [], spriority = 0\<rparr>), klocks = (\<lambda>_. \<lparr>holder = None, lpriority = 0\<rparr>),
     conds = (\<lambda>_. []), ready_list = [3, 4, 6], wait_list = [5], all_list = [1, 2, 3, 4, 5, 6], cur = 1,
     idle_thread = Some 2, initial_thread = 1, freed = [], next_tid = 7, thread_ticks = 0, in_intr = False,
     yield_on_return = False\<rparr>"

text \<open>A chain: thread 3 holds lock 1 and waits for lock 2, which the ready thread 4 holds.\<close>

definition demo_chain :: kernel where
  "demo_chain = demo_kernel\<lparr>
     thr := (\<lambda>_. demo_thread THREAD_BLOCKED 0)(1 := demo_thread THREAD_RUNNING 31,
       3 := (demo_thread THREAD_BLOCKED 20)\<lparr>waiting_lock := Some 2, held_locks := [1],
         frames := [SemaWait (LockSema 2), LockTaken 2]\<rparr>,
       4 := (demo_thread THREAD_READY 20)\<lparr>original_priority := 10, held_locks := [2]\<rparr>,
       5 := demo_thread THREAD_READY 25),
     semas := (\<lambda>s. \<lparr>svalue = 1, waiters = [], spriority = 0\<rparr>)(LockSema 1 := \<lparr>svalue = 0, waiters = [], spriority = 0\<rparr>,
       LockSema 2 := \<lparr>svalue = 0, waiters = [3], spriority = 0\<rparr>),
     klocks := (\<lambda>_. \<lparr>holder = None, lpriority = 0\<rparr>)(1 := \<lparr>holder = Some 3, lpriority = 20\<rparr>, 2 := \<lparr>holder = Some 4, lpriority = 20\<rparr>),
     ready_list := [5, 4]\<rparr>"

lemmas demo_defs = demo_kernel_def demo_chain_def demo_thread_def

lemma demo_sched: "sched_ok demo_kernel" "sched_ok demo_chain"
  by (auto simp: sched_ok_def demo_defs)

lemma demo_prio: "prio_ok demo_kernel" "prio_ok demo_chain"
  by (auto simp: prio_ok_def by_priority_def demo_defs)

lemma demo_sync: "sync_ok demo_kernel" "sync_ok demo_chain"
  by (auto simp: sync_ok_def frames_ok_def top_taken_def lock_inv_def passing_def demo_defs)

lemma demo_inherits: "inherits demo_chain t"
  by (auto simp: inherits_def demo_defs split: if_splits)

lemma demo_yield: "\<exists>k. thread_yield demo_kernel = Some k \<and> cur k = 3"
  by (simp add: thread_yield_def thread_current_def schedule_def next_thread_to_run_def thread_schedule_tail_def
      ready_insert_def Let_def comparator_greater_thread_priority_def demo_defs upd_thr_def)

lemma demo_step: "\<exists>k. kstep demo_kernel k \<and> cur k = 3"
proof -
  obtain k where k: "thread_yield demo_kernel = Some k" "cur k = 3" using demo_yield by blast
  have "frames (thr demo_kernel (cur demo_kernel)) = []" by (simp add: demo_defs)
  then have "kstep demo_kernel k" by (rule kstep.call [of _ Yield]) (simp_all add: do_call_def k)
  with k show ?thesis by blast
qed

lemma demo_donate:
  "\<exists>k. lock_acquire 1 demo_chain = Some k \<and> priority (thr k 4) = 31 \<and> ready_list k = [5, 4] \<and> cur k = 1"
  by (simp add: lock_acquire_def lock_held_by_current_thread_def thread_current_def Let_def donate_loop.simps
      thread_priority_donate_def sema_down_def push_frame_def demo_defs)


section \<open>Properties\<close>

lemma cur_not_ready: "sched_ok k \<Longrightarrow> cur k \<notin> set (ready_list k)"
  by (metis sched_ok_def thread_status.distinct(1))

text \<open>C1: Mutual exclusion of locks, over all transitions: in every state reached from one with \<open>sync_ok\<close> a lock
  with a holder has its semaphore at 0 and nobody is about to become its holder, and when a thread has taken the
  semaphore of a lock and is about to write itself down as the holder, the lock has no holder and no other thread
  is at that point.\<close>

theorem lock_mutual_exclusion:
  assumes "sync_ok k" "kstep\<^sup>*\<^sup>* k k'"
  shows "sync_ok k' \<and>
    (\<forall>t l. holder (klocks k' l) = Some t \<longrightarrow> svalue (semas k' (LockSema l)) = 0 \<and> passing k' l = {}) \<and>
    (\<forall>t l r. frames (thr k' t) = LockTaken l # r \<longrightarrow> holder (klocks k' l) = None \<and> passing k' l = {t})"
proof -
  have s: "sync_ok k'" using ksteps_sync assms by blast
  have "top_taken (LockTaken l # r) = Some l" for l r by (simp add: top_taken_def)
  then have "holder (klocks k' l) = None \<and> passing k' l = {t}" if "frames (thr k' t) = LockTaken l # r" for t l r
    using lock_invD(1) [OF s, of t l] that by simp
  then show ?thesis using s lock_invD(2) [OF s] by blast
qed

theorem lock_mutual_exclusion_witness:
  "\<exists>k'. kstep demo_kernel k' \<and> cur k' = 3 \<and> sync_ok k'"
  using demo_step lock_mutual_exclusion [OF demo_sync(1)] by blast

text \<open>C2: The scheduler keeps its invariant over all transitions: exactly the current thread runs, and the ready list
  holds exactly the ready threads, each once (the idle thread, which is never queued, aside).\<close>

theorem scheduler_invariant:
  assumes "sched_ok k" "kstep\<^sup>*\<^sup>* k k'"
  shows "sched_ok k'"
  using ksteps_sched assms by blast

theorem scheduler_invariant_witness:
  "\<exists>k'. kstep demo_kernel k' \<and> cur k' = 3 \<and> sched_ok k'"
  using demo_step scheduler_invariant [OF demo_sched(1)] by blast

text \<open>\<open>thread_yield\<close> gives the processor to a thread of the highest priority among all that could run, the
  yielding thread included, and leaves the ready list in order.\<close>

theorem yield_highest_priority:
  assumes "thread_yield k = Some k'" "by_priority k (ready_list k)" "idle_thread k \<noteq> Some (cur k)"
  shows "(\<forall>t \<in> insert (cur k) (set (ready_list k)). priority (thr k t) \<le> priority (thr k (cur k'))) \<and>
    by_priority k' (ready_list k')"
  using yield_prio [OF assms(1,2)] assms(3) by (auto simp: prio_ok_def)

theorem yield_highest_priority_witness:
  "\<exists>k'. thread_yield demo_kernel = Some k' \<and> priority (thr demo_kernel 6) \<le> priority (thr demo_kernel (cur k'))"
proof -
  obtain k' where k': "thread_yield demo_kernel = Some k'" using demo_yield by blast
  have "by_priority demo_kernel (ready_list demo_kernel)" using demo_prio by (simp add: prio_ok_def)
  moreover have "idle_thread demo_kernel \<noteq> Some (cur demo_kernel)" "6 \<in> set (ready_list demo_kernel)" by (simp_all add: demo_defs)
  ultimately show ?thesis using yield_highest_priority [OF k'] k' by auto
qed

text \<open>\<open>thread_set_priority\<close> keeps the scheduling rule: if no ready thread has a higher priority than the running
  one before the call, none has after it (lowering the priority switches to the foremost ready thread).\<close>

theorem set_priority_preempts:
  assumes "sched_ok k" "prio_ok k" "idle_thread k \<noteq> Some (cur k)" "thread_set_priority p k = Some k'"
  shows "prio_ok k'"
  using set_priority_prio [OF assms(4,2,3) cur_not_ready [OF assms(1)]] .

lemma demo_set_priority: "\<exists>k. thread_set_priority 5 demo_kernel = Some k \<and> cur k = 3"
  by (simp add: thread_set_priority_def yield_if_lower_def thread_yield_def thread_current_def schedule_def
      next_thread_to_run_def thread_schedule_tail_def
      ready_insert_def Let_def comparator_greater_thread_priority_def demo_defs upd_thr_def)

theorem set_priority_preempts_witness:
  "\<exists>k. thread_set_priority 5 demo_kernel = Some k \<and> cur k = 3 \<and> prio_ok k"
proof -
  obtain k where k: "thread_set_priority 5 demo_kernel = Some k" "cur k = 3" using demo_set_priority by blast
  have "idle_thread demo_kernel \<noteq> Some (cur demo_kernel)" by (simp add: demo_defs)
  from set_priority_preempts [OF demo_sched(1) demo_prio(1) this k(1)] k show ?thesis by blast
qed

text \<open>C36: Round robin: the ready threads of the running thread's priority run in their order, the thread at position
  \<open>i\<close> after \<open>i + 1\<close> yields, so none of them starves.\<close>

theorem yield_round_robin:
  assumes "sched_ok k" "idle_thread k \<noteq> Some (cur k)" "idle_thread k \<notin> Some ` set g" "ready_list k = g @ low"
    and "\<forall>t\<in>set g. priority (thr k t) = priority (thr k (cur k))"
    and "\<forall>t\<in>set low. priority (thr k t) < priority (thr k (cur k))" "i < length g"
  shows "\<exists>k'. yields (Suc i) k = Some k' \<and> cur k' = g ! i"
  using yields_reach [OF assms] .

theorem yield_round_robin_witness: "\<exists>k'. yields 2 demo_kernel = Some k' \<and> cur k' = 4"
  using yield_round_robin [OF demo_sched(1), of "[3, 4]" "[6]" 1] by (simp add: demo_defs numeral_2_eq_2)

text \<open>C4: \<open>lock_acquire\<close> reaches its semaphore: the loop that donates the priority along the chain of holders ends,
  whatever the chain is, also a circular one, as long as finitely many threads hold locks.\<close>

theorem lock_acquire_reaches_semaphore:
  assumes "finite {t. \<exists>m. holder (klocks k m) = Some t}" "\<not> in_intr k"
    and "t_status (thr k (cur k)) = THREAD_RUNNING" "holder (klocks k l) \<noteq> Some (cur k)"
  shows "\<exists>k' r. lock_acquire l k = Some k' \<and> cur k' = cur k \<and>
    frames (thr k' (cur k)) = SemaWait (LockSema l) # LockTaken l # r"
proof -
  let ?k1 = "upd_thr (cur k) (\<lambda>t. t\<lparr>waiting_lock := Some l\<rparr>) k"
  let ?k2 = "if holder (klocks k l) = None then upd_lock l (\<lambda>x. x\<lparr>lpriority := priority (thr ?k1 (cur k))\<rparr>) ?k1 else ?k1"
  have "\<exists>k3. donate_loop l (holder (klocks k l)) (cur k) ?k2 = Some k3"
    by (rule donate_loop_ends [OF assms(1)])
      (use assms(3) in \<open>cases "holder (klocks k l)"; auto split: if_splits\<close>)+
  then obtain k3 where k3: "donate_loop l (holder (klocks k l)) (cur k) ?k2 = Some k3" by blast
  have d: "donated ?k2 k3" by (rule donate_loop_donated [OF k3]) simp
  then have "cur k3 = cur k" "in_intr k3 = in_intr k" by (simp_all add: donated_def)
  then show ?thesis using k3 assms(2-4)
    by (auto simp: lock_acquire_def lock_held_by_current_thread_def thread_current_def Let_def sema_down_def)
qed

theorem lock_acquire_reaches_semaphore_witness:
  "\<exists>k' r. lock_acquire 1 demo_chain = Some k' \<and> frames (thr k' 1) = SemaWait (LockSema 1) # LockTaken 1 # r"
proof -
  have "{t. \<exists>m. holder (klocks demo_chain m) = Some t} \<subseteq> {3, 4}" by (auto simp: demo_defs split: if_splits)
  then have "finite {t. \<exists>m. holder (klocks demo_chain m) = Some t}" by (rule finite_subset) simp
  from lock_acquire_reaches_semaphore [OF this, of 1] show ?thesis by (simp add: demo_defs) blast
qed

text \<open>C3: Priority inheritance: if every waiting thread is dominated by the holder of the lock it waits for, this
  still is so after \<open>lock_acquire\<close>: the priority of the caller is donated along the whole chain of holders.\<close>

theorem lock_acquire_inherits:
  assumes "\<forall>t. inherits k t" "lock_acquire l k = Some k'"
  shows "inherits k' t"
proof -
  let ?k1 = "upd_thr (cur k) (\<lambda>t. t\<lparr>waiting_lock := Some l\<rparr>) k"
  let ?k2 = "if holder (klocks k l) = None then upd_lock l (\<lambda>x. x\<lparr>lpriority := priority (thr ?k1 (cur k))\<rparr>) ?k1 else ?k1"
  obtain k3 where k3: "donate_loop l (holder (klocks k l)) (cur k) ?k2 = Some k3" "t_status (thr k (cur k)) = THREAD_RUNNING"
    "k' = push_frame (SemaWait (LockSema l)) (push_frame (LockTaken l) k3)"
    using assms(2) by (auto simp: lock_acquire_def held_by_current bind_current sema_down_def Let_def
      split: Option.bind_splits if_splits)
  have o: "inherits ?k2 y" if "y \<noteq> cur k" for y
    using assms(1) that by (auto simp: inherits_def split: if_splits)
  have "inherits k3 t"
    by (rule donate_loop_inherits [OF k3(1), where x = "cur k"]) (use k3(2) o in \<open>simp_all\<close>)
  then show ?thesis by (auto simp: inherits_def k3(3) push_frame_def)
qed

theorem lock_acquire_inherits_witness:
  "\<exists>k. lock_acquire 1 demo_chain = Some k \<and> priority (thr k 4) = 31 \<and> inherits k 3"
  using demo_donate lock_acquire_inherits [of demo_chain 1] demo_inherits by blast

section \<open>The timer\<close>

definition due :: "int \<Rightarrow> kernel \<Rightarrow> nat \<Rightarrow> bool" where
  "due tick k t \<longleftrightarrow> sleep_endtick (thr k t) \<le> tick"

definition quiet :: "int \<Rightarrow> nat list \<Rightarrow> kernel \<Rightarrow> bool" where
  "quiet tick ts k \<longleftrightarrow> idle_thread k = Some (cur k) \<or>
     (\<forall>t\<in>set ts. due tick k t \<longrightarrow> priority (thr k t) \<le> priority (thr k (cur k)))"

text \<open>\<open>t\<close> after it was woken up without a switch.\<close>

definition woken :: "nat \<Rightarrow> kernel \<Rightarrow> kernel" where
  "woken t k = upd_thr t (\<lambda>t. t\<lparr>t_status := THREAD_READY\<rparr>)
     (ready_insert t ((upd_thr t (\<lambda>t. t\<lparr>sleep_endtick := 0\<rparr>) k)\<lparr>wait_list := remove1 t (wait_list k)\<rparr>))"

lemma woken_simps [simp]:
  "thr (woken t k) x = (if x = t then (thr k t)\<lparr>sleep_endtick := 0, t_status := THREAD_READY\<rparr> else thr k x)"
  "cur (woken t k) = cur k" "idle_thread (woken t k) = idle_thread k" "in_intr (woken t k) = in_intr k"
  "set (ready_list (woken t k)) = insert t (set (ready_list k))" "wait_list (woken t k) = remove1 t (wait_list k)"
  by (simp_all add: woken_def ready_insert_def)

lemma awake_turn:
  assumes "in_intr k" "t_status (thr k (cur k)) = THREAD_RUNNING" "t_status (thr k t) = THREAD_BLOCKED" "due tick k t"
  shows "awake_loop tick (t # ts) k =
    (if idle_thread k = Some (cur k) \<or> priority (thr k t) \<le> priority (thr k (cur k))
     then awake_loop tick ts (woken t k) else None)"
proof -
  have "t \<noteq> cur k" using assms(2,3) by auto
  moreover have "thread_yield (woken t k) = None" using assms(1) by (simp add: thread_yield_def thread_current_def)
  ultimately show ?thesis using assms
    by (auto simp: due_def thread_unblock_def thread_current_def Let_def not_le woken_def [symmetric] upd_thr_simps(1))
qed

lemma awake_skip: "\<not> due tick k t \<Longrightarrow> awake_loop tick (t # ts) k = awake_loop tick ts k"
  by (simp add: due_def)

lemma awake_quiet:
  assumes "in_intr k" "t_status (thr k (cur k)) = THREAD_RUNNING" "distinct ts"
    and "\<forall>t\<in>set ts. t_status (thr k t) = THREAD_BLOCKED"
  shows "if quiet tick ts k then \<exists>k'. awake_loop tick ts k = Some k' \<and> cur k' = cur k \<and> in_intr k' \<and>
      idle_thread k' = idle_thread k \<and> thr k' (cur k) = thr k (cur k) \<and>
      set (ready_list k') = set (ready_list k) \<union> {t \<in> set ts. due tick k t} \<and>
      wait_list k' = fold remove1 (filter (due tick k) ts) (wait_list k)
    else awake_loop tick ts k = None"
  using assms
proof (induction ts arbitrary: k)
  case Nil
  then show ?case by (simp add: quiet_def)
next
  case (Cons t ts)
  have tc: "t \<noteq> cur k" using Cons.prems by auto
  show ?case
  proof (cases "due tick k t")
    case False
    then have "quiet tick (t # ts) k = quiet tick ts k" "{x \<in> set (t # ts). due tick k x} = {x \<in> set ts. due tick k x}"
      by (auto simp: quiet_def)
    then show ?thesis using Cons.IH [of k] Cons.prems False by (simp add: awake_skip del: awake_loop.simps)
  next
    case True
    note turn = awake_turn [OF Cons.prems(1,2) _ True, of ts]
    show ?thesis
    proof (cases "idle_thread k = Some (cur k) \<or> priority (thr k t) \<le> priority (thr k (cur k))")
      case False
      then show ?thesis using turn Cons.prems True by (auto simp: quiet_def simp del: awake_loop.simps)
    next
      case ok: True
      have d: "due tick (woken t k) x = due tick k x" if "x \<in> set ts" for x
        using that Cons.prems(3) by (auto simp: due_def)
      have f: "filter (due tick (woken t k)) ts = filter (due tick k) ts" using d by (simp cong: filter_cong)
      have q: "quiet tick ts (woken t k) = quiet tick (t # ts) k"
        using ok tc d Cons.prems(3) by (auto simp: quiet_def)
      have s: "{x \<in> set ts. due tick (woken t k) x} = {x \<in> set ts. due tick k x}" using d by auto
      have "t_status (thr k t) = THREAD_BLOCKED" using Cons.prems by simp
      note turn = turn [OF this]
      have IH: "if quiet tick ts (woken t k) then \<exists>k'. awake_loop tick ts (woken t k) = Some k' \<and> cur k' = cur (woken t k) \<and> in_intr k' \<and>
          idle_thread k' = idle_thread (woken t k) \<and> thr k' (cur (woken t k)) = thr (woken t k) (cur (woken t k)) \<and>
          set (ready_list k') = set (ready_list (woken t k)) \<union> {x \<in> set ts. due tick (woken t k) x} \<and>
          wait_list k' = fold remove1 (filter (due tick (woken t k)) ts) (wait_list (woken t k))
        else awake_loop tick ts (woken t k) = None"
        by (rule Cons.IH) (use Cons.prems tc in auto)
      show ?thesis
      proof (cases "quiet tick ts (woken t k)")
        case True
        then show ?thesis using IH q turn ok tc s f \<open>due tick k t\<close> by (auto simp del: awake_loop.simps)
      next
        case False
        then show ?thesis using IH q turn ok by (simp del: awake_loop.simps)
      qed
    qed
  qed
qed

text \<open>Switching never fails when a thread can run.\<close>

lemma yield_returns:
  assumes "t_status (thr k (cur k)) = THREAD_RUNNING" "\<not> in_intr k"
  shows "\<exists>k'. thread_yield k = Some k'"
proof -
  let ?k = "upd_thr (cur k) (\<lambda>t. t\<lparr>t_status := THREAD_READY\<rparr>)
      (if Some (cur k) \<noteq> idle_thread k then ready_insert (cur k) k else k)"
  have "ready_list ?k \<noteq> [] \<or> idle_thread ?k \<noteq> None"
  proof (cases "Some (cur k) = idle_thread k")
    case False
    then have "cur k \<in> set (ready_list ?k)" by simp
    then show ?thesis by (metis empty_iff list.set(1))
  qed (auto dest: sym)
  then obtain n k1 where "next_thread_to_run ?k = Some (n, k1)" "thr k1 = thr ?k"
    by (cases "ready_list ?k") (auto simp: next_thread_to_run_def)
  moreover have "\<exists>k'. thread_schedule_tail (Some (cur k)) (k1\<lparr>cur := n\<rparr>) = Some k'" if "cur k \<noteq> n" "thr k1 = thr ?k" for k1 n
    using that by (auto simp: thread_schedule_tail_def Let_def)
  moreover have "\<exists>k'. thread_schedule_tail None k1 = Some k'" for k1
    by (simp add: thread_schedule_tail_def Let_def)
  ultimately have "\<exists>k'. schedule ?k = Some k'"
    by (cases "cur k = n") (auto simp: schedule_def Let_def)
  then show ?thesis using assms by (simp add: thread_yield_def thread_current_def Let_def)
qed

lemma remove1_filter: "distinct xs \<Longrightarrow> remove1 x xs = filter (\<lambda>y. y \<noteq> x) xs"
  by (simp add: distinct_remove1_removeAll removeAll_filter_not_eq neq_commute)

lemma fold_remove1: "distinct xs \<Longrightarrow> fold remove1 ys xs = filter (\<lambda>y. y \<notin> set ys) xs"
  by (induction ys arbitrary: xs) (simp_all add: remove1_filter conj_commute)

lemma timer_tick:
  assumes "sched_ok k" "distinct (wait_list k)" "\<forall>t\<in>set (wait_list k). t_status (thr k t) = THREAD_BLOCKED"
  shows "if quiet tick (wait_list k) k then \<exists>k'. thread_tick tick (k\<lparr>in_intr := True, yield_on_return := False\<rparr>) = Some k' \<and>
      cur k' = cur k \<and> idle_thread k' = idle_thread k \<and> thr k' (cur k) = thr k (cur k) \<and> 
      set (ready_list k') = set (ready_list k) \<union> {t \<in> set (wait_list k). due tick k t} \<and>
      wait_list k' = filter (\<lambda>t. \<not> due tick k t) (wait_list k)
    else thread_tick tick (k\<lparr>in_intr := True, yield_on_return := False\<rparr>) = None"
proof -
  let ?k = "k\<lparr>in_intr := True, yield_on_return := False\<rparr>"
  have r: "t_status (thr k (cur k)) = THREAD_RUNNING" using assms(1) by (simp add: sched_ok_def)
  have q: "quiet tick (wait_list k) ?k = quiet tick (wait_list k) k" and d: "due tick ?k = due tick k"
    by (auto simp: quiet_def due_def fun_eq_iff)
  have w: "fold remove1 (filter (due tick k) (wait_list k)) (wait_list k) = filter (\<lambda>t. \<not> due tick k t) (wait_list k)"
    by (simp add: fold_remove1 [OF assms(2)] cong: filter_cong)
  have a: "if quiet tick (wait_list k) k then \<exists>k'. awake_loop tick (wait_list k) ?k = Some k' \<and> cur k' = cur k \<and> in_intr k' \<and>
      idle_thread k' = idle_thread k \<and> thr k' (cur k) = thr k (cur k) \<and>
      set (ready_list k') = set (ready_list k) \<union> {t \<in> set (wait_list k). due tick k t} \<and>
      wait_list k' = filter (\<lambda>t. \<not> due tick k t) (wait_list k)
    else awake_loop tick (wait_list k) ?k = None"
    using awake_quiet [of ?k "wait_list k" tick] assms(2,3) r by (simp add: q d w cong: if_cong)
  show ?thesis
  proof (cases "quiet tick (wait_list k) k")
    case False
    then show ?thesis using a by (simp add: thread_tick_def thread_awake_def thread_current_def)
  next
    case True
    with a obtain k1 where k1: "awake_loop tick (wait_list k) ?k = Some k1" "cur k1 = cur k" "idle_thread k1 = idle_thread k"
      "thr k1 (cur k) = thr k (cur k)" "set (ready_list k1) = set (ready_list k) \<union> {t \<in> set (wait_list k). due tick k t}"
      "wait_list k1 = filter (\<lambda>t. \<not> due tick k t) (wait_list k)" by auto
    then show ?thesis using True r by (auto simp: thread_tick_def thread_awake_def thread_current_def Let_def)
  qed
qed


text \<open>C37: The timer interrupt returns, under the scheduler's invariant, exactly when the idle thread runs or no
  sleeping thread that is due has a higher priority than the running one: waking up such a thread yields inside
  the interrupt handler, where \<open>thread_yield\<close> fails its assertion.\<close>

theorem timer_interrupt_returns:
  assumes "sched_ok k" "distinct (wait_list k)" "\<forall>t\<in>set (wait_list k). t_status (thr k t) = THREAD_BLOCKED"
  shows "(\<exists>k'. timer_interrupt tick k = Some k') \<longleftrightarrow> idle_thread k = Some (cur k) \<or>
    (\<forall>t\<in>set (wait_list k). sleep_endtick (thr k t) \<le> tick \<longrightarrow> priority (thr k t) \<le> priority (thr k (cur k)))"
proof (cases "quiet tick (wait_list k) k")
  case False
  then have "timer_interrupt tick k = None" using timer_tick [OF assms, of tick] by (simp add: timer_interrupt_def)
  with False show ?thesis by (auto simp: quiet_def due_def)
next
  case True
  then obtain k' where k': "thread_tick tick (k\<lparr>in_intr := True, yield_on_return := False\<rparr>) = Some k'" "cur k' = cur k"
    "thr k' (cur k) = thr k (cur k)" using timer_tick [OF assms, of tick] by auto
  have "\<exists>k''. thread_yield (k'\<lparr>in_intr := False\<rparr>) = Some k''"
    by (rule yield_returns) (use k' assms(1) in \<open>simp_all add: sched_ok_def\<close>)
  then have "\<exists>k''. timer_interrupt tick k = Some k''" using k'(1) by (auto simp: timer_interrupt_def Let_def)
  with True show ?thesis by (auto simp: quiet_def due_def)
qed

theorem timer_interrupt_returns_witness: "timer_interrupt 10 demo_kernel = None \<and> timer_interrupt 9 demo_kernel \<noteq> None"
proof -
  have "distinct (wait_list demo_kernel)" "\<forall>t\<in>set (wait_list demo_kernel). t_status (thr demo_kernel t) = THREAD_BLOCKED"
    by (simp_all add: demo_defs)
  note r = timer_interrupt_returns [OF demo_sched(1) this]
  have "\<not> (\<exists>k'. timer_interrupt 10 demo_kernel = Some k')" unfolding r by (simp add: demo_defs)
  moreover have "\<exists>k'. timer_interrupt 9 demo_kernel = Some k'" unfolding r by (simp add: demo_defs)
  ultimately show ?thesis by auto
qed

text \<open>A timer tick that returns wakes up exactly the sleeping threads that are due: they become ready and leave
  the list of sleepers, the others stay in it in their order.\<close>

theorem tick_wakes_due:
  assumes "sched_ok k" "distinct (wait_list k)" "\<forall>t\<in>set (wait_list k). t_status (thr k t) = THREAD_BLOCKED"
    and "thread_tick tick (k\<lparr>in_intr := True, yield_on_return := False\<rparr>) = Some k'"
  shows "set (ready_list k') = set (ready_list k) \<union> {t \<in> set (wait_list k). sleep_endtick (thr k t) \<le> tick} \<and>
    wait_list k' = filter (\<lambda>t. sleep_endtick (thr k t) > tick) (wait_list k) \<and> cur k' = cur k"
  using timer_tick [OF assms(1-3), of tick] assms(4) by (auto simp: due_def not_le split: if_splits)

definition demo_asleep :: kernel where
  "demo_asleep = upd_thr 5 (\<lambda>t. t\<lparr>priority := 20\<rparr>) demo_kernel"

theorem tick_wakes_due_witness:
  "\<exists>k'. thread_tick 10 (demo_asleep\<lparr>in_intr := True, yield_on_return := False\<rparr>) = Some k' \<and>
     wait_list k' = [] \<and> 5 \<in> set (ready_list k')"
proof -
  have s: "sched_ok demo_asleep" unfolding demo_asleep_def by (rule same_sched_ok [OF same_sched_upd_thr demo_sched(1)]) simp
  have w: "distinct (wait_list demo_asleep)" "\<forall>t\<in>set (wait_list demo_asleep). t_status (thr demo_asleep t) = THREAD_BLOCKED"
    by (simp_all add: demo_asleep_def demo_defs)
  have "quiet 10 (wait_list demo_asleep) demo_asleep" by (simp add: quiet_def due_def demo_asleep_def demo_defs)
  then obtain k' where k': "thread_tick 10 (demo_asleep\<lparr>in_intr := True, yield_on_return := False\<rparr>) = Some k'"
    using timer_tick [OF s w, of 10] by auto
  have "wait_list demo_asleep = [5]" "sleep_endtick (thr demo_asleep 5) = 10" by (simp_all add: demo_asleep_def demo_defs)
  then show ?thesis using tick_wakes_due [OF s w k'] k' by simp
qed

text \<open>A lock obtained with \<open>lock_try_acquire\<close> cannot be released: it was not put into the holder's list of locks,
  and \<open>lock_release\<close> panics when it unlinks it.\<close>

theorem try_acquired_lock_release_panics:
  assumes "lock_try_acquire l k = Some (True, k1)" "lock_release l k1 = Some k2" "waiters (semas k (LockSema l)) = []"
    and "l \<notin> set (held_locks (thr k (cur k)))"
  shows "run_frame k2 = None"
proof -
  have k1: "k1 = upd_lock l (\<lambda>x. x\<lparr>holder := Some (cur k)\<rparr>) (upd_sema (LockSema l) (\<lambda>x. x\<lparr>svalue := svalue x - 1\<rparr>) k)"
    using assms(1) by (auto simp: lock_try_acquire_def held_by_current bind_current sema_try_down_def split: if_splits)
  have "k2 = upd_sema (LockSema l) (\<lambda>x. x\<lparr>svalue := svalue x + 1\<rparr>) (push_frame (LockGiven l) (upd_lock l (\<lambda>x. x\<lparr>holder := None\<rparr>) k1))"
    using assms(2,3) by (auto simp: lock_release_def held_by_current Let_def sema_up_def kl_sort_def k1 split: if_splits)
  then show ?thesis using assms(4) by (simp add: run_frame_def lock_given_def k1 thread_current_def)
qed

theorem try_acquired_lock_release_panics_witness:
  "\<exists>k1 k2. lock_try_acquire 1 demo_kernel = Some (True, k1) \<and> lock_release 1 k1 = Some k2 \<and> run_frame k2 = None"
proof -
  have w: "waiters (semas demo_kernel (LockSema 1)) = []" "1 \<notin> set (held_locks (thr demo_kernel (cur demo_kernel)))"
    by (simp_all add: demo_defs)
  have "\<exists>k1 k2. lock_try_acquire 1 demo_kernel = Some (True, k1) \<and> lock_release 1 k1 = Some k2"
    by (simp add: lock_try_acquire_def lock_held_by_current_thread_def thread_current_def sema_try_down_def lock_release_def
        sema_up_def kl_sort_def Let_def demo_defs)
  then show ?thesis using try_acquired_lock_release_panics [OF _ _ w] by blast
qed

text \<open>Taking a free lock and giving it back is a round trip: every thread, semaphore value and list is as before,
  and the lock is free again.\<close>

theorem lock_roundtrip:
  assumes "sched_ok k" "prio_ok k" "idle_thread k \<noteq> Some (cur k)"
    and "holder (klocks k l) = None" "semas k (LockSema l) = \<lparr>svalue = 1, waiters = [], spriority = p\<rparr>"
    and "held_locks (thr k (cur k)) = []" "waiting_lock (thr k (cur k)) = None"
    and "priority (thr k (cur k)) = original_priority (thr k (cur k))"
  shows "\<exists>k'. do { k \<leftarrow> lock_acquire l k; k \<leftarrow> run_frame k; k \<leftarrow> run_frame k; k \<leftarrow> lock_release l k; run_frame k } = Some k' \<and>
    thr k' = thr k \<and> semas k' = semas k \<and> holder (klocks k' l) = None \<and> ready_list k' = ready_list k \<and> cur k' = cur k"
proof -
  let ?c = "cur k"
  have r: "t_status (thr k ?c) = THREAD_RUNNING" "\<not> in_intr k" using assms(1) by (simp_all add: sched_ok_def)
  let ?k1 = "push_frame (SemaWait (LockSema l)) (push_frame (LockTaken l)
    (upd_lock l (\<lambda>x. x\<lparr>lpriority := priority (thr k ?c)\<rparr>) (upd_thr ?c (\<lambda>t. t\<lparr>waiting_lock := Some l\<rparr>) k)))"
  have k1: "lock_acquire l k = Some ?k1" using r assms(4)
    by (simp add: lock_acquire_def lock_held_by_current_thread_def thread_current_def Let_def sema_down_def donate_loop.simps)
  let ?k2 = "pop_frame (upd_sema (LockSema l) (\<lambda>x. x\<lparr>svalue := svalue x - 1\<rparr>) ?k1)"
  have k2: "run_frame ?k1 = Some ?k2" by (simp add: run_frame_def sema_round_def assms(5))
  let ?k3 = "upd_thr ?c (\<lambda>t. t\<lparr>waiting_lock := None, held_locks := [l]\<rparr>) (upd_lock l (\<lambda>x. x\<lparr>holder := Some ?c\<rparr>) (pop_frame ?k2))"
  have k3: "run_frame ?k2 = Some ?k3" using r
    by (simp add: run_frame_def lock_taken_def thread_current_def Let_def assms(6))
  let ?k4 = "upd_sema (LockSema l) (\<lambda>x. x\<lparr>svalue := svalue x + 1\<rparr>) (push_frame (LockGiven l) (upd_lock l (\<lambda>x. x\<lparr>holder := None\<rparr>) ?k3))"
  have k4: "lock_release l ?k3 = Some ?k4" using r
    by (simp add: lock_release_def lock_held_by_current_thread_def thread_current_def Let_def sema_up_def kl_sort_def assms(5))
  let ?k5 = "upd_thr ?c (\<lambda>t. t\<lparr>priority := original_priority (thr k ?c)\<rparr>)
    (upd_thr ?c (\<lambda>t. t\<lparr>held_locks := remove1 l (held_locks t)\<rparr>) (pop_frame ?k4))"
  have y: "yield_if_lower (original_priority (thr k ?c)) ?k5 = Some ?k5"
    using assms(1-3,8) by (auto simp: yield_if_lower_def prio_ok_def sched_ok_def not_less split: list.splits)
  have k5: "run_frame ?k4 = Some ?k5" using r y
    by (simp add: run_frame_def lock_given_def thread_current_def Let_def kl_sort_def thread_priority_donate_def)
  have "thr ?k5 x = thr k x" for x using assms(6-8) by (simp add: push_frame_def pop_frame_def)
  moreover have "semas ?k5 s = semas k s" for s using assms(5) by simp
  moreover have "holder (klocks ?k5 l) = None" "ready_list ?k5 = ready_list k" "cur ?k5 = ?c" by (simp_all add: push_frame_def pop_frame_def)
  ultimately show ?thesis using k1 k2 k3 k4 k5 by (auto simp: fun_eq_iff)
qed


theorem lock_roundtrip_witness:
  "\<exists>k'. do { k \<leftarrow> lock_acquire 1 demo_kernel; k \<leftarrow> run_frame k; k \<leftarrow> run_frame k; k \<leftarrow> lock_release 1 k; run_frame k } = Some k' \<and>
    thr k' = thr demo_kernel \<and> holder (klocks k' 1) = None"
proof -
  have "idle_thread demo_kernel \<noteq> Some (cur demo_kernel)" "holder (klocks demo_kernel 1) = None"
    "semas demo_kernel (LockSema 1) = \<lparr>svalue = 1, waiters = [], spriority = 0\<rparr>"
    "held_locks (thr demo_kernel (cur demo_kernel)) = []" "waiting_lock (thr demo_kernel (cur demo_kernel)) = None"
    "priority (thr demo_kernel (cur demo_kernel)) = original_priority (thr demo_kernel (cur demo_kernel))"
    by (simp_all add: demo_defs)
  from lock_roundtrip [OF demo_sched(1) demo_prio(1) this] show ?thesis by blast
qed

text \<open>A woken thread of a higher priority than the running one runs at once: \<open>thread_unblock\<close> switches to it.\<close>

theorem unblock_preempts:
  assumes "thread_unblock t k = Some k'" "prio_ok k" "idle_thread k \<noteq> Some (cur k)"
    and "priority (thr k (cur k)) < priority (thr k t)"
  shows "cur k' = t \<and> cur k \<in> set (ready_list k')"
proof -
  let ?k1 = "upd_thr t (\<lambda>t. t\<lparr>t_status := THREAD_READY\<rparr>) (ready_insert t k)"
  have y: "thread_yield ?k1 = Some k'"
    using assms(1,3,4) by (auto simp: thread_unblock_def Let_def bind_current split: if_splits)
  let ?k2 = "upd_thr (cur k) (\<lambda>t. t\<lparr>t_status := THREAD_READY\<rparr>) (ready_insert (cur k) ?k1)"
  have s: "schedule ?k2 = Some k'" using yieldD(3) [OF y] assms(3) by (simp split: if_splits)
  have lt: "\<forall>x\<in>set (ready_list k). priority (thr k x) < priority (thr k t)"
    using assms(2-4) by (fastforce simp: prio_ok_def)
  have "ready_list (ready_insert t k) = t # ready_list k"
    using lt by (cases "ready_list k") (auto simp: ready_insert_def comparator_greater_thread_priority_def)
  then have "ready_list ?k2 = t # kl_insert (comparator_greater_thread_priority ?k1) (cur k) (ready_list k)"
    using assms(4) by (simp add: ready_insert_def [of "cur k"] comparator_greater_thread_priority_def)
  with schedule_props(1) [OF s] have "cur k' = t"
    "ready_list k' = kl_insert (comparator_greater_thread_priority ?k1) (cur k) (ready_list k)" by auto
  then show ?thesis by simp
qed

theorem unblock_preempts_witness: "\<exists>k'. thread_unblock 5 demo_kernel = Some k' \<and> cur k' = 5"
proof -
  have "\<exists>k'. thread_unblock 5 demo_kernel = Some k'"
    by (simp add: thread_unblock_def thread_yield_def thread_current_def schedule_def next_thread_to_run_def thread_schedule_tail_def
        ready_insert_def Let_def comparator_greater_thread_priority_def demo_defs upd_thr_def)
  moreover have "idle_thread demo_kernel \<noteq> Some (cur demo_kernel)"
    "priority (thr demo_kernel (cur demo_kernel)) < priority (thr demo_kernel 5)" by (simp_all add: demo_defs)
  ultimately show ?thesis using unblock_preempts [OF _ demo_prio(1)] by blast
qed

lemma schedule_runnable:
  assumes "schedule k = Some k'" "t \<in> set (ready_list k)"
  shows "t = cur k' \<or> t \<in> set (ready_list k')"
  using schedule_props(1) [OF assms(1)] assms(2) by auto

lemma unblock_runnable:
  assumes u: "thread_unblock t k = Some k'"
  shows "semas k' = semas k \<and> (t = cur k' \<or> t \<in> set (ready_list k'))"
proof -
  let ?k = "upd_thr t (\<lambda>t. t\<lparr>t_status := THREAD_READY\<rparr>) (ready_insert t k)"
  have "k' = ?k \<or> thread_yield ?k = Some k'"
    using u by (auto simp: thread_unblock_def Let_def bind_current split: if_splits)
  then show ?thesis
  proof
    assume "thread_yield ?k = Some k'"
    note s = yieldD(3) [OF this]
    have "t = cur k' \<or> t \<in> set (ready_list k')" by (rule schedule_runnable [OF s]) simp
    then show ?thesis using schedule_props(3) [OF s] by simp
  qed simp
qed

text \<open>Raising a semaphore with waiters wakes up one of the highest priority, and it is runnable afterwards.\<close>

theorem sema_up_wakes_highest:
  assumes "sema_up s k = Some k'" "waiters (semas k s) \<noteq> []" "sched_ok k"
  shows "\<exists>t \<in> set (waiters (semas k s)). (\<forall>u \<in> set (waiters (semas k s)). priority (thr k u) \<le> priority (thr k t)) \<and>
    mset (waiters (semas k s)) = add_mset t (mset (waiters (semas k' s))) \<and> (t = cur k' \<or> t \<in> set (ready_list k'))"
proof -
  let ?k = "upd_sema s (\<lambda>x. x\<lparr>svalue := svalue x + 1\<rparr>) k"
  let ?w = "kl_sort (comparator_greater_thread_priority ?k) (waiters (semas k s))"
  have m: "mset ?w = mset (waiters (semas k s))" by simp
  then obtain t r where w: "?w = t # r" using assms(2) by (cases ?w) (metis mset_zero_iff, auto)
  have o: "by_priority ?k ?w" by (simp add: by_priority_order thread_order.sort_in_order)
  have t: "\<forall>u \<in> set ?w. priority (thr k u) \<le> priority (thr k t)" using o w by (auto simp: by_priority_def)
  let ?k1 = "upd_sema s (\<lambda>x. x\<lparr>waiters := r\<rparr>) ?k"
  have u: "thread_unblock t ?k1 = Some k'" using assms(1) w by (simp add: sema_up_def)
  have s: "waiters (semas k' s) = r \<and> (t = cur k' \<or> t \<in> set (ready_list k'))"
    using unblock_runnable [OF u] by simp
  have "mset (waiters (semas k s)) = add_mset t (mset r)" "set (waiters (semas k s)) = insert t (set r)"
    using m [unfolded w] mset_eq_setD [OF m [unfolded w]] by simp_all
  then show ?thesis using s t w by (intro bexI [of _ t]) auto
qed


definition demo_waiting :: kernel where
  "demo_waiting = upd_sema (Sema 9) (\<lambda>x. x\<lparr>svalue := 0, waiters := [5]\<rparr>) demo_kernel"

theorem sema_up_wakes_highest_witness: "\<exists>k'. sema_up (Sema 9) demo_waiting = Some k' \<and> waiters (semas k' (Sema 9)) = []"
proof -
  have w: "waiters (semas demo_waiting (Sema 9)) = [5]" by (simp add: demo_waiting_def)
  have "\<exists>k'. sema_up (Sema 9) demo_waiting = Some k'"
    by (simp add: sema_up_def kl_sort_def thread_unblock_def thread_yield_def thread_current_def schedule_def next_thread_to_run_def thread_schedule_tail_def
        ready_insert_def Let_def comparator_greater_thread_priority_def demo_waiting_def demo_defs upd_thr_def upd_sema_def)
  moreover have "sched_ok demo_waiting" using demo_sched(1) by (simp add: demo_waiting_def)
  ultimately show ?thesis using sema_up_wakes_highest [of "Sema 9" demo_waiting] by (auto simp: w)
qed

end
