(* ===== verification/Arith.thy ===== *)
theory Arith
  imports Prelude "HOL-Library.Signed_Division"
begin

text \<open>
  \<^verbatim>\<open>lib/arithmetic.c\<close>: division of 64-bit integers by a 32-bit \<^verbatim>\<open>divl\<close> instruction. Integers are
  words of their width; a signed integer is the word read by \<open>sint\<close>. A divide error (of the
  instruction, or of a 32-bit division by zero) is \<open>None\<close>. The routines are compared with
  division on words and on integers.
\<close>

section \<open>The routines\<close>

definition divl :: "u64 \<Rightarrow> u32 \<Rightarrow> u32 option" where
  "divl n d = (if d = 0 \<or> unat n div unat d \<ge> 2 ^ 32 then None else Some (of_nat (unat n div unat d)))"

definition nlz :: "u32 \<Rightarrow> nat" where
  "nlz x = (
     let n = 0;
         (n, x) = (if x \<le> 0x0000FFFF then (n + 16, push_bit 16 x) else (n, x));
         (n, x) = (if x \<le> 0x00FFFFFF then (n + 8, push_bit 8 x) else (n, x));
         (n, x) = (if x \<le> 0x0FFFFFFF then (n + 4, push_bit 4 x) else (n, x));
         (n, x) = (if x \<le> 0x3FFFFFFF then (n + 2, push_bit 2 x) else (n, x))
     in if x \<le> 0x7FFFFFFF then n + 1 else n)"

definition udiv64 :: "u64 \<Rightarrow> u64 \<Rightarrow> u64 option" where
  "udiv64 n d =
     (if drop_bit 32 d = 0 then
        let b = push_bit 32 1 :: u64; n1 = ucast (drop_bit 32 n) :: u32; n0 = ucast n :: u32;
            d0 = ucast d :: u32
        in do {
          ASSERT (d0 \<noteq> 0);
          q \<leftarrow> divl (b * ucast (n1 mod d0) + ucast n0) d0;
          Some (ucast q + b * ucast (n1 div d0)) }
      else if n < d then Some 0
      else
        let d1 = ucast (drop_bit 32 d) :: u32; s = nlz d1
        in do {
          r \<leftarrow> divl (drop_bit 1 n) (ucast (drop_bit 32 (push_bit s d)));
          let q = (ucast (drop_bit (31 - s) r) :: u64);
          Some (if n - (q - 1) * d < d then q - 1 else q) })"

definition umod64 :: "u64 \<Rightarrow> u64 \<Rightarrow> u32 option" where
  "umod64 n d = do { q \<leftarrow> udiv64 n d; Some (ucast (n - d * q)) }"

definition sdiv64 :: "u64 \<Rightarrow> u64 \<Rightarrow> u64 option" where
  "sdiv64 n d = (
     let n_abs = (if 0 \<le> sint n then n else - n); d_abs = (if 0 \<le> sint d then d else - d)
     in do {
       q_abs \<leftarrow> udiv64 n_abs d_abs;
       Some (if (sint n < 0) = (sint d < 0) then q_abs else - q_abs) })"

definition smod64 :: "u64 \<Rightarrow> u64 \<Rightarrow> u32 option" where
  "smod64 n d = do { q \<leftarrow> sdiv64 n d; Some (ucast (n - d * q)) }"

definition divdi3 :: "u64 \<Rightarrow> u64 \<Rightarrow> u64 option" where
  "divdi3 n d = sdiv64 n d"

definition moddi3 :: "u64 \<Rightarrow> u64 \<Rightarrow> u64 option" where
  "moddi3 n d = map_option scast (smod64 n d)"

definition udivdi3 :: "u64 \<Rightarrow> u64 \<Rightarrow> u64 option" where
  "udivdi3 n d = udiv64 n d"

definition umoddi3 :: "u64 \<Rightarrow> u64 \<Rightarrow> u64 option" where
  "umoddi3 n d = map_option ucast (umod64 n d)"

section \<open>Leading zeros\<close>

text \<open>Each step of \<open>nlz\<close> multiplies by a power of two without losing a bit.\<close>

lemma unat_shl_small: "unat x < 2 ^ (32 - k) \<Longrightarrow> k \<le> 32 \<Longrightarrow> unat (push_bit k x) = unat (x :: u32) * 2 ^ k"
proof -
  assume x: "unat x < 2 ^ (32 - k)" and k: "k \<le> 32"
  have "unat x * 2 ^ k < 2 ^ (32 - k) * 2 ^ k" using x by (rule mult_strict_right_mono) simp
  also have "\<dots> = 2 ^ 32" using k by (simp flip: power_add)
  finally have "unat x * 2 ^ k < 2 ^ 32" .
  then show ?thesis
    unfolding unsigned_push_bit_eq by (simp add: take_bit_eq_mod push_bit_eq_mult)
qed

lemma nlz_step:
  assumes "unat c + 1 = 2 ^ (32 - k)" "k \<le> 16" "2 ^ (32 - 2 * k) \<le> unat x" "x' = (if x \<le> c then push_bit k x else x)"
  shows "unat x' = unat (x :: u32) * 2 ^ (if x \<le> c then k else 0) \<and> 2 ^ (32 - k) \<le> unat x'"
proof (cases "x \<le> c")
  case True
  then have "unat x < 2 ^ (32 - k)" using assms(1) by (simp add: word_le_nat_alt)
  then have "unat x' = unat x * 2 ^ k" using True assms(2,4) unat_shl_small by simp
  moreover have "2 ^ (32 - 2 * k) * 2 ^ k \<le> unat x * 2 ^ k" using assms(3) by simp
  moreover have "(2::nat) ^ (32 - 2 * k) * 2 ^ k = 2 ^ (32 - k)" using assms(2) by (simp flip: power_add)
  ultimately show ?thesis using True by simp
next
  case False
  then show ?thesis using assms(1,4) by (simp add: word_le_nat_alt)
qed

lemma nlz_shift:
  assumes "x \<noteq> 0"
  shows "unat x * 2 ^ nlz x < 2 ^ 32 \<and> 2 ^ 31 \<le> unat x * 2 ^ nlz x"
proof -
  define x1 where "x1 = (if x \<le> 0x0000FFFF then push_bit 16 x else x)"
  define x2 where "x2 = (if x1 \<le> 0x00FFFFFF then push_bit 8 x1 else x1)"
  define x3 where "x3 = (if x2 \<le> 0x0FFFFFFF then push_bit 4 x2 else x2)"
  define x4 where "x4 = (if x3 \<le> 0x3FFFFFFF then push_bit 2 x3 else x3)"
  define x5 where "x5 = (if x4 \<le> 0x7FFFFFFF then push_bit 1 x4 else x4)"
  have x: "1 \<le> unat x" using assms by (simp add: Suc_leI unat_gt_0)
  have 1: "unat x1 = unat x * 2 ^ (if x \<le> 0x0000FFFF then 16 else 0)" "2 ^ 16 \<le> unat x1"
    using nlz_step [of "0x0000FFFF" 16 x, OF _ _ _ x1_def] x by simp_all
  have 2: "unat x2 = unat x1 * 2 ^ (if x1 \<le> 0x00FFFFFF then 8 else 0)" "2 ^ 24 \<le> unat x2"
    using nlz_step [of "0x00FFFFFF" 8 x1, OF _ _ _ x2_def] 1(2) by simp_all
  have 3: "unat x3 = unat x2 * 2 ^ (if x2 \<le> 0x0FFFFFFF then 4 else 0)" "2 ^ 28 \<le> unat x3"
    using nlz_step [of "0x0FFFFFFF" 4 x2, OF _ _ _ x3_def] 2(2) by simp_all
  have 4: "unat x4 = unat x3 * 2 ^ (if x3 \<le> 0x3FFFFFFF then 2 else 0)" "2 ^ 30 \<le> unat x4"
    using nlz_step [of "0x3FFFFFFF" 2 x3, OF _ _ _ x4_def] 3(2) by simp_all
  have 5: "unat x5 = unat x4 * 2 ^ (if x4 \<le> 0x7FFFFFFF then 1 else 0)" "2 ^ 31 \<le> unat x5"
    using nlz_step [of "0x7FFFFFFF" 1 x4, OF _ _ _ x5_def] 4(2) by simp_all
  have n: "nlz x = (if x \<le> 0x0000FFFF then 16 else 0) + (if x1 \<le> 0x00FFFFFF then 8 else 0) +
      (if x2 \<le> 0x0FFFFFFF then 4 else 0) + (if x3 \<le> 0x3FFFFFFF then 2 else 0) + (if x4 \<le> 0x7FFFFFFF then 1 else 0)"
    unfolding nlz_def Let_def x1_def x2_def x3_def x4_def by (simp split del: if_split cong: if_cong) (auto split: if_splits)
  have "unat x5 = unat x * 2 ^ nlz x"
    unfolding n 5(1) 4(1) 3(1) 2(1) 1(1) power_add by (simp only: mult.assoc)
  then show ?thesis using 5(2) unsigned_less [of x5, where ?'a = nat] by simp
qed

section \<open>Unsigned division\<close>

lemma div_by_halves:
  fixes N D b :: nat
  assumes "0 < D"
  shows "N div D = (b * ((N div b) mod D) + N mod b) div D + b * ((N div b) div D)"
proof -
  have "b * (N div b) = b * (D * ((N div b) div D) + (N div b) mod D)" by simp
  then have "b * (N div b) = D * (b * ((N div b) div D)) + b * ((N div b) mod D)"
    by (simp only: distrib_left mult.left_commute)
  then have "N = (b * ((N div b) mod D) + N mod b) + D * (b * ((N div b) div D))"
    using mult_div_mod_eq [of b N] by linarith
  then have "N div D = ((b * ((N div b) mod D) + N mod b) + D * (b * ((N div b) div D))) div D" by (rule arg_cong)
  then show ?thesis using assms by simp
qed

lemma halves_quotient_fits:
  fixes D b :: nat
  assumes "0 < D" "r < b" "m < D"
  shows "(b * m + r) div D < b"
proof -
  have "b * m + r < b * (m + 1)" using assms(2) by simp
  also have "\<dots> \<le> b * D" using assms(3) by (intro mult_left_mono) simp_all
  finally show ?thesis by (simp add: less_mult_imp_div_less mult.commute)
qed

text \<open>The quotient by the leading 32 bits of the divisor is at most one too large.\<close>

lemma estimate_off_by_one:
  fixes N D V P :: nat
  assumes "N < 2 ^ 64" "2 ^ 31 \<le> V" "V = D div P" "0 < P" "0 < N div D"
  shows "N div D \<le> N div (V * P) \<and> N div (V * P) \<le> N div D + 1"
proof
  have V: "V * P \<le> D" "0 < V * P" using assms(2-4) by simp_all
  then show "N div D \<le> N div (V * P)" by (simp add: div_le_mono2)
  define q where "q = N div (V * P)"
  define r where "r = D mod P"
  have D: "D = V * P + r" "r < P" using assms(3,4) by (simp_all add: r_def)
  have q: "q * (V * P) \<le> N" unfolding q_def by (rule div_times_less_eq_dividend)
  have q0: "1 \<le> q" using \<open>N div D \<le> N div (V * P)\<close> assms(5) unfolding q_def by simp
  have "(q - 1) * D \<le> N"
  proof -
    have "q * P * 2 ^ 31 \<le> q * P * V" using assms(2) by (rule mult_le_mono2)
    also have "\<dots> = q * (V * P)" by simp
    finally have "q * P * 2 ^ 31 < 2 ^ 64" using q assms(1) by linarith
    then have "q * P < 2 ^ 33" by (simp add: mult.commute)
    have "(q - 1) * r * P \<le> q * (P - 1) * P" using D(2) by (intro mult_right_mono mult_mono) simp_all
    also have "\<dots> = q * P * (P - 1)" by simp
    also have "\<dots> \<le> 2 ^ 33 * (P - 1)" using \<open>q * P < 2 ^ 33\<close> by (intro mult_right_mono) simp_all
    also have "\<dots> \<le> 2 ^ 31 * (P * P)"
    proof -
      have "0 \<le> (int P - 2) * (int P - 2)" by (rule zero_le_square)
      then have "4 * (int P - 1) \<le> int P * int P" by (simp add: algebra_simps)
      then have "int (4 * (P - 1)) \<le> int (P * P)" using assms(4) by (simp add: of_nat_diff)
      then have "4 * (P - 1) \<le> P * P" by linarith
      then show ?thesis by simp
    qed
    also have "\<dots> \<le> V * P * P" using assms(2) by simp
    finally have "(q - 1) * r \<le> V * P" using assms(4) by simp
    moreover have "(q - 1) * D = (q - 1) * (V * P) + (q - 1) * r" by (simp add: D(1) algebra_simps)
    moreover have "(q - 1) * (V * P) + V * P = q * (V * P)" using q0 by (simp add: algebra_simps)
    ultimately show ?thesis using q by linarith
  qed
  moreover have "0 < D" using V by linarith
  ultimately have "q - 1 \<le> N div D" by (simp add: less_eq_div_iff_mult_less_eq)
  then show "N div (V * P) \<le> N div D + 1" unfolding q_def by simp
qed

lemma unat_ucast_u32: "unat (ucast x :: u32) = unat (x :: u64) mod 2 ^ 32"
  by (simp add: unsigned_ucast_eq take_bit_eq_mod)

lemma unat_ucast_u64: "unat (ucast x :: u64) = unat (x :: u32)"
  by (simp add: unsigned_ucast_eq take_bit_nat_eq_self unsigned_less [THEN less_le_trans])

lemma unat_drop_bit: "unat (drop_bit k (x :: 'a :: len word)) = unat x div 2 ^ k"
  unfolding unat_drop_bit_eq by (simp add: drop_bit_eq_div)

lemma u64_bound: "unat (x :: u64) < 2 ^ 64"
  using unsigned_less [of x, where ?'a = nat] by simp

lemma u32_bound: "unat (x :: u32) < 2 ^ 32"
  using unsigned_less [of x, where ?'a = nat] by simp

lemma unat_u64_add_mult:
  "unat a * unat b + unat c < 2 ^ 64 \<Longrightarrow> unat (a * b + c) = unat a * unat b + unat (c :: u64)"
  by (simp add: unat_word_ariths)

lemma unat_of_u32: "q < 2 ^ 32 \<Longrightarrow> unat (of_nat q :: u32) = q"
  by (simp add: unat_of_nat)

lemma udiv64_small:
  assumes "drop_bit 32 d = 0" "d \<noteq> 0"
  shows "udiv64 n d = Some (n div d)"
proof -
  define N D where "N = unat n" and "D = unat d"
  have D: "D < 2 ^ 32" "0 < D"
    using assms unat_drop_bit [of 32 d] unat_gt_0 [of d] by (auto simp: D_def div_eq_0_iff)
  have N: "N < 2 ^ 64" using u64_bound by (simp add: N_def)
  define n1 n0 d0 where "n1 = (ucast (drop_bit 32 n) :: u32)" and "n0 = (ucast n :: u32)" and "d0 = (ucast d :: u32)"
  have n1: "unat n1 = N div 2 ^ 32" using N by (simp add: n1_def unat_ucast_u32 unat_drop_bit N_def less_mult_imp_div_less)
  have n0: "unat n0 = N mod 2 ^ 32" by (simp add: n0_def unat_ucast_u32 N_def)
  have d0: "unat d0 = D" using D by (simp add: d0_def unat_ucast_u32 D_def)
  have b: "unat (push_bit 32 1 :: u64) = 2 ^ 32" by simp
  define Q where "Q = (2 ^ 32 * ((N div 2 ^ 32) mod D) + N mod 2 ^ 32) div D"
  have Q: "Q < 2 ^ 32" unfolding Q_def by (rule halves_quotient_fits) (use D in simp_all)
  have m: "(N div 2 ^ 32) mod D < 2 ^ 32" using D by (meson less_trans mod_less_divisor)
  have arg: "unat (push_bit 32 1 * ucast (n1 mod d0) + ucast n0 :: u64) = 2 ^ 32 * ((N div 2 ^ 32) mod D) + N mod 2 ^ 32"
    using m by (subst unat_u64_add_mult) (simp_all add: unat_ucast_u64 unat_mod n1 n0 d0)
  have divl: "divl (push_bit 32 1 * ucast (n1 mod d0) + ucast n0) d0 = Some (of_nat Q)"
    unfolding divl_def arg d0 Q_def [symmetric] using D Q d0 by auto
  have res: "N div D = Q + 2 ^ 32 * ((N div 2 ^ 32) div D)"
    unfolding Q_def by (rule div_by_halves) (rule D(2))
  have "unat (ucast (of_nat Q :: u32) + push_bit 32 1 * ucast (n1 div d0) :: u64) = N div D"
  proof -
    have "N div D < 2 ^ 64" using N by (meson div_le_dividend le_less_trans)
    then have "2 ^ 32 * ((N div 2 ^ 32) div D) + Q < 2 ^ 64" using res by simp
    then show ?thesis
      by (subst add.commute, subst unat_u64_add_mult)
        (simp_all add: unat_ucast_u64 unat_div n1 d0 unat_of_u32 [OF Q] res)
  qed
  then have "ucast (of_nat Q :: u32) + push_bit 32 1 * ucast (n1 div d0) = n div d"
    by (simp add: word_eq_iff_unsigned [where ?'a = nat] unat_div N_def D_def)
  moreover have "d0 \<noteq> 0" using d0 D(2) by (metis less_numeral_extra(3) unsigned_0)
  ultimately show ?thesis
    using assms(1) divl by (simp add: udiv64_def Let_def n1_def n0_def d0_def)
qed

lemma udiv64_large:
  assumes "drop_bit 32 d \<noteq> 0" "d \<le> n"
  shows "udiv64 n d = Some (n div d)"
proof -
  define N D where "N = unat n" and "D = unat d"
  have N: "N < 2 ^ 64" using u64_bound by (simp add: N_def)
  have D: "D < 2 ^ 64" using u64_bound by (simp add: D_def)
  have D32: "0 < D div 2 ^ 32"
    using assms(1) unat_gt_0 [of "drop_bit 32 d"] unfolding D_def unat_drop_bit by simp
  have DN: "D \<le> N" using assms(2) by (simp add: D_def N_def word_le_nat_alt)
  define d1 s where "d1 = (ucast (drop_bit 32 d) :: u32)" and "s = nlz d1"
  have d1: "unat d1 = D div 2 ^ 32" using D by (simp add: d1_def unat_ucast_u32 unat_drop_bit D_def less_mult_imp_div_less)
  have "d1 \<noteq> 0" using d1 D32 by (metis less_numeral_extra(3) unsigned_0)
  then have s: "D div 2 ^ 32 * 2 ^ s < 2 ^ 32" "2 ^ 31 \<le> D div 2 ^ 32 * 2 ^ s"
    using nlz_shift [OF \<open>d1 \<noteq> 0\<close>] d1 unfolding s_def by simp_all
  have s31: "s \<le> 31"
  proof (rule ccontr)
    assume "\<not> s \<le> 31"
    then have "2 ^ 32 \<le> (2::nat) ^ s" by (intro power_increasing) simp_all
    then have "2 ^ 32 \<le> D div 2 ^ 32 * 2 ^ s" using D32 by (metis mult_le_mono nat_mult_1 One_nat_def Suc_leI)
    then show False using s(1) by simp
  qed
  define P V where "P = (2::nat) ^ (32 - s)" and "V = D div P"
  have P: "0 < P" "P * 2 ^ s = 2 ^ 32" "P = 2 * 2 ^ (31 - s)"
    using s31 by (simp_all add: P_def Suc_diff_le flip: power_add power_Suc)
  have V: "V = D * 2 ^ s div 2 ^ 32" unfolding V_def P(2) [symmetric] by simp
  have "D * 2 ^ s < 2 ^ 64"
  proof -
    have "D < (D div 2 ^ 32 + 1) * 2 ^ 32" using dividend_less_div_times [of "2 ^ 32" D] by simp
    then have "D * 2 ^ s < (D div 2 ^ 32 + 1) * 2 ^ 32 * 2 ^ s" by (rule mult_strict_right_mono) simp
    also have "\<dots> = (D div 2 ^ 32 * 2 ^ s + 2 ^ s) * 2 ^ 32" by (simp add: algebra_simps)
    also have "\<dots> \<le> 2 ^ 32 * 2 ^ 32"
    proof -
      have "D div 2 ^ 32 * 2 ^ s + 2 ^ s \<le> 2 ^ 32"
      proof -
        have "D div 2 ^ 32 < P" using s(1) P(2) by (metis mult_less_cancel2)
        then have "(D div 2 ^ 32 + 1) * 2 ^ s \<le> P * 2 ^ s" by (intro mult_le_mono1) simp
        then show ?thesis by (simp add: P(2))
      qed
      then show ?thesis by (rule mult_le_mono1)
    qed
    finally show ?thesis by simp
  qed
  then have v: "unat (ucast (drop_bit 32 (push_bit s d)) :: u32) = V" "V < 2 ^ 32"
  proof -
    assume a: "D * 2 ^ s < 2 ^ 64"
    have "unat (push_bit s d) = D * 2 ^ s"
      unfolding unsigned_push_bit_eq using a by (simp add: take_bit_eq_mod push_bit_eq_mult D_def)
    then have "unat (drop_bit 32 (push_bit s d)) = V" by (simp add: unat_drop_bit V)
    moreover show "V < 2 ^ 32" unfolding V using a by (simp add: less_mult_imp_div_less)
    ultimately show "unat (ucast (drop_bit 32 (push_bit s d)) :: u32) = V" by (simp add: unat_ucast_u32)
  qed
  have V31: "2 ^ 31 \<le> V"
  proof -
    have "2 ^ 31 \<le> D div 2 ^ 32 * 2 ^ s" by (rule s(2))
    also have "\<dots> \<le> D * 2 ^ s div 2 ^ 32"
      by (simp add: less_eq_div_iff_mult_less_eq mult.assoc [symmetric] mult.commute [of _ "2 ^ s"])
    finally show ?thesis by (simp add: V)
  qed
  define q where "q = N div (V * P)"
  have q_eq: "N div 2 div V div 2 ^ (31 - s) = q"
    by (simp only: div_mult2_eq [symmetric] q_def P(3) mult.assoc mult.left_commute [of V] mult.commute [of V])
  have divl: "divl (drop_bit 1 n) (ucast (drop_bit 32 (push_bit s d))) = Some (of_nat (N div 2 div V))"
  proof -
    have "N div 2 < 2 ^ 32 * 2 ^ 31" using N by (simp add: less_mult_imp_div_less)
    also have "\<dots> \<le> 2 ^ 32 * V" using V31 by (rule mult_le_mono2)
    finally have "N div 2 div V < 2 ^ 32" by (simp add: less_mult_imp_div_less)
    moreover have "ucast (drop_bit 32 (push_bit s d)) \<noteq> (0 :: u32)"
      using v(1) V31 by (metis le_zero_eq unsigned_0 zero_neq_numeral power_eq_0_iff)
    ultimately show ?thesis unfolding divl_def v(1) unat_drop_bit N_def [symmetric] power_one_right by simp
  qed
  have q32: "N div 2 div V < 2 ^ 32" using divl unfolding divl_def v(1) unat_drop_bit N_def [symmetric] power_one_right
    by (auto split: if_splits)
  define w where "w = (ucast (drop_bit (31 - s) (of_nat (N div 2 div V) :: u32)) :: u64)"
  have w: "unat w = q" unfolding w_def by (simp add: unat_ucast_u64 unat_drop_bit unat_of_u32 [OF q32] q_eq)
  have Dpos: "0 < D" using D32 by (metis div_0 gr0I less_irrefl)
  have est: "N div D \<le> q" "q \<le> N div D + 1"
    using estimate_off_by_one [OF N V31 V_def P(1)] DN Dpos unfolding q_def by (simp_all add: div_greater_zero_iff)
  have "0 < q" using est(1) DN Dpos by (meson div_greater_zero_iff less_le_trans)
  then have w1: "unat (w - 1) = q - 1" using w by (simp add: unat_sub_if')
  have le: "(q - 1) * D \<le> N" using est(2) Dpos by (simp flip: less_eq_div_iff_mult_less_eq)
  then have prod: "unat ((w - 1) * d) = (q - 1) * D"
    using N w1 by (simp add: unat_word_ariths D_def)
  then have diff: "unat (n - (w - 1) * d) = N - (q - 1) * D"
    using le by (simp add: unat_sub_if' N_def)
  have test: "N - (q - 1) * D < D \<longleftrightarrow> N div D = q - 1"
  proof
    assume "N - (q - 1) * D < D"
    then have "N = (q - 1) * D + (N - (q - 1) * D)" "N - (q - 1) * D < D" using le by simp_all
    then show "N div D = q - 1" by (metis add.commute div_less div_mult_self1 add_0_right less_nat_zero_code)
  next
    assume "N div D = q - 1"
    then show "N - (q - 1) * D < D" using Dpos by (metis minus_div_mult_eq_mod mod_less_divisor)
  qed
  have "unat (if n - (w - 1) * d < d then w - 1 else w) = N div D"
    using est diff test w w1 by (auto simp: word_less_nat_alt D_def [symmetric])
  then have "(if n - (w - 1) * d < d then w - 1 else w) = n div d"
    by (simp add: word_eq_iff_unsigned [where ?'a = nat] unat_div N_def D_def)
  moreover have "\<not> n < d" using assms(2) by simp
  ultimately show ?thesis
    using assms(1) divl unfolding udiv64_def Let_def d1_def [symmetric] s_def [symmetric]
    by (simp flip: w_def split del: if_split cong: if_cong)
qed

theorem udiv64_eq: "udiv64 n d = (if d = 0 then None else Some (n div d))"
proof (cases "d = 0")
  case True
  then show ?thesis by (simp add: udiv64_def Let_def)
next
  case d: False
  show ?thesis
  proof (cases "drop_bit 32 d = 0")
    case True
    then show ?thesis using udiv64_small d by simp
  next
    case large: False
    show ?thesis
    proof (cases "d \<le> n")
      case True
      then show ?thesis using udiv64_large large d by simp
    next
      case False
      then have "n < d" by (simp add: not_le)
      moreover have "n div d = 0" using False by (simp add: word_eq_iff_unsigned [where ?'a = nat] unat_div word_le_nat_alt)
      ultimately show ?thesis using large d by (simp add: udiv64_def Let_def)
    qed
  qed
qed

section \<open>Remainders and signed division\<close>

theorem umod64_eq: "umod64 n d = (if d = 0 then None else Some (ucast (n mod d)))"
  by (simp add: umod64_def udiv64_eq minus_mult_div_eq_mod)

lemma ucast_u32_u64: "ucast (ucast x :: u32) = take_bit 32 (x :: u64)"
  by (rule bit_word_eqI) (auto simp: bit_simps)

theorem umoddi3_eq: "umoddi3 n d = (if d = 0 then None else Some (take_bit 32 (n mod d)))"
  by (simp add: umoddi3_def umod64_eq ucast_u32_u64)

definition u64_abs :: "u64 \<Rightarrow> u64" where
  "u64_abs n = (if 0 \<le> sint n then n else - n)"

lemma uint_u64_abs: "uint (u64_abs n) = \<bar>sint n\<bar>"
proof -
  have "u64_abs n = word_of_int \<bar>sint n\<bar>"
    by (simp add: u64_abs_def abs_if flip: word_of_int_minus)
  moreover have "\<bar>sint n\<bar> < 2 ^ 64" using sint_ge [of n] sint_lt [of n] by simp
  ultimately show ?thesis by (simp add: uint_word_of_int_eq take_bit_int_eq_self)
qed

lemma u64_abs_div: "u64_abs n div u64_abs d = word_of_int (\<bar>sint n\<bar> div \<bar>sint d\<bar>)"
  by (simp add: word_div_def uint_u64_abs)

lemma u64_abs_eq_0: "u64_abs d = 0 \<longleftrightarrow> d = 0"
  by (simp add: u64_abs_def)

theorem sdiv64_eq: "sdiv64 n d = (if d = 0 then None else Some (word_of_int (sint n sdiv sint d)))"
proof -
  have "sdiv64 n d = do { q \<leftarrow> udiv64 (u64_abs n) (u64_abs d);
      Some (if (sint n < 0) = (sint d < 0) then q else - q) }"
    by (simp add: sdiv64_def u64_abs_def Let_def)
  moreover have "(if (sint n < 0) = (sint d < 0) then u64_abs n div u64_abs d else - (u64_abs n div u64_abs d)) =
      word_of_int (sint n sdiv sint d)" if "d \<noteq> 0"
  proof -
    have "sint d \<noteq> 0" using that by (simp add: signed_eq_0_iff)
    then show ?thesis
      by (auto simp: u64_abs_div signed_divide_int_def sgn_if not_less simp flip: word_of_int_minus)
  qed
  ultimately show ?thesis by (simp add: udiv64_eq u64_abs_eq_0)
qed

lemma ucast_u32_word_of_int: "ucast (word_of_int k :: u64) = (word_of_int k :: u32)"
  by (rule bit_word_eqI) (auto simp: bit_simps)

theorem smod64_eq: "smod64 n d = (if d = 0 then None else Some (word_of_int (sint n smod sint d)))"
proof -
  have "(word_of_int (sint n smod sint d) :: u64) = word_of_int (sint n - sint d * (sint n sdiv sint d))"
    by (simp only: minus_mult_sdiv_eq_smod)
  also have "\<dots> = n - d * word_of_int (sint n sdiv sint d)" by simp
  finally show ?thesis by (simp add: smod64_def sdiv64_eq flip: ucast_u32_word_of_int)
qed

text \<open>
  The remainders pass through 32 bits: they are right exactly when the true remainder fits.
\<close>

theorem umoddi3_right: "d \<noteq> 0 \<Longrightarrow> umoddi3 n d = Some (n mod d) \<longleftrightarrow> unat (n mod d) < 2 ^ 32"
  by (auto simp: umoddi3_eq take_bit_eq_mod word_eq_iff_unsigned [where ?'a = nat] unat_word_ariths
      dest: sym)

end
