(* ===== verification/Stdlib.thy ===== *)
theory Stdlib
  imports CString
begin

text \<open>
  \<^verbatim>\<open>lib/stdlib.c\<close> and the classes of \<^verbatim>\<open>lib/ctype.h\<close> it uses: \<^verbatim>\<open>atoi\<close>, the heap sort \<^verbatim>\<open>sort\<close> and
  \<^verbatim>\<open>binary_search\<close>. An array is \<open>cnt\<close> blocks of \<open>sz\<close> bytes in the byte memory of theory CString;
  a comparison function gets two addresses and reads the memory. The array lies inside the
  address space, so its sizes and indices do not wrap and are natural numbers. The sort on
  memory refines one on the sequence of blocks (\<open>elems\<close>), where it is proved.
\<close>

section \<open>Character classes and numbers\<close>

definition isdigit :: "int \<Rightarrow> bool" where
  "isdigit c \<longleftrightarrow> c \<ge> 48 \<and> c \<le> 57"

definition isspace :: "int \<Rightarrow> bool" where
  "isspace c \<longleftrightarrow> c = 32 \<or> c = 12 \<or> c = 10 \<or> c = 13 \<or> c = 9 \<or> c = 11"

text \<open>A \<^verbatim>\<open>char\<close> is signed; an \<^verbatim>\<open>int\<close> has 32 bits and wraps as the compiled code does.\<close>

partial_function (option) skip_space :: "cmem \<Rightarrow> nat \<Rightarrow> nat option" where
  [code]: "skip_space m s = (if isspace (uint (m s)) then skip_space m (s + 1) else Some s)"

partial_function (option) digits_loop :: "cmem \<Rightarrow> nat \<Rightarrow> u32 \<Rightarrow> u32 option" where
  [code]: "digits_loop m s value =
     (if isdigit (sint (m s)) then digits_loop m (s + 1) (value * 10 - (scast (m s) - 48)) else Some value)"

definition atoi :: "nat \<Rightarrow> cmem \<Rightarrow> u32 option" where
  "atoi s m = do {
     ASSERT (s \<noteq> 0);
     s \<leftarrow> skip_space m s;
     let (negative, s) = (if m s = 43 then (False, s + 1) else if m s = 45 then (True, s + 1) else (False, s));
     value \<leftarrow> digits_loop m s 0;
     Some (if \<not> negative then - value else value) }"

section \<open>Sorting\<close>

type_synonym compare = "cmem \<Rightarrow> nat \<Rightarrow> nat \<Rightarrow> int"

fun swap_bytes :: "nat \<Rightarrow> nat \<Rightarrow> nat \<Rightarrow> cmem \<Rightarrow> cmem" where
  "swap_bytes a b 0 m = m"
| "swap_bytes a b (Suc n) m = swap_bytes (a + 1) (b + 1) n (m(a := m b, b := m a))"

definition do_swap :: "nat \<Rightarrow> nat \<Rightarrow> nat \<Rightarrow> nat \<Rightarrow> cmem \<Rightarrow> cmem" where
  "do_swap arr a_idx b_idx sz m = swap_bytes (arr + (a_idx - 1) * sz) (arr + (b_idx - 1) * sz) sz m"

definition do_compare :: "compare \<Rightarrow> nat \<Rightarrow> nat \<Rightarrow> nat \<Rightarrow> nat \<Rightarrow> cmem \<Rightarrow> int" where
  "do_compare compare arr a_idx b_idx sz m =
     compare m (arr + (a_idx - 1) * sz) (arr + (b_idx - 1) * sz)"

definition max_index :: "compare \<Rightarrow> nat \<Rightarrow> nat \<Rightarrow> nat \<Rightarrow> nat \<Rightarrow> cmem \<Rightarrow> nat" where
  "max_index compare arr i cnt sz m = (
     let left = 2 * i;
         right = 2 * i + 1;
         mx = (if left \<le> cnt \<and> do_compare compare arr left i sz m > 0 then left else i)
     in if right \<le> cnt \<and> do_compare compare arr right mx sz m > 0 then right else mx)"

lemma max_index_cases:
  "max_index compare arr i cnt sz m = i \<or>
   max_index compare arr i cnt sz m \<in> {2 * i, 2 * i + 1} \<and> max_index compare arr i cnt sz m \<le> cnt"
  by (auto simp: max_index_def Let_def)

function (sequential) heapify :: "compare \<Rightarrow> nat \<Rightarrow> nat \<Rightarrow> nat \<Rightarrow> nat \<Rightarrow> cmem \<Rightarrow> cmem" where
  "heapify compare arr i cnt sz m = (
     let mx = max_index compare arr i cnt sz m
     in if mx = i then m else heapify compare arr mx cnt sz (do_swap arr i mx sz m))"
  by pat_completeness auto
termination
proof (relation "measure (\<lambda>(compare, arr, i, cnt, sz, m). cnt - i)")
  fix compare arr i cnt sz m mx
  assume "mx = max_index compare arr i cnt sz m" "mx \<noteq> i"
  then show "((compare, arr, mx, cnt, sz, do_swap arr i mx sz m), compare, arr, i, cnt, sz, m)
      \<in> measure (\<lambda>(compare, arr, i, cnt, sz, m). cnt - i)"
    using max_index_cases [of compare arr i cnt sz m] by auto
qed simp

declare heapify.simps [simp del]

fun build_loop :: "compare \<Rightarrow> nat \<Rightarrow> nat \<Rightarrow> nat \<Rightarrow> nat \<Rightarrow> cmem \<Rightarrow> cmem" where
  "build_loop compare arr cnt sz 0 m = m"
| "build_loop compare arr cnt sz (Suc i) m =
     build_loop compare arr cnt sz i (heapify compare arr (Suc i) cnt sz m)"

fun down_loop :: "compare \<Rightarrow> nat \<Rightarrow> nat \<Rightarrow> nat \<Rightarrow> cmem \<Rightarrow> cmem" where
  "down_loop compare arr sz 0 m = m"
| "down_loop compare arr sz (Suc i) m =
     (if Suc i > 1 then down_loop compare arr sz i (heapify compare arr 1 i sz (do_swap arr 1 (Suc i) sz m))
      else m)"

definition sort_array :: "nat \<Rightarrow> nat \<Rightarrow> nat \<Rightarrow> compare \<Rightarrow> cmem \<Rightarrow> cmem option" where
  "sort_array arr cnt sz compare m = do {
     ASSERT (arr \<noteq> 0 \<or> cnt = 0);
     ASSERT (sz > 0);
     Some (down_loop compare arr sz cnt (build_loop compare arr cnt sz (cnt div 2) m)) }"

definition compare_thunk :: "compare \<Rightarrow> compare" where
  "compare_thunk compare m a b = compare m a b"

definition qsort :: "nat \<Rightarrow> nat \<Rightarrow> nat \<Rightarrow> compare \<Rightarrow> cmem \<Rightarrow> cmem option" where
  "qsort arr cnt sz compare m = sort_array arr cnt sz (compare_thunk compare) m"

section \<open>Searching\<close>

partial_function (option) search_loop :: "compare \<Rightarrow> nat \<Rightarrow> nat \<Rightarrow> cmem \<Rightarrow> nat \<Rightarrow> nat \<Rightarrow> nat option" where
  [code]: "search_loop compare key sz m lo hi =
     (if lo < hi then
        let range = (hi - lo) div sz;
            middle = lo + range div 2 * sz;
            cmp = compare m key middle
        in if cmp < 0 then search_loop compare key sz m lo middle
           else if cmp > 0 then search_loop compare key sz m (middle + sz) hi
           else Some middle
      else Some 0)"

definition binary_search :: "nat \<Rightarrow> nat \<Rightarrow> nat \<Rightarrow> nat \<Rightarrow> compare \<Rightarrow> cmem \<Rightarrow> nat option" where
  "binary_search key arr cnt sz compare m = search_loop compare key sz m arr (arr + sz * cnt)"

definition bsearch :: "nat \<Rightarrow> nat \<Rightarrow> nat \<Rightarrow> nat \<Rightarrow> compare \<Rightarrow> cmem \<Rightarrow> nat option" where
  "bsearch key arr cnt sz compare m = binary_search key arr cnt sz (compare_thunk compare) m"

section \<open>The sort on sequences\<close>

text \<open>The same routines on a list, with indices from 1 as in the code.\<close>

definition lswap :: "nat \<Rightarrow> nat \<Rightarrow> 'a list \<Rightarrow> 'a list" where
  "lswap a b xs = xs[a - 1 := xs ! (b - 1), b - 1 := xs ! (a - 1)]"

definition larger_child :: "('a \<Rightarrow> 'a \<Rightarrow> int) \<Rightarrow> nat \<Rightarrow> nat \<Rightarrow> 'a list \<Rightarrow> nat" where
  "larger_child c i cnt xs = (
     let mx = (if 2 * i \<le> cnt \<and> c (xs ! (2 * i - 1)) (xs ! (i - 1)) > 0 then 2 * i else i)
     in if 2 * i + 1 \<le> cnt \<and> c (xs ! (2 * i)) (xs ! (mx - 1)) > 0 then 2 * i + 1 else mx)"

lemma larger_child_cases:
  "larger_child c i cnt xs = i \<or> larger_child c i cnt xs \<in> {2 * i, 2 * i + 1} \<and> larger_child c i cnt xs \<le> cnt"
  by (auto simp: larger_child_def Let_def)

function (sequential) lheapify :: "('a \<Rightarrow> 'a \<Rightarrow> int) \<Rightarrow> nat \<Rightarrow> nat \<Rightarrow> 'a list \<Rightarrow> 'a list" where
  "lheapify c i cnt xs =
     (if larger_child c i cnt xs = i then xs
      else lheapify c (larger_child c i cnt xs) cnt (lswap i (larger_child c i cnt xs) xs))"
  by pat_completeness auto
termination
proof (relation "measure (\<lambda>(c, i, cnt, xs). cnt - i)")
  fix c :: "'a \<Rightarrow> 'a \<Rightarrow> int" and i cnt :: nat and xs
  assume "larger_child c i cnt xs \<noteq> i"
  then show "((c, larger_child c i cnt xs, cnt, lswap i (larger_child c i cnt xs) xs), c, i, cnt, xs)
      \<in> measure (\<lambda>(c, i, cnt, xs). cnt - i)"
    using larger_child_cases [of c i cnt xs] by auto
qed simp

declare lheapify.simps [simp del]

fun lbuild :: "('a \<Rightarrow> 'a \<Rightarrow> int) \<Rightarrow> nat \<Rightarrow> nat \<Rightarrow> 'a list \<Rightarrow> 'a list" where
  "lbuild c cnt 0 xs = xs"
| "lbuild c cnt (Suc i) xs = lbuild c cnt i (lheapify c (Suc i) cnt xs)"

fun ldown :: "('a \<Rightarrow> 'a \<Rightarrow> int) \<Rightarrow> nat \<Rightarrow> 'a list \<Rightarrow> 'a list" where
  "ldown c 0 xs = xs"
| "ldown c (Suc i) xs = (if Suc i > 1 then ldown c i (lheapify c 1 i (lswap 1 (Suc i) xs)) else xs)"

definition lsort :: "('a \<Rightarrow> 'a \<Rightarrow> int) \<Rightarrow> 'a list \<Rightarrow> 'a list" where
  "lsort c xs = ldown c (length xs) (lbuild c (length xs) (length xs div 2) xs)"

subsection \<open>Swaps permute\<close>

lemma length_lswap [simp]: "length (lswap a b xs) = length xs"
  by (simp add: lswap_def)

lemma lswap_at:
  "a - 1 < length xs \<Longrightarrow> b - 1 < length xs \<Longrightarrow> k < length xs \<Longrightarrow>
   lswap a b xs ! k = (if k = b - 1 then xs ! (a - 1) else if k = a - 1 then xs ! (b - 1) else xs ! k)"
  by (simp add: lswap_def nth_list_update)

lemma take_lswap:
  "a \<le> n \<Longrightarrow> b \<le> n \<Longrightarrow> 1 \<le> a \<Longrightarrow> 1 \<le> b \<Longrightarrow> n \<le> length xs \<Longrightarrow> take n (lswap a b xs) = lswap a b (take n xs)"
  by (simp add: lswap_def take_update_swap)

lemma mset_lswap: "a - 1 < length xs \<Longrightarrow> b - 1 < length xs \<Longrightarrow> mset (lswap a b xs) = mset xs"
  unfolding lswap_def by (rule mset_swap)

lemma drop_lswap:
  "a \<le> n \<Longrightarrow> b \<le> n \<Longrightarrow> 1 \<le> a \<Longrightarrow> 1 \<le> b \<Longrightarrow> drop n (lswap a b xs) = drop n xs"
  by (simp add: lswap_def)

lemma lheapify_frame:
  assumes "1 \<le> i" "i \<le> cnt" "cnt \<le> length xs"
  shows "length (lheapify c i cnt xs) = length xs \<and> mset (take cnt (lheapify c i cnt xs)) = mset (take cnt xs) \<and>
    drop cnt (lheapify c i cnt xs) = drop cnt xs"
  using assms
proof (induction c i cnt xs rule: lheapify.induct)
  case (1 c i cnt xs)
  show ?case
  proof (cases "larger_child c i cnt xs = i")
    case True
    then show ?thesis by (subst (1 2 3) lheapify.simps) simp
  next
    case False
    define j where "j = larger_child c i cnt xs"
    have j: "1 \<le> j" "j \<le> cnt" using larger_child_cases [of c i cnt xs] False 1(2) by (auto simp: j_def)
    have IH: "length (lheapify c j cnt (lswap i j xs)) = length xs \<and>
      mset (take cnt (lheapify c j cnt (lswap i j xs))) = mset (take cnt (lswap i j xs)) \<and>
      drop cnt (lheapify c j cnt (lswap i j xs)) = drop cnt (lswap i j xs)"
      using 1(1) [OF False, folded j_def] j 1(4) by simp
    moreover have "mset (take cnt (lswap i j xs)) = mset (take cnt xs)"
      using j 1(2-4) by (simp add: take_lswap mset_lswap)
    moreover have "drop cnt (lswap i j xs) = drop cnt xs" using j 1(2,3) by (simp add: drop_lswap)
    moreover have "lheapify c i cnt xs = lheapify c j cnt (lswap i j xs)"
      using False by (subst lheapify.simps) (simp add: j_def)
    ultimately show ?thesis by simp
  qed
qed

subsection \<open>Heaps\<close>

text \<open>
  The contract of a \<^verbatim>\<open>strcmp\<close>-type comparison. \<open>heap_from c s cnt xs\<close>: every element below a
  parent of index \<open>s\<close> or more is at most its parent.
\<close>

locale comparator =
  fixes c :: "'a \<Rightarrow> 'a \<Rightarrow> int"
  assumes anti: "0 < c x y \<longleftrightarrow> c y x < 0"
    and trans: "c x y \<le> 0 \<Longrightarrow> c y z \<le> 0 \<Longrightarrow> c x z \<le> 0"

definition heap_but :: "('a \<Rightarrow> 'a \<Rightarrow> int) \<Rightarrow> nat \<Rightarrow> nat \<Rightarrow> nat \<Rightarrow> 'a list \<Rightarrow> bool" where
  "heap_but c h s cnt xs \<longleftrightarrow> (\<forall>k. 2 \<le> k \<and> k \<le> cnt \<and> s \<le> k div 2 \<and> k div 2 \<noteq> h \<longrightarrow>
     c (xs ! (k - 1)) (xs ! (k div 2 - 1)) \<le> 0)"

definition heap_from :: "('a \<Rightarrow> 'a \<Rightarrow> int) \<Rightarrow> nat \<Rightarrow> nat \<Rightarrow> 'a list \<Rightarrow> bool" where
  "heap_from c s cnt xs \<longleftrightarrow> (\<forall>k. 2 \<le> k \<and> k \<le> cnt \<and> s \<le> k div 2 \<longrightarrow> c (xs ! (k - 1)) (xs ! (k div 2 - 1)) \<le> 0)"

lemma heap_fromD: "heap_from c s cnt xs \<Longrightarrow> 2 \<le> k \<Longrightarrow> k \<le> cnt \<Longrightarrow> s \<le> k div 2 \<Longrightarrow> c (xs ! (k - 1)) (xs ! (k div 2 - 1)) \<le> 0"
  by (simp add: heap_from_def)

lemma heap_butD: "heap_but c h s cnt xs \<Longrightarrow> 2 \<le> k \<Longrightarrow> k \<le> cnt \<Longrightarrow> s \<le> k div 2 \<Longrightarrow> k div 2 \<noteq> h \<Longrightarrow>
    c (xs ! (k - 1)) (xs ! (k div 2 - 1)) \<le> 0"
  by (simp add: heap_but_def)

lemma child_cases: "k div 2 = i \<Longrightarrow> k = 2 * i \<or> k = 2 * i + (1::nat)"
  by presburger

context comparator
begin

lemma total: "\<not> c x y \<le> 0 \<Longrightarrow> c y x \<le> 0"
  using anti [of x y] by simp

lemma refl: "c x x \<le> 0"
  using anti [of x x] by linarith

lemma larger_child_max:
  assumes "1 \<le> i"
  shows "c (xs ! (i - 1)) (xs ! (larger_child c i cnt xs - 1)) \<le> 0"
    and "k div 2 = i \<Longrightarrow> k \<le> cnt \<Longrightarrow> c (xs ! (k - 1)) (xs ! (larger_child c i cnt xs - 1)) \<le> 0"
proof -
  define mx where "mx = (if 2 * i \<le> cnt \<and> c (xs ! (2 * i - 1)) (xs ! (i - 1)) > 0 then 2 * i else i)"
  have mx: "c (xs ! (i - 1)) (xs ! (mx - 1)) \<le> 0" "2 * i \<le> cnt \<Longrightarrow> c (xs ! (2 * i - 1)) (xs ! (mx - 1)) \<le> 0"
    using refl total by (auto simp: mx_def)
  have r: "larger_child c i cnt xs = (if 2 * i + 1 \<le> cnt \<and> c (xs ! (2 * i)) (xs ! (mx - 1)) > 0 then 2 * i + 1 else mx)"
    by (simp add: larger_child_def mx_def Let_def)
  have up: "c (xs ! (mx - 1)) (xs ! (larger_child c i cnt xs - 1)) \<le> 0"
    using refl total [of "xs ! (2 * i)" "xs ! (mx - 1)"] by (auto simp: r)
  show "c (xs ! (i - 1)) (xs ! (larger_child c i cnt xs - 1)) \<le> 0" by (rule trans [OF mx(1) up])
  assume k: "k div 2 = i" "k \<le> cnt"
  show "c (xs ! (k - 1)) (xs ! (larger_child c i cnt xs - 1)) \<le> 0"
  proof (cases "k = 2 * i")
    case True
    then show ?thesis using trans [OF mx(2) up] k(2) by simp
  next
    case False
    then have "k = 2 * i + 1" using child_cases [OF k(1)] by simp
    then show ?thesis using k(2) refl by (auto simp: r)
  qed
qed

lemma sift_step:
  assumes s: "1 \<le> s" "s \<le> i" and len: "cnt \<le> length xs" and A: "heap_but c i s cnt xs"
    and B: "\<And>k. k div 2 = i \<Longrightarrow> k \<le> cnt \<Longrightarrow> s \<le> i div 2 \<Longrightarrow> c (xs ! (k - 1)) (xs ! (i div 2 - 1)) \<le> 0"
    and j: "j = larger_child c i cnt xs" "j \<noteq> i"
  shows "heap_but c j s cnt (lswap i j xs)"
    and "\<And>k. k div 2 = j \<Longrightarrow> k \<le> cnt \<Longrightarrow> s \<le> j div 2 \<Longrightarrow> c (lswap i j xs ! (k - 1)) (lswap i j xs ! (j div 2 - 1)) \<le> 0"
proof -
  have ch: "j = 2 * i \<or> j = 2 * i + 1" "j \<le> cnt"
    using larger_child_cases [of c i cnt xs] j by auto
  have i1: "1 \<le> i" using s by simp
  have at: "lswap i j xs ! (k - 1) = (if k = j then xs ! (i - 1) else if k = i then xs ! (j - 1) else xs ! (k - 1))"
    if "1 \<le> k" "k \<le> cnt" for k
    using that ch i1 len by (subst lswap_at) auto
  note up = larger_child_max [OF i1, where xs = xs and cnt = cnt, folded j(1)]
  show "heap_but c j s cnt (lswap i j xs)"
    unfolding heap_but_def
  proof (intro allI impI)
    fix k assume k: "2 \<le> k \<and> k \<le> cnt \<and> s \<le> k div 2 \<and> k div 2 \<noteq> j"
    then have p: "1 \<le> k div 2" "k div 2 \<le> cnt" "k div 2 < k" using s by auto
    consider "k div 2 = i" "k = j" | "k div 2 = i" "k \<noteq> j" | "k div 2 \<noteq> i" "k = i" | "k div 2 \<noteq> i" "k \<noteq> i" by blast
    then show "c (lswap i j xs ! (k - 1)) (lswap i j xs ! (k div 2 - 1)) \<le> 0"
    proof cases
      case 1
      then show ?thesis using at [of k] at [of "k div 2"] k p up(1) j(2) by simp
    next
      case 2
      then show ?thesis using at [of k] at [of "k div 2"] k p up(2) [of k] j(2) by auto
    next
      case 3
      have "j div 2 = i" using ch(1) by auto
      then show ?thesis using 3 at [of k] at [of "k div 2"] k p B [of j] j(2) ch(2) by auto
    next
      case 4
      moreover from this have "k \<noteq> j" using ch(1) by auto
      ultimately show ?thesis using at [of k] at [of "k div 2"] k p heap_butD [OF A, of k] by simp
    qed
  qed
  fix k assume k: "k div 2 = j" "k \<le> cnt" "s \<le> j div 2"
  have "j div 2 = i" using ch(1) by auto
  moreover have "2 \<le> k" "j < k" "i < j" "j div 2 < j" using k(1) ch(1) i1 by auto
  ultimately show "c (lswap i j xs ! (k - 1)) (lswap i j xs ! (j div 2 - 1)) \<le> 0"
    using at [of k] at [of i] k i1 ch(2) s heap_butD [OF A, of k] by auto
qed

lemma sift_heap:
  "1 \<le> s \<Longrightarrow> s \<le> i \<Longrightarrow> i \<le> cnt \<Longrightarrow> cnt \<le> length xs \<Longrightarrow> heap_but c i s cnt xs \<Longrightarrow>
   (\<And>k. k div 2 = i \<Longrightarrow> k \<le> cnt \<Longrightarrow> s \<le> i div 2 \<Longrightarrow> c (xs ! (k - 1)) (xs ! (i div 2 - 1)) \<le> 0) \<Longrightarrow>
   heap_from c s cnt (lheapify c i cnt xs)"
proof (induction "cnt - i" arbitrary: i xs rule: less_induct)
  case less
  define j where "j = larger_child c i cnt xs"
  show ?case
  proof (cases "j = i")
    case True
    have "heap_from c s cnt xs"
      unfolding heap_from_def
    proof (intro allI impI)
      fix k assume k: "2 \<le> k \<and> k \<le> cnt \<and> s \<le> k div 2"
      show "c (xs ! (k - 1)) (xs ! (k div 2 - 1)) \<le> 0"
        using heap_butD [OF less.prems(5), of k] larger_child_max(2) [of i k cnt xs] less.prems(1,2) True k
        by (cases "k div 2 = i") (auto simp: j_def)
    qed
    then show ?thesis using True by (subst lheapify.simps) (simp add: j_def)
  next
    case False
    have j: "i < j" "j \<le> cnt" "s \<le> j"
      using larger_child_cases [of c i cnt xs] False less.prems(1,2) by (auto simp: j_def)
    note st = sift_step [OF less.prems(1,2,4,5,6) j_def False]
    have "heap_from c s cnt (lheapify c j cnt (lswap i j xs))"
      using j less.prems(1,3,4) st by (intro less.hyps) auto
    then show ?thesis using False by (subst lheapify.simps) (simp add: j_def)
  qed
qed

lemma heap_root:
  "heap_from c 1 n xs \<Longrightarrow> 1 \<le> k \<Longrightarrow> k \<le> n \<Longrightarrow> c (xs ! (k - 1)) (xs ! 0) \<le> 0"
proof (induction k rule: less_induct)
  case (less k)
  show ?case
  proof (cases "k = 1")
    case True
    then show ?thesis using refl by simp
  next
    case False
    then have "c (xs ! (k div 2 - 1)) (xs ! 0) \<le> 0" using less by simp
    moreover have "c (xs ! (k - 1)) (xs ! (k div 2 - 1)) \<le> 0"
      using less.prems False by (intro heap_fromD) auto
    ultimately show ?thesis by (rule trans [rotated])
  qed
qed

lemma lbuild_heap:
  "i \<le> length xs \<Longrightarrow> heap_from c (Suc i) (length xs) xs \<Longrightarrow>
   heap_from c 1 (length xs) (lbuild c (length xs) i xs) \<and> mset (lbuild c (length xs) i xs) = mset xs"
proof (induction i arbitrary: xs)
  case (Suc i)
  define ys where "ys = lheapify c (Suc i) (length xs) xs"
  note frame = lheapify_frame [of "Suc i" "length xs" xs c, folded ys_def]
  have fr: "length ys = length xs" using frame Suc.prems(1) by simp
  have mset: "mset ys = mset xs" using frame Suc.prems(1) by (simp add: fr)
  have "heap_but c (Suc i) (Suc i) (length xs) xs"
    unfolding heap_but_def
  proof (intro allI impI)
    fix k assume k: "2 \<le> k \<and> k \<le> length xs \<and> Suc i \<le> k div 2 \<and> k div 2 \<noteq> Suc i"
    then have "Suc (Suc i) \<le> k div 2" by linarith
    then show "c (xs ! (k - 1)) (xs ! (k div 2 - 1)) \<le> 0"
      using heap_fromD [OF Suc.prems(2)] k by blast
  qed
  then have "heap_from c (Suc i) (length xs) ys"
    unfolding ys_def using Suc.prems(1) by (intro sift_heap) auto
  then show ?case using Suc.IH [of ys] Suc.prems(1) fr mset by (simp flip: ys_def)
qed simp

lemma ldown_sorted:
  "heap_from c 1 n xs \<Longrightarrow> n \<le> length xs \<Longrightarrow> sorted_wrt (\<lambda>x y. c x y \<le> 0) (drop n xs) \<Longrightarrow>
   (\<forall>x \<in> set (take n xs). \<forall>y \<in> set (drop n xs). c x y \<le> 0) \<Longrightarrow>
   sorted_wrt (\<lambda>x y. c x y \<le> 0) (ldown c n xs) \<and> mset (ldown c n xs) = mset xs"
proof (induction n arbitrary: xs)
  case (Suc i)
  have first: "take 1 xs = [xs ! 0]" "xs = xs ! 0 # drop 1 xs"
    using Suc.prems(2) by (cases xs; simp)+
  show ?case
  proof (cases "i = 0")
    case True
    have "sorted_wrt (\<lambda>x y. c x y \<le> 0) xs"
      using Suc.prems(3,4) True first(1) by (subst first(2)) simp
    then show ?thesis using True by simp
  next
    case False
    define ys where "ys = lswap 1 (Suc i) xs"
    define zs where "zs = lheapify c 1 i ys"
    have ys: "length ys = length xs" "mset ys = mset xs"
      using Suc.prems(2) mset_lswap [of 1 xs "Suc i"] by (cases xs; simp add: ys_def)+
    have fr: "length zs = length xs" "mset (take i zs) = mset (take i ys)" "drop i zs = drop i ys"
      using lheapify_frame [of 1 i ys c] False Suc.prems(2) ys by (simp_all add: zs_def)
    have mset: "mset zs = mset xs"
      using fr(2,3) ys(2) by (metis append_take_drop_id mset_append)
    have at: "ys ! k = (if k = i then xs ! 0 else if k = 0 then xs ! i else xs ! k)" if "k < length xs" for k
      using that Suc.prems(2) lswap_at [of 1 xs "Suc i" k] by (cases xs; simp add: ys_def)
    have drop: "drop i ys = xs ! 0 # drop (Suc i) xs"
    proof -
      have "drop (Suc i) ys = drop (Suc i) xs" by (simp add: ys_def drop_lswap)
      then show ?thesis using Suc.prems(2) at [of i] ys(1) by (metis Cons_nth_drop_Suc Suc_le_lessD)
    qed
    have "mset (take (Suc i) ys) = mset (take (Suc i) xs)"
      using Suc.prems(2) by (simp add: ys_def take_lswap mset_lswap)
    then have "set (take (Suc i) ys) = set (take (Suc i) xs)" by (metis set_mset_mset)
    then have sub: "set (take i zs) \<subseteq> set (take (Suc i) xs)"
      using fr(2) set_take_subset_set_take [of i "Suc i" ys] by (metis le_SucI order_refl set_mset_mset)
    have root: "c x (xs ! 0) \<le> 0" if x: "x \<in> set (take (Suc i) xs)" for x
    proof -
      obtain k where "k < Suc i" "x = xs ! k" using x by (auto simp: in_set_conv_nth)
      then show ?thesis using heap_root [OF Suc.prems(1), of "Suc k"] by simp
    qed
    have "heap_but c 1 1 i ys"
      unfolding heap_but_def
    proof (intro allI impI)
      fix k assume k: "2 \<le> k \<and> k \<le> i \<and> 1 \<le> k div 2 \<and> k div 2 \<noteq> 1"
      then have "1 < k div 2" "k div 2 < k" by auto
      then have "ys ! (k - 1) = xs ! (k - 1)" "ys ! (k div 2 - 1) = xs ! (k div 2 - 1)"
        using k at [of "k - 1"] at [of "k div 2 - 1"] Suc.prems(2) by auto
      then show "c (ys ! (k - 1)) (ys ! (k div 2 - 1)) \<le> 0"
        using k heap_fromD [OF Suc.prems(1), of k] by simp
    qed
    then have "heap_from c 1 i zs"
      unfolding zs_def using False Suc.prems(2) ys by (intro sift_heap) auto
    moreover have "sorted_wrt (\<lambda>x y. c x y \<le> 0) (drop i zs)"
    proof -
      have "xs ! 0 \<in> set (take (Suc i) xs)" using Suc.prems(2) by (cases xs) auto
      then show ?thesis using Suc.prems(3,4) unfolding fr(3) drop by simp
    qed
    moreover have "\<forall>x \<in> set (take i zs). \<forall>y \<in> set (drop i zs). c x y \<le> 0"
      using sub root Suc.prems(4) by (auto simp: fr(3) drop)
    ultimately have "sorted_wrt (\<lambda>x y. c x y \<le> 0) (ldown c i zs) \<and> mset (ldown c i zs) = mset zs"
      using Suc.IH [of zs] fr(1) Suc.prems(2) by simp
    then show ?thesis using False mset by (simp add: zs_def ys_def)
  qed
qed simp

lemma lsort_sorted: "sorted_wrt (\<lambda>x y. c x y \<le> 0) (lsort c xs)"
  and mset_lsort: "mset (lsort c xs) = mset xs"
proof -
  define ys where "ys = lbuild c (length xs) (length xs div 2) xs"
  have "heap_from c (Suc (length xs div 2)) (length xs) xs"
    by (auto simp: heap_from_def)
  then have ys: "heap_from c 1 (length xs) ys" "mset ys = mset xs"
    using lbuild_heap [of "length xs div 2" xs] by (simp_all add: ys_def)
  then have "length ys = length xs" by (metis size_mset)
  then have "sorted_wrt (\<lambda>x y. c x y \<le> 0) (ldown c (length xs) ys) \<and> mset (ldown c (length xs) ys) = mset ys"
    using ys(1) by (intro ldown_sorted) auto
  then show "sorted_wrt (\<lambda>x y. c x y \<le> 0) (lsort c xs)" "mset (lsort c xs) = mset xs"
    using ys(2) by (simp_all add: lsort_def ys_def)
qed

end

section \<open>The sort in memory\<close>

text \<open>The blocks of an array, and the refinement of each routine.\<close>

definition elems :: "cmem \<Rightarrow> nat \<Rightarrow> nat \<Rightarrow> nat \<Rightarrow> byte list list" where
  "elems m arr sz cnt = map (\<lambda>i. bytes_at m (arr + i * sz) sz) [0..<cnt]"

definition reads_blocks :: "compare \<Rightarrow> nat \<Rightarrow> (byte list \<Rightarrow> byte list \<Rightarrow> int) \<Rightarrow> bool" where
  "reads_blocks compare sz c \<longleftrightarrow> (\<forall>m a b. compare m a b = c (bytes_at m a sz) (bytes_at m b sz))"

lemma length_elems [simp]: "length (elems m arr sz cnt) = cnt"
  by (simp add: elems_def)

lemma elems_nth: "i < cnt \<Longrightarrow> elems m arr sz cnt ! i = bytes_at m (arr + i * sz) sz"
  by (simp add: elems_def)

lemma swap_bytes_same: "swap_bytes a a n m = m"
  by (induction n arbitrary: a m) simp_all

lemma swap_bytes_disjoint:
  "a + n \<le> b \<or> b + n \<le> a \<Longrightarrow> swap_bytes a b n m x =
    (if a \<le> x \<and> x < a + n then m (b + (x - a)) else if b \<le> x \<and> x < b + n then m (a + (x - b)) else m x)"
proof (induction n arbitrary: a b m)
  case (Suc n)
  define m' where "m' = m(a := m b, b := m a)"
  have IH: "swap_bytes a b (Suc n) m x =
    (if a + 1 \<le> x \<and> x < a + 1 + n then m' (b + 1 + (x - (a + 1)))
     else if b + 1 \<le> x \<and> x < b + 1 + n then m' (a + 1 + (x - (b + 1))) else m' x)"
    unfolding swap_bytes.simps m'_def using Suc.prems by (intro Suc.IH) auto
  have m': "m' y = (if y = b then m a else if y = a then m b else m y)" for y by (simp add: m'_def)
  consider "x = a" | "x = b" | "a + 1 \<le> x" "x < a + 1 + n" | "b + 1 \<le> x" "x < b + 1 + n"
    | "\<not> (a \<le> x \<and> x < a + 1 + n)" "\<not> (b \<le> x \<and> x < b + 1 + n)" by linarith
  then show ?case
  proof cases
    case 1
    then have f: "\<not> (a + 1 \<le> x \<and> x < a + 1 + n)" "\<not> (b + 1 \<le> x \<and> x < b + 1 + n)" "x \<noteq> b" using Suc.prems by auto
    then show ?thesis unfolding IH if_not_P [OF f(1)] if_not_P [OF f(2)] m' using 1 by simp
  next
    case 2
    then have f: "\<not> (a + 1 \<le> x \<and> x < a + 1 + n)" "\<not> (b + 1 \<le> x \<and> x < b + 1 + n)" "\<not> (a \<le> x \<and> x < a + Suc n)"
      using Suc.prems by auto
    then show ?thesis unfolding IH if_not_P [OF f(1)] if_not_P [OF f(2)] m' using 2 f(3) by auto
  next
    case 3
    then have "b + 1 + (x - (a + 1)) = b + (x - a)" "b + (x - a) \<noteq> a" "b + (x - a) \<noteq> b" using Suc.prems by auto
    then show ?thesis using 3 Suc.prems unfolding IH m' by simp
  next
    case 4
    then have "a + 1 + (x - (b + 1)) = a + (x - b)" "a + (x - b) \<noteq> a" "a + (x - b) \<noteq> b"
      "\<not> (a \<le> x \<and> x < a + Suc n)" using Suc.prems by auto
    then show ?thesis using 4 Suc.prems unfolding IH m' by auto
  next
    case 5
    then have f: "\<not> (a + 1 \<le> x \<and> x < a + 1 + n)" "\<not> (b + 1 \<le> x \<and> x < b + 1 + n)" "x \<noteq> a" "x \<noteq> b"
      "\<not> (a \<le> x \<and> x < a + Suc n)" "\<not> (b \<le> x \<and> x < b + Suc n)" by auto
    then show ?thesis unfolding IH if_not_P [OF f(1)] if_not_P [OF f(2)] m' if_not_P [OF f(5)] if_not_P [OF f(6)] using f(3,4) by simp
  qed
qed auto

lemma swap_bytes_at:
  "a + n \<le> b \<or> b + n \<le> a \<or> a = b \<Longrightarrow> swap_bytes a b n m x =
    (if a \<le> x \<and> x < a + n then m (b + (x - a)) else if b \<le> x \<and> x < b + n then m (a + (x - b)) else m x)"
  using swap_bytes_disjoint [of a n b m x] by (cases "a = b") (auto simp: swap_bytes_same)

lemma blocks_apart: "i < j \<Longrightarrow> arr + i * sz + sz \<le> arr + j * (sz :: nat)"
proof -
  assume "i < j"
  then have "(i + 1) * sz \<le> j * sz" by (intro mult_le_mono1) simp
  then show ?thesis by simp
qed

lemma elems_swap:
  assumes "1 \<le> a" "a \<le> cnt" "1 \<le> b" "b \<le> cnt"
  shows "elems (do_swap arr a b sz m) arr sz cnt = lswap a b (elems m arr sz cnt)"
proof (rule nth_equalityI)
  fix k assume "k < length (elems (do_swap arr a b sz m) arr sz cnt)"
  then have k: "k < cnt" by simp
  have apart: "arr + (a - 1) * sz + sz \<le> arr + (b - 1) * sz \<or> arr + (b - 1) * sz + sz \<le> arr + (a - 1) * sz \<or>
      arr + (a - 1) * sz = arr + (b - 1) * sz"
    using blocks_apart [of "a - 1" "b - 1" arr sz] blocks_apart [of "b - 1" "a - 1" arr sz]
    by (cases "a - 1" "b - 1" rule: linorder_cases) auto
  have other: "k \<noteq> i \<Longrightarrow> t < sz \<Longrightarrow> \<not> (arr + i * sz \<le> arr + k * sz + t \<and> arr + k * sz + t < arr + i * sz + sz)" for i t
    using blocks_apart [of k i arr sz] blocks_apart [of i k arr sz] by (cases k i rule: linorder_cases) auto
  have "bytes_at (do_swap arr a b sz m) (arr + k * sz) sz =
      bytes_at m (arr + (if k = b - 1 then a - 1 else if k = a - 1 then b - 1 else k) * sz) sz"
    unfolding bytes_at_eq do_swap_def swap_bytes_at [OF apart]
    using other [of "a - 1"] other [of "b - 1"] by auto
  then show "elems (do_swap arr a b sz m) arr sz cnt ! k = lswap a b (elems m arr sz cnt) ! k"
    using assms k by (subst lswap_at) (auto simp: elems_nth)
qed simp

lemma do_swap_outside:
  assumes "1 \<le> a" "a \<le> cnt" "1 \<le> b" "b \<le> cnt" "x < arr \<or> arr + cnt * sz \<le> x"
  shows "do_swap arr a b sz m x = m x"
proof -
  have in_array: "\<not> (arr + (i - 1) * sz \<le> x \<and> x < arr + (i - 1) * sz + sz)" if "1 \<le> i" "i \<le> cnt" for i
  proof -
    have "i - 1 < cnt" using that by linarith
    then show ?thesis using blocks_apart [of "i - 1" cnt arr sz] assms(5) by linarith
  qed
  have apart: "arr + (a - 1) * sz + sz \<le> arr + (b - 1) * sz \<or> arr + (b - 1) * sz + sz \<le> arr + (a - 1) * sz \<or>
      arr + (a - 1) * sz = arr + (b - 1) * sz"
    using blocks_apart [of "a - 1" "b - 1" arr sz] blocks_apart [of "b - 1" "a - 1" arr sz]
    by (cases "a - 1" "b - 1" rule: linorder_cases) auto
  show ?thesis
    unfolding do_swap_def swap_bytes_at [OF apart] using in_array [of a] in_array [of b] assms by auto
qed

lemma do_compare_elems:
  "reads_blocks compare sz c \<Longrightarrow> 1 \<le> a \<Longrightarrow> a \<le> cnt \<Longrightarrow> 1 \<le> b \<Longrightarrow> b \<le> cnt \<Longrightarrow>
   do_compare compare arr a b sz m = c (elems m arr sz cnt ! (a - 1)) (elems m arr sz cnt ! (b - 1))"
  by (simp add: do_compare_def reads_blocks_def elems_nth)

lemma max_index_elems:
  assumes "reads_blocks compare sz c" "1 \<le> i" "i \<le> cnt" "cnt \<le> n"
  shows "max_index compare arr i cnt sz m = larger_child c i cnt (elems m arr sz n)"
proof -
  let ?E = "elems m arr sz n"
  define mx where "mx = (if 2 * i \<le> cnt \<and> c (?E ! (2 * i - 1)) (?E ! (i - 1)) > 0 then 2 * i else i)"
  have cmp: "do_compare compare arr a b sz m = c (?E ! (a - 1)) (?E ! (b - 1))" if "1 \<le> a" "a \<le> n" "1 \<le> b" "b \<le> n" for a b
    by (rule do_compare_elems [OF assms(1) that])
  have "(2 * i \<le> cnt \<and> do_compare compare arr (2 * i) i sz m > 0) = (2 * i \<le> cnt \<and> c (?E ! (2 * i - 1)) (?E ! (i - 1)) > 0)"
    using assms cmp [of "2 * i" i] by auto
  then have mx': "(if 2 * i \<le> cnt \<and> do_compare compare arr (2 * i) i sz m > 0 then 2 * i else i) = mx"
    unfolding mx_def by (rule if_cong) simp_all
  have "1 \<le> mx" "mx \<le> n" using assms by (auto simp: mx_def)
  then have "(2 * i + 1 \<le> cnt \<and> do_compare compare arr (2 * i + 1) mx sz m > 0) =
      (2 * i + 1 \<le> cnt \<and> c (?E ! (2 * i)) (?E ! (mx - 1)) > 0)"
    using cmp [of "2 * i + 1" mx] assms(4) by auto
  then show ?thesis
    unfolding max_index_def larger_child_def Let_def mx' mx_def [symmetric] by (rule if_cong) simp_all
qed

lemma heapify_elems:
  assumes "reads_blocks compare sz c" "1 \<le> i" "i \<le> cnt" "cnt \<le> n"
  shows "elems (heapify compare arr i cnt sz m) arr sz n = lheapify c i cnt (elems m arr sz n) \<and>
    (\<forall>x. x < arr \<or> arr + n * sz \<le> x \<longrightarrow> heapify compare arr i cnt sz m x = m x)"
  using assms(2,3)
proof (induction "cnt - i" arbitrary: i m rule: less_induct)
  case less
  define j where "j = larger_child c i cnt (elems m arr sz n)"
  have step: "heapify compare arr i cnt sz m =
      (if j = i then m else heapify compare arr j cnt sz (do_swap arr i j sz m))"
    using max_index_elems [OF assms(1) less.prems assms(4), of arr m]
    by (subst heapify.simps) (simp add: j_def Let_def)
  show ?case
  proof (cases "j = i")
    case True
    then show ?thesis using step by (subst lheapify.simps) (simp add: j_def)
  next
    case False
    then have j: "1 \<le> j" "j \<le> cnt" "cnt - j < cnt - i"
      using larger_child_cases [of c i cnt "elems m arr sz n"] less.prems by (auto simp: j_def)
    note IH = less.hyps [OF j(3,1,2), of "do_swap arr i j sz m"]
    moreover have "lheapify c i cnt (elems m arr sz n) = lheapify c j cnt (lswap i j (elems m arr sz n))"
      using False by (subst lheapify.simps) (simp add: j_def)
    moreover have "elems (do_swap arr i j sz m) arr sz n = lswap i j (elems m arr sz n)"
      using j less.prems assms(4) by (intro elems_swap) auto
    moreover have "do_swap arr i j sz m x = m x" if "x < arr \<or> arr + n * sz \<le> x" for x
      using j less.prems assms(4) that by (intro do_swap_outside) auto
    ultimately show ?thesis using step False by simp
  qed
qed

lemma build_loop_elems:
  assumes "reads_blocks compare sz c" "cnt \<le> n"
  shows "i \<le> cnt \<Longrightarrow> elems (build_loop compare arr cnt sz i m) arr sz n = lbuild c cnt i (elems m arr sz n) \<and>
    (\<forall>x. x < arr \<or> arr + n * sz \<le> x \<longrightarrow> build_loop compare arr cnt sz i m x = m x)"
proof (induction i arbitrary: m)
  case (Suc i)
  then show ?case
    using heapify_elems [OF assms(1) _ _ assms(2), of "Suc i" arr m] Suc.IH [of "heapify compare arr (Suc i) cnt sz m"] by simp
qed simp

lemma down_loop_elems:
  assumes "reads_blocks compare sz c"
  shows "i \<le> n \<Longrightarrow> elems (down_loop compare arr sz i m) arr sz n = ldown c i (elems m arr sz n) \<and>
    (\<forall>x. x < arr \<or> arr + n * sz \<le> x \<longrightarrow> down_loop compare arr sz i m x = m x)"
proof (induction i arbitrary: m)
  case (Suc i)
  show ?case
  proof (cases "i = 0")
    case False
    define m' where "m' = do_swap arr (Suc 0) (Suc i) sz m"
    have m': "elems m' arr sz n = lswap (Suc 0) (Suc i) (elems m arr sz n)"
      using Suc.prems unfolding m'_def by (intro elems_swap) auto
    have "m' x = m x" if "x < arr \<or> arr + n * sz \<le> x" for x
      using Suc.prems that unfolding m'_def by (intro do_swap_outside) auto
    then show ?thesis
      using False Suc.prems heapify_elems [OF assms, of "Suc 0" i n arr m'] Suc.IH [of "heapify compare arr 1 i sz m'"] m'
      by (simp flip: m'_def)
  qed simp
qed simp

theorem sort_array_elems:
  assumes "reads_blocks compare sz c" "0 < sz" "arr \<noteq> 0"
  shows "\<exists>m'. sort_array arr cnt sz compare m = Some m' \<and> elems m' arr sz cnt = lsort c (elems m arr sz cnt) \<and>
    (\<forall>x. x < arr \<or> arr + cnt * sz \<le> x \<longrightarrow> m' x = m x)"
  using assms(2,3) build_loop_elems [OF assms(1) order_refl, of "cnt div 2" cnt arr m]
    down_loop_elems [OF assms(1) order_refl, of arr cnt "build_loop compare arr cnt sz (cnt div 2) m"]
  by (simp add: sort_array_def lsort_def)

section \<open>Binary search\<close>

text \<open>The search keeps every block equal to the key between its two pointers.\<close>

lemma search_loop_ok:
  assumes key: "\<And>i. i < cnt \<Longrightarrow> compare m key (arr + i * sz) = f i"
    and mono: "\<And>i j. i \<le> j \<Longrightarrow> j < cnt \<Longrightarrow> (f i < 0 \<longrightarrow> f j < 0) \<and> (f j > 0 \<longrightarrow> f i > 0)"
    and sz: "0 < sz" and arr: "arr \<noteq> 0"
  shows "a \<le> b \<Longrightarrow> b \<le> cnt \<Longrightarrow> (\<And>i. i < a \<Longrightarrow> f i > 0) \<Longrightarrow> (\<And>i. b \<le> i \<Longrightarrow> i < cnt \<Longrightarrow> f i < 0) \<Longrightarrow>
    \<exists>p. search_loop compare key sz m (arr + a * sz) (arr + b * sz) = Some p \<and>
      (if \<exists>i < cnt. f i = 0 then \<exists>i < cnt. p = arr + i * sz \<and> f i = 0 else p = 0)"
proof (induction "b - a" arbitrary: a b rule: less_induct)
  case less
  show ?case
  proof (cases "a = b")
    case True
    then have "f i \<noteq> 0" if "i < cnt" for i using less.prems(3,4) that by (metis less_irrefl not_le)
    then show ?thesis using True by (auto simp: search_loop.simps)
  next
    case False
    define k where "k = a + (b - a) div 2"
    have k: "a \<le> k" "k < b" "k < cnt" using False less.prems(1,2) by (auto simp: k_def)
    have "arr + b * sz - (arr + a * sz) = (b - a) * sz" by (simp add: diff_mult_distrib)
    then have range: "(arr + b * sz - (arr + a * sz)) div sz = b - a" using sz by simp
    have lt: "arr + a * sz < arr + b * sz" using False less.prems(1) sz by simp
    have mid: "arr + a * sz + (b - a) div 2 * sz = arr + k * sz" by (simp add: k_def distrib_right)
    have loop: "search_loop compare key sz m (arr + a * sz) (arr + b * sz) =
        (if f k < 0 then search_loop compare key sz m (arr + a * sz) (arr + k * sz)
         else if f k > 0 then search_loop compare key sz m (arr + Suc k * sz) (arr + b * sz)
         else Some (arr + k * sz))"
    proof -
      have nxt: "arr + k * sz + sz = arr + Suc k * sz" by simp
      show ?thesis
        by (subst search_loop.simps) (simp only: Let_def range mid nxt key [OF k(3)] if_P [OF lt])
    qed
    consider "f k < 0" | "f k > 0" | "f k = 0" by linarith
    then show ?thesis
    proof cases
      case 1
      then have "f i < 0" if "k \<le> i" "i < cnt" for i using mono [of k i] that by blast
      moreover have "search_loop compare key sz m (arr + a * sz) (arr + b * sz) =
          search_loop compare key sz m (arr + a * sz) (arr + k * sz)" using loop 1 by (simp only: if_True)
      ultimately show ?thesis using less.hyps [of k a] less.prems k by simp
    next
      case 2
      then have "f i > 0" if "i < Suc k" for i using mono [of i k] that k(3) by auto
      moreover have "search_loop compare key sz m (arr + a * sz) (arr + b * sz) =
          search_loop compare key sz m (arr + Suc k * sz) (arr + b * sz)"
        using 2 unfolding loop by (simp only: if_True if_False not_less_iff_gr_or_eq less_not_sym simp_thms)
      ultimately show ?thesis using less.hyps [of b "Suc k"] less.prems k by simp
    next
      case 3
      then show ?thesis using loop k(3) by auto
    qed
  qed
qed

theorem binary_search_elems:
  assumes "reads_blocks compare sz c" "comparator c" "0 < sz" "arr \<noteq> 0"
    and sorted: "sorted_wrt (\<lambda>x y. c x y \<le> 0) (elems m arr sz cnt)"
  shows "\<exists>p. binary_search key arr cnt sz compare m = Some p \<and>
    (if \<exists>i < cnt. c (bytes_at m key sz) (elems m arr sz cnt ! i) = 0
     then \<exists>i < cnt. p = arr + i * sz \<and> c (bytes_at m key sz) (elems m arr sz cnt ! i) = 0 else p = 0)"
proof -
  note anti = comparator.anti [OF assms(2)] and trans = comparator.trans [OF assms(2)]
  let ?f = "\<lambda>i. c (bytes_at m key sz) (elems m arr sz cnt ! i)"
  have le: "c x k \<le> 0 \<longleftrightarrow> 0 \<le> c k x" for x k
    using anti [of k x] anti [of x k] by linarith
  have mono: "(?f i < 0 \<longrightarrow> ?f j < 0) \<and> (?f j > 0 \<longrightarrow> ?f i > 0)" if ij: "i \<le> j" "j < cnt" for i j
  proof (cases "i = j")
    case False
    then have "c (elems m arr sz cnt ! i) (elems m arr sz cnt ! j) \<le> 0"
      using sorted_wrt_nth_less [OF sorted, of i j] ij by simp
    then show ?thesis
      using trans [of "elems m arr sz cnt ! i" "elems m arr sz cnt ! j" "bytes_at m key sz"]
        trans [of "bytes_at m key sz" "elems m arr sz cnt ! i" "elems m arr sz cnt ! j"] le by (meson not_le)
  qed simp
  have "compare m key (arr + i * sz) = ?f i" if "i < cnt" for i
    using assms(1) that by (simp add: reads_blocks_def elems_nth)
  then show ?thesis
    using search_loop_ok [where f = ?f and a = 0 and b = cnt and cnt = cnt and arr = arr and sz = sz, OF _ mono assms(3,4)]
    by (simp add: binary_search_def mult.commute [of sz])
qed

section \<open>Numbers\<close>

definition dec_value :: "byte list \<Rightarrow> int" where
  "dec_value ds = foldl (\<lambda>v d. v * 10 + (uint d - 48)) 0 ds"

definition dec_digit :: "byte \<Rightarrow> bool" where
  "dec_digit d \<longleftrightarrow> 48 \<le> uint d \<and> uint d \<le> 57"

lemma sint_byte: "sint (d :: byte) = (if uint d < 128 then uint d else uint d - 256)"
proof -
  have "uint d < 256" using uint_lt2p [of d] by simp
  moreover have "sint d = take_bit 8 (uint d) - 256 * of_bool (odd (uint d div 128))"
    by (simp add: sint_uint signed_take_bit_eq_take_bit_minus bit_iff_odd)
  ultimately show ?thesis
    using uint_ge_0 [of d] by (auto simp: take_bit_int_eq_self) presburger+
qed

lemma isdigit_sint: "isdigit (sint d) \<longleftrightarrow> dec_digit (d :: byte)"
  using uint_ge_0 [of d] uint_lt2p [of d] by (auto simp: isdigit_def dec_digit_def sint_byte)

lemma scast_digit: "dec_digit d \<Longrightarrow> (scast d :: u32) = word_of_int (uint d)"
proof -
  assume "dec_digit d"
  then have "sint d = uint d" by (simp add: dec_digit_def sint_byte)
  moreover have "(scast d :: u32) = word_of_int (sint d)" by simp
  ultimately show ?thesis by metis
qed

lemma digits_loop_ok:
  "cstr m p (ds @ rest) \<Longrightarrow> list_all dec_digit ds \<Longrightarrow> rest = [] \<or> \<not> dec_digit (hd rest) \<Longrightarrow>
   digits_loop m p (word_of_int (- v)) = Some (word_of_int (- foldl (\<lambda>v d. v * 10 + (uint d - 48)) v ds))"
proof (induction ds arbitrary: p v)
  case Nil
  then have "\<not> dec_digit (m p)" by (cases rest) (auto simp: dec_digit_def)
  then show ?case by (simp add: digits_loop.simps isdigit_sint)
next
  case (Cons d ds)
  have "word_of_int (- v) * 10 - (scast d - 48) = (word_of_int (- (v * 10 + (uint d - 48))) :: u32)"
    using scast_digit [of d] Cons.prems(2) by simp
  moreover have "digits_loop m p (word_of_int (- v)) = digits_loop m (p + 1) (word_of_int (- v) * 10 - (scast d - 48))"
    by (subst digits_loop.simps) (use Cons.prems in \<open>simp add: isdigit_sint\<close>)
  ultimately have "digits_loop m p (word_of_int (- v)) = digits_loop m (p + 1) (word_of_int (- (v * 10 + (uint d - 48))))"
    by (simp only:)
  then show ?case
    using Cons.IH [of "p + 1" "v * 10 + (uint d - 48)"] Cons.prems by simp
qed

lemma skip_space_ok:
  "cstr m p (ws @ s) \<Longrightarrow> list_all (\<lambda>d. isspace (uint d)) ws \<Longrightarrow> \<not> isspace (uint (hd (s @ [0]))) \<Longrightarrow>
   skip_space m p = Some (p + length ws)"
proof (induction ws arbitrary: p)
  case Nil
  then have "m p = hd (s @ [0])" using cstr_at [of m p s 0] by (simp add: hd_conv_nth)
  then show ?case using Nil.prems by (simp add: skip_space.simps)
next
  case (Cons w ws)
  then show ?case by (subst skip_space.simps) simp
qed

theorem atoi_ok:
  assumes "cstr m p (ws @ sg @ ds @ rest)" "list_all (\<lambda>d. isspace (uint d)) ws" "sg \<in> {[], [43], [45]}"
    "list_all dec_digit ds" "ds \<noteq> []" "rest = [] \<or> \<not> dec_digit (hd rest)"
  shows "atoi p m = Some (word_of_int ((if sg = [45] then - 1 else 1) * dec_value ds))"
proof -
  obtain d ds' where ds: "ds = d # ds'" "dec_digit d" using assms(4,5) by (cases ds) auto
  have d: "\<not> isspace (uint d)" "d \<noteq> 43" "d \<noteq> 45" using ds(2) by (auto simp: dec_digit_def isspace_def)
  have "\<not> isspace (uint (hd ((sg @ ds @ rest) @ [0])))"
    using assms(3) ds d by (auto simp: isspace_def)
  then have ws: "skip_space m p = Some (p + length ws)"
    by (rule skip_space_ok [OF assms(1,2)])
  define q where "q = p + length ws"
  have q: "cstr m q (sg @ ds @ rest)" using assms(1) by (simp add: cstr_append q_def)
  have dig: "digits_loop m r 0 = Some (word_of_int (- dec_value ds))" if "cstr m r (ds @ rest)" for r
    using digits_loop_ok [OF that assms(4,6), of 0] by (simp add: dec_value_def)
  have "p \<noteq> 0" using assms(1) by (rule cstr_nonnull)
  consider "sg = []" | "sg = [43]" | "sg = [45]" using assms(3) by blast
  then show ?thesis
  proof cases
    case 1
    then show ?thesis using ws q ds d dig [of q] \<open>p \<noteq> 0\<close> by (simp add: atoi_def flip: q_def)
  next
    case 2
    then show ?thesis using ws q dig [of "q + 1"] \<open>p \<noteq> 0\<close> by (simp add: atoi_def flip: q_def)
  next
    case 3
    then show ?thesis using ws q dig [of "q + 1"] \<open>p \<noteq> 0\<close> by (simp add: atoi_def flip: q_def)
  qed
qed

end
