(* ===== verification/Stdio.thy ===== *)
theory Stdio
  imports Stdlib
begin

text \<open>
  \<^verbatim>\<open>lib/stdio.c\<close>: formatted output. A format string and the strings it prints are in the byte
  memory of theory CString. The variable arguments are the words above the fixed arguments
  on the i386 stack: \<^verbatim>\<open>va_arg\<close> of a 32-bit type takes one word, of a 64-bit type two, the low one
  first; to take an argument that is not there is \<open>None\<close>. The output function of the code is
  called with one character at a time; the model collects the characters (\<open>vprintf\<close>) and feeds
  them to \<^verbatim>\<open>vsnprintf_helper\<close> afterwards, which is the same as long as the buffer does not overlap
  the strings that are read.
\<close>

section \<open>Characters, arguments and conversions\<close>

definition asc :: "char \<Rightarrow> byte" where
  "asc c = of_char c"

definition ascs :: "string \<Rightarrow> byte list" where
  "ascs = map asc"

text \<open>An \<^verbatim>\<open>int\<close> is an integer that wraps at 32 bits.\<close>

definition int32 :: "int \<Rightarrow> int" where
  "int32 = signed_take_bit 31"

fun va_word :: "u32 list \<Rightarrow> (u32 \<times> u32 list) option" where
  "va_word [] = None"
| "va_word (w # ws) = Some (w, ws)"

fun va_dword :: "u32 list \<Rightarrow> (u64 \<times> u32 list) option" where
  "va_dword (lo # hi # ws) = Some (word_cat hi lo, ws)"
| "va_dword _ = None"

definition MINUS :: u32 where "MINUS = 1"
definition PLUS :: u32 where "PLUS = 2"
definition SPACE :: u32 where "SPACE = 4"
definition POUND :: u32 where "POUND = 8"
definition ZERO :: u32 where "ZERO = 16"
definition GROUP :: u32 where "GROUP = 32"

datatype int_type = CHAR_T | SHORT | INT_T | INTMAX | LONG | LONGLONG | PTRDIFFT | SIZET

record printf_conversion =
  flags :: u32
  width :: int
  precision :: int
  arg_type :: int_type

record integer_base =
  base :: u64
  digits :: "byte list"
  base_x :: "byte"
  digit_group :: nat

definition base_d :: integer_base where
  "base_d = \<lparr>base = 10, digits = ascs ''0123456789'', base_x = 0, digit_group = 3\<rparr>"
definition base_o :: integer_base where
  "base_o = \<lparr>base = 8, digits = ascs ''01234567'', base_x = 0, digit_group = 3\<rparr>"
definition base_lx :: integer_base where
  "base_lx = \<lparr>base = 16, digits = ascs ''0123456789abcdef'', base_x = asc CHR ''x'', digit_group = 4\<rparr>"
definition base_ux :: integer_base where
  "base_ux = \<lparr>base = 16, digits = ascs ''0123456789ABCDEF'', base_x = asc CHR ''X'', digit_group = 4\<rparr>"

section \<open>Parsing a conversion\<close>

definition flag_of :: "byte \<Rightarrow> u32 option" where
  "flag_of ch = (if ch = asc CHR ''-'' then Some MINUS
     else if ch = asc CHR ''+'' then Some PLUS
     else if ch = asc CHR '' '' then Some SPACE
     else if ch = asc CHR ''#'' then Some POUND
     else if ch = asc CHR ''0'' then Some ZERO
     else if ch = 39 then Some GROUP
     else None)"

partial_function (option) flags_loop :: "cmem \<Rightarrow> nat \<Rightarrow> u32 \<Rightarrow> (nat \<times> u32) option" where
  [code]: "flags_loop m format fl =
     (case flag_of (m format) of Some f \<Rightarrow> flags_loop m (format + 1) (fl OR f) | None \<Rightarrow> Some (format, fl))"

partial_function (option) number_loop :: "cmem \<Rightarrow> nat \<Rightarrow> int \<Rightarrow> (nat \<times> int) option" where
  [code]: "number_loop m format n =
     (if isdigit (sint (m format)) then number_loop m (format + 1) (int32 (n * 10 + sint (m format) - 48))
      else Some (format, n))"

definition parse_type :: "cmem \<Rightarrow> nat \<Rightarrow> nat \<times> int_type" where
  "parse_type m format = (
     let ch = m format in
     if ch = asc CHR ''h'' then if m (format + 1) = asc CHR ''h'' then (format + 2, CHAR_T) else (format + 1, SHORT)
     else if ch = asc CHR ''j'' then (format + 1, INTMAX)
     else if ch = asc CHR ''l'' then if m (format + 1) = asc CHR ''l'' then (format + 2, LONGLONG) else (format + 1, LONG)
     else if ch = asc CHR ''t'' then (format + 1, PTRDIFFT)
     else if ch = asc CHR ''z'' then (format + 1, SIZET)
     else (format, INT_T))"

definition parse_conversion :: "cmem \<Rightarrow> nat \<Rightarrow> u32 list \<Rightarrow> (nat \<times> printf_conversion \<times> u32 list) option" where
  "parse_conversion m format args = do {
     (format, fl) \<leftarrow> flags_loop m format 0;
     let fl = (if fl AND MINUS \<noteq> 0 then fl AND NOT ZERO else fl);
     let fl = (if fl AND PLUS \<noteq> 0 then fl AND NOT SPACE else fl);
     (format, w, args) \<leftarrow>
       (if m format = asc CHR ''*'' then do { (a, args) \<leftarrow> va_word args; Some (format + 1, sint a, args) }
        else do { (format, n) \<leftarrow> number_loop m format 0; Some (format, n, args) });
     let (w, fl) = (if w < 0 then (int32 (- w), fl OR MINUS) else (w, fl));
     (format, prec, args) \<leftarrow>
       (if m format = asc CHR ''.'' then
          if m (format + 1) = asc CHR ''*'' then do { (a, args) \<leftarrow> va_word args; Some (format + 2, sint a, args) }
          else do { (format, n) \<leftarrow> number_loop m (format + 1) 0; Some (format, n, args) }
        else Some (format, - 1, args));
     let prec = (if prec < 0 then - 1 else prec);
     let fl = (if prec \<ge> 0 then fl AND NOT ZERO else fl);
     let (format, ty) = parse_type m format;
     Some (format, \<lparr>flags = fl, width = w, precision = prec, arg_type = ty\<rparr>, args) }"

section \<open>Conversions\<close>

text \<open>The digits in the order in which they are stored: the lowest first.\<close>

function (sequential) digits_of :: "integer_base \<Rightarrow> bool \<Rightarrow> nat \<Rightarrow> u64 \<Rightarrow> byte list" where
  "digits_of b grouped digit_cnt value =
     (if value = 0 \<or> base b \<le> 1 then [] else
        (if grouped \<and> digit_cnt > 0 \<and> digit_cnt mod digit_group b = 0 then [asc CHR '',''] else []) @
        digits b ! unat (value mod base b) # digits_of b grouped (digit_cnt + 1) (value div base b))"
  by pat_completeness auto
termination
proof (relation "measure (\<lambda>(b, g, n, v). unat v)")
  fix b :: integer_base and g :: bool and n :: nat and v :: u64
  assume "\<not> (v = 0 \<or> base b \<le> 1)"
  then have "0 < unat v" "1 < unat (base b)" by (simp_all add: unat_gt_0 word_le_nat_alt)
  then show "((b, g, n + 1, v div base b), b, g, n, v) \<in> measure (\<lambda>(b, g, n, v). unat v)"
    by (simp add: unat_div)
qed simp

declare digits_of.simps [simp del]

text \<open>The buffer of \<^verbatim>\<open>format_integer\<close>: the digits, zeros up to the precision, and the zero of \<^verbatim>\<open>%#o\<close>.\<close>

definition integer_buf :: "u64 \<Rightarrow> integer_base \<Rightarrow> printf_conversion \<Rightarrow> byte list" where
  "integer_buf value b c = (
     let buf = digits_of b (flags c AND GROUP \<noteq> 0) 0 value;
         prec = (if precision c < 0 then 1 else nat (precision c));
         buf = buf @ replicate (min prec 63 - length buf) (asc CHR ''0'')
     in if flags c AND POUND \<noteq> 0 \<and> base b = 8 \<and> (buf = [] \<or> last buf \<noteq> asc CHR ''0'')
        then buf @ [asc CHR ''0''] else buf)"

definition format_integer ::
  "u64 \<Rightarrow> bool \<Rightarrow> bool \<Rightarrow> integer_base \<Rightarrow> printf_conversion \<Rightarrow> byte list" where
  "format_integer value is_signed negative b c = (
     let sign = (if is_signed then
                   if flags c AND PLUS \<noteq> 0 then [if negative then asc CHR ''-'' else asc CHR ''+'']
                   else if flags c AND SPACE \<noteq> 0 then [if negative then asc CHR ''-'' else asc CHR '' '']
                   else if negative then [asc CHR ''-''] else []
                 else []);
         x = (if flags c AND POUND \<noteq> 0 \<and> value \<noteq> 0 then base_x b else 0);
         buf = integer_buf value b c;
         pad_cnt = nat (width c - int (length buf) - (if x \<noteq> 0 then 2 else 0) - int (length sign))
     in (if flags c AND (MINUS OR ZERO) = 0 then replicate pad_cnt (asc CHR '' '') else []) @
        sign @
        (if x \<noteq> 0 then [asc CHR ''0'', x] else []) @
        (if flags c AND ZERO \<noteq> 0 then replicate pad_cnt (asc CHR ''0'') else []) @
        rev buf @
        (if flags c AND MINUS \<noteq> 0 then replicate pad_cnt (asc CHR '' '') else []))"

definition format_string :: "byte list \<Rightarrow> printf_conversion \<Rightarrow> byte list" where
  "format_string s c =
     (if width c > int (length s) \<and> flags c AND MINUS = 0
      then replicate (nat (width c - int (length s))) (asc CHR '' '') else []) @
     s @
     (if width c > int (length s) \<and> flags c AND MINUS \<noteq> 0
      then replicate (nat (width c - int (length s))) (asc CHR '' '') else [])"

section \<open>The formatter\<close>

text \<open>The value of a signed conversion (its sign and magnitude) and of an unsigned one.\<close>

definition signed_arg :: "int_type \<Rightarrow> u32 list \<Rightarrow> (int \<times> u32 list) option" where
  "signed_arg ty args = (case ty of
     CHAR_T \<Rightarrow> do { (a, args) \<leftarrow> va_word args; Some (sint (ucast a :: 8 word), args) }
   | SHORT \<Rightarrow> do { (a, args) \<leftarrow> va_word args; Some (sint (ucast a :: 16 word), args) }
   | INT_T \<Rightarrow> do { (a, args) \<leftarrow> va_word args; Some (sint a, args) }
   | INTMAX \<Rightarrow> do { (a, args) \<leftarrow> va_dword args; Some (sint a, args) }
   | LONG \<Rightarrow> do { (a, args) \<leftarrow> va_word args; Some (sint a, args) }
   | LONGLONG \<Rightarrow> do { (a, args) \<leftarrow> va_dword args; Some (sint a, args) }
   | PTRDIFFT \<Rightarrow> do { (a, args) \<leftarrow> va_word args; Some (sint a, args) }
   | SIZET \<Rightarrow> do { (a, args) \<leftarrow> va_word args;
       Some (if uint a > (2 ^ 32 - 1) div 2 then uint a - (2 ^ 32 - 1) - 1 else uint a, args) })"

definition unsigned_arg :: "int_type \<Rightarrow> u32 list \<Rightarrow> (u64 \<times> u32 list) option" where
  "unsigned_arg ty args = (case ty of
     CHAR_T \<Rightarrow> do { (a, args) \<leftarrow> va_word args; Some (ucast (ucast a :: 8 word), args) }
   | SHORT \<Rightarrow> do { (a, args) \<leftarrow> va_word args; Some (ucast (ucast a :: 16 word), args) }
   | INT_T \<Rightarrow> do { (a, args) \<leftarrow> va_word args; Some (ucast a, args) }
   | INTMAX \<Rightarrow> va_dword args
   | LONG \<Rightarrow> do { (a, args) \<leftarrow> va_word args; Some (ucast a, args) }
   | LONGLONG \<Rightarrow> va_dword args
   | PTRDIFFT \<Rightarrow> do { (a, args) \<leftarrow> va_word args; Some (scast a AND 0xFFFFFFFF, args) }
   | SIZET \<Rightarrow> do { (a, args) \<leftarrow> va_word args; Some (ucast a, args) })"

definition base_of :: "byte \<Rightarrow> integer_base" where
  "base_of ch = (if ch = asc CHR ''o'' then base_o else if ch = asc CHR ''u'' then base_d
     else if ch = asc CHR ''x'' then base_lx else base_ux)"

text \<open>One conversion: the characters printed and the remaining arguments.\<close>

definition convert :: "cmem \<Rightarrow> byte \<Rightarrow> printf_conversion \<Rightarrow> u32 list \<Rightarrow> (byte list \<times> u32 list) option" where
  "convert m ch c args =
     (if ch \<in> set (ascs ''di'') then do {
        (value, args) \<leftarrow> signed_arg (arg_type c) args;
        Some (format_integer (word_of_int (if value < 0 then - value else value)) True (value < 0) base_d c, args) }
      else if ch \<in> set (ascs ''ouxX'') then do {
        (value, args) \<leftarrow> unsigned_arg (arg_type c) args;
        Some (format_integer value False False (base_of ch) c, args) }
      else if ch = asc CHR ''c'' then do {
        (a, args) \<leftarrow> va_word args;
        Some (format_string [ucast a] c, args) }
      else if ch = asc CHR ''s'' then do {
        (a, args) \<leftarrow> va_word args;
        if a = 0 then Some (format_string (take (unat (word_of_int (precision c) :: u32)) (ascs ''(null)'')) c, args)
        else do {
          n \<leftarrow> strnlen (unat a) (unat (word_of_int (precision c) :: u32)) m;
          Some (format_string (bytes_at m (unat a) n) c, args) } }
      else if ch = asc CHR ''p'' then do {
        (a, args) \<leftarrow> va_word args;
        Some (format_integer (ucast a) False False base_lx (c\<lparr>flags := POUND\<rparr>), args) }
      else if ch \<in> set (ascs ''feEgGn'') then Some (ascs ''<<no %'' @ [ch] @ ascs '' in kernel>>'', args)
      else Some (ascs ''<<no %'' @ [ch] @ ascs '' conversion>>'', args))"

partial_function (option) vprintf :: "cmem \<Rightarrow> nat \<Rightarrow> u32 list \<Rightarrow> byte list option" where
  [code]: "vprintf m format args =
     (if m format = 0 then Some []
      else if m format \<noteq> asc CHR ''%'' then do { out \<leftarrow> vprintf m (format + 1) args; Some (m format # out) }
      else if m (format + 1) = asc CHR ''%'' then do { out \<leftarrow> vprintf m (format + 2) args; Some (asc CHR ''%'' # out) }
      else do {
        (format, c, args) \<leftarrow> parse_conversion m (format + 1) args;
        (s, args) \<leftarrow> convert m (m format) c args;
        out \<leftarrow> vprintf m (format + 1) args;
        Some (s @ out) })"

section \<open>Output into a buffer\<close>

record vsnprintf_aux =
  outp :: nat
  out_length :: int
  max_length :: int

definition vsnprintf_helper :: "byte \<Rightarrow> vsnprintf_aux \<times> cmem \<Rightarrow> vsnprintf_aux \<times> cmem" where
  "vsnprintf_helper ch = (\<lambda>(aux, m).
     let n = out_length aux; aux = aux\<lparr>out_length := n + 1\<rparr>
     in if n < max_length aux then (aux\<lparr>outp := outp aux + 1\<rparr>, m(outp aux := ch)) else (aux, m))"

definition vsnprintf :: "nat \<Rightarrow> nat \<Rightarrow> nat \<Rightarrow> u32 list \<Rightarrow> cmem \<Rightarrow> (int \<times> cmem) option" where
  "vsnprintf buffer buf_size format args m = do {
     out \<leftarrow> vprintf m format args;
     let (aux, m) = fold vsnprintf_helper out
       (\<lparr>outp = buffer, out_length = 0, max_length = (if buf_size > 0 then int32 (int buf_size - 1) else 0)\<rparr>, m);
     Some (out_length aux, if buf_size > 0 then m(outp aux := 0) else m) }"

definition snprintf :: "nat \<Rightarrow> nat \<Rightarrow> nat \<Rightarrow> u32 list \<Rightarrow> cmem \<Rightarrow> (int \<times> cmem) option" where
  "snprintf buffer buf_size format args m = vsnprintf buffer buf_size format args m"

section \<open>Sizes for people\<close>

fun scale_size :: "u64 \<Rightarrow> byte list list \<Rightarrow> u64 \<times> byte list" where
  "scale_size sz (f # g # fs) = (if sz \<ge> 1024 then scale_size (sz div 1024) (g # fs) else (sz, f))"
| "scale_size sz [f] = (sz, f)"
| "scale_size sz [] = (sz, [])"

definition plain_conversion :: printf_conversion where
  "plain_conversion = \<lparr>flags = 0, width = 0, precision = - 1, arg_type = INT_T\<rparr>"

definition print_human_readable_size :: "u64 \<Rightarrow> byte list" where
  "print_human_readable_size sz =
     (if sz = 1 then ascs ''1 byte''
      else let (n, f) = scale_size sz (List.map ascs [''bytes'', ''kB'', ''MB'', ''GB'', ''TB''])
           in format_integer n False False base_d (plain_conversion\<lparr>arg_type := LONGLONG\<rparr>) @ ascs '' '' @ f)"

text \<open>
  One line of \<^verbatim>\<open>hex_dump\<close>, and the loop over the lines. \<^verbatim>\<open>%08jx\<close> and \<^verbatim>\<open>%02hhx\<close> are conversions with
  the flag \<^verbatim>\<open>0\<close>.
\<close>

definition isprint :: "int \<Rightarrow> bool" where
  "isprint c \<longleftrightarrow> c \<ge> 32 \<and> c < 127"

definition hex_line :: "nat \<Rightarrow> byte list \<Rightarrow> nat \<Rightarrow> nat \<Rightarrow> bool \<Rightarrow> byte list" where
  "hex_line ofs buf start stop ascii =
     format_integer (of_nat (ofs div 16 * 16)) False False base_lx (plain_conversion\<lparr>flags := ZERO, width := 8\<rparr>) @
     ascs ''  '' @
     concat (replicate start (ascs ''   '')) @
     concat (List.map (\<lambda>i. format_integer (ucast (buf ! (i - start))) False False base_lx
         (plain_conversion\<lparr>flags := ZERO, width := 2\<rparr>) @
       [if i = 16 div 2 - 1 then asc CHR ''-'' else asc CHR '' '']) [start..<stop]) @
     (if ascii then
        concat (replicate (16 - stop) (ascs ''   '')) @ ascs ''|'' @
        concat (replicate start (ascs '' '')) @
        List.map (\<lambda>i. if isprint (uint (buf ! (i - start))) then buf ! (i - start) else asc CHR ''.'') [start..<stop] @
        concat (replicate (16 - stop) (ascs '' '')) @ ascs ''|''
      else []) @ [10]"

function hex_dump :: "nat \<Rightarrow> byte list \<Rightarrow> bool \<Rightarrow> byte list" where
  "hex_dump ofs buf ascii =
     (if buf = [] then [] else
        let start = ofs mod 16; stop = (if 16 - start > length buf then start + length buf else 16); n = stop - start
        in hex_line ofs buf start stop ascii @ hex_dump ((ofs + n) mod 2 ^ 32) (drop n buf) ascii)"
  by pat_completeness auto
termination
proof (relation "measure (\<lambda>(ofs, buf, ascii). length buf)")
  fix ofs start stop n :: nat and buf :: "byte list" and ascii :: bool
  assume "buf \<noteq> []" "start = ofs mod 16" "stop = (if 16 - start > length buf then start + length buf else 16)"
    "n = stop - start"
  then have "0 < n" "0 < length buf" by (auto simp: less_diff_conv)
  then show "(((ofs + n) mod 2 ^ 32, drop n buf, ascii), ofs, buf, ascii) \<in> measure (\<lambda>(ofs, buf, ascii). length buf)"
    by simp
qed simp

declare hex_dump.simps [simp del]

section \<open>Output into a buffer is bounded\<close>

lemma fold_helper:
  assumes "0 \<le> n"
  shows "fold vsnprintf_helper out (\<lparr>outp = q, out_length = n, max_length = mx\<rparr>, m) =
    (let k = min (length out) (nat (mx - n))
     in (\<lparr>outp = q + k, out_length = n + int (length out), max_length = mx\<rparr>,
         \<lambda>x. if q \<le> x \<and> x < q + k then out ! (x - q) else m x))"
  using assms
proof (induction out arbitrary: q n m)
  case Nil
  then show ?case by (auto simp: Let_def fun_eq_iff)
next
  case (Cons c out)
  show ?case
  proof (cases "n < mx")
    case True
    define k where "k = min (length out) (nat (mx - (n + 1)))"
    have k: "min (length (c # out)) (nat (mx - n)) = Suc k" using True by (auto simp: k_def)
    have f: "(\<lambda>x. if q + 1 \<le> x \<and> x < q + 1 + k then out ! (x - (q + 1)) else (m(q := c)) x) =
        (\<lambda>x. if q \<le> x \<and> x < q + Suc k then (c # out) ! (x - q) else m x)"
    proof
      fix x
      show "(if q + 1 \<le> x \<and> x < q + 1 + k then out ! (x - (q + 1)) else (m(q := c)) x) =
          (if q \<le> x \<and> x < q + Suc k then (c # out) ! (x - q) else m x)"
        by (cases "x = q"; cases "q < x") (auto simp: nth_Cons' Suc_diff_Suc)
    qed
    have "fold vsnprintf_helper (c # out) (\<lparr>outp = q, out_length = n, max_length = mx\<rparr>, m) =
        fold vsnprintf_helper out (\<lparr>outp = q + 1, out_length = n + 1, max_length = mx\<rparr>, m(q := c))"
      using True by (simp add: vsnprintf_helper_def Let_def)
    also have "\<dots> = (\<lparr>outp = q + 1 + k, out_length = n + 1 + int (length out), max_length = mx\<rparr>,
        \<lambda>x. if q + 1 \<le> x \<and> x < q + 1 + k then out ! (x - (q + 1)) else (m(q := c)) x)"
      using Cons.prems by (subst Cons.IH) (simp_all add: Let_def k_def)
    finally show ?thesis unfolding k Let_def f by simp
  next
    case False
    have "fold vsnprintf_helper (c # out) (\<lparr>outp = q, out_length = n, max_length = mx\<rparr>, m) =
        fold vsnprintf_helper out (\<lparr>outp = q, out_length = n + 1, max_length = mx\<rparr>, m)"
      using False by (simp add: vsnprintf_helper_def Let_def)
    also have "\<dots> = (\<lparr>outp = q, out_length = n + 1 + int (length out), max_length = mx\<rparr>, m)"
      using Cons.prems False by (subst Cons.IH) (auto simp: Let_def fun_eq_iff)
    finally show ?thesis using False by (auto simp: Let_def fun_eq_iff)
  qed
qed

lemma int32_id: "0 \<le> n \<Longrightarrow> n < 2 ^ 31 \<Longrightarrow> int32 n = n"
  by (simp add: int32_def signed_take_bit_int_eq_self)

lemma vsnprintf_ok:
  assumes "vprintf m format args = Some out" "0 < buf_size" "buf_size < 2 ^ 31"
  shows "\<exists>m'. vsnprintf buffer buf_size format args m = Some (int (length out), m') \<and>
    bytes_at m' buffer (min (length out) (buf_size - 1) + 1) = take (buf_size - 1) out @ [0] \<and>
    (\<forall>x. x < buffer \<or> buffer + buf_size \<le> x \<longrightarrow> m' x = m x)"
proof -
  define k where "k = min (length out) (buf_size - 1)"
  define m' where "m' = (\<lambda>x. if buffer \<le> x \<and> x < buffer + k then out ! (x - buffer) else m x)(buffer + k := 0)"
  have "int32 (int buf_size - 1) = int buf_size - 1" using assms(2,3) by (intro int32_id) auto
  then have run: "vsnprintf buffer buf_size format args m = Some (int (length out), m')"
    using assms(1,2) by (simp add: vsnprintf_def fold_helper Let_def k_def m'_def nat_diff_distrib')
  have "bytes_at m' buffer (k + 1) = take (buf_size - 1) out @ [0]"
  proof (rule nth_equalityI)
    show len: "length (bytes_at m' buffer (k + 1)) = length (take (buf_size - 1) out @ [0])"
      by (simp add: k_def)
    fix i assume "i < length (bytes_at m' buffer (k + 1))"
    then have i: "i < k + 1" by simp
    then have "bytes_at m' buffer (k + 1) ! i = m' (buffer + i)" by (simp add: bytes_at_def del: upt_Suc)
    then show "bytes_at m' buffer (k + 1) ! i = (take (buf_size - 1) out @ [0]) ! i"
      using i by (cases "i = k") (auto simp: m'_def nth_append k_def)
  qed
  moreover have "m' x = m x" if "x < buffer \<or> buffer + buf_size \<le> x" for x
    using that assms(2) by (auto simp: m'_def k_def)
  ultimately show ?thesis using run unfolding k_def by blast
qed

section \<open>Digits\<close>

lemma digits_of_0 [simp]: "digits_of b g n 0 = []"
  by (simp add: digits_of.simps)

lemma length_digits_of:
  "8 \<le> unat (base b) \<Longrightarrow> unat v < 8 ^ k \<Longrightarrow> length (digits_of b g n v) \<le> 2 * k"
proof (induction k arbitrary: n v)
  case 0
  then have "v = 0" by (simp add: unat_eq_zero)
  then show ?case by simp
next
  case (Suc k)
  have "unat (v div base b) < 8 ^ k"
  proof -
    have "unat v div unat (base b) \<le> unat v div 8" using Suc.prems(1) by (intro div_le_mono2) auto
    also have "\<dots> < 8 ^ k" using Suc.prems(2) by (simp add: less_mult_imp_div_less)
    finally show ?thesis by (simp add: unat_div)
  qed
  then have "length (digits_of b g (n + 1) (v div base b)) \<le> 2 * k" by (rule Suc.IH [OF Suc.prems(1)])
  then show ?case by (subst digits_of.simps) auto
qed

lemma integer_buf_bound:
  assumes "8 \<le> unat (base b)"
  shows "length (integer_buf v b c) \<le> 64"
proof -
  have "unat v < 8 ^ 22" using unsigned_less [of v, where ?'a = nat] by simp
  then have "length (digits_of b (flags c AND GROUP \<noteq> 0) 0 v) \<le> 44"
    using length_digits_of [OF assms, of v 22] by simp
  then show ?thesis by (auto simp: integer_buf_def Let_def)
qed

section \<open>Decimal numbers\<close>

lemma plain_simps [simp]:
  "flags plain_conversion = 0" "width plain_conversion = 0" "precision plain_conversion = - 1"
  "arg_type plain_conversion = INT_T"
  by (simp_all add: plain_conversion_def)

lemma base_d_simps [simp]:
  "base base_d = 10" "base_x base_d = 0" "digit_group base_d = 3" "digits base_d = ascs ''0123456789''"
  by (simp_all add: base_d_def)

lemma decimal_digit:
  assumes "k < 10"
  shows "uint (digits base_d ! k) = 48 + int k"
proof -
  have "k = 0 \<or> k = 1 \<or> k = 2 \<or> k = 3 \<or> k = 4 \<or> k = 5 \<or> k = 6 \<or> k = 7 \<or> k = 8 \<or> k = 9"
    using assms by presburger
  then show ?thesis by (elim disjE) (simp_all add: ascs_def asc_def)
qed

lemma digits_of_step:
  "v \<noteq> 0 \<Longrightarrow> digits_of base_d False n v = digits base_d ! unat (v mod 10) # digits_of base_d False (n + 1) (v div 10)"
  by (subst digits_of.simps) (simp add: word_le_nat_alt)

lemma uint_mod10: "uint (v mod 10 :: u64) < 10"
  by (simp add: uint_mod)

lemma unat_mod10: "unat (v mod 10 :: u64) < 10"
  by (simp add: unat_mod)

lemma dec_value_snoc: "dec_value (ds @ [d]) = dec_value ds * 10 + (uint d - 48)"
  by (simp add: dec_value_def)

lemma digits_of_value: "dec_value (rev (digits_of base_d False n v)) = uint v"
proof (induction "unat v" arbitrary: n v rule: less_induct)
  case less
  show ?case
  proof (cases "v = 0")
    case False
    then have "unat (v div 10) < unat v" by (simp add: unat_div unat_gt_0)
    then have "dec_value (rev (digits_of base_d False (n + 1) (v div 10))) = uint (v div 10)" by (rule less.hyps)
    moreover have "uint (v div 10) * 10 + int (unat (v mod 10)) = uint v"
      by (simp add: uint_div uint_mod)
    ultimately show ?thesis
      using decimal_digit [OF unat_mod10, of v] by (simp add: digits_of_step [OF False] dec_value_snoc)
  qed (simp add: dec_value_def)
qed

lemma digits_of_digits: "list_all dec_digit (digits_of base_d False n v)"
proof (induction "unat v" arbitrary: n v rule: less_induct)
  case less
  show ?case
  proof (cases "v = 0")
    case False
    then have "unat (v div 10) < unat v" by (simp add: unat_div unat_gt_0)
    then have "list_all dec_digit (digits_of base_d False (n + 1) (v div 10))" by (rule less.hyps)
    then show ?thesis
      using decimal_digit [OF unat_mod10, of v] uint_mod10 [of v]
      by (simp add: digits_of_step [OF False] dec_digit_def)
  qed simp
qed

lemma digits_of_length: "unat v < 10 ^ k \<Longrightarrow> length (digits_of base_d False n v) \<le> k"
proof (induction k arbitrary: n v)
  case 0
  then have "v = 0" by (simp add: unat_eq_zero)
  then show ?case by simp
next
  case (Suc k)
  show ?case
  proof (cases "v = 0")
    case False
    have "unat (v div 10) < 10 ^ k" using Suc.prems by (simp add: unat_div less_mult_imp_div_less)
    then show ?thesis using Suc.IH [of "v div 10" "n + 1"] by (simp add: digits_of_step [OF False])
  qed simp
qed

definition decimal :: "u64 \<Rightarrow> byte list" where
  "decimal v = rev (integer_buf v base_d plain_conversion)"

lemma decimal_eq: "decimal v = (if v = 0 then [asc CHR ''0''] else rev (digits_of base_d False 0 v))"
proof (cases "v = 0")
  case False
  then have "length (digits_of base_d False 0 v) \<ge> 1" by (simp add: digits_of_step)
  then show ?thesis using False by (simp add: decimal_def integer_buf_def Let_def)
qed (simp add: decimal_def integer_buf_def Let_def)

lemma dec_value_decimal: "dec_value (decimal v) = uint v"
  by (simp add: decimal_eq digits_of_value) (simp add: dec_value_def asc_def)

lemma decimal_digits: "list_all dec_digit (decimal v)"
  using digits_of_digits [of 0 v] by (simp add: decimal_eq dec_digit_def asc_def)

lemma decimal_not_Nil: "decimal v \<noteq> []"
  by (simp add: decimal_eq digits_of_step)

lemma decimal_length: "unat v < 10 ^ k \<Longrightarrow> 1 \<le> k \<Longrightarrow> length (decimal v) \<le> k"
  by (simp add: decimal_eq digits_of_length)

lemma format_decimal:
  "format_integer v True neg base_d plain_conversion = (if neg then [asc CHR ''-''] else []) @ decimal v"
proof -
  have "1 \<le> length (integer_buf v base_d plain_conversion)"
    using decimal_not_Nil [of v] by (simp add: decimal_def Suc_le_eq)
  then show ?thesis by (simp add: format_integer_def Let_def flip: decimal_def)
qed

lemma vprintf_d:
  assumes "cstr m f (ascs ''%d'')"
  shows "vprintf m f [w] = Some ((if sint w < 0 then [asc CHR ''-''] else []) @
    decimal (word_of_int (if sint w < 0 then - sint w else sint w)))"
proof -
  have m: "m f = 37" "m (Suc f) = 100" "m (Suc (Suc f)) = 0"
    using assms by (simp_all add: ascs_def asc_def)
  have fl: "flags_loop m (Suc f) 0 = Some (Suc f, 0)"
    by (subst flags_loop.simps) (simp add: m flag_of_def asc_def)
  have nl: "number_loop m (Suc f) 0 = Some (Suc f, 0)"
    by (subst number_loop.simps) (simp add: m isdigit_def)
  have "parse_conversion m (Suc f) [w] = Some (Suc f, plain_conversion, [w])"
    by (simp add: parse_conversion_def fl nl m asc_def parse_type_def plain_conversion_def)
  moreover have "convert m 100 plain_conversion [w] =
      Some ((if sint w < 0 then [asc CHR ''-''] else []) @ decimal (word_of_int (if sint w < 0 then - sint w else sint w)), [])"
    by (simp add: convert_def ascs_def asc_def signed_arg_def format_decimal)
  moreover have "vprintf m (Suc (Suc f)) [] = Some []" by (subst vprintf.simps) (simp add: m)
  ultimately show ?thesis by (subst vprintf.simps) (simp add: m asc_def)
qed

end
