(* ===== verification/LibProps.thy ===== *)
theory LibProps
  imports Arith Stdio
begin

text \<open>
  The properties of the C library of the kernel: 64-bit division, sorting and searching, numbers
  and formatted output, with the concrete arrays and strings on which they are applied.
\<close>

section \<open>Division\<close>

text \<open>C8: \<open>__udivdi3\<close>, built on a 32-bit division, is division of 64-bit words: its estimate of the
  quotient never traps and is corrected exactly; a divide error happens only for the divisor 0.\<close>

theorem udivdi3_correct: "udivdi3 n d = (if d = 0 then None else Some (n div d))"
  by (simp add: udivdi3_def udiv64_eq)

text \<open>\<open>__divdi3\<close> is C's signed division, rounding towards zero; only \<open>INT64_MIN / -1\<close> wraps.\<close>

theorem divdi3_correct: "divdi3 n d = (if d = 0 then None else Some (word_of_int (sint n sdiv sint d)))"
  by (simp add: divdi3_def sdiv64_eq)

text \<open>\<open>__umoddi3\<close> passes its result through 32 bits: it is the remainder exactly when the
  remainder is below \<open>2\<^sup>3\<^sup>2\<close>.\<close>

theorem umoddi3_truncates:
  assumes "d \<noteq> 0"
  shows "umoddi3 n d = Some (n mod d) \<longleftrightarrow> unat (n mod d) < 2 ^ 32"
  by (rule umoddi3_right) (rule assms)

theorem umoddi3_truncates_witness: "umoddi3 (2 ^ 33) (2 ^ 34) \<noteq> Some (2 ^ 33 mod 2 ^ 34)"
  by (subst umoddi3_truncates) simp_all

section \<open>Sorting and searching\<close>

text \<open>An array of two-byte records compared by their first byte.\<close>

definition first_byte :: "byte list \<Rightarrow> byte list \<Rightarrow> int" where
  "first_byte xs ys = uint (hd xs) - uint (hd ys)"

definition first_byte_compare :: compare where
  "first_byte_compare m a b = uint (m a) - uint (m b)"

definition demo_records :: cmem where
  "demo_records = (\<lambda>_. 0)(100 := 9, 101 := 1, 102 := 4, 103 := 2, 104 := 7, 105 := 3, 106 := 4, 107 := 4, 200 := 7)"

definition demo_sorted :: cmem where
  "demo_sorted = (\<lambda>_. 0)(100 := 4, 101 := 2, 102 := 4, 103 := 4, 104 := 7, 105 := 3, 106 := 9, 107 := 1, 200 := 7)"

lemma first_byte_comparator: "comparator first_byte"
  by unfold_locales (auto simp: first_byte_def)

lemma first_byte_reads: "reads_blocks first_byte_compare 2 first_byte"
  by (simp add: reads_blocks_def first_byte_compare_def first_byte_def bytes_at_def upt_rec)

text \<open>C9: \<open>sort\<close> leaves in the array a permutation of its blocks in the order of the comparison and
  changes no byte outside the array.\<close>

theorem sort_correct:
  assumes "comparator c" "reads_blocks compare sz c" "0 < sz" "arr \<noteq> 0"
  shows "\<exists>m'. sort_array arr cnt sz compare m = Some m' \<and>
    sorted_wrt (\<lambda>x y. c x y \<le> 0) (elems m' arr sz cnt) \<and>
    mset (elems m' arr sz cnt) = mset (elems m arr sz cnt) \<and>
    (\<forall>x. x < arr \<or> arr + cnt * sz \<le> x \<longrightarrow> m' x = m x)"
  using sort_array_elems [OF assms(2-4), of cnt m] comparator.lsort_sorted [OF assms(1)]
    comparator.mset_lsort [OF assms(1)] by metis

theorem sort_correct_witness:
  "\<exists>m'. sort_array 100 4 2 first_byte_compare demo_records = Some m' \<and>
    sorted_wrt (\<lambda>x y. first_byte x y \<le> 0) (elems m' 100 2 4)"
  using sort_correct [OF first_byte_comparator first_byte_reads, of 100 4 demo_records] by auto

text \<open>\<open>binary_search\<close> in a sorted array returns: the address of a block that compares equal to
  the key if there is one, and a null pointer otherwise.\<close>

theorem binary_search_correct:
  assumes "reads_blocks compare sz c" "comparator c" "0 < sz" "arr \<noteq> 0"
    and "sorted_wrt (\<lambda>x y. c x y \<le> 0) (elems m arr sz cnt)"
  shows "\<exists>p. binary_search key arr cnt sz compare m = Some p \<and>
    (if \<exists>i < cnt. c (bytes_at m key sz) (elems m arr sz cnt ! i) = 0
     then \<exists>i < cnt. p = arr + i * sz \<and> c (bytes_at m key sz) (elems m arr sz cnt ! i) = 0 else p = 0)"
  using binary_search_elems [OF assms] .

theorem binary_search_correct_witness:
  "binary_search 200 100 4 2 first_byte_compare demo_sorted = Some 104"
proof -
  have e: "elems demo_sorted 100 2 4 = [[4, 2], [4, 4], [7, 3], [9, 1]]"
    by (simp add: elems_def bytes_at_def demo_sorted_def upt_rec)
  have k: "bytes_at demo_sorted 200 2 = [7, 0]"
    by (simp add: bytes_at_def demo_sorted_def upt_rec)
  have "sorted_wrt (\<lambda>x y. first_byte x y \<le> 0) (elems demo_sorted 100 2 4)"
    by (simp add: e first_byte_def)
  moreover have "(\<exists>i < 4. P i) \<longleftrightarrow> P 0 \<or> P 1 \<or> P 2 \<or> P 3" for P :: "nat \<Rightarrow> bool"
    by (auto simp: less_Suc_eq eval_nat_numeral)
  ultimately show ?thesis
    using binary_search_correct [OF first_byte_reads first_byte_comparator, of 100 demo_sorted 4 200]
    by (simp add: e k first_byte_def)
qed

section \<open>Formatted output\<close>


definition demo_formats :: cmem where
  "demo_formats = (\<lambda>_. 0)(300 := 37, 301 := 100, 310 := 37, 311 := 48, 312 := 42, 313 := 100)"

lemma demo_format_d: "cstr demo_formats 300 (ascs ''%d'')"
  by (simp add: demo_formats_def ascs_def asc_def)

lemma decimal_1234: "decimal 1234 = ascs ''1234''"
  by (simp add: decimal_eq digits_of_step ascs_def asc_def)


text \<open>C6: A number printed with \<open>%d\<close> is read back by \<open>atoi\<close>, for every 32-bit integer.\<close>

theorem snprintf_atoi:
  assumes "cstr m f (ascs ''%d'')" "buffer \<noteq> 0" "12 \<le> n" "n < 2 ^ 31"
  shows "\<exists>len m'. snprintf buffer n f [w] m = Some (len, m') \<and> atoi buffer m' = Some w"
proof -
  define v where "v = (word_of_int (if sint w < 0 then - sint w else sint w) :: u64)"
  define sg where "sg = (if sint w < 0 then [45 :: byte] else [])"
  have "uint v = \<bar>sint w\<bar>"
    using sint_ge [of w] sint_lt [of w] by (simp add: v_def uint_word_of_int_eq take_bit_int_eq_self)
  moreover from this have "unat v < 10 ^ 10" using sint_ge [of w] sint_lt [of w] by (simp add: unat_eq_nat_uint)
  ultimately have v: "uint v = \<bar>sint w\<bar>" "length (decimal v) \<le> 10" by (simp_all add: decimal_length)
  have "vprintf m f [w] = Some (sg @ decimal v)"
    using vprintf_d [OF assms(1), of w] by (simp add: v_def sg_def asc_def)
  then obtain len m' where m': "snprintf buffer n f [w] m = Some (len, m')"
      "bytes_at m' buffer (min (length (sg @ decimal v)) (n - 1) + 1) = take (n - 1) (sg @ decimal v) @ [0]"
    using vsnprintf_ok [of m f "[w]" "sg @ decimal v" n buffer] assms(3,4) unfolding snprintf_def by auto
  have "length (sg @ decimal v) \<le> n - 1" using v(2) assms(3) by (auto simp: sg_def)
  then have bytes: "bytes_at m' buffer (length (sg @ decimal v) + 1) = (sg @ decimal v) @ [0]"
    using m'(2) by (simp add: min_def)
  have nz: "0 \<notin> set (decimal v)" using decimal_digits [of v] by (auto simp: list_all_iff dec_digit_def)
  have "cstr m' buffer ([] @ sg @ decimal v @ [])"
    using bytes nz assms(2) by (auto simp: cstr_def sg_def)
  then have "atoi buffer m' = Some (word_of_int ((if sg = [45] then - 1 else 1) * dec_value (decimal v)))"
    by (rule atoi_ok) (simp_all add: decimal_digits decimal_not_Nil sg_def)
  also have "(if sg = [45] then - 1 else 1) * dec_value (decimal v) = sint w"
    by (simp add: dec_value_decimal v(1) sg_def)
  finally show ?thesis using m'(1) by auto
qed

theorem snprintf_atoi_witness:
  "\<exists>len m'. snprintf 400 16 300 [- 77] demo_formats = Some (len, m') \<and> atoi 400 m' = Some (- 77)"
  by (rule snprintf_atoi [OF demo_format_d]) simp_all

text \<open>The digits, group separators and zeros of an integer conversion fit the 64 bytes of the
  buffer of \<open>format_integer\<close>, whatever the value, the flags and the precision.\<close>

theorem integer_buf_fits:
  assumes "b \<in> {base_d, base_o, base_lx, base_ux}"
  shows "length (integer_buf value b c) \<le> 64"
  using assms by (intro integer_buf_bound) (auto simp: base_d_def base_o_def base_lx_def base_ux_def)

theorem integer_buf_fits_witness:
  "length (integer_buf (- 1) base_o (plain_conversion\<lparr>flags := GROUP OR POUND, precision := 1000\<rparr>)) \<le> 64"
  by (rule integer_buf_fits) simp

text \<open>A negative width given by an argument sets the flag \<open>-\<close> after the flag \<open>0\<close> has been dealt
  with, so both are set and the field is padded on both sides: \<open>%0*d\<close> of -5 and 42 prints eight
  characters instead of five.\<close>

theorem zero_flag_pads_twice:
  assumes "cstr m f (ascs ''%0*d'')"
  shows "vprintf m f [- 5, 42] = Some (ascs ''00042   '')"
proof -
  have m: "m f = 37" "m (Suc f) = 48" "m (Suc (Suc f)) = 42" "m (Suc (Suc (Suc f))) = 100"
    "m (Suc (Suc (Suc (Suc f)))) = 0"
    using assms by (simp_all add: ascs_def asc_def)
  have fl: "flags_loop m (Suc f) 0 = Some (Suc (Suc f), ZERO)"
    by (subst flags_loop.simps, simp add: m flag_of_def asc_def ZERO_def, subst flags_loop.simps,
      simp add: m flag_of_def asc_def)
  define c where "c = \<lparr>flags = ZERO OR MINUS, width = 5, precision = - 1, arg_type = INT_T\<rparr>"
  have pc: "parse_conversion m (Suc f) [- 5, 42] = Some (Suc (Suc (Suc f)), c, [42])"
    by (simp add: parse_conversion_def fl m asc_def parse_type_def c_def ZERO_def MINUS_def PLUS_def int32_id)
  have c: "flags c = 17" "width c = 5" "precision c = - 1" "arg_type c = INT_T"
    by (simp_all add: c_def ZERO_def MINUS_def)
  have bits: "flags c AND PLUS = 0" "flags c AND SPACE = 0" "flags c AND POUND = 0" "flags c AND GROUP = 0"
    "flags c AND MINUS \<noteq> 0" "flags c AND ZERO \<noteq> 0" "flags c AND (MINUS OR ZERO) \<noteq> 0"
    by (simp_all add: c PLUS_def SPACE_def POUND_def GROUP_def MINUS_def ZERO_def)
  have "integer_buf 42 base_d c = [50, 52]"
    by (simp add: integer_buf_def bits c(2-4) Let_def digits_of_step ascs_def asc_def)
  then have "format_integer 42 True False base_d c = ascs ''00042   ''"
    by (simp add: format_integer_def bits c(2-4) Let_def ascs_def asc_def numeral_3_eq_3)
  then have cv: "convert m 100 c [42] = Some (ascs ''00042   '', [])"
    by (simp add: convert_def signed_arg_def c ascs_def asc_def)
  have "vprintf m (Suc (Suc (Suc (Suc f)))) [] = Some []" by (subst vprintf.simps) (simp add: m)
  then show ?thesis by (subst vprintf.simps) (simp add: m asc_def pc cv)
qed

theorem zero_flag_pads_twice_witness: "vprintf demo_formats 310 [- 5, 42] = Some (ascs ''00042   '')"
  by (rule zero_flag_pads_twice) (simp add: demo_formats_def ascs_def asc_def)

end
