(* ===== verification/Vaddr.thy ===== *)
theory Vaddr
  imports Prelude
begin

text \<open>
  Virtual addresses and page table entries: \<^verbatim>\<open>threads/vaddr.h\<close> and \<^verbatim>\<open>threads/pte.h\<close>. An address
  and an entry are 32-bit words. The second part proves that an entry gives back the page and
  the flags it was made of.
\<close>

section \<open>Virtual addresses\<close>

definition PGSIZE :: nat where "PGSIZE = 4096"
definition PGMASK :: u32 where "PGMASK = 0xfff"
definition PHYS_BASE :: u32 where "PHYS_BASE = 0xc0000000"

definition pg_ofs :: "u32 \<Rightarrow> u32" where "pg_ofs va = va AND PGMASK"
definition pg_no :: "u32 \<Rightarrow> u32" where "pg_no va = drop_bit 12 va"
definition pg_round_up :: "u32 \<Rightarrow> u32" where "pg_round_up va = (va + of_nat PGSIZE - 1) AND NOT PGMASK"
definition pg_round_down :: "u32 \<Rightarrow> u32" where "pg_round_down va = va AND NOT PGMASK"

definition is_user_vaddr :: "u32 \<Rightarrow> bool" where "is_user_vaddr va \<longleftrightarrow> va < PHYS_BASE"
definition is_kernel_vaddr :: "u32 \<Rightarrow> bool" where "is_kernel_vaddr va \<longleftrightarrow> va \<ge> PHYS_BASE"

definition ptov :: "u32 \<Rightarrow> u32 option" where
  "ptov paddr = do { ASSERT (paddr < PHYS_BASE); Some (paddr + PHYS_BASE) }"

definition vtop :: "u32 \<Rightarrow> u32 option" where
  "vtop va = do { ASSERT (is_kernel_vaddr va); Some (va - PHYS_BASE) }"

section \<open>Page table entries\<close>

definition PTMASK :: u32 where "PTMASK = push_bit 12 (mask 10)"

definition pt_no :: "u32 \<Rightarrow> u32" where "pt_no va = drop_bit 12 (va AND PTMASK)"
definition pd_no :: "u32 \<Rightarrow> u32" where "pd_no va = drop_bit 22 va"

definition PTE_ADDR :: u32 where "PTE_ADDR = 0xfffff000"
definition PTE_P :: u32 where "PTE_P = 0x1"
definition PTE_W :: u32 where "PTE_W = 0x2"
definition PTE_U :: u32 where "PTE_U = 0x4"
definition PTE_A :: u32 where "PTE_A = 0x20"
definition PTE_D :: u32 where "PTE_D = 0x40"

definition pde_create :: "u32 \<Rightarrow> u32 option" where
  "pde_create pt = do { ASSERT (pg_ofs pt = 0); p \<leftarrow> vtop pt; Some (p OR PTE_U OR PTE_P OR PTE_W) }"

definition pde_get_pt :: "u32 \<Rightarrow> u32 option" where
  "pde_get_pt pde = do { ASSERT (pde AND PTE_P \<noteq> 0); ptov (pde AND PTE_ADDR) }"

definition pte_create_kernel :: "u32 \<Rightarrow> bool \<Rightarrow> u32 option" where
  "pte_create_kernel page w = do {
     ASSERT (pg_ofs page = 0);
     p \<leftarrow> vtop page;
     Some (p OR PTE_P OR (if w then PTE_W else 0)) }"

definition pte_create_user :: "u32 \<Rightarrow> bool \<Rightarrow> u32 option" where
  "pte_create_user page w = do { e \<leftarrow> pte_create_kernel page w; Some (e OR PTE_U) }"

definition pte_get_page :: "u32 \<Rightarrow> u32 option" where
  "pte_get_page pte = ptov (pte AND PTE_ADDR)"

section \<open>Aligned addresses\<close>

lemma PGMASK_mask: "PGMASK = mask 12"
  by (simp add: PGMASK_def mask_eq_exp_minus_1)

lemma pg_ofs_bits: "pg_ofs va = 0 \<longleftrightarrow> (\<forall>k < 12. \<not> bit va k)"
proof
  assume a: "pg_ofs va = 0"
  have "bit (pg_ofs va) k = bit va k" if "k < 12" for k
    using that by (simp add: pg_ofs_def PGMASK_mask bit_and_iff bit_mask_iff)
  with a show "\<forall>k < 12. \<not> bit va k" by simp
next
  assume "\<forall>k < 12. \<not> bit va k"
  then show "pg_ofs va = 0"
    by (intro bit_word_eqI) (auto simp: pg_ofs_def PGMASK_mask bit_and_iff bit_mask_iff)
qed

lemma unat_pg_ofs: "unat (pg_ofs va) = unat va mod 4096"
  by (simp add: pg_ofs_def PGMASK_mask take_bit_eq_mod unat_mod flip: take_bit_eq_mask)

lemma pg_ofs_dvd: "pg_ofs va = 0 \<longleftrightarrow> 4096 dvd unat va"
  by (metis dvd_eq_mod_eq_0 unat_pg_ofs unsigned_0 unsigned_word_eqI unat_0_iff)

lemma PTE_ADDR_bits: "bit PTE_ADDR k \<longleftrightarrow> 12 \<le> k \<and> k < 32"
proof -
  have e: "PTE_ADDR = NOT (mask 12)" by (simp add: PTE_ADDR_def mask_eq_exp_minus_1)
  show ?thesis unfolding e bit_not_iff bit_mask_iff by auto
qed

lemma or_flags_addr:
  fixes p f :: u32
  assumes "pg_ofs p = 0" "f AND PTE_ADDR = 0"
  shows "(p OR f) AND PTE_ADDR = p"
proof (rule bit_word_eqI)
  fix k assume k: "k < LENGTH(32)"
  have "\<not> bit (f AND PTE_ADDR) k" using assms(2) by simp
  moreover have "bit p k \<Longrightarrow> 12 \<le> k" using assms(1) by (metis not_le pg_ofs_bits)
  ultimately show "bit ((p OR f) AND PTE_ADDR) k = bit p k"
    using k by (auto simp: bit_and_iff bit_or_iff PTE_ADDR_bits)
qed

lemma vtop_aligned:
  assumes "pg_ofs va = 0" "va \<ge> PHYS_BASE"
  shows "pg_ofs (va - PHYS_BASE) = 0" "ptov (va - PHYS_BASE) = Some va"
proof -
  have u: "unat (va - PHYS_BASE) = unat va - 0xc0000000"
    using assms(2) unat_sub [of PHYS_BASE va] by (simp add: PHYS_BASE_def)
  have d: "(4096::nat) dvd 0xc0000000" by simp
  show "pg_ofs (va - PHYS_BASE) = 0"
    using assms(1) u dvd_diff_nat [OF _ d] by (simp add: pg_ofs_dvd)
  have "unat va < 2 ^ 32" using unsigned_less [of va] by simp
  then have "unat (va - PHYS_BASE) < unat PHYS_BASE" using u by (simp add: PHYS_BASE_def)
  then show "ptov (va - PHYS_BASE) = Some va" by (simp add: ptov_def word_less_nat_alt)
qed

lemma flags_no_addr:
  "PTE_P AND PTE_ADDR = 0" "PTE_W AND PTE_ADDR = 0" "PTE_U AND PTE_ADDR = 0"
  by (simp_all add: PTE_ADDR_def PTE_P_def PTE_W_def PTE_U_def)

text \<open>An entry made of a page gives the page back, is present, and has the access it was made with.\<close>

lemma pde_roundtrip:
  assumes "pg_ofs pt = 0" "pt \<ge> PHYS_BASE"
  obtains e where "pde_create pt = Some e" "pde_get_pt e = Some pt" "e \<noteq> 0" "e AND PTE_P \<noteq> 0"
proof -
  let ?e = "(pt - PHYS_BASE) OR PTE_U OR PTE_P OR PTE_W"
  have f: "(PTE_U OR PTE_P OR PTE_W) AND PTE_ADDR = 0" by (simp add: PTE_ADDR_def PTE_P_def PTE_W_def PTE_U_def)
  have addr: "?e AND PTE_ADDR = pt - PHYS_BASE"
    using or_flags_addr [OF vtop_aligned(1) [OF assms] f] by (simp add: or.assoc)
  have b: "bit (?e AND PTE_P) 0" by (simp add: bit_and_iff bit_or_iff PTE_P_def)
  then have p: "?e AND PTE_P \<noteq> 0" by (metis bit_0_eq bot_apply bot_bool_def)
  then have "?e \<noteq> 0" by auto
  then show ?thesis using that [of ?e] assms addr p vtop_aligned(2) [OF assms]
    by (simp add: pde_create_def pde_get_pt_def vtop_def is_kernel_vaddr_def)
qed

lemma pte_roundtrip:
  assumes "pg_ofs page = 0" "page \<ge> PHYS_BASE"
  obtains e where "pte_create_user page w = Some e" "pte_get_page e = Some page" "e \<noteq> 0" "e AND PTE_P \<noteq> 0"
    "(e AND PTE_W \<noteq> 0) = w" "e AND PTE_D = 0"
proof -
  let ?f = "PTE_P OR (if w then PTE_W else 0) OR PTE_U"
  let ?e = "(page - PHYS_BASE) OR ?f"
  have f: "?f AND PTE_ADDR = 0" by (simp add: PTE_ADDR_def PTE_P_def PTE_W_def PTE_U_def)
  have addr: "?e AND PTE_ADDR = page - PHYS_BASE"
    using or_flags_addr [OF vtop_aligned(1) [OF assms] f] by simp
  have low: "\<not> bit (page - PHYS_BASE) k" if "k < 12" for k
    using vtop_aligned(1) [OF assms] that by (simp add: pg_ofs_bits)
  have flag: "?e AND m = ?f AND m" if "\<And>k. bit m k \<Longrightarrow> k < 12" for m
    by (rule bit_word_eqI) (use that low in \<open>auto simp: bit_and_iff bit_or_iff\<close>)
  have m: "bit PTE_P k \<Longrightarrow> k < 12" "bit PTE_W k \<Longrightarrow> k < 12" "bit PTE_D k \<Longrightarrow> k < 12" for k
  proof -
    have e: "PTE_P = push_bit 0 1" "PTE_W = push_bit 1 1" "PTE_D = push_bit 6 1" by (simp_all add: PTE_P_def PTE_W_def PTE_D_def)
    show "bit PTE_P k \<Longrightarrow> k < 12" "bit PTE_W k \<Longrightarrow> k < 12" "bit PTE_D k \<Longrightarrow> k < 12"
      unfolding e bit_push_bit_iff by (auto simp: bit_1_iff)
  qed
  have p: "?e AND PTE_P \<noteq> 0" "(?e AND PTE_W \<noteq> 0) = w" "?e AND PTE_D = 0"
    using flag [OF m(1)] flag [OF m(2)] flag [OF m(3)]
    by (simp_all only: PTE_P_def PTE_W_def PTE_U_def PTE_D_def, simp_all)
  then have "?e \<noteq> 0" by auto
  then show ?thesis using that [of ?e] assms addr p vtop_aligned(2) [OF assms]
    by (simp add: pte_create_user_def pte_create_kernel_def pte_get_page_def vtop_def is_kernel_vaddr_def or.assoc)
qed

lemma unat_pt_no: "unat (pt_no va) = unat va div 4096 mod 1024"
proof -
  have "pt_no va = take_bit 10 (drop_bit 12 va)"
    by (rule bit_word_eqI) (auto simp: pt_no_def PTMASK_def bit_drop_bit_eq bit_and_iff bit_push_bit_iff bit_mask_iff bit_take_bit_iff
        dest: bit_imp_le_length)
  then show ?thesis by (simp add: take_bit_eq_mod drop_bit_eq_div unat_mod unat_div)
qed

lemma unat_pd_no: "unat (pd_no va) = unat va div 4194304"
  unfolding pd_no_def unat_drop_bit_eq by (simp add: drop_bit_eq_div)

lemma page_indices:
  assumes "pg_ofs a = 0" "pg_ofs b = 0" "pd_no a = pd_no b" "pt_no a = pt_no b"
  shows "a = b"
proof -
  have d: "unat a div 4194304 = unat b div 4194304" using assms(3) unat_pd_no by metis
  have t: "unat a div 4096 mod 1024 = unat b div 4096 mod 1024" using assms(4) unat_pt_no by metis
  have e: "x div 4194304 = x div 4096 div 1024" for x :: nat by (simp add: div_mult2_eq [symmetric])
  have "unat a div 4096 = unat b div 4096" using d t unfolding e by (metis div_mult_mod_eq)
  then have "unat a = unat b" using assms(1,2) by (metis pg_ofs_dvd dvd_div_mult_self)
  then show ?thesis by (simp add: unsigned_word_eqI)
qed

end
