(* ===== verification/Swap.thy ===== *)
theory Swap
  imports Bitmap Block Vaddr
begin

text \<open>
  \<^verbatim>\<open>vm/swap.c\<close>: pages on the swap device. A slot is eight consecutive sectors; a bitmap says
  which slots are available. A page is given by its kernel address and its contents. The
  locale \<open>page_store\<close> is the contract of a store of pages; the swap device is its
  interpretation, with \<open>swap_map\<close> the partial map from slots to page contents.
\<close>

section \<open>Operations\<close>

definition SECTORS_PER_PAGE :: nat where "SECTORS_PER_PAGE = PGSIZE div BLOCK_SECTOR_SIZE"

record swap =
  swap_block :: block
  swap_available :: bitmap
  swap_size :: nat

text \<open>\<open>roles\<close> is the table of block devices by role; \<open>hdr\<close> and \<open>blk\<close> are the allocations of the bitmap.\<close>

definition vm_swap_init :: "(block_type \<Rightarrow> block option) \<Rightarrow> bool \<Rightarrow> u32 list option \<Rightarrow> swap option" where
  "vm_swap_init roles hdr blk = do {
     ASSERT (SECTORS_PER_PAGE > 0);
     b \<leftarrow> roles BLOCK_SWAP;
     let n = block_size b div SECTORS_PER_PAGE;
     m \<leftarrow> bitmap_create hdr blk n;
     m \<leftarrow> m;
     m \<leftarrow> bitmap_set_all m True;
     Some \<lparr>swap_block = b, swap_available = m, swap_size = n\<rparr> }"

text \<open>The loops over the sectors of a page; sector numbers are 32 bits wide.\<close>

fun swap_write_loop :: "nat \<Rightarrow> nat \<Rightarrow> nat \<Rightarrow> byte list \<Rightarrow> block \<Rightarrow> block option" where
  "swap_write_loop 0 i idx page b = Some b"
| "swap_write_loop (Suc n) i idx page b = do {
     b \<leftarrow> block_write b ((idx * SECTORS_PER_PAGE + i) mod SIZE_MOD)
            (take BLOCK_SECTOR_SIZE (drop (BLOCK_SECTOR_SIZE * i) page));
     swap_write_loop n (Suc i) idx page b }"

fun swap_read_loop :: "nat \<Rightarrow> nat \<Rightarrow> nat \<Rightarrow> block \<Rightarrow> (byte list \<times> block) option" where
  "swap_read_loop 0 i idx b = Some ([], b)"
| "swap_read_loop (Suc n) i idx b = do {
     (d, b) \<leftarrow> block_read b ((idx * SECTORS_PER_PAGE + i) mod SIZE_MOD);
     (ds, b) \<leftarrow> swap_read_loop n (Suc i) idx b;
     Some (d @ ds, b) }"

definition vm_swap_out :: "u32 \<Rightarrow> byte list \<Rightarrow> swap \<Rightarrow> (nat \<times> swap) option" where
  "vm_swap_out addr page s = do {
     ASSERT (addr \<ge> PHYS_BASE);
     idx \<leftarrow> bitmap_scan (swap_available s) 0 1 True;
     b \<leftarrow> swap_write_loop SECTORS_PER_PAGE 0 idx page (swap_block s);
     m \<leftarrow> bitmap_set (swap_available s) idx False;
     Some (idx, s\<lparr>swap_block := b, swap_available := m\<rparr>) }"

definition vm_swap_in :: "nat \<Rightarrow> u32 \<Rightarrow> swap \<Rightarrow> (byte list \<times> swap) option" where
  "vm_swap_in idx addr s = do {
     ASSERT (addr \<ge> PHYS_BASE);
     ASSERT (idx < swap_size s);
     t \<leftarrow> bitmap_test (swap_available s) idx;
     if t then None else do {
       (page, b) \<leftarrow> swap_read_loop SECTORS_PER_PAGE 0 idx (swap_block s);
       m \<leftarrow> bitmap_set (swap_available s) idx True;
       Some (page, s\<lparr>swap_block := b, swap_available := m\<rparr>) } }"

definition vm_swap_free :: "nat \<Rightarrow> swap \<Rightarrow> swap option" where
  "vm_swap_free idx s = do {
     ASSERT (idx < swap_size s);
     t \<leftarrow> bitmap_test (swap_available s) idx;
     if t then None else do {
       m \<leftarrow> bitmap_set (swap_available s) idx True;
       Some (s\<lparr>swap_available := m\<rparr>) } }"

section \<open>The contract of a store of pages\<close>

locale page_store =
  fixes out :: "byte list \<Rightarrow> 's \<Rightarrow> (nat \<times> 's) option"
    and inn :: "nat \<Rightarrow> 's \<Rightarrow> (byte list \<times> 's) option"
    and free :: "nat \<Rightarrow> 's \<Rightarrow> 's option"
    and pages :: "'s \<Rightarrow> nat \<Rightarrow> byte list option"
    and ok :: "'s \<Rightarrow> bool"
  assumes out: "ok s \<Longrightarrow> length p = PGSIZE \<Longrightarrow> out p s = Some (i, s') \<Longrightarrow>
      ok s' \<and> pages s i = None \<and> pages s' = (pages s)(i \<mapsto> p)"
    and inn: "ok s \<Longrightarrow> (\<exists>s'. inn i s = Some (p, s')) \<longleftrightarrow> pages s i = Some p"
    and inn': "ok s \<Longrightarrow> inn i s = Some (p, s') \<Longrightarrow> ok s' \<and> pages s' = (pages s)(i := None)"
    and free: "ok s \<Longrightarrow> (\<exists>s'. free i s = Some s') \<longleftrightarrow> pages s i \<noteq> None"
    and free': "ok s \<Longrightarrow> free i s = Some s' \<Longrightarrow> ok s' \<and> pages s' = (pages s)(i := None)"
begin

text \<open>A page comes back although others went out in between.\<close>

lemma out_out_in:
  assumes "ok s" "length p = PGSIZE" "length q = PGSIZE" "out p s = Some (i, s1)" "out q s1 = Some (j, s2)"
  shows "i \<noteq> j \<and> (\<exists>s3. inn i s2 = Some (p, s3) \<and> pages s3 = (pages s)(j \<mapsto> q))"
proof -
  note o1 = out [OF assms(1,2,4)]
  then have ok1: "ok s1" by simp
  note o2 = out [OF ok1 assms(3,5)]
  have ij: "i \<noteq> j" using o1 o2 by auto
  then have "pages s2 i = Some p" "ok s2" using o1 o2 by auto
  with inn [of s2 i p] obtain s3 where s3: "inn i s2 = Some (p, s3)" by blast
  have "pages s3 = (pages s)(j \<mapsto> q)" using inn' [OF \<open>ok s2\<close> s3] o1 o2 ij by (auto simp: fun_eq_iff)
  with ij s3 show ?thesis by blast
qed

text \<open>What went out can be released once, not twice.\<close>

lemma free_twice:
  assumes "ok s" "free i s = Some s1"
  shows "free i s1 = None \<and> inn i s1 = None"
proof -
  note f = free' [OF assms]
  then have "ok s1" "pages s1 i = None" by simp_all
  with free [of s1 i] inn [of s1 i] show ?thesis by (cases "free i s1"; cases "inn i s1") auto
qed

end

section \<open>The swap device as a store of pages\<close>

definition slot :: "block \<Rightarrow> nat \<Rightarrow> byte list" where
  "slot b i = concat (map (\<lambda>j. medium b (i * SECTORS_PER_PAGE + j)) [0..<SECTORS_PER_PAGE])"

definition swap_map :: "swap \<Rightarrow> nat \<Rightarrow> byte list option" where
  "swap_map s i = (if i < swap_size s \<and> \<not> bmap (swap_available s) i then Some (slot (swap_block s) i) else None)"

definition swap_ok :: "swap \<Rightarrow> bool" where
  "swap_ok s \<longleftrightarrow> block_ok (swap_block s) \<and> bm_wf (swap_available s) \<and> bit_cnt (swap_available s) = swap_size s \<and>
     swap_size s = bsize (swap_block s) div SECTORS_PER_PAGE \<and> bsize (swap_block s) < SIZE_MOD - SECTORS_PER_PAGE"

lemma SPP [simp]: "SECTORS_PER_PAGE = 8"
  by (simp add: SECTORS_PER_PAGE_def PGSIZE_def BLOCK_SECTOR_SIZE_def)

lemma slot_sectors: "swap_ok s \<Longrightarrow> i < swap_size s \<Longrightarrow> j < 8 \<Longrightarrow> i * 8 + j < bsize (swap_block s) \<and> i * 8 + j < SIZE_MOD"
  by (auto simp: swap_ok_def SIZE_MOD_def)

lemma swap_write_loop_ok:
  assumes "block_ok b" "idx * 8 + i + n \<le> bsize b" "bsize b < SIZE_MOD" "length page = PGSIZE" "i + n \<le> 8"
  shows "\<exists>b'. swap_write_loop n i idx page b = Some b' \<and> block_ok b' \<and> bsize b' = bsize b \<and>
    (\<forall>t. medium b' t = (if idx * 8 + i \<le> t \<and> t < idx * 8 + i + n
       then take BLOCK_SECTOR_SIZE (drop (BLOCK_SECTOR_SIZE * (t - idx * 8)) page) else medium b t))"
  using assms
proof (induction n arbitrary: i b)
  case (Suc n)
  let ?d = "take BLOCK_SECTOR_SIZE (drop (BLOCK_SECTOR_SIZE * i) page)"
  have m: "(idx * 8 + i) mod SIZE_MOD = idx * 8 + i" and lt: "idx * 8 + i < bsize b" using Suc.prems by auto
  have l: "length ?d = BLOCK_SECTOR_SIZE" using Suc.prems by (simp add: BLOCK_SECTOR_SIZE_def PGSIZE_def)
  from dev.wr [OF Suc.prems(1) lt l] obtain b1 where b1: "block_write b (idx * 8 + i) ?d = Some b1" "block_ok b1"
    "bsize b1 = bsize b" "\<forall>t. medium b1 t = (if t = idx * 8 + i then ?d else medium b t)" by blast
  from Suc.IH [OF b1(2), of "Suc i"] Suc.prems b1(3) obtain b' where
    b': "swap_write_loop n (Suc i) idx page b1 = Some b'" "block_ok b'" "bsize b' = bsize b"
    "\<forall>t. medium b' t = (if idx * 8 + Suc i \<le> t \<and> t < idx * 8 + Suc i + n
       then take BLOCK_SECTOR_SIZE (drop (BLOCK_SECTOR_SIZE * (t - idx * 8)) page) else medium b1 t)" by auto
  have "medium b' t = (if idx * 8 + i \<le> t \<and> t < idx * 8 + i + Suc n
       then take BLOCK_SECTOR_SIZE (drop (BLOCK_SECTOR_SIZE * (t - idx * 8)) page) else medium b t)" for t
    using b'(4) b1(4) by (cases "t = idx * 8 + i") auto
  with b' b1(1) m show ?case by simp
qed auto

lemma swap_read_loop_ok:
  assumes "block_ok b" "idx * 8 + i + n \<le> bsize b" "bsize b < SIZE_MOD"
  shows "\<exists>b'. swap_read_loop n i idx b = Some (concat (map (\<lambda>j. medium b (idx * 8 + j)) [i..<i + n]), b') \<and>
    block_ok b' \<and> bsize b' = bsize b \<and> medium b' = medium b"
  using assms
proof (induction n arbitrary: i b)
  case (Suc n)
  have m: "(idx * 8 + i) mod SIZE_MOD = idx * 8 + i" and lt: "idx * 8 + i < bsize b" using Suc.prems by auto
  from dev.rd [OF Suc.prems(1) lt] obtain b1 where b1: "block_read b (idx * 8 + i) = Some (medium b (idx * 8 + i), b1)" "block_ok b1"
    "bsize b1 = bsize b" "medium b1 = medium b" by auto
  from Suc.IH [OF b1(2), of "Suc i"] Suc.prems b1(3,4) obtain b' where
    b': "swap_read_loop n (Suc i) idx b1 = Some (concat (map (\<lambda>j. medium b (idx * 8 + j)) [Suc i..<Suc i + n]), b')" "block_ok b'" "bsize b' = bsize b"
    "medium b' = medium b" by auto
  have "[i..<i + Suc n] = i # [Suc i..<Suc i + n]" by (simp add: upt_conv_Cons)
  with b' b1(1) m show ?case by simp
qed simp

lemma concat_chunks: "concat (map (\<lambda>j. take k (drop (k * j) xs)) [0..<n]) = take (k * n) xs"
proof (induction n)
  case (Suc n)
  then show ?case by (simp add: take_add [symmetric] add.commute)
qed simp


lemma slot_write:
  assumes "length page = PGSIZE"
    and "\<forall>t. medium b' t = (if i * 8 \<le> t \<and> t < i * 8 + 8
       then take BLOCK_SECTOR_SIZE (drop (BLOCK_SECTOR_SIZE * (t - i * 8)) page) else medium b t)"
  shows "slot b' j = (if j = i then page else slot b j)"
proof (cases "j = i")
  case True
  have "slot b' i = concat (map (\<lambda>k. take BLOCK_SECTOR_SIZE (drop (BLOCK_SECTOR_SIZE * k) page)) [0..<8])"
    unfolding slot_def SPP using assms(2) by (intro arg_cong [where f = concat] map_cong) auto
  also have "\<dots> = page" using assms(1) by (simp add: concat_chunks BLOCK_SECTOR_SIZE_def PGSIZE_def)
  finally show ?thesis using True by simp
next
  case False
  have "medium b' (j * 8 + k) = medium b (j * 8 + k)" if "k < 8" for k
  proof -
    have "\<not> (i * 8 \<le> j * 8 + k \<and> j * 8 + k < i * 8 + 8)" using that False by linarith
    then show ?thesis by (simp only: spec [OF assms(2), of "j * 8 + k"] if_False)
  qed
  then have "slot b' j = slot b j" unfolding slot_def SPP by (intro arg_cong [where f = concat] map_cong) auto
  with False show ?thesis by simp
qed

text \<open>Out: the lowest available slot; a full device is a panic, as the sector number for the error
  value of the scan lies past the end.\<close>

lemma swap_out_ok:
  assumes ok: "swap_ok s" and p: "length page = PGSIZE" and a: "addr \<ge> PHYS_BASE"
  shows "if \<exists>i < swap_size s. swap_map s i = None
    then \<exists>i s'. vm_swap_out addr page s = Some (i, s') \<and> swap_ok s' \<and> swap_size s' = swap_size s \<and>
      swap_map s i = None \<and> (\<forall>j < i. swap_map s j \<noteq> None) \<and> swap_map s' = (swap_map s)(i \<mapsto> page)
    else vm_swap_out addr page s = None"
proof -
  let ?m = "swap_available s"
  let ?n = "swap_size s"
  have wf: "bm_wf ?m" "bit_cnt ?m = ?n" "block_ok (swap_block s)" using ok by (auto simp: swap_ok_def)
  have g: "bgroup ?m j 1 True \<longleftrightarrow> j < ?n \<and> swap_map s j = None" for j
    using wf(2) by (auto simp: bgroup_def swap_map_def)
  obtain r where r: "bitmap_scan ?m 0 1 True = Some r"
    "if \<exists>j \<ge> 0. bgroup ?m j 1 True
     then 0 \<le> r \<and> r + 1 \<le> bit_cnt ?m \<and> r \<noteq> BITMAP_ERROR \<and> bgroup ?m r 1 True \<and> (\<forall>j \<in> {0..<r}. \<not> bgroup ?m j 1 True)
     else r = BITMAP_ERROR" using scan_bmap [OF wf(1), of 0 1 True] by auto
  show ?thesis
  proof (cases "\<exists>i < ?n. swap_map s i = None")
    case True
    then have rn: "r < ?n" "swap_map s r = None" and low: "\<forall>j < r. swap_map s j \<noteq> None"
      using r(2) g wf(2) by (auto split: if_splits)
    have sec: "r * 8 + 0 + 8 \<le> bsize (swap_block s)" "bsize (swap_block s) < SIZE_MOD"
      using ok rn by (auto simp: swap_ok_def SIZE_MOD_def)
    obtain b' where b': "swap_write_loop 8 0 r page (swap_block s) = Some b'" "block_ok b'" "bsize b' = bsize (swap_block s)"
      "\<forall>t. medium b' t = (if r * 8 + 0 \<le> t \<and> t < r * 8 + 0 + 8
         then take BLOCK_SECTOR_SIZE (drop (BLOCK_SECTOR_SIZE * (t - r * 8)) page) else medium (swap_block s) t)"
      using swap_write_loop_ok [OF wf(3) sec p] by auto
    obtain m' where m': "bitmap_set ?m r False = Some m'" "bm_upd ?m m' {r} False"
      using set_bmap [OF wf(1), of r False] rn wf(2) by auto
    let ?s = "s\<lparr>swap_block := b', swap_available := m'\<rparr>"
    have out: "vm_swap_out addr page s = Some (r, ?s)" using a r(1) b'(1) m'(1) by (simp add: vm_swap_out_def)
    have "swap_ok ?s" using ok b'(2,3) m'(2) bm_upd_wf [OF m'(2)] by (simp add: swap_ok_def bm_upd_def)
    moreover have "swap_map ?s = (swap_map s)(r \<mapsto> page)"
      using slot_write [OF p b'(4) [simplified]] rn m'(2) by (auto simp: swap_map_def fun_eq_iff bm_upd_def)
    ultimately show ?thesis using True out rn low by auto
  next
    case False
    then have "r = BITMAP_ERROR" using r(2) g by auto
    moreover have "block_write (swap_block s) ((BITMAP_ERROR * 8 + 0) mod SIZE_MOD) d = None" for d
    proof -
      have "(BITMAP_ERROR * 8 + 0) mod SIZE_MOD = SIZE_MOD - 8" by (simp add: BITMAP_ERROR_def SIZE_MOD_def)
      then show ?thesis using ok block_past_end [of "swap_block s" "SIZE_MOD - 8" d] by (simp add: swap_ok_def)
    qed
    ultimately have "vm_swap_out addr page s = None" using a r(1) by (simp add: vm_swap_out_def eval_nat_numeral)
    with False show ?thesis by auto
  qed
qed

lemma swap_test:
  assumes "swap_ok s" "i < swap_size s"
  shows "bitmap_test (swap_available s) i = Some (swap_map s i = None)"
  using assms test_bmap [of "swap_available s" i] by (auto simp: swap_ok_def swap_map_def)

lemma swap_set:
  assumes "swap_ok s" "i < swap_size s"
  obtains m where "bitmap_set (swap_available s) i True = Some m" "swap_ok (s\<lparr>swap_available := m\<rparr>)"
    "swap_map (s\<lparr>swap_available := m\<rparr>) = (swap_map s)(i := None)"
proof -
  from set_bmap [of "swap_available s" i True] assms obtain m where
    m: "bitmap_set (swap_available s) i True = Some m" "bm_upd (swap_available s) m {i} True" by (auto simp: swap_ok_def)
  have "swap_ok (s\<lparr>swap_available := m\<rparr>)" using assms(1) m(2) bm_upd_wf [OF m(2)] by (simp add: swap_ok_def bm_upd_def)
  moreover have "swap_map (s\<lparr>swap_available := m\<rparr>) = (swap_map s)(i := None)"
    using m(2) by (auto simp: swap_map_def fun_eq_iff bm_upd_def)
  ultimately show ?thesis using that m(1) by blast
qed

lemma swap_map_size: "swap_map s i = Some p \<Longrightarrow> i < swap_size s"
  by (simp add: swap_map_def split: if_splits)

lemma swap_in_ok:
  assumes ok: "swap_ok s" and a: "addr \<ge> PHYS_BASE"
  shows "case swap_map s i of None \<Rightarrow> vm_swap_in i addr s = None
    | Some p \<Rightarrow> \<exists>s'. vm_swap_in i addr s = Some (p, s') \<and> swap_ok s' \<and> swap_map s' = (swap_map s)(i := None)"
proof (cases "i < swap_size s")
  case True
  show ?thesis
  proof (cases "swap_map s i")
    case None
    then show ?thesis using True a swap_test [OF ok True] by (simp add: vm_swap_in_def)
  next
    case (Some p)
    have sec: "i * 8 + 0 + 8 \<le> bsize (swap_block s)" "bsize (swap_block s) < SIZE_MOD" and b: "block_ok (swap_block s)"
      using ok True by (auto simp: swap_ok_def SIZE_MOD_def)
    obtain b' where b': "swap_read_loop 8 0 i (swap_block s) = Some (concat (map (\<lambda>j. medium (swap_block s) (i * 8 + j)) [0..<0 + 8]), b')"
      "block_ok b'" "bsize b' = bsize (swap_block s)" "medium b' = medium (swap_block s)"
      using swap_read_loop_ok [OF b sec] by blast
    have p: "p = concat (map (\<lambda>j. medium (swap_block s) (i * 8 + j)) [0..<0 + 8])"
      using Some by (auto simp: swap_map_def slot_def split: if_splits)
    let ?s = "s\<lparr>swap_block := b'\<rparr>"
    have s1: "swap_ok ?s" "swap_map ?s = swap_map s" using ok b'(2-4) by (auto simp: swap_ok_def swap_map_def slot_def fun_eq_iff)
    obtain m where m: "bitmap_set (swap_available s) i True = Some m" "swap_ok (?s\<lparr>swap_available := m\<rparr>)"
      "swap_map (?s\<lparr>swap_available := m\<rparr>) = (swap_map s)(i := None)"
      using swap_set [OF s1(1), of i] True s1(2) by auto
    have "vm_swap_in i addr s = Some (p, ?s\<lparr>swap_available := m\<rparr>)"
      using True a swap_test [OF ok True] Some b'(1) m(1) p by (simp add: vm_swap_in_def)
    with m Some show ?thesis by simp
  qed
qed (simp add: swap_map_def vm_swap_in_def)

lemma swap_free_ok:
  assumes ok: "swap_ok s"
  shows "case swap_map s i of None \<Rightarrow> vm_swap_free i s = None
    | Some p \<Rightarrow> \<exists>s'. vm_swap_free i s = Some s' \<and> swap_ok s' \<and> swap_map s' = (swap_map s)(i := None)"
proof (cases "i < swap_size s")
  case True
  from swap_set [OF ok True] obtain m where
    m: "bitmap_set (swap_available s) i True = Some m" "swap_ok (s\<lparr>swap_available := m\<rparr>)"
      "swap_map (s\<lparr>swap_available := m\<rparr>) = (swap_map s)(i := None)" by blast
  then show ?thesis using True swap_test [OF ok True] by (auto simp: vm_swap_free_def split: option.splits)
qed (simp add: swap_map_def vm_swap_free_def)

interpretation swap_store: page_store "vm_swap_out PHYS_BASE" "\<lambda>i. vm_swap_in i PHYS_BASE" vm_swap_free swap_map swap_ok
proof
  fix s p i s'
  assume s: "swap_ok s"
  have in_ok: "case swap_map s i of None \<Rightarrow> vm_swap_in i PHYS_BASE s = None
    | Some p \<Rightarrow> \<exists>s'. vm_swap_in i PHYS_BASE s = Some (p, s') \<and> swap_ok s' \<and> swap_map s' = (swap_map s)(i := None)"
    by (rule swap_in_ok [OF s]) simp
  show "swap_ok s' \<and> swap_map s i = None \<and> swap_map s' = (swap_map s)(i \<mapsto> p)"
    if "length p = PGSIZE" "vm_swap_out PHYS_BASE p s = Some (i, s')"
    using swap_out_ok [OF s that(1), of PHYS_BASE] that(2) by (auto split: if_splits)
  show "(\<exists>s'. vm_swap_in i PHYS_BASE s = Some (p, s')) \<longleftrightarrow> swap_map s i = Some p"
    using in_ok by (auto split: option.splits)
  show "swap_ok s' \<and> swap_map s' = (swap_map s)(i := None)" if "vm_swap_in i PHYS_BASE s = Some (p, s')"
    using in_ok that by (auto split: option.splits)
  show "(\<exists>s'. vm_swap_free i s = Some s') \<longleftrightarrow> swap_map s i \<noteq> None"
    using swap_free_ok [OF s, of i] by (auto split: option.splits)
  show "swap_ok s' \<and> swap_map s' = (swap_map s)(i := None)" if "vm_swap_free i s = Some s'"
    using swap_free_ok [OF s, of i] that by (auto split: option.splits)
qed

end
