(* ===== verification/Paging.thy ===== *)
theory Paging
  imports Vaddr Bitmap CString
begin

text \<open>
  \<^verbatim>\<open>threads/palloc.c\<close> and \<^verbatim>\<open>userprog/pagedir.c\<close>: the page allocator with its two pools, and
  page directories in memory. The state has the bytes of memory by virtual address; a page
  table entry is the little-endian word at its address. The locks of the pools serialise
  the allocations and are not modelled; the bitmaps of the pools are values beside the memory.
\<close>

section \<open>Pools of pages\<close>

record pool =
  used_map :: bitmap
  pbase :: u32

record machine =
  ram :: cmem
  kernel_pool :: pool
  user_pool :: pool
  init_page_dir :: u32
  init_ram_pages :: u32
  cr3 :: u32

definition PAL_ASSERT :: nat where "PAL_ASSERT = 1"
definition PAL_ZERO :: nat where "PAL_ZERO = 2"
definition PAL_USER :: nat where "PAL_USER = 4"

text \<open>\<open>blk\<close> is what the memory at the base of the pool holds when the bitmap is put there.\<close>

definition init_pool :: "u32 \<Rightarrow> nat \<Rightarrow> u32 list \<Rightarrow> pool option" where
  "init_pool base page_cnt blk =
     (let bm_pages = DIV_ROUND_UP (bitmap_buf_size page_cnt) PGSIZE
      in if bm_pages > page_cnt then None
         else do {
           m \<leftarrow> bitmap_create_in_buf (page_cnt - bm_pages) blk (bm_pages * PGSIZE);
           Some \<lparr>used_map = m, pbase = base + of_nat (bm_pages * PGSIZE)\<rparr> })"

definition palloc_init :: "nat \<Rightarrow> u32 list \<Rightarrow> u32 list \<Rightarrow> machine \<Rightarrow> machine option" where
  "palloc_init user_page_limit kblk ublk m = do {
     free_start \<leftarrow> ptov (1024 * 1024);
     free_end \<leftarrow> ptov (init_ram_pages m * of_nat PGSIZE);
     let free_pages = unat (free_end - free_start) div PGSIZE;
     let user_pages = (if free_pages div 2 > user_page_limit then user_page_limit else free_pages div 2);
     let kernel_pages = free_pages - user_pages;
     kp \<leftarrow> init_pool free_start kernel_pages kblk;
     up \<leftarrow> init_pool (free_start + of_nat (kernel_pages * PGSIZE)) user_pages ublk;
     Some (m\<lparr>kernel_pool := kp, user_pool := up\<rparr>) }"

text \<open>The pool a pointer selects, and its update through the pointer.\<close>

definition the_pool :: "bool \<Rightarrow> machine \<Rightarrow> pool" where
  "the_pool user m = (if user then user_pool m else kernel_pool m)"

definition set_pool :: "bool \<Rightarrow> pool \<Rightarrow> machine \<Rightarrow> machine" where
  "set_pool user pl m = (if user then m\<lparr>user_pool := pl\<rparr> else m\<lparr>kernel_pool := pl\<rparr>)"

definition palloc_get_multiple :: "nat \<Rightarrow> nat \<Rightarrow> machine \<Rightarrow> (u32 \<times> machine) option" where
  "palloc_get_multiple flags page_cnt m =
     (let user = (flags AND PAL_USER \<noteq> 0); pl = the_pool user m
      in if page_cnt = 0 then Some (0, m)
      else do {
        (page_idx, um) \<leftarrow> bitmap_scan_and_flip (used_map pl) 0 page_cnt False;
        let m = set_pool user (pl\<lparr>used_map := um\<rparr>) m;
        let pages = (if page_idx \<noteq> BITMAP_ERROR then pbase pl + of_nat (PGSIZE * page_idx) else 0);
        if pages \<noteq> 0 then
          (if flags AND PAL_ZERO \<noteq> 0 then do {
             (_, r) \<leftarrow> memset (unat pages) 0 (PGSIZE * page_cnt) (ram m);
             Some (pages, m\<lparr>ram := r\<rparr>) }
           else Some (pages, m))
        else if flags AND PAL_ASSERT \<noteq> 0 then None else Some (pages, m) })"

definition palloc_get_page :: "nat \<Rightarrow> machine \<Rightarrow> (u32 \<times> machine) option" where
  "palloc_get_page flags m = palloc_get_multiple flags 1 m"

definition page_from_pool :: "pool \<Rightarrow> u32 \<Rightarrow> bool" where
  "page_from_pool pl page \<longleftrightarrow>
     (let page_no = pg_no page; start_page = pg_no (pbase pl);
          end_page = start_page + of_nat (bitmap_size (used_map pl))
      in page_no \<ge> start_page \<and> page_no < end_page)"

definition palloc_free_multiple :: "u32 \<Rightarrow> nat \<Rightarrow> machine \<Rightarrow> machine option" where
  "palloc_free_multiple pages page_cnt m = do {
     ASSERT (pg_ofs pages = 0);
     if pages = 0 \<or> page_cnt = 0 then Some m
     else do {
       let user = (\<not> page_from_pool (kernel_pool m) pages);
       ASSERT (user \<longrightarrow> page_from_pool (user_pool m) pages);
       let pl = the_pool user m;
       let page_idx = unat (pg_no pages - pg_no (pbase pl));
       (_, r) \<leftarrow> memset (unat pages) 0xcc (PGSIZE * page_cnt) (ram m);
       a \<leftarrow> bitmap_all (used_map pl) page_idx page_cnt;
       ASSERT a;
       um \<leftarrow> bitmap_set_multiple (used_map pl) page_idx page_cnt False;
       Some (set_pool user (pl\<lparr>used_map := um\<rparr>) (m\<lparr>ram := r\<rparr>)) } }"

definition palloc_free_page :: "u32 \<Rightarrow> machine \<Rightarrow> machine option" where
  "palloc_free_page page m = palloc_free_multiple page 1 m"

section \<open>Page directories\<close>

definition ld32 :: "cmem \<Rightarrow> nat \<Rightarrow> u32" where
  "ld32 r a = un_le32 (r a) (r (a + 1)) (r (a + 2)) (r (a + 3))"

definition st32 :: "cmem \<Rightarrow> nat \<Rightarrow> u32 \<Rightarrow> cmem" where
  "st32 r a w = r(a := ucast w, a + 1 := ucast (drop_bit 8 w), a + 2 := ucast (drop_bit 16 w), a + 3 := ucast (drop_bit 24 w))"

definition pagedir_create :: "machine \<Rightarrow> (u32 \<times> machine) option" where
  "pagedir_create m = do {
     (pd, m) \<leftarrow> palloc_get_page 0 m;
     if pd \<noteq> 0 then do {
       (_, r) \<leftarrow> memcpy (unat pd) (unat (init_page_dir m)) PGSIZE (ram m);
       Some (pd, m\<lparr>ram := r\<rparr>) }
     else Some (pd, m) }"

text \<open>The loops of \<^verbatim>\<open>pagedir_destroy\<close>, over the entries of a table and over those of the directory.\<close>

fun destroy_pt :: "nat \<Rightarrow> nat \<Rightarrow> machine \<Rightarrow> machine option" where
  "destroy_pt 0 pte m = Some m"
| "destroy_pt (Suc n) pte m = do {
     let e = ld32 (ram m) pte;
     m \<leftarrow> (if e AND PTE_P \<noteq> 0 then do { p \<leftarrow> pte_get_page e; palloc_free_page p m } else Some m);
     destroy_pt n (pte + 4) m }"

fun destroy_pd :: "nat \<Rightarrow> nat \<Rightarrow> machine \<Rightarrow> machine option" where
  "destroy_pd 0 pde m = Some m"
| "destroy_pd (Suc n) pde m = do {
     let e = ld32 (ram m) pde;
     m \<leftarrow> (if e AND PTE_P \<noteq> 0 then do {
              pt \<leftarrow> pde_get_pt e;
              m \<leftarrow> destroy_pt (PGSIZE div 4) (unat pt) m;
              palloc_free_page pt m }
           else Some m);
     destroy_pd n (pde + 4) m }"

definition pagedir_destroy :: "u32 \<Rightarrow> machine \<Rightarrow> machine option" where
  "pagedir_destroy pd m =
     (if pd = 0 then Some m
      else do {
        ASSERT (pd \<noteq> init_page_dir m);
        m \<leftarrow> destroy_pd (unat (pd_no PHYS_BASE)) (unat pd) m;
        palloc_free_page pd m })"

text \<open>The address of an entry, \<open>None\<close> for the null pointer.\<close>

definition lookup_page :: "u32 \<Rightarrow> u32 \<Rightarrow> bool \<Rightarrow> machine \<Rightarrow> (nat option \<times> machine) option" where
  "lookup_page pd vaddr creat m = do {
     ASSERT (pd \<noteq> 0);
     ASSERT (\<not> creat \<or> is_user_vaddr vaddr);
     let pde = unat pd + 4 * unat (pd_no vaddr);
     if ld32 (ram m) pde = 0 then
       (if creat then do {
          (pt, m) \<leftarrow> palloc_get_page PAL_ZERO m;
          if pt = 0 then Some (None, m)
          else do {
            e \<leftarrow> pde_create pt;
            let m = m\<lparr>ram := st32 (ram m) pde e\<rparr>;
            pt \<leftarrow> pde_get_pt (ld32 (ram m) pde);
            Some (Some (unat pt + 4 * unat (pt_no vaddr)), m) } }
        else Some (None, m))
     else do {
       pt \<leftarrow> pde_get_pt (ld32 (ram m) pde);
       Some (Some (unat pt + 4 * unat (pt_no vaddr)), m) } }"

definition active_pd :: "machine \<Rightarrow> u32 option" where
  "active_pd m = ptov (cr3 m)"

definition pagedir_activate :: "u32 \<Rightarrow> machine \<Rightarrow> machine option" where
  "pagedir_activate pd m = do {
     let pd = (if pd = 0 then init_page_dir m else pd);
     p \<leftarrow> vtop pd;
     Some (m\<lparr>cr3 := p\<rparr>) }"

definition invalidate_pagedir :: "u32 \<Rightarrow> machine \<Rightarrow> machine option" where
  "invalidate_pagedir pd m = do {
     a \<leftarrow> active_pd m;
     if a = pd then pagedir_activate pd m else Some m }"

definition pagedir_set_page :: "u32 \<Rightarrow> u32 \<Rightarrow> u32 \<Rightarrow> bool \<Rightarrow> machine \<Rightarrow> (bool \<times> machine) option" where
  "pagedir_set_page pd upage kpage writable m = do {
     ASSERT (pg_ofs upage = 0);
     ASSERT (pg_ofs kpage = 0);
     ASSERT (is_user_vaddr upage);
     p \<leftarrow> vtop kpage;
     ASSERT (drop_bit 12 p < init_ram_pages m);
     ASSERT (pd \<noteq> init_page_dir m);
     (pte, m) \<leftarrow> lookup_page pd upage True m;
     case pte of
       Some a \<Rightarrow> do {
         ASSERT (ld32 (ram m) a AND PTE_P = 0);
         e \<leftarrow> pte_create_user kpage writable;
         Some (True, m\<lparr>ram := st32 (ram m) a e\<rparr>) }
     | None \<Rightarrow> Some (False, m) }"

definition pagedir_get_page :: "u32 \<Rightarrow> u32 \<Rightarrow> machine \<Rightarrow> u32 option" where
  "pagedir_get_page pd uaddr m = do {
     ASSERT (is_user_vaddr uaddr);
     (pte, m) \<leftarrow> lookup_page pd uaddr False m;
     case pte of
       Some a \<Rightarrow> (if ld32 (ram m) a AND PTE_P \<noteq> 0
         then do { p \<leftarrow> pte_get_page (ld32 (ram m) a); Some (p + pg_ofs uaddr) } else Some 0)
     | None \<Rightarrow> Some 0 }"

definition pagedir_clear_page :: "u32 \<Rightarrow> u32 \<Rightarrow> machine \<Rightarrow> machine option" where
  "pagedir_clear_page pd upage m = do {
     ASSERT (pg_ofs upage = 0);
     ASSERT (is_user_vaddr upage);
     (pte, m) \<leftarrow> lookup_page pd upage False m;
     case pte of
       Some a \<Rightarrow> (if ld32 (ram m) a AND PTE_P \<noteq> 0
         then invalidate_pagedir pd (m\<lparr>ram := st32 (ram m) a (ld32 (ram m) a AND NOT PTE_P)\<rparr>) else Some m)
     | None \<Rightarrow> Some m }"

text \<open>A flag of an entry: the dirty and the accessed bit.\<close>

definition pte_flag :: "u32 \<Rightarrow> u32 \<Rightarrow> u32 \<Rightarrow> machine \<Rightarrow> bool option" where
  "pte_flag fl pd vpage m = do {
     (pte, m) \<leftarrow> lookup_page pd vpage False m;
     case pte of Some a \<Rightarrow> Some (ld32 (ram m) a AND fl \<noteq> 0) | None \<Rightarrow> Some False }"

definition set_pte_flag :: "u32 \<Rightarrow> u32 \<Rightarrow> u32 \<Rightarrow> bool \<Rightarrow> machine \<Rightarrow> machine option" where
  "set_pte_flag fl pd vpage v m = do {
     (pte, m) \<leftarrow> lookup_page pd vpage False m;
     case pte of
       Some a \<Rightarrow> (if v then Some (m\<lparr>ram := st32 (ram m) a (ld32 (ram m) a OR fl)\<rparr>)
         else invalidate_pagedir pd (m\<lparr>ram := st32 (ram m) a (ld32 (ram m) a AND NOT fl)\<rparr>))
     | None \<Rightarrow> Some m }"

definition pagedir_is_dirty :: "u32 \<Rightarrow> u32 \<Rightarrow> machine \<Rightarrow> bool option" where
  "pagedir_is_dirty = pte_flag PTE_D"

definition pagedir_set_dirty :: "u32 \<Rightarrow> u32 \<Rightarrow> bool \<Rightarrow> machine \<Rightarrow> machine option" where
  "pagedir_set_dirty = set_pte_flag PTE_D"

definition pagedir_is_accessed :: "u32 \<Rightarrow> u32 \<Rightarrow> machine \<Rightarrow> bool option" where
  "pagedir_is_accessed = pte_flag PTE_A"

definition pagedir_set_accessed :: "u32 \<Rightarrow> u32 \<Rightarrow> bool \<Rightarrow> machine \<Rightarrow> machine option" where
  "pagedir_set_accessed = set_pte_flag PTE_A"

end
