(* ===== verification/PagingFacts.thy ===== *)
theory PagingFacts
  imports Paging
begin

text \<open>
  The page allocator hands out pages nobody has, and a page directory is a map from user pages
  to entries: \<open>pd_entry\<close> reads the entry of a page through directory and table, and every
  operation is stated by its effect on that map.
\<close>

section \<open>The pages in use\<close>

definition pool_ok :: "pool \<Rightarrow> bool" where
  "pool_ok pl \<longleftrightarrow> bm_wf (used_map pl) \<and> pg_ofs (pbase pl) = 0 \<and> pbase pl \<noteq> 0 \<and>
     unat (pbase pl) + PGSIZE * bit_cnt (used_map pl) \<le> 2 ^ 32"

definition used :: "pool \<Rightarrow> nat set" where
  "used pl = {unat (pbase pl) + PGSIZE * i | i. i < bit_cnt (used_map pl) \<and> bmap (used_map pl) i}"

definition pool_pages :: "pool \<Rightarrow> nat set" where
  "pool_pages pl = {unat (pbase pl) + PGSIZE * i | i. i < bit_cnt (used_map pl)}"

definition machine_ok :: "machine \<Rightarrow> bool" where
  "machine_ok m \<longleftrightarrow> pool_ok (kernel_pool m) \<and> pool_ok (user_pool m) \<and>
     pool_pages (kernel_pool m) \<inter> pool_pages (user_pool m) = {}"

definition in_use :: "machine \<Rightarrow> nat set" where
  "in_use m = used (kernel_pool m) \<union> used (user_pool m)"

text \<open>The \<open>n\<close> pages from address \<open>a\<close> on.\<close>

definition page_run :: "nat \<Rightarrow> nat \<Rightarrow> nat set" where
  "page_run a n = {a + PGSIZE * i | i. i < n}"

lemma pool_addr:
  assumes "pool_ok pl" "i < bit_cnt (used_map pl)"
  shows "unat (pbase pl + of_nat (PGSIZE * i)) = unat (pbase pl) + PGSIZE * i"
proof -
  have "unat (pbase pl) + PGSIZE * i < 2 ^ 32" using assms by (auto simp: pool_ok_def PGSIZE_def)
  then show ?thesis by (simp add: unat_word_ariths unat_of_nat take_bit_eq_mod mod_simps)
qed

lemma used_upd:
  assumes "bm_upd (used_map pl) um {i..<i + n} v" "i + n \<le> bit_cnt (used_map pl)"
  shows "used (pl\<lparr>used_map := um\<rparr>) =
    (if v then used pl \<union> page_run (unat (pbase pl) + PGSIZE * i) n else used pl - page_run (unat (pbase pl) + PGSIZE * i) n)"
proof -
  have r: "page_run (unat (pbase pl) + PGSIZE * i) n = {unat (pbase pl) + PGSIZE * j | j. i \<le> j \<and> j < i + n}"
  proof (intro set_eqI iffI)
    fix x assume "x \<in> page_run (unat (pbase pl) + PGSIZE * i) n"
    then obtain k where "x = unat (pbase pl) + PGSIZE * (i + k)" "k < n" by (auto simp: page_run_def algebra_simps)
    then show "x \<in> {unat (pbase pl) + PGSIZE * j | j. i \<le> j \<and> j < i + n}" by (auto intro!: exI [of _ "i + k"])
  next
    fix x assume "x \<in> {unat (pbase pl) + PGSIZE * j | j. i \<le> j \<and> j < i + n}"
    then obtain j where j: "x = unat (pbase pl) + PGSIZE * j" "i \<le> j" "j < i + n" by auto
    then obtain k where "j = i + k" using le_Suc_ex by blast
    with j show "x \<in> page_run (unat (pbase pl) + PGSIZE * i) n" by (auto simp: page_run_def algebra_simps)
  qed
  show ?thesis using assms unfolding r used_def bm_upd_def by (auto simp: PGSIZE_def)
qed

text \<open>
  An allocation returns pages that were in no use and marks exactly them, or nothing is
  available and the state stays.
\<close>

lemma palloc_get_ok:
  assumes ok: "machine_ok m" and cnt: "0 < cnt"
    and g: "palloc_get_multiple flags cnt m = Some (p, m')"
  shows "machine_ok m' \<and> init_page_dir m' = init_page_dir m \<and> init_ram_pages m' = init_ram_pages m \<and> cr3 m' = cr3 m \<and>
    (if p = 0 then m' = m
     else pg_ofs p = 0 \<and> unat p + PGSIZE * cnt \<le> 2 ^ 32 \<and>
       page_run (unat p) cnt \<inter> in_use m = {} \<and> in_use m' = in_use m \<union> page_run (unat p) cnt \<and>
       (\<forall>x. ram m' x = (if flags AND PAL_ZERO \<noteq> 0 \<and> unat p \<le> x \<and> x < unat p + PGSIZE * cnt then 0 else ram m x)))"
proof -
  define user where "user = (flags AND PAL_USER \<noteq> 0)"
  define pl where "pl = the_pool user m"
  define put where "put = (\<lambda>q. set_pool user q m)"
  have plok: "pool_ok pl" using ok by (simp add: pl_def machine_ok_def the_pool_def)
  then have wf: "bm_wf (used_map pl)" by (simp add: pool_ok_def)
  obtain i um where s: "bitmap_scan_and_flip (used_map pl) 0 cnt False = Some (i, um)"
    and r: "if \<exists>j \<ge> 0. bgroup (used_map pl) j cnt False
       then i \<noteq> BITMAP_ERROR \<and> 0 \<le> i \<and> bgroup (used_map pl) i cnt False \<and> (\<forall>j \<in> {0..<i}. \<not> bgroup (used_map pl) j cnt False) \<and>
          bm_upd (used_map pl) um {i..<i + cnt} (\<not> False)
       else i = BITMAP_ERROR \<and> um = used_map pl"
    using scan_and_flip_bmap [OF wf, of 0 cnt False] by blast
  have put: "init_page_dir (put q) = init_page_dir m" "init_ram_pages (put q) = init_ram_pages m" "cr3 (put q) = cr3 m"
    "ram (put q) = ram m" for q by (simp_all add: put_def set_pool_def)
  have g': "(let m = put (pl\<lparr>used_map := um\<rparr>);
         pages = (if i \<noteq> BITMAP_ERROR then pbase pl + of_nat (PGSIZE * i) else 0)
    in if pages \<noteq> 0 then
          (if flags AND PAL_ZERO \<noteq> 0 then do {
             (_, r) \<leftarrow> memset (unat pages) 0 (PGSIZE * cnt) (ram m);
             Some (pages, m\<lparr>ram := r\<rparr>) }
           else Some (pages, m))
        else if flags AND PAL_ASSERT \<noteq> 0 then None else Some (pages, m)) = Some (p, m')"
    using g [unfolded palloc_get_multiple_def Let_def, folded user_def, folded pl_def] cnt s
    unfolding put_def by (simp add: Let_def)
  show ?thesis
  proof (cases "i = BITMAP_ERROR")
    case True
    then have um: "um = used_map pl" using r by (auto split: if_splits)
    then have pm: "put (pl\<lparr>used_map := um\<rparr>) = m" by (simp add: put_def pl_def set_pool_def the_pool_def)
    have "p = 0 \<and> m' = m" using g' unfolding pm by (simp add: True Let_def split: if_splits)
    then show ?thesis using ok by simp
  next
    case False
    then have gr: "bgroup (used_map pl) i cnt False" and u: "bm_upd (used_map pl) um {i..<i + cnt} True"
      using r by (auto split: if_splits)
    then have ic: "i + cnt \<le> bit_cnt (used_map pl)" by (simp add: bgroup_def)
    let ?p = "pbase pl + of_nat (PGSIZE * i)"
    have pa: "unat ?p = unat (pbase pl) + PGSIZE * i" by (rule pool_addr [OF plok]) (use ic cnt in simp)
    then have pn: "?p \<noteq> 0" using plok by (metis add_eq_0_iff_both_eq_0 pool_ok_def unat_0 unat_0_iff)
    have al: "pg_ofs ?p = 0" using plok unfolding pool_ok_def pg_ofs_dvd pa by (auto simp: PGSIZE_def)
    have un: "unat ?p \<noteq> 0" using pn by (metis unat_0_iff)
    have pm: "p = ?p \<and> m' = (put (pl\<lparr>used_map := um\<rparr>))\<lparr>ram := if flags AND PAL_ZERO \<noteq> 0 then fill (ram m) (unat ?p) 0 (PGSIZE * cnt) else ram m\<rparr>"
    proof (cases "flags AND PAL_ZERO = 0")
      case True
      have id: "put q = (put q)\<lparr>ram := ram m\<rparr>" for q by (simp add: put_def set_pool_def)
      have "p = ?p \<and> m' = put (pl\<lparr>used_map := um\<rparr>)"
        using g' unfolding Let_def if_P [OF False] if_P [OF pn] by (auto simp: True)
      then show ?thesis using id [of "pl\<lparr>used_map := um\<rparr>"] True by simp
    next
      case nz: False
      show ?thesis using g' unfolding Let_def if_P [OF False] if_P [OF pn] if_P [OF nz] memset_def
        by (simp only: un put(4) ASSERT_True simp_thms Option.bind.simps prod.case option.inject prod.inject) metis
    qed
    then have p: "p = ?p" and mm: "m' = (put (pl\<lparr>used_map := um\<rparr>))\<lparr>ram := if flags AND PAL_ZERO \<noteq> 0 then fill (ram m) (unat ?p) 0 (PGSIZE * cnt) else ram m\<rparr>" by blast+
    have us: "used (pl\<lparr>used_map := um\<rparr>) = used pl \<union> page_run (unat ?p) cnt" using used_upd [OF u ic] pa by simp
    have sub: "page_run (unat ?p) cnt \<subseteq> pool_pages pl - used pl"
    proof
      fix x assume "x \<in> page_run (unat ?p) cnt"
      then obtain k where k0: "x = unat ?p + PGSIZE * k" "k < cnt" unfolding page_run_def by blast
      then have k: "k < cnt" "x = unat (pbase pl) + PGSIZE * (i + k)" unfolding pa by (simp_all add: distrib_left)
      then have "\<not> bmap (used_map pl) (i + k)" using gr by (auto simp: bgroup_def)
      then obtain n where "n < bit_cnt (used_map pl)" "x = unat (pbase pl) + PGSIZE * n" "\<not> bmap (used_map pl) n"
        using k ic by (metis add_strict_left_mono order_less_le_trans)
      then show "x \<in> pool_pages pl - used pl" by (auto simp: pool_pages_def used_def PGSIZE_def)
    qed
    have usub: "used q \<subseteq> pool_pages q" for q by (auto simp: used_def pool_pages_def)
    have dis: "page_run (unat ?p) cnt \<inter> in_use m = {}"
      using sub ok usub [of "kernel_pool m"] usub [of "user_pool m"]
      by (cases user) (auto simp: in_use_def pl_def machine_ok_def the_pool_def)
    have iu: "in_use m' = in_use m \<union> page_run (unat ?p) cnt"
      using us by (cases user) (auto simp: in_use_def mm put_def pl_def set_pool_def the_pool_def)
    have "pool_ok (pl\<lparr>used_map := um\<rparr>)" using plok u bm_upd_wf [OF u] by (simp add: pool_ok_def bm_upd_def)
    moreover have "pool_pages (pl\<lparr>used_map := um\<rparr>) = pool_pages pl" using u by (simp add: pool_pages_def bm_upd_def)
    ultimately have "machine_ok m'" using ok by (cases user) (auto simp: machine_ok_def mm put_def pl_def set_pool_def the_pool_def)
    moreover have "unat ?p + PGSIZE * cnt \<le> 2 ^ 32"
    proof -
      have "PGSIZE * i + PGSIZE * cnt \<le> PGSIZE * bit_cnt (used_map pl)" using ic by (simp flip: distrib_left)
      then show ?thesis using plok pa by (simp add: pool_ok_def)
    qed
    ultimately show ?thesis using al dis iu pn by (auto simp: p mm put fill_at)
  qed
qed


section \<open>Words in memory\<close>

lemma ld32_st32 [simp]: "ld32 (st32 r a w) a = w"
  by (simp add: ld32_def st32_def un_le32_le32)

lemma ld32_st32_other: "a + 4 \<le> b \<or> b + 4 \<le> a \<Longrightarrow> ld32 (st32 r a w) b = ld32 r b"
  by (auto simp: ld32_def st32_def)

text \<open>Entry \<open>i\<close> of the table at \<open>p\<close>.\<close>

definition ent :: "cmem \<Rightarrow> u32 \<Rightarrow> nat \<Rightarrow> u32" where
  "ent r p i = ld32 r (unat p + 4 * i)"

lemma aligned_apart:
  assumes "pg_ofs p = 0" "pg_ofs q = 0" "p \<noteq> q" "i < 1024" "j < 1024"
  shows "unat p + 4 * i + 4 \<le> unat q + 4 * j \<or> unat q + 4 * j + 4 \<le> unat p + 4 * i"
proof -
  obtain a b where a: "unat p = 4096 * a" and b: "unat q = 4096 * b" using assms(1,2) by (auto simp: pg_ofs_dvd elim!: dvdE)
  have "a \<noteq> b" using assms(3) a b by (metis unsigned_word_eqI)
  then show ?thesis using assms(4,5) unfolding a b by linarith
qed

lemma ent_store:
  assumes "pg_ofs p = 0" "pg_ofs q = 0" "i < 1024" "j < 1024"
  shows "ent (st32 r (unat p + 4 * i) w) q j = (if q = p \<and> j = i then w else ent r q j)"
proof (cases "p = q")
  case True
  then show ?thesis by (auto simp: ent_def intro: ld32_st32_other)
next
  case False
  then show ?thesis using ld32_st32_other [OF aligned_apart [OF assms(1,2) False assms(3,4)]] by (auto simp: ent_def)
qed

lemma ent_unchanged:
  assumes "\<And>x. unat p \<le> x \<Longrightarrow> x < unat p + 4096 \<Longrightarrow> r' x = r x" "i < 1024"
  shows "ent r' p i = ent r p i"
  using assms by (simp add: ent_def ld32_def)

lemma pd_no_less: "unat (pd_no va) < 1024"
proof -
  have "unat va < 2 ^ 32" using unsigned_less [of va] by simp
  then show ?thesis by (simp add: unat_pd_no)
qed

lemma pt_no_less: "unat (pt_no va) < 1024"
  by (simp add: unat_pt_no)

section \<open>The map of a page directory\<close>

definition pd_table :: "u32 \<Rightarrow> machine \<Rightarrow> nat \<Rightarrow> u32 option" where
  "pd_table pd m i = (if ent (ram m) pd i = 0 then None else pde_get_pt (ent (ram m) pd i))"

text \<open>The entry of a user page, 0 where there is no table.\<close>

definition pd_entry :: "u32 \<Rightarrow> machine \<Rightarrow> u32 \<Rightarrow> u32" where
  "pd_entry pd m va = (case pd_table pd m (unat (pd_no va)) of None \<Rightarrow> 0 | Some pt \<Rightarrow> ent (ram m) pt (unat (pt_no va)))"

definition pd_ok :: "u32 \<Rightarrow> machine \<Rightarrow> bool" where
  "pd_ok pd m \<longleftrightarrow> machine_ok m \<and> pd \<noteq> 0 \<and> pg_ofs pd = 0 \<and> unat pd \<in> in_use m \<and>
     (\<forall>i < 1024. ent (ram m) pd i \<noteq> 0 \<longrightarrow>
        (\<exists>pt. pd_table pd m i = Some pt \<and> pg_ofs pt = 0 \<and> pt \<noteq> pd \<and> unat pt \<in> in_use m)) \<and>
     (\<forall>i < 1024. \<forall>j < 1024. pd_table pd m i \<noteq> None \<longrightarrow> pd_table pd m i = pd_table pd m j \<longrightarrow> i = j)"

lemma pd_tableD:
  assumes "pd_ok pd m" "pd_table pd m i = Some pt" "i < 1024"
  shows "pg_ofs pt = 0" "pt \<noteq> pd" "unat pt \<in> in_use m"
  using assms by (auto simp: pd_ok_def pd_table_def split: if_splits)

text \<open>Storing a word in a page table changes that entry only.\<close>

lemma store_entry:
  fixes w :: u32
  assumes ok: "pd_ok pd m" and pt: "pd_table pd m (unat (pd_no va)) = Some pt"
  defines "m' \<equiv> m\<lparr>ram := st32 (ram m) (unat pt + 4 * unat (pt_no va)) w\<rparr>"
  shows "pd_ok pd m'" "pd_entry pd m' vb = (if pd_no vb = pd_no va \<and> pt_no vb = pt_no va then w else pd_entry pd m vb)"
proof -
  note d = pd_tableD [OF ok pt pd_no_less]
  have pda: "pg_ofs pd = 0" using ok by (simp add: pd_ok_def)
  have e: "ent (ram m') pd i = ent (ram m) pd i" if "i < 1024" for i
    using ent_store [OF d(1) pda pt_no_less that] d(2) by (simp add: m'_def)
  have t: "pd_table pd m' i = pd_table pd m i" if "i < 1024" for i using e [OF that] by (simp add: pd_table_def)
  have mo: "machine_ok m' = machine_ok m" "in_use m' = in_use m" by (simp_all add: m'_def machine_ok_def in_use_def)
  show "pd_ok pd m'" using ok e t mo by (auto simp: pd_ok_def)
  show "pd_entry pd m' vb = (if pd_no vb = pd_no va \<and> pt_no vb = pt_no va then w else pd_entry pd m vb)"
  proof (cases "pd_table pd m (unat (pd_no vb))")
    case None
    then have "pd_no vb \<noteq> pd_no va" using pt by auto
    then show ?thesis using None t [OF pd_no_less [of vb]] by (simp add: pd_entry_def)
  next
    case (Some q)
    note dq = pd_tableD [OF ok Some pd_no_less]
    have "q = pt \<longleftrightarrow> pd_no vb = pd_no va"
    proof
      assume "q = pt"
      then have "unat (pd_no vb) = unat (pd_no va)" using ok pd_no_less Some pt unfolding pd_ok_def by (metis option.distinct(1))
      then show "pd_no vb = pd_no va" by (rule unsigned_word_eqI)
    qed (use Some pt in auto)
    moreover have "unat (pt_no vb) = unat (pt_no va) \<longleftrightarrow> pt_no vb = pt_no va" by (auto intro: unsigned_word_eqI)
    ultimately show ?thesis
      using Some t [OF pd_no_less [of vb]] ent_store [OF d(1) dq(1) pt_no_less pt_no_less, of "ram m" va w vb]
      by (simp add: pd_entry_def m'_def)
  qed
qed


text \<open>A failed or successful search; with \<open>creat\<close> a missing table is added, all of whose entries are 0.\<close>

lemma page_num:
  assumes "pg_ofs p = 0" "unat p \<le> x" "x < unat p + 4096" "pg_ofs q = 0" "unat q \<le> x" "x < unat q + 4096"
  shows "p = q"
proof -
  obtain a b where a: "unat p = 4096 * a" and b: "unat q = 4096 * b" using assms(1,4) by (auto simp: pg_ofs_dvd elim!: dvdE)
  then have "a = b" using assms by linarith
  then show ?thesis using a b by (metis unsigned_word_eqI)
qed

lemma lookup_found:
  assumes "pd_ok pd m" "pd_table pd m (unat (pd_no va)) = Some pt" "creat \<longrightarrow> is_user_vaddr va"
  shows "lookup_page pd va creat m = Some (Some (unat pt + 4 * unat (pt_no va)), m)"
  using assms by (auto simp: lookup_page_def pd_ok_def pd_table_def ent_def Let_def split: if_splits)

lemma lookup_missing:
  assumes "pd_ok pd m" "pd_table pd m (unat (pd_no va)) = None"
  shows "lookup_page pd va False m = Some (None, m)"
proof -
  have "ent (ram m) pd (unat (pd_no va)) = 0"
    using assms pd_no_less [of va] unfolding pd_ok_def by (metis option.distinct(1))
  then show ?thesis using assms(1) by (simp add: lookup_page_def pd_ok_def ent_def Let_def)
qed

lemma kernel_page:
  assumes "machine_ok m" "unat p \<in> in_use m" "unat (pbase (kernel_pool m)) \<ge> unat PHYS_BASE" "unat (pbase (user_pool m)) \<ge> unat PHYS_BASE"
  shows "p \<ge> PHYS_BASE"
  using assms by (auto simp: in_use_def used_def word_le_nat_alt)

lemma lookup_creates:
  assumes ok: "pd_ok pd m" and none: "pd_table pd m (unat (pd_no va)) = None" and u: "is_user_vaddr va"
    and base: "pbase (kernel_pool m) \<ge> PHYS_BASE" "pbase (user_pool m) \<ge> PHYS_BASE"
    and l: "lookup_page pd va True m = Some (a, m')"
  shows "pd_ok pd m' \<and> init_page_dir m' = init_page_dir m \<and> init_ram_pages m' = init_ram_pages m \<and>
    (\<forall>vb. pd_entry pd m' vb = pd_entry pd m vb) \<and>
    (case a of None \<Rightarrow> m' = m
     | Some x \<Rightarrow> \<exists>pt. pd_table pd m' (unat (pd_no va)) = Some pt \<and> x = unat pt + 4 * unat (pt_no va))"
proof -
  let ?i = "unat (pd_no va)"
  have pd: "pd \<noteq> 0" "pg_ofs pd = 0" "machine_ok m" "unat pd \<in> in_use m" using ok by (simp_all add: pd_ok_def)
  have z: "ent (ram m) pd ?i = 0" using ok none pd_no_less [of va] unfolding pd_ok_def by (metis option.distinct(1))
  obtain pt m1 where g: "palloc_get_multiple PAL_ZERO 1 m = Some (pt, m1)"
    using l u z pd(1) by (cases "palloc_get_multiple PAL_ZERO 1 m")
      (auto simp: lookup_page_def ent_def Let_def palloc_get_page_def)
  note p = palloc_get_ok [OF pd(3) zero_less_one g]
  show ?thesis
  proof (cases "pt = 0")
    case True
    then have "m1 = m" using p by simp
    then have "a = None \<and> m' = m" using l u z pd(1) g True by (simp add: lookup_page_def ent_def Let_def palloc_get_page_def)
    then show ?thesis using ok by simp
  next
    case False
    then have al: "pg_ofs pt = 0" and fresh: "unat pt \<notin> in_use m" and iu: "in_use m1 = insert (unat pt) (in_use m)"
      and r1: "\<forall>x. ram m1 x = (if unat pt \<le> x \<and> x < unat pt + 4096 then 0 else ram m x)" and mo: "machine_ok m1"
      and cs: "init_page_dir m1 = init_page_dir m" "init_ram_pages m1 = init_ram_pages m"
      using p by (auto simp: page_run_def PAL_ZERO_def PGSIZE_def)
    have ge: "pt \<ge> PHYS_BASE"
    proof (rule kernel_page [OF mo])
      show "unat pt \<in> in_use m1" using iu by simp
      have "pbase (kernel_pool m1) = pbase (kernel_pool m)" "pbase (user_pool m1) = pbase (user_pool m)"
        using g by (auto simp: palloc_get_multiple_def Let_def set_pool_def the_pool_def memset_def split: if_splits Option.bind_splits)
      then show "unat (pbase (kernel_pool m1)) \<ge> unat PHYS_BASE" "unat (pbase (user_pool m1)) \<ge> unat PHYS_BASE"
        using base by (simp_all add: word_le_nat_alt)
    qed
    obtain e where e: "pde_create pt = Some e" "pde_get_pt e = Some pt" "e \<noteq> 0" by (rule pde_roundtrip [OF al ge])
    let ?m = "m1\<lparr>ram := st32 (ram m1) (unat pd + 4 * ?i) e\<rparr>"
    have res: "a = Some (unat pt + 4 * unat (pt_no va))" "m' = ?m"
      using l u z pd(1) g False e by (simp_all add: lookup_page_def ent_def Let_def palloc_get_page_def)
    have keep: "ent (ram m1) q j = ent (ram m) q j" if "pg_ofs q = 0" "q \<noteq> pt" "j < 1024" for q j
      by (rule ent_unchanged) (use r1 page_num [OF al _ _ that(1)] that in auto)
    have ptpd: "pt \<noteq> pd" using fresh pd(4) by auto
    have zero: "ent (ram m1) pt j = 0" if "j < 1024" for j
      using r1 that by (simp add: ent_def ld32_def un_le32_def)
    have st: "ent (ram ?m) q j = (if q = pd \<and> j = ?i then e else ent (ram m1) q j)" if "pg_ofs q = 0" "j < 1024" for q j
      using ent_store [OF pd(2) that(1) pd_no_less that(2)] by simp
    have tab: "pd_table pd ?m j = (if j = ?i then Some pt else pd_table pd m j)" if "j < 1024" for j
      using st [OF pd(2) that] keep [OF pd(2) _ that] ptpd e by (auto simp: pd_table_def)
    have okm: "pd_ok pd ?m"
    proof -
      have old: "q \<noteq> pt" if "pd_table pd m j = Some q" "j < 1024" for j q using pd_tableD(3) [OF ok that] fresh by auto
      have "machine_ok ?m" "in_use ?m = in_use m1" using mo by (simp_all add: machine_ok_def in_use_def)
      moreover have "\<exists>q. pd_table pd ?m j = Some q \<and> pg_ofs q = 0 \<and> q \<noteq> pd \<and> unat q \<in> in_use m1"
        if "j < 1024" "ent (ram ?m) pd j \<noteq> 0" for j
      proof (cases "j = ?i")
        case True
        then show ?thesis using tab [OF that(1)] al ptpd iu by simp
      next
        case False
        then have "ent (ram m) pd j \<noteq> 0" using that st [OF pd(2) that(1)] keep [OF pd(2) _ that(1)] ptpd by auto
        then show ?thesis using ok tab [OF that(1)] False that(1) iu by (auto simp: pd_ok_def)
      qed
      moreover have "i = j" if "i < 1024" "j < 1024" "pd_table pd ?m i \<noteq> None" "pd_table pd ?m i = pd_table pd ?m j" for i j
      proof (cases "i = ?i \<or> j = ?i")
        case True
        then show ?thesis using that tab old by (auto split: if_splits) metis
      next
        case False
        then have "pd_table pd m i \<noteq> None" "pd_table pd m i = pd_table pd m j" using that tab by auto
        then show ?thesis using ok that(1,2) unfolding pd_ok_def by blast
      qed
      ultimately show ?thesis using pd iu unfolding pd_ok_def by blast
    qed
    have "pd_entry pd ?m vb = pd_entry pd m vb" for vb
    proof (cases "pd_no vb = pd_no va")
      case True
      then show ?thesis using tab [OF pd_no_less [of vb]] none zero st [OF al pt_no_less [of vb]] ptpd pt_no_less [of vb]
        by (simp add: pd_entry_def)
    next
      case False
      then have n: "unat (pd_no vb) \<noteq> ?i" by (metis unsigned_word_eqI)
      show ?thesis
      proof (cases "pd_table pd m (unat (pd_no vb))")
        case None
        then show ?thesis using tab [OF pd_no_less [of vb]] n by (simp add: pd_entry_def)
      next
        case (Some q)
        note dq = pd_tableD [OF ok Some pd_no_less]
        have "q \<noteq> pt" using dq(3) fresh by auto
        then show ?thesis using tab [OF pd_no_less [of vb]] n Some st [OF dq(1) pt_no_less [of vb]] dq(2) keep [OF dq(1) _ pt_no_less [of vb]]
          by (simp add: pd_entry_def)
      qed
    qed
    then show ?thesis using okm cs tab [OF pd_no_less [of va]] by (simp add: res)
  qed
qed

lemma palloc_returns:
  assumes ok: "machine_ok m" and f: "flags AND PAL_ASSERT = 0"
  shows "\<exists>p m'. palloc_get_multiple flags cnt m = Some (p, m')"
proof -
  have "bm_wf (used_map (the_pool u m))" for u using ok by (simp add: the_pool_def machine_ok_def pool_ok_def)
  then obtain i um where "bitmap_scan_and_flip (used_map (the_pool (flags AND PAL_USER \<noteq> 0) m)) 0 cnt False = Some (i, um)"
    using scan_and_flip_bmap [of "used_map (the_pool (flags AND PAL_USER \<noteq> 0) m)" 0 cnt False] by blast
  then show ?thesis using f by (auto simp: palloc_get_multiple_def Let_def memset_def unat_eq_zero)
qed

lemma table_None:
  "pd_ok pd m \<Longrightarrow> pd_table pd m (unat (pd_no va)) = None \<Longrightarrow> ld32 (ram m) (unat pd + 4 * unat (pd_no va)) = 0"
  using pd_no_less [of va] unfolding pd_ok_def by (metis ent_def option.distinct(1))

text \<open>Every page table operation finds its entry.\<close>

definition pools_high :: "machine \<Rightarrow> bool" where
  "pools_high m \<longleftrightarrow> pbase (kernel_pool m) \<ge> PHYS_BASE \<and> pbase (user_pool m) \<ge> PHYS_BASE"

lemma lookup_create_ok:
  assumes ok: "pd_ok pd m" and u: "is_user_vaddr va" and h: "pools_high m"
  obtains a m' where "lookup_page pd va True m = Some (a, m')" "pd_ok pd m'" "init_page_dir m' = init_page_dir m"
    "init_ram_pages m' = init_ram_pages m" "\<And>vb. pd_entry pd m' vb = pd_entry pd m vb"
    "case a of None \<Rightarrow> m' = m \<and> pd_table pd m (unat (pd_no va)) = None
     | Some x \<Rightarrow> \<exists>pt. pd_table pd m' (unat (pd_no va)) = Some pt \<and> x = unat pt + 4 * unat (pt_no va)"
proof (cases "pd_table pd m (unat (pd_no va))")
  case (Some pt)
  have "lookup_page pd va True m = Some (Some (unat pt + 4 * unat (pt_no va)), m)"
    by (rule lookup_found [OF ok Some]) (simp add: u)
  then show ?thesis using that [of "Some (unat pt + 4 * unat (pt_no va))" m] ok Some by simp
next
  case None
  obtain p m1 where g: "palloc_get_multiple PAL_ZERO 1 m = Some (p, m1)"
    using palloc_returns [of m PAL_ZERO 1] ok by (auto simp: pd_ok_def PAL_ZERO_def PAL_ASSERT_def)
  have "\<exists>a m'. lookup_page pd va True m = Some (a, m')"
  proof (cases "p = 0")
    case True
    then show ?thesis using g table_None [OF ok None] ok u
      by (auto simp: lookup_page_def Let_def palloc_get_page_def pd_ok_def)
  next
    case False
    have mo: "machine_ok m" using ok by (simp add: pd_ok_def)
    note p = palloc_get_ok [OF mo zero_less_one g]
    have b: "pbase (kernel_pool m1) = pbase (kernel_pool m)" "pbase (user_pool m1) = pbase (user_pool m)"
      using g by (auto simp: palloc_get_multiple_def Let_def set_pool_def the_pool_def memset_def split: if_splits Option.bind_splits)
    have "p \<ge> PHYS_BASE"
      by (rule kernel_page [of m1]) (use p h False b in \<open>auto simp: page_run_def pools_high_def word_le_nat_alt\<close>)
    with p False obtain e where "pde_create p = Some e" "pde_get_pt e = Some p" by (auto elim: pde_roundtrip)
    then show ?thesis using g False table_None [OF ok None] ok u
      by (auto simp: lookup_page_def Let_def palloc_get_page_def pd_ok_def)
  qed
  then obtain a m' where l: "lookup_page pd va True m = Some (a, m')" by blast
  have b: "pbase (kernel_pool m) \<ge> PHYS_BASE" "pbase (user_pool m) \<ge> PHYS_BASE" using h by (auto simp: pools_high_def)
  note c = lookup_creates [OF ok None u b l]
  show ?thesis by (rule that [OF l]) (use c None in \<open>auto split: option.splits\<close>)
qed

text \<open>\<open>pagedir_set_page\<close> adds one mapping, or finds no memory for a table and changes nothing.\<close>

lemma set_page_ok:
  assumes ok: "pd_ok pd m" and h: "pools_high m" and pd: "pd \<noteq> init_page_dir m"
    and up: "pg_ofs upage = 0" "is_user_vaddr upage" and kp: "pg_ofs kpage = 0" "kpage \<ge> PHYS_BASE"
      "drop_bit 12 (kpage - PHYS_BASE) < init_ram_pages m"
    and new: "pd_entry pd m upage AND PTE_P = 0"
  shows "\<exists>b m' e. pagedir_set_page pd upage kpage w m = Some (b, m') \<and> pd_ok pd m' \<and> pte_create_user kpage w = Some e \<and>
    (\<forall>va. pg_ofs va = 0 \<longrightarrow> pd_entry pd m' va = (if b \<and> va = upage then e else pd_entry pd m va)) \<and>
    (\<not> b \<longrightarrow> m' = m \<and> pd_table pd m (unat (pd_no upage)) = None)"
proof -
  obtain a m1 where l: "lookup_page pd upage True m = Some (a, m1)" "pd_ok pd m1"
    "init_page_dir m1 = init_page_dir m" "init_ram_pages m1 = init_ram_pages m" "\<And>vb. pd_entry pd m1 vb = pd_entry pd m vb"
    "case a of None \<Rightarrow> m1 = m \<and> pd_table pd m (unat (pd_no upage)) = None
     | Some x \<Rightarrow> \<exists>pt. pd_table pd m1 (unat (pd_no upage)) = Some pt \<and> x = unat pt + 4 * unat (pt_no upage)"
    by (rule lookup_create_ok [OF ok up(2) h]) blast
  obtain e where e: "pte_create_user kpage w = Some e" using pte_roundtrip [OF kp(1,2), of w] by metis
  show ?thesis
  proof (cases a)
    case None
    then have m1: "m1 = m" using l(6) by simp
    have "pagedir_set_page pd upage kpage w m = Some (False, m)"
      using l(1) None m1 up kp pd by (simp add: pagedir_set_page_def vtop_def is_kernel_vaddr_def)
    then show ?thesis using ok e l(6) None by (intro exI [of _ False] exI [of _ m] exI [of _ e]) simp
  next
    case (Some x)
    then obtain pt where pt: "pd_table pd m1 (unat (pd_no upage)) = Some pt" "x = unat pt + 4 * unat (pt_no upage)"
      using l(6) by auto
    have cur: "ld32 (ram m1) x = pd_entry pd m upage" using pt l(5) [of upage] by (simp add: pd_entry_def ent_def)
    let ?m = "m1\<lparr>ram := st32 (ram m1) x e\<rparr>"
    have "pagedir_set_page pd upage kpage w m = Some (True, ?m)"
      using l(1) up kp pd Some cur new e by (simp add: pagedir_set_page_def vtop_def is_kernel_vaddr_def)
    moreover have "pd_ok pd ?m" using store_entry(1) [OF l(2) pt(1), of e] pt(2) by simp
    moreover have "pd_entry pd ?m va = (if va = upage then e else pd_entry pd m va)" if "pg_ofs va = 0" for va
      using store_entry(2) [OF l(2) pt(1), of e va] pt(2) l(5) [of va] page_indices [OF that up(1)] by auto
    ultimately show ?thesis using e by auto
  qed
qed

lemma lookup_entry:
  assumes "pd_ok pd m"
  obtains "lookup_page pd va False m = Some (None, m)" "pd_entry pd m va = 0" "pd_table pd m (unat (pd_no va)) = None"
  | pt where "lookup_page pd va False m = Some (Some (unat pt + 4 * unat (pt_no va)), m)"
    "pd_table pd m (unat (pd_no va)) = Some pt" "ld32 (ram m) (unat pt + 4 * unat (pt_no va)) = pd_entry pd m va"
proof (cases "pd_table pd m (unat (pd_no va))")
  case None
  then show ?thesis using that(1) lookup_missing [OF assms] by (simp add: pd_entry_def)
next
  case (Some pt)
  then show ?thesis using that(2) [of pt] lookup_found [OF assms Some] by (simp add: pd_entry_def ent_def)
qed

lemma get_page_ok:
  assumes "pd_ok pd m" "is_user_vaddr va"
  shows "pagedir_get_page pd va m =
    (if pd_entry pd m va AND PTE_P = 0 then Some 0
     else do { p \<leftarrow> pte_get_page (pd_entry pd m va); Some (p + pg_ofs va) })"
  by (rule lookup_entry [OF assms(1), of va]) (use assms(2) in \<open>auto simp: pagedir_get_page_def\<close>)

lemma pte_flag_ok: "pd_ok pd m \<Longrightarrow> pte_flag fl pd va m = Some (pd_entry pd m va AND fl \<noteq> 0)"
  by (rule lookup_entry [of pd m va]) (auto simp: pte_flag_def)

text \<open>Re-activating the directory changes no memory.\<close>

lemma invalidate_ok:
  assumes "cr3 m < PHYS_BASE" "pd \<ge> PHYS_BASE"
  obtains c where "invalidate_pagedir pd m = Some (m\<lparr>cr3 := c\<rparr>)" "c < PHYS_BASE"
proof -
  have pd0: "pd \<noteq> 0" using assms(2) by (auto simp: PHYS_BASE_def)
  show ?thesis
  proof (cases "cr3 m + PHYS_BASE = pd")
    case True
    have "pd - PHYS_BASE = cr3 m" using True by (simp add: algebra_simps)
    then have "invalidate_pagedir pd m = Some (m\<lparr>cr3 := cr3 m\<rparr>)"
      using assms True pd0 by (simp add: invalidate_pagedir_def active_pd_def ptov_def pagedir_activate_def vtop_def is_kernel_vaddr_def)
    then show ?thesis using that assms(1) by blast
  next
    case False
    then have "invalidate_pagedir pd m = Some (m\<lparr>cr3 := cr3 m\<rparr>)"
      using assms by (simp add: invalidate_pagedir_def active_pd_def ptov_def)
    then show ?thesis using that assms(1) by blast
  qed
qed

lemma pd_cr3 [simp]: "pd_ok pd (m\<lparr>cr3 := c\<rparr>) = pd_ok pd m" "pd_entry pd (m\<lparr>cr3 := c\<rparr>) va = pd_entry pd m va"
  by (simp_all add: pd_ok_def machine_ok_def in_use_def pd_table_def pd_entry_def split: option.split)

lemma clear_page_ok:
  assumes ok: "pd_ok pd m" and up: "pg_ofs upage = 0" "is_user_vaddr upage" and c: "cr3 m < PHYS_BASE" and pdh: "pd \<ge> PHYS_BASE"
  shows "\<exists>m'. pagedir_clear_page pd upage m = Some m' \<and> pd_ok pd m' \<and>
    (\<forall>va. pg_ofs va = 0 \<longrightarrow> pd_entry pd m' va = (if va = upage then pd_entry pd m va AND NOT PTE_P else pd_entry pd m va))"
proof (rule lookup_entry [OF ok, of upage])
  assume "lookup_page pd upage False m = Some (None, m)" "pd_entry pd m upage = 0"
  then show ?thesis using ok up by (auto simp: pagedir_clear_page_def)
next
  fix pt
  assume pt: "lookup_page pd upage False m = Some (Some (unat pt + 4 * unat (pt_no upage)), m)"
    "pd_table pd m (unat (pd_no upage)) = Some pt" "ld32 (ram m) (unat pt + 4 * unat (pt_no upage)) = pd_entry pd m upage"
  let ?m = "m\<lparr>ram := st32 (ram m) (unat pt + 4 * unat (pt_no upage)) (pd_entry pd m upage AND NOT PTE_P)\<rparr>"
  show ?thesis
  proof (cases "pd_entry pd m upage AND PTE_P = 0")
    case True
    have "pd_entry pd m upage AND NOT PTE_P = pd_entry pd m upage"
    proof (rule bit_word_eqI)
      fix k assume k: "k < LENGTH(32)"
      have "\<not> bit (pd_entry pd m upage AND PTE_P) k" using True by simp
      then show "bit (pd_entry pd m upage AND NOT PTE_P) k = bit (pd_entry pd m upage) k"
        using k unfolding bit_and_iff bit_not_iff by auto
    qed
    then show ?thesis using pt ok up True by (auto simp: pagedir_clear_page_def)
  next
    case False
    obtain c' where c': "invalidate_pagedir pd ?m = Some (?m\<lparr>cr3 := c'\<rparr>)" using invalidate_ok [of ?m pd] c pdh by auto
    have "pagedir_clear_page pd upage m = Some (?m\<lparr>cr3 := c'\<rparr>)" using pt up False c' by (simp add: pagedir_clear_page_def)
    moreover have "pd_ok pd ?m" by (rule store_entry(1) [OF ok pt(2)])
    moreover have "pd_entry pd ?m va = (if va = upage then pd_entry pd m va AND NOT PTE_P else pd_entry pd m va)" if "pg_ofs va = 0" for va
      using store_entry(2) [OF ok pt(2), of _ va] page_indices [OF that up(1)] by auto
    ultimately show ?thesis by simp
  qed
qed

section \<open>Releasing pages\<close>

lemma unat_pg_no: "unat (pg_no va) = unat va div 4096"
  unfolding pg_no_def unat_drop_bit_eq by (simp add: drop_bit_eq_div)

lemma from_pool:
  assumes ok: "pool_ok pl" and p: "pg_ofs p = 0"
  shows "page_from_pool pl p \<longleftrightarrow> unat p \<in> pool_pages pl"
proof -
  let ?n = "bit_cnt (used_map pl)"
  obtain a where a: "unat p = 4096 * a" using p by (auto simp: pg_ofs_dvd elim: dvdE)
  obtain b where b: "unat (pbase pl) = 4096 * b" using ok by (auto simp: pool_ok_def pg_ofs_dvd elim: dvdE)
  have n: "b + ?n \<le> 2 ^ 20" using ok unfolding pool_ok_def b PGSIZE_def by simp
  have e: "unat (pg_no (pbase pl) + of_nat ?n) = b + ?n"
    using n by (simp add: unat_word_ariths unat_pg_no b unat_of_nat take_bit_eq_mod mod_simps)
  have "page_from_pool pl p \<longleftrightarrow> b \<le> a \<and> a < b + ?n"
    unfolding page_from_pool_def Let_def word_le_nat_alt word_less_nat_alt bitmap_size_def e by (simp add: unat_pg_no a b)
  also have "\<dots> \<longleftrightarrow> (\<exists>i < ?n. a = b + i)" by (auto simp: le_iff_add)
  also have "\<dots> \<longleftrightarrow> unat p \<in> pool_pages pl" by (auto simp: pool_pages_def PGSIZE_def a b)
  finally show ?thesis .
qed

text \<open>Pages of one pool that are in use become available, filled with \<open>0xcc\<close>.\<close>

lemma palloc_free_ok:
  assumes ok: "machine_ok m" and p: "p = pbase pl + of_nat (PGSIZE * i)" and pl: "pl = the_pool user m"
    and i: "i + cnt \<le> bit_cnt (used_map pl)" "0 < cnt" and b: "\<forall>k \<in> {i..<i + cnt}. bmap (used_map pl) k"
  shows "\<exists>m'. palloc_free_multiple p cnt m = Some m' \<and> machine_ok m' \<and> in_use m' = in_use m - page_run (unat p) cnt \<and>
    (\<forall>x. ram m' x = (if unat p \<le> x \<and> x < unat p + PGSIZE * cnt then 0xcc else ram m x))"
proof -
  have plok: "pool_ok pl" and wf: "bm_wf (used_map pl)" using ok by (auto simp: pl machine_ok_def the_pool_def pool_ok_def)
  have pa: "unat p = unat (pbase pl) + PGSIZE * i" unfolding p by (rule pool_addr [OF plok]) (use i in simp)
  have al: "pg_ofs p = 0" using plok unfolding pool_ok_def pg_ofs_dvd pa by (auto simp: PGSIZE_def)
  have pn: "p \<noteq> 0" using plok pa by (metis add_eq_0_iff_both_eq_0 pool_ok_def unat_0 unat_0_iff)
  have mem: "unat p \<in> pool_pages pl" using i unfolding pa pool_pages_def by auto
  have fp: "page_from_pool (kernel_pool m) p = (\<not> user)" "user \<longrightarrow> page_from_pool (user_pool m) p"
    using ok mem from_pool [of "kernel_pool m" p] from_pool [of "user_pool m" p] al
    by (auto simp: machine_ok_def pl the_pool_def split: if_splits)
  have idx: "unat (pg_no p - pg_no (pbase pl)) = i"
  proof -
    have "unat (pg_no p) = unat (pg_no (pbase pl)) + i" using plok
      by (auto simp: unat_pg_no pa PGSIZE_def pool_ok_def pg_ofs_dvd elim: dvdE)
    then show ?thesis by (simp add: unat_sub word_le_nat_alt)
  qed
  have all: "bitmap_all (used_map pl) i cnt = Some True" using all_bmap [OF wf i(1)] b by simp
  obtain um where um: "bitmap_set_multiple (used_map pl) i cnt False = Some um" "bm_upd (used_map pl) um {i..<i + cnt} False"
    using set_multiple_bmap [OF wf i(1)] by blast
  let ?m = "set_pool user (pl\<lparr>used_map := um\<rparr>) (m\<lparr>ram := fill (ram m) (unat p) 0xcc (PGSIZE * cnt)\<rparr>)"
  have res: "palloc_free_multiple p cnt m = Some ?m"
    using al pn i(2) fp all um(1) by (simp add: palloc_free_multiple_def Let_def pl [symmetric] idx memset_def unat_eq_zero)
  have us: "used (pl\<lparr>used_map := um\<rparr>) = used pl - page_run (unat p) cnt" using used_upd [OF um(2) i(1)] pa by simp
  have run: "page_run (unat p) cnt \<subseteq> pool_pages pl"
  proof
    fix x assume "x \<in> page_run (unat p) cnt"
    then obtain k where "x = unat p + PGSIZE * k" "k < cnt" unfolding page_run_def by blast
    then have "x = unat (pbase pl) + PGSIZE * (i + k)" "i + k < bit_cnt (used_map pl)" using i unfolding pa by (simp_all add: distrib_left)
    then show "x \<in> pool_pages pl" unfolding pool_pages_def by blast
  qed
  have sub: "used q \<subseteq> pool_pages q" for q by (auto simp: used_def pool_pages_def)
  have "in_use ?m = in_use m - page_run (unat p) cnt"
    using us run sub [of "kernel_pool m"] sub [of "user_pool m"] ok
    by (cases user) (auto simp: in_use_def set_pool_def pl the_pool_def machine_ok_def)
  moreover have "machine_ok ?m"
  proof -
    have "pool_ok (pl\<lparr>used_map := um\<rparr>)" using plok um(2) bm_upd_wf [OF um(2)] by (simp add: pool_ok_def bm_upd_def)
    moreover have "pool_pages (pl\<lparr>used_map := um\<rparr>) = pool_pages pl" using um(2) by (simp add: pool_pages_def bm_upd_def)
    ultimately show ?thesis using ok by (cases user) (auto simp: machine_ok_def set_pool_def pl the_pool_def)
  qed
  ultimately show ?thesis using res by (cases user) (auto simp: set_pool_def fill_at)
qed

end
