(* ===== verification/Frame.thy ===== *)
theory Frame
  imports Supt Swap PagingFacts
begin

text \<open>
  \<^verbatim>\<open>vm/frame.c\<close>: the frames that hold user pages, found by kernel page in a hash table, kept
  in a list for the clock, and evicted to swap. The state has the page tables and memory, the
  swap device and the page tables of all threads. Entries live at addresses in a store
  (\<open>ftes\<close>); the addresses of \<open>malloc\<close> and of stack temporaries are arguments. \<open>frame_lock\<close> serialises
  these functions and is not modelled.
\<close>

section \<open>State\<close>

record fte =
  fkpage :: u32
  fupage :: u32
  fthread :: "nat option"
  pinned :: bool

text \<open>The clock pointer: null, the tail of the list, or a list element.\<close>

datatype cptr = CNull | CEnd | CElem ptr

record vmem =
  frame_map :: "ptr htable"
  frame_list :: "ptr list"
  clock_ptr :: cptr
  ftes :: "ptr \<Rightarrow> fte"
  mach :: machine
  swp :: swap
  supts :: "nat \<Rightarrow> supt"
  pagedirs :: "nat \<Rightarrow> u32"
  running :: nat

definition frame_hash_func :: "(ptr \<Rightarrow> fte) \<Rightarrow> ptr \<Rightarrow> u32" where
  "frame_hash_func s e = hash_bytes (le32 (fkpage (s e)))"

definition frame_less_func :: "(ptr \<Rightarrow> fte) \<Rightarrow> ptr \<Rightarrow> ptr \<Rightarrow> bool" where
  "frame_less_func s a b \<longleftrightarrow> fkpage (s a) < fkpage (s b)"

definition page_bytes :: "u32 \<Rightarrow> machine \<Rightarrow> byte list" where
  "page_bytes p m = map (ram m) [unat p..<unat p + PGSIZE]"

section \<open>Operations\<close>

definition vm_frame_init :: "bool \<Rightarrow> vmem \<Rightarrow> vmem option" where
  "vm_frame_init mem v = do {
     h \<leftarrow> hash_init mem;
     Some (v\<lparr>frame_map := h, frame_list := [], clock_ptr := CNull\<rparr>) }"

definition frame_lookup :: "ptr \<Rightarrow> u32 \<Rightarrow> vmem \<Rightarrow> ptr option" where
  "frame_lookup tmp kp v =
     (let s = (ftes v)(tmp := (ftes v tmp)\<lparr>fkpage := kp\<rparr>)
      in hash_find (frame_hash_func s) (frame_less_func s) (frame_map v) tmp)"

definition vm_frame_do_free :: "(nat \<Rightarrow> bool) \<Rightarrow> ptr \<Rightarrow> u32 \<Rightarrow> bool \<Rightarrow> vmem \<Rightarrow> vmem option" where
  "vm_frame_do_free mem tmp kp free_page v = do {
     ASSERT (is_kernel_vaddr kp);
     ASSERT (pg_ofs kp = 0);
     f \<leftarrow> frame_lookup tmp kp v;
     let (_, h) = hash_delete (frame_hash_func (ftes v)) (frame_less_func (ftes v)) mem (frame_map v) f;
     let v = v\<lparr>frame_map := h, frame_list := remove1 f (frame_list v)\<rparr>;
     if free_page then do {
       m \<leftarrow> palloc_free_page kp (mach v);
       Some (v\<lparr>mach := m\<rparr>) }
     else Some v }"

definition vm_frame_free :: "(nat \<Rightarrow> bool) \<Rightarrow> ptr \<Rightarrow> u32 \<Rightarrow> vmem \<Rightarrow> vmem option" where
  "vm_frame_free mem tmp kp v = vm_frame_do_free mem tmp kp True v"

definition vm_frame_remove_entry :: "(nat \<Rightarrow> bool) \<Rightarrow> ptr \<Rightarrow> u32 \<Rightarrow> vmem \<Rightarrow> vmem option" where
  "vm_frame_remove_entry mem tmp kp v = vm_frame_do_free mem tmp kp False v"

text \<open>
  The successor of an element; an element that is no longer in the list has none to follow.
  The clock does not step over the tail: the entry read there is the memory around the tail
  of the list, the argument \<open>junk\<close>.
\<close>

fun after :: "ptr list \<Rightarrow> ptr \<Rightarrow> cptr option" where
  "after [] p = None"
| "after [x] p = (if x = p then Some CEnd else None)"
| "after (x # y # r) p = (if x = p then Some (CElem y) else after (y # r) p)"

definition entry_at :: "fte \<Rightarrow> cptr \<Rightarrow> vmem \<Rightarrow> fte" where
  "entry_at junk c v = (case c of CElem p \<Rightarrow> ftes v p | _ \<Rightarrow> junk)"

definition clock_frame_next :: "vmem \<Rightarrow> vmem option" where
  "clock_frame_next v =
     (case frame_list v of
        [] \<Rightarrow> None
      | x # r \<Rightarrow>
          (case clock_ptr v of
             CElem p \<Rightarrow> do { c \<leftarrow> after (frame_list v) p; Some (v\<lparr>clock_ptr := c\<rparr>) }
           | _ \<Rightarrow> Some (v\<lparr>clock_ptr := CElem x\<rparr>)))"

fun pick_loop :: "fte \<Rightarrow> nat \<Rightarrow> u32 \<Rightarrow> vmem \<Rightarrow> (cptr \<times> vmem) option" where
  "pick_loop junk 0 pagedir v = None"
| "pick_loop junk (Suc n) pagedir v = do {
     v \<leftarrow> clock_frame_next v;
     let e = entry_at junk (clock_ptr v) v;
     if pinned e then pick_loop junk n pagedir v
     else do {
       a \<leftarrow> pagedir_is_accessed pagedir (fupage e) (mach v);
       if a then do {
         m \<leftarrow> pagedir_set_accessed pagedir (fupage e) False (mach v);
         pick_loop junk n pagedir (v\<lparr>mach := m\<rparr>) }
       else Some (clock_ptr v, v) } }"

definition pick_frame_to_evict :: "fte \<Rightarrow> u32 \<Rightarrow> vmem \<Rightarrow> (cptr \<times> vmem) option" where
  "pick_frame_to_evict junk pagedir v =
     (let n = hash_size (frame_map v) in if n = 0 then None else pick_loop junk (n + n + 1) pagedir v)"

text \<open>The eviction in \<^verbatim>\<open>vm_frame_allocate\<close>: unmap the page, write it to swap, release the frame.\<close>

definition evict_frame :: "fte \<Rightarrow> (nat \<Rightarrow> bool) \<Rightarrow> ptr \<Rightarrow> vmem \<Rightarrow> vmem option" where
  "evict_frame junk mem tmp v = do {
     (c, v) \<leftarrow> pick_frame_to_evict junk (pagedirs v (running v)) v;
     let f = entry_at junk c v;
     t \<leftarrow> fthread f;
     let pd = pagedirs v t;
     ASSERT (pd \<noteq> 0xcccccccc);
     m \<leftarrow> pagedir_clear_page pd (fupage f) (mach v);
     d1 \<leftarrow> pagedir_is_dirty pd (fupage f) m;
     d2 \<leftarrow> (if d1 then Some True else pagedir_is_dirty pd (fkpage f) m);
     (idx, s) \<leftarrow> vm_swap_out (fkpage f) (page_bytes (fkpage f) m) (swp v);
     let (_, st) = vm_supt_set_swap tmp (supts v t) (fupage f) (of_nat idx);
     (_, st) \<leftarrow> vm_supt_set_dirty tmp st (fupage f) d2;
     let v = v\<lparr>mach := m, swp := s, supts := (supts v)(t := st)\<rparr>;
     vm_frame_do_free mem tmp (fkpage f) True v }"

text \<open>\<open>p\<close> is the result of \<open>malloc\<close>. The result is the kernel page, 0 if there is no memory for the entry.\<close>

definition vm_frame_allocate :: "fte \<Rightarrow> (nat \<Rightarrow> bool) \<Rightarrow> ptr \<Rightarrow> ptr \<Rightarrow> nat \<Rightarrow> u32 \<Rightarrow> vmem \<Rightarrow> (u32 \<times> vmem) option" where
  "vm_frame_allocate junk mem tmp p flags up v = do {
     (page, m) \<leftarrow> palloc_get_page (PAL_USER OR flags) (mach v);
     let v = v\<lparr>mach := m\<rparr>;
     (page, v) \<leftarrow> (if page = 0 then do {
         v \<leftarrow> evict_frame junk mem tmp v;
         (page, m) \<leftarrow> palloc_get_page (PAL_USER OR flags) (mach v);
         ASSERT (page \<noteq> 0);
         Some (page, v\<lparr>mach := m\<rparr>) }
       else Some (page, v));
     if p = NULL then Some (0, v)
     else do {
       let s = (ftes v)(p := \<lparr>fkpage = page, fupage = up, fthread = Some (running v), pinned = True\<rparr>);
       let (_, h) = hash_insert (frame_hash_func s) (frame_less_func s) mem (frame_map v) p;
       Some (page, v\<lparr>ftes := s, frame_map := h, frame_list := frame_list v @ [p]\<rparr>) } }"

definition vm_frame_set_pinned :: "ptr \<Rightarrow> u32 \<Rightarrow> bool \<Rightarrow> vmem \<Rightarrow> vmem option" where
  "vm_frame_set_pinned tmp kp b v = do {
     f \<leftarrow> frame_lookup tmp kp v;
     Some (v\<lparr>ftes := (ftes v)(f := (ftes v f)\<lparr>pinned := b\<rparr>)\<rparr>) }"

definition vm_frame_unpin :: "ptr \<Rightarrow> u32 \<Rightarrow> vmem \<Rightarrow> vmem option" where
  "vm_frame_unpin tmp kp v = vm_frame_set_pinned tmp kp False v"

definition vm_frame_pin :: "ptr \<Rightarrow> u32 \<Rightarrow> vmem \<Rightarrow> vmem option" where
  "vm_frame_pin tmp kp v = vm_frame_set_pinned tmp kp True v"

section \<open>The contract with the hash table\<close>

interpretation frame_order: list_order "frame_less_func s" for s
  by unfold_locales (auto simp: frame_less_func_def)

interpretation frame_hash: hash_contract "frame_less_func s" "frame_hash_func s" for s
proof
  fix a b assume "\<not> frame_less_func s a b" "\<not> frame_less_func s b a"
  then have "fkpage (s a) = fkpage (s b)" by (simp add: frame_less_func_def)
  then show "frame_hash_func s a = frame_hash_func s b" by (simp add: frame_hash_func_def)
qed

end
