(* ===== verification/FrameFacts.thy ===== *)
theory FrameFacts
  imports Frame
begin

text \<open>
  The frame table agrees with the list of frames and finds every frame by its kernel page;
  the clock returns a frame that is neither pinned nor referenced, unless it stops on the
  tail of the list.
\<close>

section \<open>The table and the list of frames\<close>

definition frames_inv :: "vmem \<Rightarrow> bool" where
  "frames_inv v \<longleftrightarrow> ht_wf (frame_hash_func (ftes v)) (frame_less_func (ftes v)) (frame_map v) \<and>
     set (ht_list (frame_map v)) = set (frame_list v) \<and> distinct (frame_list v) \<and>
     HashTable.elem_cnt (frame_map v) + 1 < 2 ^ 32"

lemma frame_eqv: "\<not> frame_less_func s a b \<and> \<not> frame_less_func s b a \<longleftrightarrow> fkpage (s a) = fkpage (s b)"
  by (auto simp: frame_less_func_def)

lemma frame_wf_keys:
  assumes "\<And>p. p \<in> set (ht_list h) \<Longrightarrow> fkpage (s' p) = fkpage (s p)"
  shows "ht_wf (frame_hash_func s') (frame_less_func s') h = ht_wf (frame_hash_func s) (frame_less_func s) h"
  by (rule ht_wf_cong) (use assms in \<open>simp_all add: frame_hash_func_def frame_less_func_def\<close>)

lemma frame_lookup_correct:
  assumes ok: "frames_inv v" and tmp: "tmp \<notin> set (frame_list v)"
  shows "frame_lookup tmp kp v = Some f \<longleftrightarrow> f \<in> set (frame_list v) \<and> fkpage (ftes v f) = kp"
proof -
  let ?s = "(ftes v)(tmp := (ftes v tmp)\<lparr>fkpage := kp\<rparr>)"
  have "ht_wf (frame_hash_func ?s) (frame_less_func ?s) (frame_map v) =
      ht_wf (frame_hash_func (ftes v)) (frame_less_func (ftes v)) (frame_map v)"
    by (rule frame_wf_keys) (use ok tmp in \<open>auto simp: frames_inv_def\<close>)
  then have "ht_wf (frame_hash_func ?s) (frame_less_func ?s) (frame_map v)" using ok by (simp add: frames_inv_def)
  from frame_hash.find_correct [OF this, of tmp f]
  have "frame_lookup tmp kp v = Some f \<longleftrightarrow> f \<in> set (ht_list (frame_map v)) \<and> fkpage (?s f) = fkpage (?s tmp)"
    by (simp only: frame_eqv frame_lookup_def Let_def)
  then show ?thesis using tmp ok by (auto simp: frames_inv_def)
qed

text \<open>Two frames never have the same page.\<close>

lemma frames_distinct:
  "frames_inv v \<Longrightarrow> p \<in> set (frame_list v) \<Longrightarrow> q \<in> set (frame_list v) \<Longrightarrow>
   fkpage (ftes v p) = fkpage (ftes v q) \<Longrightarrow> p = q"
  by (auto simp: frames_inv_def ht_wf_def frame_less_func_def)

lemma do_free_ok:
  assumes ok: "frames_inv v" and tmp: "tmp \<notin> set (frame_list v)" and f: "vm_frame_do_free mem tmp kp fp v = Some v'"
  shows "frames_inv v' \<and> (\<exists>p \<in> set (frame_list v). fkpage (ftes v p) = kp \<and> frame_list v' = remove1 p (frame_list v)) \<and>
    ftes v' = ftes v \<and> clock_ptr v' = clock_ptr v"
proof -
  obtain p where p: "frame_lookup tmp kp v = Some p"
    using f by (auto simp: vm_frame_do_free_def split: if_splits Option.bind_splits)
  then have pl: "p \<in> set (frame_list v)" "fkpage (ftes v p) = kp" using frame_lookup_correct [OF ok tmp] by auto
  obtain old h where d: "hash_delete (frame_hash_func (ftes v)) (frame_less_func (ftes v)) mem (frame_map v) p = (old, h)"
    by (metis prod.exhaust)
  have w: "ht_wf (frame_hash_func (ftes v)) (frame_less_func (ftes v)) (frame_map v)" "HashTable.elem_cnt (frame_map v) < 2 ^ 32"
    using ok by (auto simp: frames_inv_def)
  note dc = frame_hash.delete_correct [OF w d]
  have s: "set (ht_list h) = set (frame_list v) - {p}"
    using dc(3) frames_distinct [OF ok] pl(1) ok unfolding frame_eqv by (auto simp: frames_inv_def)
  have v': "frame_map v' = h" "frame_list v' = remove1 p (frame_list v)" "ftes v' = ftes v" "clock_ptr v' = clock_ptr v"
    using f p d by (auto simp: vm_frame_do_free_def Let_def split: if_splits Option.bind_splits)
  have "distinct (ht_list h)" "HashTable.elem_cnt h = length (ht_list h)" using dc(2) by (auto simp: ht_wf_def)
  then have "HashTable.elem_cnt h = card (set (frame_list v) - {p})" using s by (metis distinct_card)
  moreover have "HashTable.elem_cnt (frame_map v) = card (set (frame_list v))"
    using w(1) ok by (metis distinct_card frames_inv_def ht_wf_def)
  ultimately have "HashTable.elem_cnt h + 1 < 2 ^ 32" using ok pl(1) card_Diff1_le [of "set (frame_list v)" p]
    by (auto simp: frames_inv_def)
  then have "frames_inv v'" using ok dc(2) s v' by (auto simp: frames_inv_def)
  with pl v' show ?thesis by blast
qed

lemma set_pinned_ok:
  assumes ok: "frames_inv v" and tmp: "tmp \<notin> set (frame_list v)" and f: "vm_frame_set_pinned tmp kp b v = Some v'"
  shows "frames_inv v' \<and> frame_list v' = frame_list v \<and>
    (\<forall>p \<in> set (frame_list v). ftes v' p = (if fkpage (ftes v p) = kp then (ftes v p)\<lparr>pinned := b\<rparr> else ftes v p))"
proof -
  obtain p where p: "frame_lookup tmp kp v = Some p" using f by (auto simp: vm_frame_set_pinned_def split: Option.bind_splits)
  then have pl: "p \<in> set (frame_list v)" "fkpage (ftes v p) = kp" using frame_lookup_correct [OF ok tmp] by auto
  have v': "v' = v\<lparr>ftes := (ftes v)(p := (ftes v p)\<lparr>pinned := b\<rparr>)\<rparr>" using f p by (simp add: vm_frame_set_pinned_def)
  have "frames_inv v'" using ok frame_wf_keys [of "frame_map v" "ftes v'" "ftes v"] by (auto simp: frames_inv_def v')
  moreover have "fkpage (ftes v q) = kp \<longleftrightarrow> q = p" if "q \<in> set (frame_list v)" for q
    using frames_distinct [OF ok that pl(1)] pl(2) by auto
  ultimately show ?thesis by (simp add: v')
qed

text \<open>A frame allocated while a page is available is a new, pinned entry at the end of the list.\<close>

lemma frame_allocate_ok:
  assumes ok: "frames_inv v" and p: "p \<noteq> NULL" "p \<notin> set (frame_list v)"
    and pg: "palloc_get_page (PAL_USER OR flags) (mach v) = Some (page, m)" "page \<noteq> 0"
    and new: "\<forall>q \<in> set (frame_list v). fkpage (ftes v q) \<noteq> page" and cnt: "length (frame_list v) + 2 < 2 ^ 32"
    and a: "vm_frame_allocate junk mem tmp p flags up v = Some (r, v')"
  shows "r = page \<and> frames_inv v' \<and> frame_list v' = frame_list v @ [p] \<and>
    ftes v' p = \<lparr>fkpage = page, fupage = up, fthread = Some (running v), pinned = True\<rparr> \<and>
    (\<forall>q. q \<noteq> p \<longrightarrow> ftes v' q = ftes v q)"
proof -
  let ?s = "(ftes v)(p := \<lparr>fkpage = page, fupage = up, fthread = Some (running v), pinned = True\<rparr>)"
  obtain old h where i: "hash_insert (frame_hash_func ?s) (frame_less_func ?s) mem (frame_map v) p = (old, h)"
    by (metis prod.exhaust)
  have v': "r = page" "v' = v\<lparr>mach := m, ftes := ?s, frame_map := h, frame_list := frame_list v @ [p]\<rparr>"
    using a pg p(1) i by (auto simp: vm_frame_allocate_def Let_def)
  have "ht_wf (frame_hash_func ?s) (frame_less_func ?s) (frame_map v) =
      ht_wf (frame_hash_func (ftes v)) (frame_less_func (ftes v)) (frame_map v)"
    by (rule frame_wf_keys) (use ok p(2) in \<open>auto simp: frames_inv_def\<close>)
  then have w: "ht_wf (frame_hash_func ?s) (frame_less_func ?s) (frame_map v)" using ok by (simp add: frames_inv_def)
  have len: "HashTable.elem_cnt (frame_map v) = length (frame_list v)"
    using ok by (metis distinct_card frames_inv_def ht_wf_def)
  then have c: "HashTable.elem_cnt (frame_map v) + 1 < 2 ^ 32" using cnt by simp
  note ic = frame_hash.insert_correct [OF w c i]
  have "old = None" using ic(1) frame_hash.find_None [OF w, of p] new ok p(2) unfolding frame_eqv by (auto simp: frames_inv_def)
  then have s: "set (ht_list h) = insert p (set (frame_list v))" using ic(3) ok by (simp add: frames_inv_def)
  have "HashTable.elem_cnt h = card (insert p (set (frame_list v)))" using ic(2) s by (metis distinct_card ht_wf_def)
  then have "HashTable.elem_cnt h + 1 < 2 ^ 32" using cnt ok p(2) by (simp add: frames_inv_def distinct_card)
  then have "frames_inv v'" using ic(2) s ok p(2) by (auto simp: frames_inv_def v')
  with v' show ?thesis by simp
qed

section \<open>The clock\<close>

lemma after_in: "after xs p = Some (CElem q) \<Longrightarrow> q \<in> set xs"
  by (induction xs p rule: after.induct) (auto split: if_splits)

lemma clock_next_props:
  assumes "clock_frame_next v = Some v'"
  shows "v' = v\<lparr>clock_ptr := clock_ptr v'\<rparr>" "clock_ptr v' \<noteq> CNull"
    "\<And>q. clock_ptr v' = CElem q \<Longrightarrow> q \<in> set (frame_list v)"
proof -
  have "clock_ptr v' = CElem q \<Longrightarrow> q \<in> set (frame_list v)" for q
    using assms by (auto simp: clock_frame_next_def split: list.splits cptr.splits Option.bind_splits dest!: after_in)
  moreover have "c \<noteq> CNull" if "after xs p = Some c" for xs p c
    using that by (induction xs p rule: after.induct) (auto split: if_splits)
  ultimately show "v' = v\<lparr>clock_ptr := clock_ptr v'\<rparr>" "clock_ptr v' \<noteq> CNull" "\<And>q. clock_ptr v' = CElem q \<Longrightarrow> q \<in> set (frame_list v)"
    using assms by (auto simp: clock_frame_next_def split: list.splits cptr.splits Option.bind_splits)
qed

lemma pick_loop_props:
  "pick_loop junk n pd v = Some (c, v') \<Longrightarrow>
   \<not> pinned (entry_at junk c v') \<and> pagedir_is_accessed pd (fupage (entry_at junk c v')) (mach v') = Some False \<and>
   (c = CEnd \<or> (\<exists>p \<in> set (frame_list v). c = CElem p)) \<and> frame_list v' = frame_list v \<and> ftes v' = ftes v \<and> clock_ptr v' = c"
proof (induction junk n pd v arbitrary: rule: pick_loop.induct)
  case (2 junk n pd v)
  obtain v1 where v1: "clock_frame_next v = Some v1" using "2.prems" by (auto split: Option.bind_splits)
  note cn = clock_next_props [OF v1]
  have e: "frame_list v1 = frame_list v" "ftes v1 = ftes v" using cn(1) by (metis vmem.select_convs(2,4) vmem.surjective vmem.update_convs(3))+
  let ?e = "entry_at junk (clock_ptr v1) v1"
  show ?case
  proof (cases "pinned ?e")
    case True
    then show ?thesis using "2.IH"(1) [OF v1 refl True] "2.prems" v1 e by (simp add: Let_def)
  next
    case False
    then obtain a where a: "pagedir_is_accessed pd (fupage ?e) (mach v1) = Some a"
      using "2.prems" v1 by (auto simp: Let_def split: Option.bind_splits)
    show ?thesis
    proof (cases a)
      case True
      then obtain m where m: "pagedir_set_accessed pd (fupage ?e) False (mach v1) = Some m"
        "pick_loop junk n pd (v1\<lparr>mach := m\<rparr>) = Some (c, v')" using "2.prems" v1 False a by (auto simp: Let_def split: Option.bind_splits)
      then show ?thesis using "2.IH"(2) [OF v1 refl False a True m] e by simp
    next
      case na: False
      then have "c = clock_ptr v1" "v' = v1" using "2.prems" v1 False a by (auto simp: Let_def)
      then show ?thesis using False a na e cn(2,3) by (cases "clock_ptr v1") auto
    qed
  qed
qed simp

end
