(* ===== verification/Page.thy ===== *)
theory Page
  imports FrameFacts FreeMap
begin

text \<open>
  The rest of \<^verbatim>\<open>vm/page.c\<close>: loading a page into a frame, unmapping a memory mapped page, pinning,
  and destroying the page table of a process. The state joins the virtual memory of theory
  Frame with the file system; a file object is found by its address. \<open>t\<close> names the process
  whose table is meant.
\<close>

section \<open>State\<close>

record vstate =
  vm :: vmem
  fs :: fsys
  files :: "nat \<Rightarrow> open_file"

definition upd_vm :: "(vmem \<Rightarrow> vmem) \<Rightarrow> vstate \<Rightarrow> vstate" where
  "upd_vm f s = s\<lparr>vm := f (vm s)\<rparr>"

definition put_bytes :: "nat \<Rightarrow> byte list \<Rightarrow> machine \<Rightarrow> machine" where
  "put_bytes a bs m = m\<lparr>ram := (\<lambda>x. if a \<le> x \<and> x < a + length bs then bs ! (x - a) else ram m x)\<rparr>"

definition the_spte :: "nat \<Rightarrow> ptr \<Rightarrow> vstate \<Rightarrow> spte" where
  "the_spte t p s = entries (supts (vm s) t) p"

definition set_spte :: "nat \<Rightarrow> ptr \<Rightarrow> (spte \<Rightarrow> spte) \<Rightarrow> vstate \<Rightarrow> vstate" where
  "set_spte t p f s = upd_vm (\<lambda>v. v\<lparr>supts := (supts v)(t := upd_spte p f (supts v t))\<rparr>) s"

section \<open>Loading a page\<close>

definition vm_load_page_from_filesys :: "spte \<Rightarrow> u32 \<Rightarrow> vstate \<Rightarrow> (bool \<times> vstate) option" where
  "vm_load_page_from_filesys e kp s = do {
     f \<leftarrow> file_seek (files s (pfile e)) (file_offset e);
     (bs, f, st) \<leftarrow> file_read f (sint (read_bytes e)) (fs s);
     let s = s\<lparr>files := (files s)(pfile e := f), fs := st\<rparr>;
     let s = upd_vm (\<lambda>v. v\<lparr>mach := put_bytes (unat kp) bs (mach v)\<rparr>) s;
     if int (length bs) \<noteq> sint (read_bytes e) then Some (False, s)
     else do {
       ASSERT (read_bytes e + zero_bytes e = of_nat PGSIZE);
       (_, r) \<leftarrow> memset (unat kp + length bs) 0 (unat (zero_bytes e)) (ram (mach (vm s)));
       Some (True, upd_vm (\<lambda>v. v\<lparr>mach := (mach v)\<lparr>ram := r\<rparr>\<rparr>) s) } }"

text \<open>Fetching the contents: the result tells success and whether the page is writable.\<close>

definition fetch_page :: "spte \<Rightarrow> u32 \<Rightarrow> vstate \<Rightarrow> (bool \<times> bool \<times> vstate) option" where
  "fetch_page e kp s = (case status e of
     ALL_ZERO \<Rightarrow> do {
       (_, r) \<leftarrow> memset (unat kp) 0 PGSIZE (ram (mach (vm s)));
       Some (True, True, upd_vm (\<lambda>v. v\<lparr>mach := (mach v)\<lparr>ram := r\<rparr>\<rparr>) s) }
   | ON_FRAME \<Rightarrow> Some (True, True, s)
   | ON_SWAP \<Rightarrow> do {
       (bs, w) \<leftarrow> vm_swap_in (unat (swap_index e)) kp (swp (vm s));
       Some (True, True, upd_vm (\<lambda>v. v\<lparr>swp := w, mach := put_bytes (unat kp) bs (mach v)\<rparr>) s) }
   | FROM_FILESYS \<Rightarrow> do {
       (ok, s) \<leftarrow> vm_load_page_from_filesys e kp s;
       Some (ok, writable e, s) })"

definition vm_load_page :: "fte \<Rightarrow> (nat \<Rightarrow> bool) \<Rightarrow> ptr \<Rightarrow> ptr \<Rightarrow> nat \<Rightarrow> u32 \<Rightarrow> u32 \<Rightarrow> vstate \<Rightarrow> (bool \<times> vstate) option" where
  "vm_load_page junk av tmp p t pagedir up s =
     (case vm_supt_lookup tmp (supts (vm s) t) up of
        None \<Rightarrow> Some (False, s)
      | Some sp \<Rightarrow>
          if status (the_spte t sp s) = ON_FRAME then Some (True, s)
          else do {
            (page, v) \<leftarrow> vm_frame_allocate junk av tmp p PAL_USER up (vm s);
            let s = s\<lparr>vm := v\<rparr>;
            if page = 0 then Some (False, s)
            else do {
              (ok, w, s) \<leftarrow> fetch_page (the_spte t sp s) page s;
              if \<not> ok then do {
                v \<leftarrow> vm_frame_free av tmp page (vm s);
                Some (False, s\<lparr>vm := v\<rparr>) }
              else do {
                (ok, m) \<leftarrow> pagedir_set_page pagedir up page w (mach (vm s));
                let s = upd_vm (\<lambda>v. v\<lparr>mach := m\<rparr>) s;
                if \<not> ok then do {
                  v \<leftarrow> vm_frame_free av tmp page (vm s);
                  Some (False, s\<lparr>vm := v\<rparr>) }
                else do {
                  let s = set_spte t sp (\<lambda>e. e\<lparr>kpage := page, status := ON_FRAME\<rparr>) s;
                  m \<leftarrow> pagedir_set_dirty pagedir page False (mach (vm s));
                  v \<leftarrow> vm_frame_unpin tmp page ((vm s)\<lparr>mach := m\<rparr>);
                  Some (True, s\<lparr>vm := v\<rparr>) } } } })"

section \<open>Unmapping, pinning and destruction\<close>

text \<open>Short-circuit disjunction with a test that may panic.\<close>

definition or_else :: "bool \<Rightarrow> bool option \<Rightarrow> bool option" where
  "or_else a b = (if a then Some True else b)"

text \<open>\<open>tp\<close> is the page that \<^verbatim>\<open>palloc_get_page (0)\<close> returns inside; \<open>n\<close> is the depth of allocation.\<close>

definition vm_supt_mm_unmap ::
    "nat \<Rightarrow> (nat \<Rightarrow> bool) \<Rightarrow> ptr \<Rightarrow> nat \<Rightarrow> u32 \<Rightarrow> u32 \<Rightarrow> nat \<Rightarrow> int \<Rightarrow> nat \<Rightarrow> vstate \<Rightarrow> vstate option" where
  "vm_supt_mm_unmap n av tmp t pagedir page f offset bytes s = do {
     sp \<leftarrow> vm_supt_lookup tmp (supts (vm s) t) page;
     let e = the_spte t sp s;
     s \<leftarrow> (if status e = ON_FRAME then do {
              ASSERT (kpage e \<noteq> 0);
              v \<leftarrow> vm_frame_pin tmp (kpage e) (vm s);
              Some (s\<lparr>vm := v\<rparr>) }
            else Some s);
     s \<leftarrow> (case status e of
         ON_FRAME \<Rightarrow> do {
           d \<leftarrow> or_else (pdirty e) (pagedir_is_dirty pagedir (upage e) (mach (vm s)));
           d \<leftarrow> or_else d (pagedir_is_dirty pagedir (kpage e) (mach (vm s)));
           s \<leftarrow> (if d then do {
                    (_, st) \<leftarrow> file_write_at n (files s f) (page_bytes (kpage e) (mach (vm s))) (int bytes) offset (fs s);
                    Some (s\<lparr>fs := st\<rparr>) }
                  else Some s);
           v \<leftarrow> vm_frame_free av tmp (kpage e) (vm s);
           m \<leftarrow> pagedir_clear_page pagedir (upage e) (mach v);
           Some (s\<lparr>vm := v\<lparr>mach := m\<rparr>\<rparr>) }
       | ON_SWAP \<Rightarrow> do {
           d \<leftarrow> or_else (pdirty e) (pagedir_is_dirty pagedir (upage e) (mach (vm s)));
           if d then do {
             (tp, m) \<leftarrow> palloc_get_page 0 (mach (vm s));
             (bs, w) \<leftarrow> vm_swap_in (unat (swap_index e)) tp (swp (vm s));
             let m = put_bytes (unat tp) bs m;
             (_, st) \<leftarrow> file_write_at n (files s f) (page_bytes tp m) (int PGSIZE) offset (fs s);
             m \<leftarrow> palloc_free_page tp m;
             Some (s\<lparr>fs := st, vm := (vm s)\<lparr>mach := m, swp := w\<rparr>\<rparr>) }
           else do {
             w \<leftarrow> vm_swap_free (unat (swap_index e)) (swp (vm s));
             Some (s\<lparr>vm := (vm s)\<lparr>swp := w\<rparr>\<rparr>) } }
       | FROM_FILESYS \<Rightarrow> Some s
       | ALL_ZERO \<Rightarrow> None);
     let st = supts (vm s) t;
     let (_, h) = hash_delete (spte_hash_func (entries st)) (spte_less_func (entries st)) av (page_map st) sp;
     Some (upd_vm (\<lambda>v. v\<lparr>supts := (supts v)(t := st\<lparr>page_map := h\<rparr>)\<rparr>) s) }"

definition vm_pin_page :: "ptr \<Rightarrow> nat \<Rightarrow> u32 \<Rightarrow> vmem \<Rightarrow> vmem option" where
  "vm_pin_page tmp t page v =
     (case vm_supt_lookup tmp (supts v t) page of
        None \<Rightarrow> Some v
      | Some sp \<Rightarrow> do {
          let e = entries (supts v t) sp;
          ASSERT (status e = ON_FRAME);
          vm_frame_pin tmp (kpage e) v })"

definition vm_unpin_page :: "ptr \<Rightarrow> nat \<Rightarrow> u32 \<Rightarrow> vmem \<Rightarrow> vmem option" where
  "vm_unpin_page tmp t page v = do {
     sp \<leftarrow> vm_supt_lookup tmp (supts v t) page;
     let e = entries (supts v t) sp;
     if status e = ON_FRAME then vm_frame_unpin tmp (kpage e) v else Some v }"

definition spte_destroy_func :: "(nat \<Rightarrow> bool) \<Rightarrow> ptr \<Rightarrow> nat \<Rightarrow> ptr \<Rightarrow> vmem \<Rightarrow> vmem option" where
  "spte_destroy_func av tmp t sp v =
     (let e = entries (supts v t) sp
      in if kpage e \<noteq> 0 then do {
           ASSERT (status e = ON_FRAME);
           vm_frame_remove_entry av tmp (kpage e) v }
         else if status e = ON_SWAP then do {
           w \<leftarrow> vm_swap_free (unat (swap_index e)) (swp v);
           Some (v\<lparr>swp := w\<rparr>) }
         else Some v)"

fun destroy_sptes :: "(nat \<Rightarrow> bool) \<Rightarrow> ptr \<Rightarrow> nat \<Rightarrow> ptr list \<Rightarrow> vmem \<Rightarrow> vmem option" where
  "destroy_sptes av tmp t [] v = Some v"
| "destroy_sptes av tmp t (sp # r) v = do { v \<leftarrow> spte_destroy_func av tmp t sp v; destroy_sptes av tmp t r v }"

definition vm_supt_destroy :: "(nat \<Rightarrow> bool) \<Rightarrow> ptr \<Rightarrow> nat \<Rightarrow> vmem \<Rightarrow> vmem option" where
  "vm_supt_destroy av tmp t v =
     (let (es, h) = hash_clear (page_map (supts v t))
      in destroy_sptes av tmp t es (v\<lparr>supts := (supts v)(t := (supts v t)\<lparr>page_map := h\<rparr>)\<rparr>))"

section \<open>What is loaded\<close>

lemma page_bytes_eq:
  assumes "length bs = PGSIZE" "\<And>i. i < PGSIZE \<Longrightarrow> ram m (unat kp + i) = bs ! i"
  shows "page_bytes kp m = bs"
  by (rule nth_equalityI) (use assms in \<open>simp_all add: page_bytes_def\<close>)

lemma put_bytes_at: "i < length bs \<Longrightarrow> ram (put_bytes a bs m) (a + i) = bs ! i"
  by (simp add: put_bytes_def)

lemma put_bytes_other: "x < a \<or> a + length bs \<le> x \<Longrightarrow> ram (put_bytes a bs m) x = ram m x"
  by (auto simp: put_bytes_def)

lemma slot_length:
  assumes "swap_ok s" "i < swap_size s"
  shows "length (slot (swap_block s) i) = PGSIZE"
proof -
  have "length (medium (swap_block s) (i * 8 + j)) = BLOCK_SECTOR_SIZE" if "j < 8" for j
    using slot_sectors [OF assms that] assms(1) by (simp add: swap_ok_def block_ok_def)
  then have "length (concat (map (\<lambda>j. medium (swap_block s) (i * 8 + j)) [0..<n])) = n * BLOCK_SECTOR_SIZE" if "n \<le> 8" for n
    using that by (induction n) auto
  from this [of 8] show ?thesis by (simp add: slot_def BLOCK_SECTOR_SIZE_def PGSIZE_def)
qed

lemma sint_nonneg:
  fixes w :: u32
  shows "sint w = int n \<Longrightarrow> unat w = n"
proof -
  assume a: "sint w = int n"
  then have "w = word_of_int (int n)" by (metis scast_eq scast_id)
  moreover have "int n < 2 ^ 31" using a sint_less [of w] by simp
  ultimately show "unat w = n" by (simp add: unat_of_nat take_bit_nat_eq_self_iff)
qed

text \<open>The contents a frame gets: zeros, the page from swap, or the bytes of the file and zeros behind them.\<close>

lemma fetch_page_contents:
  assumes f: "fetch_page e kp s = Some (True, w, s')" and nf: "status e \<noteq> ON_FRAME" and sw: "swap_ok (swp (vm s))"
    and kp: "kp \<ge> PHYS_BASE" and rb: "unat (read_bytes e) \<le> PGSIZE"
  shows "page_bytes kp (mach (vm s')) = (case status e of
      ON_SWAP \<Rightarrow> the (swap_map (swp (vm s)) (unat (swap_index e)))
    | FROM_FILESYS \<Rightarrow>
        fst (the (file_read ((files s (pfile e))\<lparr>pos := file_offset e\<rparr>) (sint (read_bytes e)) (fs s))) @
        replicate (unat (zero_bytes e)) 0
    | _ \<Rightarrow> replicate PGSIZE 0)"
proof (cases "status e")
  case ALL_ZERO
  then have "ram (mach (vm s')) = fill (ram (mach (vm s))) (unat kp) 0 PGSIZE"
    using f by (auto simp: fetch_page_def memset_def upd_vm_def split: if_splits)
  then show ?thesis using ALL_ZERO by (simp add: page_bytes_eq fill_at)
next
  case ON_SWAP
  then obtain bs v where bs: "vm_swap_in (unat (swap_index e)) kp (swp (vm s)) = Some (bs, v)"
    "mach (vm s') = put_bytes (unat kp) bs (mach (vm s))"
    using f by (auto simp: fetch_page_def upd_vm_def split: Option.bind_splits)
  have m: "swap_map (swp (vm s)) (unat (swap_index e)) = Some bs"
    using swap_in_ok [OF sw kp, of "unat (swap_index e)"] bs(1) by (auto split: option.splits)
  then have "length bs = PGSIZE" using slot_length [OF sw] by (auto simp: swap_map_def split: if_splits)
  then have "page_bytes kp (mach (vm s')) = bs" unfolding bs(2) by (intro page_bytes_eq) (simp_all add: put_bytes_at)
  then show ?thesis using ON_SWAP m by simp
next
  case FROM_FILESYS
  let ?f = "(files s (pfile e))\<lparr>pos := file_offset e\<rparr>"
  obtain bs g st where r: "file_read ?f (sint (read_bytes e)) (fs s) = Some (bs, g, st)"
    using f FROM_FILESYS
    by (auto simp: fetch_page_def vm_load_page_from_filesys_def file_seek_def split: Option.bind_splits if_splits)
  let ?m = "put_bytes (unat kp) bs (mach (vm s))"
  have l: "int (length bs) = sint (read_bytes e)" "read_bytes e + zero_bytes e = of_nat PGSIZE"
    and ram: "ram (mach (vm s')) = fill (ram ?m) (unat kp + length bs) 0 (unat (zero_bytes e))"
    using f FROM_FILESYS r
    by (auto simp: fetch_page_def vm_load_page_from_filesys_def file_seek_def memset_def Let_def upd_vm_def
        split: Option.bind_splits if_splits)
  have n: "unat (read_bytes e) = length bs" using sint_nonneg l(1) by metis
  have z: "unat (zero_bytes e) = PGSIZE - length bs"
  proof -
    have "zero_bytes e = of_nat PGSIZE - read_bytes e" using l(2) by (simp add: algebra_simps)
    then show ?thesis using rb n unat_sub [of "read_bytes e" "of_nat PGSIZE"] by (simp add: word_le_nat_alt PGSIZE_def)
  qed
  have "page_bytes kp (mach (vm s')) = bs @ replicate (unat (zero_bytes e)) 0"
  proof (rule page_bytes_eq)
    show "length (bs @ replicate (unat (zero_bytes e)) 0) = PGSIZE" using rb n z by simp
    fix i assume "i < PGSIZE"
    then show "ram (mach (vm s')) (unat kp + i) = (bs @ replicate (unat (zero_bytes e)) 0) ! i"
      using z by (auto simp: ram fill_at nth_append put_bytes_at)
  qed
  then show ?thesis using FROM_FILESYS r by simp
qed (use nf in simp)

text \<open>A page that is swapped out and loaded again has its contents back.\<close>

lemma swap_cycle:
  assumes sw: "swap_ok w" and out: "vm_swap_out k1 (page_bytes kp m) w = Some (i, w')" and k: "k1 \<ge> PHYS_BASE" "k2 \<ge> PHYS_BASE"
  shows "\<exists>w''. vm_swap_in i k2 w' = Some (page_bytes kp m, w'') \<and> swap_map w'' = swap_map w"
proof -
  have l: "length (page_bytes kp m) = PGSIZE" by (simp add: page_bytes_def)
  have o: "swap_ok w'" "swap_map w i = None" "swap_map w' = (swap_map w)(i \<mapsto> page_bytes kp m)"
    using swap_out_ok [OF sw l k(1)] out by (auto split: if_splits)
  then show ?thesis using swap_in_ok [OF o(1) k(2), of i] by (auto simp: fun_eq_iff)
qed

end
