(* ===== verification/Exec.thy ===== *)
theory Exec
  imports Page Directory
begin

text \<open>
  The loader of \<^verbatim>\<open>userprog/process.c\<close>: ELF headers, segments, the initial stack and its arguments.
  The state \<open>pstate\<close> joins the virtual memory and the file system (theory Page) with the
  memory allocator: \<open>mallocs k\<close> is what the \<open>k\<close>-th call of \<^verbatim>\<open>malloc\<close> returns, \<open>rehash_mem\<close> which
  allocation of a hash table succeeds. \<open>stack_tmp\<close> is the address of the local entry a page table
  lookup uses, \<open>junk_fte\<close> and \<open>junk_ent\<close> what uninitialised memory holds, and \<open>depth\<close> the depth of the
  recursion through the free map file. The build has virtual memory.
\<close>

section \<open>State\<close>

record pstate =
  vs :: vstate
  mallocs :: "nat \<Rightarrow> ptr"
  malloc_no :: nat
  rehash_mem :: "nat \<Rightarrow> bool"
  stack_tmp :: ptr
  junk_fte :: fte
  junk_ent :: "byte list"
  depth :: nat

definition upd_vs :: "(vstate \<Rightarrow> vstate) \<Rightarrow> pstate \<Rightarrow> pstate" where
  "upd_vs f s = s\<lparr>vs := f (vs s)\<rparr>"

definition take_ptr :: "pstate \<Rightarrow> ptr \<times> pstate" where
  "take_ptr s = (mallocs s (malloc_no s), s\<lparr>malloc_no := malloc_no s + 1\<rparr>)"

definition set_mach :: "machine \<Rightarrow> pstate \<Rightarrow> pstate" where
  "set_mach m s = upd_vs (upd_vm (\<lambda>v. v\<lparr>mach := m\<rparr>)) s"

definition set_supt :: "nat \<Rightarrow> supt \<Rightarrow> pstate \<Rightarrow> pstate" where
  "set_supt t st s = upd_vs (upd_vm (\<lambda>v. v\<lparr>supts := (supts v)(t := st)\<rparr>)) s"

section \<open>ELF headers\<close>

definition le16_at :: "byte list \<Rightarrow> nat \<Rightarrow> u32" where
  "le16_at bs i = ucast (bs ! i) + 2 ^ 8 * ucast (bs ! (i + 1))"

definition le32_at :: "byte list \<Rightarrow> nat \<Rightarrow> u32" where
  "le32_at bs i = un_le32 (bs ! i) (bs ! (i + 1)) (bs ! (i + 2)) (bs ! (i + 3))"

record Elf32_Ehdr =
  e_ident :: "byte list"
  e_type :: u32
  e_machine :: u32
  e_version :: u32
  e_entry :: u32
  e_phoff :: u32
  e_phentsize :: u32
  e_phnum :: u32

definition dec_ehdr :: "byte list \<Rightarrow> Elf32_Ehdr" where
  "dec_ehdr bs = \<lparr>e_ident = take 16 bs, e_type = le16_at bs 16, e_machine = le16_at bs 18,
     e_version = le32_at bs 20, e_entry = le32_at bs 24, e_phoff = le32_at bs 28,
     e_phentsize = le16_at bs 42, e_phnum = le16_at bs 44\<rparr>"

definition EHDR_SIZE :: nat where "EHDR_SIZE = 52"
definition PHDR_SIZE :: nat where "PHDR_SIZE = 32"

record Elf32_Phdr =
  p_type :: u32
  p_offset :: u32
  p_vaddr :: u32
  p_filesz :: u32
  p_memsz :: u32
  p_flags :: u32

definition dec_phdr :: "byte list \<Rightarrow> Elf32_Phdr" where
  "dec_phdr bs = \<lparr>p_type = le32_at bs 0, p_offset = le32_at bs 4, p_vaddr = le32_at bs 8,
     p_filesz = le32_at bs 16, p_memsz = le32_at bs 20, p_flags = le32_at bs 24\<rparr>"

definition PT_LOAD :: u32 where "PT_LOAD = 1"
definition PT_DYNAMIC :: u32 where "PT_DYNAMIC = 2"
definition PT_INTERP :: u32 where "PT_INTERP = 3"
definition PT_SHLIB :: u32 where "PT_SHLIB = 5"
definition PF_W :: u32 where "PF_W = 2"

definition validate_segment :: "Elf32_Phdr \<Rightarrow> open_file \<Rightarrow> fsys \<Rightarrow> bool option" where
  "validate_segment ph f st = do {
     len \<leftarrow> file_length f st;
     Some (p_offset ph AND PGMASK = p_vaddr ph AND PGMASK \<and>
       p_offset ph \<le> word_of_int len \<and>
       p_memsz ph \<ge> p_filesz ph \<and>
       p_memsz ph \<noteq> 0 \<and>
       is_user_vaddr (p_vaddr ph) \<and>
       is_user_vaddr (p_vaddr ph + p_memsz ph) \<and>
       p_vaddr ph + p_memsz ph \<ge> p_vaddr ph \<and>
       p_vaddr ph \<ge> of_nat PGSIZE) }"

section \<open>Segments\<close>

text \<open>\<open>t\<close> is the current thread, \<open>f\<close> the address of the file object.\<close>

partial_function (option) segment_loop ::
    "nat \<Rightarrow> nat \<Rightarrow> int \<Rightarrow> u32 \<Rightarrow> u32 \<Rightarrow> u32 \<Rightarrow> bool \<Rightarrow> pstate \<Rightarrow> (bool \<times> pstate) option" where
  [code]: "segment_loop t f ofs up rb zb w s =
     (if rb > 0 \<or> zb > 0 then do {
        let prb = (if rb < of_nat PGSIZE then rb else of_nat PGSIZE);
        let pzb = of_nat PGSIZE - prb;
        kp \<leftarrow> pagedir_get_page (pagedirs (vm (vs s)) t) up (mach (vm (vs s)));
        ASSERT (kp = 0);
        let (p, s) = take_ptr s;
        (ok, st) \<leftarrow> vm_supt_install_filesys (rehash_mem s) p (supts (vm (vs s)) t) up f ofs prb pzb w;
        let s = set_supt t st s;
        if \<not> ok then Some (False, s)
        else segment_loop t f (ofs + int PGSIZE) (up + of_nat PGSIZE) (rb - prb) (zb - pzb) w s }
      else Some (True, s))"

definition load_segment :: "nat \<Rightarrow> nat \<Rightarrow> int \<Rightarrow> u32 \<Rightarrow> u32 \<Rightarrow> u32 \<Rightarrow> bool \<Rightarrow> pstate \<Rightarrow> (bool \<times> pstate) option" where
  "load_segment t f ofs up rb zb w s = do {
     ASSERT ((rb + zb) mod of_nat PGSIZE = 0);
     ASSERT (pg_ofs up = 0);
     ASSERT (ofs mod int PGSIZE = 0);
     fo \<leftarrow> file_seek (files (vs s) f) ofs;
     let s = upd_vs (\<lambda>v. v\<lparr>files := (files v)(f := fo)\<rparr>) s;
     segment_loop t f ofs up rb zb w s }"

definition ROUND_UP32 :: "u32 \<Rightarrow> u32" where
  "ROUND_UP32 x = (x + of_nat PGSIZE - 1) div of_nat PGSIZE * of_nat PGSIZE"

text \<open>The case \<open>PT_LOAD\<close> of the loop over the program headers.\<close>

definition load_phdr :: "nat \<Rightarrow> nat \<Rightarrow> Elf32_Phdr \<Rightarrow> pstate \<Rightarrow> (bool \<times> pstate) option" where
  "load_phdr t f ph s = do {
     valid \<leftarrow> validate_segment ph (files (vs s) f) (fs (vs s));
     if valid then do {
       let w = (p_flags ph AND PF_W \<noteq> 0);
       let file_page = p_offset ph AND NOT PGMASK;
       let mem_page = p_vaddr ph AND NOT PGMASK;
       let page_offset = p_vaddr ph AND PGMASK;
       let (rb, zb) =
         (if p_filesz ph > 0 then
            (page_offset + p_filesz ph, ROUND_UP32 (page_offset + p_memsz ph) - (page_offset + p_filesz ph))
          else (0, ROUND_UP32 (page_offset + p_memsz ph)));
       load_segment t f (sint file_page) mem_page rb zb w s }
     else Some (False, s) }"

fun phdr_loop :: "nat \<Rightarrow> nat \<Rightarrow> nat \<Rightarrow> int \<Rightarrow> pstate \<Rightarrow> (bool \<times> pstate) option" where
  "phdr_loop t f 0 file_ofs s = Some (True, s)"
| "phdr_loop t f (Suc n) file_ofs s = do {
     len \<leftarrow> file_length (files (vs s) f) (fs (vs s));
     if file_ofs < 0 \<or> file_ofs > len then Some (False, s)
     else do {
       fo \<leftarrow> file_seek (files (vs s) f) file_ofs;
       (bs, fo, st) \<leftarrow> file_read fo (int PHDR_SIZE) (fs (vs s));
       let s = upd_vs (\<lambda>v. v\<lparr>files := (files v)(f := fo), fs := st\<rparr>) s;
       if length bs \<noteq> PHDR_SIZE then Some (False, s)
       else do {
         let ph = dec_phdr bs;
         (ok, s) \<leftarrow>
           (if p_type ph = PT_DYNAMIC \<or> p_type ph = PT_INTERP \<or> p_type ph = PT_SHLIB then Some (False, s)
            else if p_type ph = PT_LOAD then load_phdr t f ph s
            else Some (True, s));
         if ok then phdr_loop t f n (sint (word_of_int (file_ofs + int PHDR_SIZE) :: u32)) s
         else Some (False, s) } } }"

section \<open>The stack\<close>

definition install_page :: "nat \<Rightarrow> u32 \<Rightarrow> u32 \<Rightarrow> bool \<Rightarrow> pstate \<Rightarrow> (bool \<times> pstate) option" where
  "install_page t up kp w s = do {
     let pd = pagedirs (vm (vs s)) t;
     old \<leftarrow> pagedir_get_page pd up (mach (vm (vs s)));
     (ok, s) \<leftarrow> (if old = 0 then do {
                   (ok, m) \<leftarrow> pagedir_set_page pd up kp w (mach (vm (vs s)));
                   Some (ok, set_mach m s) }
                 else Some (False, s));
     (ok, s) \<leftarrow> (if ok then do {
                   let (p, s) = take_ptr s;
                   (ok, st) \<leftarrow> vm_supt_install_frame (rehash_mem s) p (supts (vm (vs s)) t) up kp;
                   Some (ok, set_supt t st s) }
                 else Some (False, s));
     if ok then do {
       v \<leftarrow> vm_frame_unpin (stack_tmp s) kp (vm (vs s));
       Some (True, upd_vs (upd_vm (\<lambda>_. v)) s) }
     else Some (False, s) }"

definition setup_stack :: "nat \<Rightarrow> pstate \<Rightarrow> (u32 option \<times> pstate) option" where
  "setup_stack t s = do {
     let top = PHYS_BASE - of_nat PGSIZE;
     let (p, s) = take_ptr s;
     (kp, v) \<leftarrow> vm_frame_allocate (junk_fte s) (rehash_mem s) (stack_tmp s) p (PAL_USER OR PAL_ZERO) top (vm (vs s));
     let s = upd_vs (upd_vm (\<lambda>_. v)) s;
     if kp \<noteq> 0 then do {
       (ok, s) \<leftarrow> install_page t top kp True s;
       if ok then Some (Some PHYS_BASE, s)
       else do {
         v \<leftarrow> vm_frame_free (rehash_mem s) (stack_tmp s) kp (vm (vs s));
         Some (None, upd_vs (upd_vm (\<lambda>_. v)) s) } }
     else Some (None, s) }"

text \<open>
  The arguments, in a flat memory of virtual addresses: the tokens are kernel strings, the stack is
  user memory. \<open>push_strings\<close> gives the addresses of the copies.
\<close>

fun push_strings :: "nat list \<Rightarrow> u32 \<Rightarrow> cmem \<Rightarrow> (u32 list \<times> u32 \<times> cmem) option" where
  "push_strings [] esp r = Some ([], esp, r)"
| "push_strings (tok # toks) esp r = do {
     n \<leftarrow> strlen tok r;
     let esp = esp - of_nat (n + 1);
     (_, r) \<leftarrow> memcpy (unat esp) tok (n + 1) r;
     (addrs, esp', r) \<leftarrow> push_strings toks esp r;
     Some (esp # addrs, esp', r) }"

definition push_word :: "u32 \<Rightarrow> u32 \<times> cmem \<Rightarrow> u32 \<times> cmem" where
  "push_word w = (\<lambda>(esp, r). (esp - 4, st32 r (unat (esp - 4)) w))"

definition push_arguments :: "nat list \<Rightarrow> u32 \<Rightarrow> cmem \<Rightarrow> (u32 \<times> cmem) option" where
  "push_arguments toks esp r = do {
     (addrs, esp, r) \<leftarrow> push_strings toks esp r;
     let esp = esp AND 0xfffffffc;
     let (esp, r) = push_word 0 (esp, r);
     let (esp, r) = fold push_word (rev addrs) (esp, r);
     let (esp, r) = push_word esp (esp, r);
     let (esp, r) = push_word (of_nat (length toks)) (esp, r);
     Some (push_word 0 (esp, r)) }"

section \<open>Loading a program\<close>

definition load_file :: "nat \<Rightarrow> nat \<Rightarrow> pstate \<Rightarrow> ((u32 \<times> u32) option \<times> pstate) option" where
  "load_file t f s = do {
     (bs, fo, st) \<leftarrow> file_read (files (vs s) f) (int EHDR_SIZE) (fs (vs s));
     let s = upd_vs (\<lambda>v. v\<lparr>files := (files v)(f := fo), fs := st\<rparr>) s;
     let eh = dec_ehdr bs;
     if length bs \<noteq> EHDR_SIZE \<or> take 7 (e_ident eh) \<noteq> [127, 69, 76, 70, 1, 1, 1] \<or> e_type eh \<noteq> 2 \<or>
        e_machine eh \<noteq> 3 \<or> e_version eh \<noteq> 1 \<or> e_phentsize eh \<noteq> of_nat PHDR_SIZE \<or> e_phnum eh > 1024
     then Some (None, s)
     else do {
       (ok, s) \<leftarrow> phdr_loop t f (unat (e_phnum eh)) (sint (e_phoff eh)) s;
       if \<not> ok then Some (None, s)
       else do {
         (esp, s) \<leftarrow> setup_stack t s;
         case esp of None \<Rightarrow> Some (None, s)
         | Some esp \<Rightarrow> do {
             (fo, st) \<leftarrow> file_deny_write (files (vs s) f) (fs (vs s));
             Some (Some (e_entry eh, esp), upd_vs (\<lambda>v. v\<lparr>files := (files v)(f := fo), fs := st\<rparr>) s) } } } }"

text \<open>
  \<^verbatim>\<open>load\<close> of a file name in the working directory \<open>cwd\<close>; the results are the entry point, the
  stack pointer and the file that stays open as \<^verbatim>\<open>executing_file\<close>.
\<close>

definition load :: "nat \<Rightarrow> dir option \<Rightarrow> byte list \<Rightarrow> pstate \<Rightarrow> ((u32 \<times> u32 \<times> nat) option \<times> pstate) option" where
  "load t cwd name s = do {
     (pd, m) \<leftarrow> pagedir_create (mach (vm (vs s)));
     let s = upd_vs (upd_vm (\<lambda>v. v\<lparr>mach := m, pagedirs := (pagedirs v)(t := pd)\<rparr>)) s;
     st \<leftarrow> vm_supt_create (rehash_mem s (malloc_no s)) (entries (supts (vm (vs s)) t));
     let s = set_supt t st s;
     if pd = 0 then Some (None, s)
     else do {
       m \<leftarrow> pagedir_activate pd (mach (vm (vs s)));
       let s = set_mach m s;
       (fo, st) \<leftarrow> filesys_open (depth s) cwd name (junk_ent s) (fs (vs s));
       let s = upd_vs (\<lambda>v. v\<lparr>fs := st\<rparr>) s;
       case fo of None \<Rightarrow> Some (None, s)
       | Some fo \<Rightarrow> do {
           let (f, s) = take_ptr s;
           let s = upd_vs (\<lambda>v. v\<lparr>files := (files v)(f := fo)\<rparr>) s;
           (r, s) \<leftarrow> load_file t f s;
           Some (map_option (\<lambda>(eip, esp). (eip, esp, f)) r, s) } } }"

section \<open>The layout of the arguments\<close>

lemma unat_sub_le: "unat (k :: u32) \<le> unat a \<Longrightarrow> unat (a - k) = unat a - unat k"
  by (simp add: unat_sub_if')

definition stack_need :: "byte list list \<Rightarrow> nat" where
  "stack_need ss = (\<Sum>s\<leftarrow>ss. length s + 1)"

lemma push_strings_ok:
  "list_all2 (cstr r) toks ss \<Longrightarrow> stack_need ss < unat esp \<Longrightarrow> (\<forall>tok \<in> set toks. lim \<le> tok) \<Longrightarrow> unat esp \<le> lim \<Longrightarrow>
   \<exists>addrs esp' r'. push_strings toks esp r = Some (addrs, esp', r') \<and> unat esp' = unat esp - stack_need ss \<and>
     list_all2 (\<lambda>a s. cstr r' (unat a) s \<and> unat esp' \<le> unat a \<and> unat a + length s < unat esp) addrs ss \<and>
     (\<forall>x. x < unat esp' \<or> unat esp \<le> x \<longrightarrow> r' x = r x)"
proof (induction toks arbitrary: ss esp r)
  case Nil
  then show ?case by (simp add: stack_need_def)
next
  case (Cons tok toks sss)
  then obtain s ss where sss: "sss = s # ss" "cstr r tok s" "list_all2 (cstr r) toks ss"
    by (auto simp: list_all2_Cons1)
  define n where "n = length s + 1"
  define e where "e = esp - of_nat n"
  have need: "stack_need sss = n + stack_need ss" by (simp add: stack_need_def n_def sss(1))
  have "n < 2 ^ 32" using need Cons.prems(2) unsigned_less [of esp, where ?'a = nat] by simp
  then have n: "unat (of_nat n :: u32) = n" by (simp add: unat_of_nat)
  then have e: "unat e = unat esp - n" "n < unat esp"
    using need Cons.prems(2) by (simp_all add: e_def unat_sub_le)
  define r1 where "r1 = (\<lambda>x. if unat e \<le> x \<and> x < unat e + n then r (tok + (x - unat e)) else r x)"
  have tok: "lim \<le> tok" "cstr r tok s" using Cons.prems(3) sss(2) by simp_all
  have apart: "unat e + n \<le> tok" using e tok(1) Cons.prems(4) by simp
  have mc: "memcpy (unat e) tok n r = Some (unat e, r1)"
    unfolding r1_def using e apart cstr_nonnull [OF tok(2)] by (intro memcpy_ok) auto
  have keep: "r1 x = r x" if "unat esp \<le> x" for x using that e by (simp add: r1_def)
  have copy: "cstr r1 (unat e) s"
  proof -
    have "bytes_at r1 (unat e) n = bytes_at r tok n" by (simp add: bytes_at_eq r1_def)
    then show ?thesis using tok(2) e by (simp add: cstr_def n_def)
  qed
  have toks: "list_all2 (cstr r1) toks ss"
  proof (rule list.rel_mono_strong)
    show "list_all2 (cstr r) toks ss" by (rule sss(3))
  next
    fix a b assume "a \<in> set toks" "cstr r a b"
    moreover from this have "unat esp \<le> a" using Cons.prems(3,4) by auto
    ultimately show "cstr r1 a b" by (subst cstr_frame) (auto intro!: keep)
  qed
  obtain addrs esp' r' where IH: "push_strings toks e r1 = Some (addrs, esp', r')"
      "unat esp' = unat e - stack_need ss"
      "list_all2 (\<lambda>a s. cstr r' (unat a) s \<and> unat esp' \<le> unat a \<and> unat a + length s < unat e) addrs ss"
      "\<forall>x. x < unat esp' \<or> unat e \<le> x \<longrightarrow> r' x = r1 x"
  proof -
    have "stack_need ss < unat e" "\<forall>tok \<in> set toks. lim \<le> tok" "unat e \<le> lim"
      using need Cons.prems e by auto
    then show thesis using Cons.IH [OF toks] that by blast
  qed
  have "unat (esp - of_nat n) = unat e" by (simp add: e_def)
  moreover have "cstr r' (unat e) s"
    using copy IH(4) by (subst cstr_frame [of _ _ _ r1]) auto
  moreover have "list_all2 (\<lambda>a s. cstr r' (unat a) s \<and> unat esp' \<le> unat a \<and> unat a + length s < unat esp) addrs ss"
    by (rule list.rel_mono_strong [OF IH(3)]) (use e in auto)
  moreover have "unat e + length s < unat esp" using e by (simp add: n_def)
  moreover have "\<forall>x. x < unat esp' \<or> unat esp \<le> x \<longrightarrow> r' x = r x"
    using IH(2,4) keep e by (auto simp: r1_def)
  moreover have "push_strings (tok # toks) esp r = Some (e # addrs, esp', r')"
    using strlen_ok [OF tok(2)] mc IH(1) by (simp add: n_def e_def Let_def)
  ultimately show ?case using IH(2) need e by (auto simp: sss(1))
qed

text \<open>Words pushed one after the other are found in reverse order.\<close>

lemma push_words_ok:
  "4 * length ws \<le> unat esp \<Longrightarrow> \<exists>esp' r'. fold push_word ws (esp, r) = (esp', r') \<and>
     unat esp' = unat esp - 4 * length ws \<and> (\<forall>i < length ws. ld32 r' (unat esp' + 4 * i) = rev ws ! i) \<and>
     (\<forall>x. x < unat esp' \<or> unat esp \<le> x \<longrightarrow> r' x = r x)"
proof (induction ws arbitrary: esp r)
  case (Cons w ws)
  define e where "e = esp - 4"
  have e: "unat e = unat esp - 4" "4 \<le> unat esp" using Cons.prems by (simp_all add: e_def unat_sub_le)
  obtain esp' r' where IH: "fold push_word ws (e, st32 r (unat e) w) = (esp', r')"
      "unat esp' = unat e - 4 * length ws" "\<forall>i < length ws. ld32 r' (unat esp' + 4 * i) = rev ws ! i"
      "\<forall>x. x < unat esp' \<or> unat e \<le> x \<longrightarrow> r' x = st32 r (unat e) w x"
  proof -
    have "4 * length ws \<le> unat e" using Cons.prems e by simp
    then show thesis using Cons.IH [of e "st32 r (unat e) w"] that by blast
  qed
  have le: "4 * length ws \<le> unat e" using Cons.prems e by simp
  have first: "unat esp' + 4 * length ws = unat e" using IH(2) le by simp
  have "ld32 r' (unat e) = w"
    using IH(4) by (simp add: ld32_def) (simp add: st32_def un_le32_le32)
  then have "ld32 r' (unat esp' + 4 * i) = rev (w # ws) ! i" if "i < length (w # ws)" for i
    using IH(3) first that by (cases "i = length ws") (auto simp: nth_append)
  moreover have "r' x = r x" if "x < unat esp' \<or> unat esp \<le> x" for x
  proof -
    have "x < unat esp' \<or> unat e \<le> x" "x < unat e \<or> unat e + 4 \<le> x" using that e IH(2) by auto
    then show ?thesis using IH(4) by (auto simp: st32_def)
  qed
  moreover have "fold push_word (w # ws) (esp, r) = (esp', r')" using IH(1) by (simp add: push_word_def e_def)
  moreover have "unat esp' = unat esp - 4 * length (w # ws)" using IH(2) e by simp
  ultimately show ?case by blast
qed simp

lemma word_align: "unat (x AND 0xfffffffc :: u32) = unat x - unat x mod 4"
proof -
  have "(0xfffffffc :: u32) = - 4" by simp
  also have "\<dots> = NOT (mask 2)" by (simp add: mask_eq_exp_minus_1)
  finally have "x AND 0xfffffffc = x AND NOT (mask 2)" by (simp only:)
  also have "\<dots> = push_bit 2 (drop_bit 2 x)"
  proof (rule bit_word_eqI)
    fix n :: nat
    assume "n < LENGTH(32)"
    moreover have "n < 2 \<or> (\<exists>k. n = k + 2)" by presburger
    ultimately show "bit (x AND NOT (mask 2)) n \<longleftrightarrow> bit (push_bit 2 (drop_bit 2 x)) n"
      by (auto simp: bit_simps)
  qed
  also have "unat \<dots> = unat x div 4 * 4"
  proof -
    have "unat x div 4 * 4 < 2 ^ 32"
      using unsigned_less [of x, where ?'a = nat] by (simp add: div_times_less_eq_dividend [THEN le_less_trans])
    then show ?thesis
      unfolding unsigned_push_bit_eq by (simp add: unat_div take_bit_eq_mod push_bit_eq_mult drop_bit_eq_div)
  qed
  finally show ?thesis by (simp add: minus_mod_eq_div_mult)
qed

text \<open>
  The stack a program starts with: a return address 0, the number of arguments, a pointer to the
  vector of their addresses, the vector with its null at the end, and the strings themselves.
\<close>

lemma push_arguments_ok:
  assumes "list_all2 (cstr r) toks ss" "stack_need ss + 4 * (length ss + 5) < unat esp"
    and "\<forall>tok \<in> set toks. unat esp \<le> tok"
  shows "\<exists>esp' r' addrs. push_arguments toks esp r = Some (esp', r') \<and>
    unat esp - (stack_need ss + 4 * (length ss + 5)) < unat esp' \<and> unat esp' + 12 \<le> unat esp \<and> unat esp' mod 4 = 0 \<and>
    ld32 r' (unat esp') = 0 \<and> ld32 r' (unat esp' + 4) = of_nat (length ss) \<and>
    ld32 r' (unat esp' + 8) = esp' + 12 \<and> length addrs = length ss \<and>
    (\<forall>i < length ss. ld32 r' (unat esp' + 12 + 4 * i) = addrs ! i) \<and> ld32 r' (unat esp' + 12 + 4 * length ss) = 0 \<and>
    list_all2 (\<lambda>a s. cstr r' (unat a) s \<and> unat esp' < unat a \<and> unat a + length s < unat esp) addrs ss \<and>
    (\<forall>x. x < unat esp' \<or> unat esp \<le> x \<longrightarrow> r' x = r x)"
proof -
  obtain addrs e0 r0 where ps: "push_strings toks esp r = Some (addrs, e0, r0)" "unat e0 = unat esp - stack_need ss"
      "list_all2 (\<lambda>a s. cstr r0 (unat a) s \<and> unat e0 \<le> unat a \<and> unat a + length s < unat esp) addrs ss"
      "\<forall>x. x < unat e0 \<or> unat esp \<le> x \<longrightarrow> r0 x = r x"
    using push_strings_ok [OF assms(1), of esp "unat esp"] assms(2,3) by auto
  have len: "length addrs = length ss" using ps(3) by (rule list_all2_lengthD)
  define e1 where "e1 = e0 AND 0xfffffffc"
  have e1: "unat e1 \<le> unat e0" "unat e0 < unat e1 + 4" "unat e1 mod 4 = 0"
    unfolding e1_def word_align by presburger+
  define e2 where "e2 = e1 - of_nat (4 * (length ss + 1))"
  define ws where "ws = [0] @ rev addrs @ [e2, of_nat (length toks), 0]"
  have lt: "length toks = length ss" using assms(1) by (rule list_all2_lengthD)
  have lws: "length ws = length ss + 4" using len by (simp add: ws_def)
  have big: "4 * (length ss + 5) \<le> unat e1 + 4" using e1(2) ps(2) assms(2) by linarith
  obtain esp' r' where pw: "fold push_word ws (e1, r0) = (esp', r')" "unat esp' = unat e1 - 4 * length ws"
      "\<forall>i < length ws. ld32 r' (unat esp' + 4 * i) = rev ws ! i"
      "\<forall>x. x < unat esp' \<or> unat e1 \<le> x \<longrightarrow> r' x = r0 x"
    using push_words_ok [of ws e1 r0] big lws by auto
  have down: "fst (fold push_word vs (a, m)) = a - of_nat (4 * length vs)" for vs a m
  proof (induction vs arbitrary: a m)
    case (Cons v vs)
    have "fst (fold push_word (v # vs) (a, m)) = (a - 4) - of_nat (4 * length vs)"
    proof -
      have "fold push_word (v # vs) (a, m) = fold push_word vs (a - 4, st32 m (unat (a - 4)) v)"
        by (simp add: push_word_def)
      then show ?thesis by (simp only: Cons.IH)
    qed
    then show ?case by (simp add: algebra_simps)
  qed simp
  have run: "push_arguments toks esp r = Some (esp', r')"
  proof -
    obtain a m where am: "fold push_word ([0] @ rev addrs) (e1, r0) = (a, m)" by fastforce
    have "a = e2" using down [of "[0] @ rev addrs" e1 r0] am len by (simp add: e2_def)
    then show ?thesis using ps(1) am pw(1)
      by (simp add: push_arguments_def Let_def e1_def [symmetric] ws_def case_prod_beta)
  qed
  have esp': "unat esp' + 4 * (length ss + 4) = unat e1" using pw(2) big lws by simp
  have at: "ld32 r' (unat esp' + 4 * i) = rev ws ! i" if "i < length ss + 4" for i
    using pw(3) that lws by simp
  have rws: "rev ws = [0, of_nat (length ss), e2] @ addrs @ [0]" by (simp add: ws_def lt)
  have "esp' = e1 - of_nat (4 * (length ss + 4))" using down [of ws e1 r0] pw(1) lws by simp
  then have e2: "e2 = esp' + 12" by (simp add: e2_def algebra_simps)
  have "unat esp - (stack_need ss + 4 * (length ss + 5)) < unat esp'"
  proof -
    have "unat esp = unat e0 + stack_need ss" using ps(2) assms(2) by simp
    then show ?thesis using esp' e1(2) assms(2) by simp
  qed
  moreover have "unat esp' + 12 \<le> unat esp" using esp' e1(1) ps(2) by simp
  moreover have "unat esp' mod 4 = 0" using esp' e1(3) by presburger
  moreover have "ld32 r' (unat esp') = 0" using at [of 0] by (simp add: rws)
  moreover have "ld32 r' (unat esp' + 4) = of_nat (length ss)" using at [of 1] by (simp add: rws)
  moreover have "ld32 r' (unat esp' + 8) = esp' + 12" using at [of 2] by (simp add: rws e2)
  moreover have "\<forall>i < length ss. ld32 r' (unat esp' + 12 + 4 * i) = addrs ! i"
  proof (intro allI impI)
    fix i assume "i < length ss"
    then show "ld32 r' (unat esp' + 12 + 4 * i) = addrs ! i"
      using at [of "i + 3"] len by (simp add: rws nth_append algebra_simps)
  qed
  moreover have "ld32 r' (unat esp' + 12 + 4 * length ss) = 0"
    using at [of "length ss + 3"] len by (simp add: rws nth_append algebra_simps)
  moreover have "list_all2 (\<lambda>a s. cstr r' (unat a) s \<and> unat esp' < unat a \<and> unat a + length s < unat esp) addrs ss"
  proof (rule list.rel_mono_strong [OF ps(3)])
    fix a s assume "cstr r0 (unat a) s \<and> unat e0 \<le> unat a \<and> unat a + length s < unat esp"
    moreover from this have "cstr r' (unat a) s" using pw(4) e1(1) by (subst cstr_frame [of _ _ _ r0]) auto
    ultimately show "cstr r' (unat a) s \<and> unat esp' < unat a \<and> unat a + length s < unat esp"
      using e1 esp' by simp
  qed
  moreover have "\<forall>x. x < unat esp' \<or> unat esp \<le> x \<longrightarrow> r' x = r x"
    using pw(4) ps(2,4) e1 esp' by auto
  ultimately show ?thesis
    using run len apply (intro exI [of _ esp'] exI [of _ r'] exI [of _ addrs] conjI)
    apply assumption+
    done
qed

section \<open>What a segment maps\<close>

text \<open>The entry of the \<open>k\<close>-th page of a segment.\<close>

definition seg_bytes :: "u32 \<Rightarrow> nat \<Rightarrow> nat" where
  "seg_bytes rb k = min PGSIZE (unat rb - k * PGSIZE)"

definition seg_entry :: "nat \<Rightarrow> int \<Rightarrow> u32 \<Rightarrow> u32 \<Rightarrow> bool \<Rightarrow> nat \<Rightarrow> spte \<Rightarrow> bool" where
  "seg_entry f ofs up rb w k e \<longleftrightarrow> upage e = up + of_nat (k * PGSIZE) \<and> status e = FROM_FILESYS \<and> kpage e = 0 \<and>
     pfile e = f \<and> file_offset e = ofs + int (k * PGSIZE) \<and>
     unat (read_bytes e) = seg_bytes rb k \<and> unat (zero_bytes e) = PGSIZE - seg_bytes rb k \<and> writable e = w"

text \<open>The state of the page table and of the allocator that a segment needs.\<close>

definition seg_pre :: "nat \<Rightarrow> nat \<Rightarrow> u32 \<Rightarrow> pstate \<Rightarrow> bool" where
  "seg_pre t n up s \<longleftrightarrow> (let st = supts (vm (vs s)) t in
     supt_ok st \<and> card (supt_ptrs st) + n + 2 < 2 ^ 32 \<and> stack_tmp s \<notin> supt_ptrs st \<and>
     (\<forall>i < n. mallocs s (malloc_no s + i) \<noteq> NULL \<and> mallocs s (malloc_no s + i) \<notin> supt_ptrs st \<and>
        mallocs s (malloc_no s + i) \<noteq> stack_tmp s) \<and>
     inj_on (\<lambda>i. mallocs s (malloc_no s + i)) {..<n} \<and>
     (\<forall>k < n. pagedir_get_page (pagedirs (vm (vs s)) t) (up + of_nat (k * PGSIZE)) (mach (vm (vs s))) = Some 0 \<and>
        supt_map (stack_tmp s) st (up + of_nat (k * PGSIZE)) = None))"

lemma supt_card: "supt_ok st \<Longrightarrow> htable.elem_cnt (page_map st) = card (supt_ptrs st)"
  by (simp add: supt_ok_def ht_wf_def supt_ptrs_def distinct_card)

lemma page_step_apart:
  "k < n \<Longrightarrow> n * PGSIZE < 2 ^ 32 \<Longrightarrow> 0 < k \<Longrightarrow> up + of_nat (k * PGSIZE) \<noteq> (up :: u32)"
proof
  assume k: "k < n" "n * PGSIZE < 2 ^ 32" "0 < k" "up + of_nat (k * PGSIZE) = up"
  then have "(of_nat (k * PGSIZE) :: u32) = 0" by simp
  then have "k * PGSIZE mod 2 ^ 32 = 0"
    using unat_of_nat [of "k * PGSIZE", where 'a = 32] by simp
  then show False using k by (simp add: PGSIZE_def)
qed

lemma seg_entry_step:
  assumes "seg_entry f (ofs + int PGSIZE) (up + of_nat PGSIZE) (rb - prb) w k e" "unat prb = min PGSIZE (unat rb)"
  shows "seg_entry f ofs up rb w (Suc k) e"
proof -
  have "unat (rb - prb) = unat rb - unat prb" using assms(2) by (intro unat_sub_le) simp
  then have "seg_bytes (rb - prb) k = seg_bytes rb (Suc k)" using assms(2) by (auto simp: seg_bytes_def)
  then show ?thesis using assms(1) by (simp add: seg_entry_def algebra_simps)
qed

lemma segment_loop_ok:
  "seg_pre t n up s \<Longrightarrow> unat rb + unat zb = n * PGSIZE \<Longrightarrow> n * PGSIZE < 2 ^ 32 \<Longrightarrow>
   \<exists>st'. segment_loop t f ofs up rb zb w s = Some (True, (set_supt t st' s)\<lparr>malloc_no := malloc_no s + n\<rparr>) \<and>
     supt_ok st' \<and>
     (\<forall>k < n. \<exists>e. supt_map (stack_tmp s) st' (up + of_nat (k * PGSIZE)) = Some e \<and> seg_entry f ofs up rb w k e) \<and>
     (\<forall>q. (\<forall>k < n. q \<noteq> up + of_nat (k * PGSIZE)) \<longrightarrow>
        supt_map (stack_tmp s) st' q = supt_map (stack_tmp s) (supts (vm (vs s)) t) q)"
proof (induction n arbitrary: s up ofs rb zb)
  case 0
  then have "rb = 0" "zb = 0" by (simp_all add: unat_eq_zero)
  then show ?case using 0(1)
    by (intro exI [of _ "supts (vm (vs s)) t"])
      (simp add: segment_loop.simps seg_pre_def Let_def set_supt_def upd_vs_def upd_vm_def)
next
  case (Suc n)
  let ?st = "supts (vm (vs s)) t" and ?tmp = "stack_tmp s" and ?ptr = "\<lambda>i. mallocs s (malloc_no s + i)"
  define prb where "prb = (if rb < of_nat PGSIZE then rb else of_nat PGSIZE)"
  define pzb where "pzb = of_nat PGSIZE - prb"
  have pg: "unat (of_nat PGSIZE :: u32) = PGSIZE" by (simp add: PGSIZE_def)
  have prb: "unat prb = min PGSIZE (unat rb)" unfolding prb_def by (simp add: word_less_nat_alt pg)
  then have pzb: "unat pzb = PGSIZE - unat prb" unfolding pzb_def by (subst unat_sub_le) (simp_all add: pg)
  have le: "unat prb \<le> unat rb" "unat pzb \<le> unat zb" using prb pzb Suc.prems(2) by auto
  have rest: "unat (rb - prb) + unat (zb - pzb) = n * PGSIZE"
    using unat_sub_le [OF le(1)] unat_sub_le [OF le(2)] Suc.prems(2) prb pzb by simp
  have pos: "rb > 0 \<or> zb > 0"
    using Suc.prems(2) by (auto simp: word_gt_0 PGSIZE_def intro: ccontr)
  note pre = Suc.prems(1) [unfolded seg_pre_def Let_def]
  have ok: "supt_ok ?st" and card: "card (supt_ptrs ?st) + Suc n + 2 < 2 ^ 32" and tmp: "?tmp \<notin> supt_ptrs ?st"
    and inj: "inj_on ?ptr {..<Suc n}" using pre by auto
  have fresh: "?ptr i \<noteq> NULL" "?ptr i \<notin> supt_ptrs ?st" "?ptr i \<noteq> ?tmp" if "i < Suc n" for i
    using pre that by blast+
  have unmapped: "pagedir_get_page (pagedirs (vm (vs s)) t) (up + of_nat (k * PGSIZE)) (mach (vm (vs s))) = Some 0"
    "supt_map ?tmp ?st (up + of_nat (k * PGSIZE)) = None" if "k < Suc n" for k
    using pre that by blast+
  define g :: "spte \<Rightarrow> spte" where "g = (\<lambda>e. e\<lparr>upage := up, kpage := 0, status := FROM_FILESYS, pdirty := False, pfile := f,
    file_offset := ofs, read_bytes := prb, zero_bytes := pzb, writable := w\<rparr>)"
  define p where "p = ?ptr 0"
  define e where "e = g (entries ?st p)"
  have p: "p \<noteq> NULL" "p \<notin> supt_ptrs ?st" "?tmp \<noteq> p" using fresh [of 0] by (simp_all add: p_def)
  have eup: "upage e = up" by (simp add: e_def g_def)
  have "htable.elem_cnt (page_map ?st) + 2 < 2 ^ 32" using supt_card [OF ok] card by simp
  from supt_insert_ok [OF ok p(1,2) tmp p(3) this, where f = g and mem = "rehash_mem s"]
  obtain st1 where st1: "supt_insert (rehash_mem s) p g ?st = Some (True, st1)" "supt_ok st1"
      "supt_ptrs st1 = insert p (supt_ptrs ?st)" "supt_map ?tmp st1 = (supt_map ?tmp ?st)(up \<mapsto> e)"
    using unmapped(2) [of 0] unfolding e_def [symmetric] eup by auto
  define s1 where "s1 = set_supt t st1 (s\<lparr>malloc_no := malloc_no s + 1\<rparr>)"
  have s1: "supts (vm (vs s1)) t = st1" "pagedirs (vm (vs s1)) = pagedirs (vm (vs s))" "mach (vm (vs s1)) = mach (vm (vs s))"
    "mallocs s1 = mallocs s" "malloc_no s1 = malloc_no s + 1" "stack_tmp s1 = ?tmp" "rehash_mem s1 = rehash_mem s"
    by (simp_all add: s1_def set_supt_def upd_vs_def upd_vm_def)
  have loop: "segment_loop t f ofs up rb zb w s =
      segment_loop t f (ofs + int PGSIZE) (up + of_nat PGSIZE) (rb - prb) (zb - pzb) w s1"
    using pos unmapped(1) [of 0] st1(1)
    by (subst segment_loop.simps)
      (simp add: Let_def prb_def [symmetric] pzb_def [symmetric] take_ptr_def p_def vm_supt_install_filesys_def g_def [symmetric]
        s1_def set_supt_def upd_vs_def upd_vm_def)
  have next_page: "up + of_nat PGSIZE + of_nat (k * PGSIZE) = up + of_nat (Suc k * PGSIZE)" for k by simp
  have "seg_pre t n (up + of_nat PGSIZE) s1"
    unfolding seg_pre_def Let_def s1 next_page st1(3,4)
  proof (intro conjI allI impI)
    show "card (insert p (supt_ptrs ?st)) + n + 2 < 2 ^ 32"
      using card p(2) by (simp add: supt_ptrs_def card_insert_if)
    show "inj_on (\<lambda>i. mallocs s (malloc_no s + 1 + i)) {..<n}"
      using inj by (auto simp: inj_on_def) (metis Suc_less_eq add_Suc_right nat.inject lessThan_iff)
  next
    fix i assume i: "i < n"
    show "mallocs s (malloc_no s + 1 + i) \<noteq> NULL" "mallocs s (malloc_no s + 1 + i) \<noteq> ?tmp"
      using fresh(1,3) [of "Suc i"] i by simp_all
    have "?ptr (Suc i) \<noteq> ?ptr 0" using inj_on_contraD [OF inj, of "Suc i" 0] i by simp
    then show "mallocs s (malloc_no s + 1 + i) \<notin> insert p (supt_ptrs ?st)"
      using fresh(2) [of "Suc i"] i by (simp add: p_def)
    show "pagedir_get_page (pagedirs (vm (vs s)) t) (up + of_nat (Suc i * PGSIZE)) (mach (vm (vs s))) = Some 0"
      using unmapped(1) [of "Suc i"] i by simp
    show "((supt_map ?tmp ?st)(up \<mapsto> e)) (up + of_nat (Suc i * PGSIZE)) = None"
      using unmapped(2) [of "Suc i"] page_step_apart [of "Suc i" "Suc n" up] i Suc.prems(3) by simp
  qed (use st1 tmp p(3) in auto)
  from Suc.IH [OF this rest, of "ofs + int PGSIZE"] Suc.prems(3)
  obtain st' where IH: "segment_loop t f (ofs + int PGSIZE) (up + of_nat PGSIZE) (rb - prb) (zb - pzb) w s1 =
        Some (True, (set_supt t st' s1)\<lparr>malloc_no := malloc_no s1 + n\<rparr>)" "supt_ok st'"
      "\<forall>k < n. \<exists>e. supt_map ?tmp st' (up + of_nat (Suc k * PGSIZE)) = Some e \<and>
        seg_entry f (ofs + int PGSIZE) (up + of_nat PGSIZE) (rb - prb) w k e"
      "\<forall>q. (\<forall>k < n. q \<noteq> up + of_nat (Suc k * PGSIZE)) \<longrightarrow> supt_map ?tmp st' q = supt_map ?tmp st1 q"
    unfolding s1 next_page by auto
  have first: "supt_map ?tmp st' up = Some e"
    using IH(4) page_step_apart [of "Suc _" "Suc n" up] Suc.prems(3) st1(4)
    by (metis Suc_less_eq fun_upd_same zero_less_Suc)
  have e0: "seg_entry f ofs up rb w 0 e"
    using prb pzb by (simp add: seg_entry_def e_def g_def seg_bytes_def)
  show ?case
  proof (intro exI [of _ st'] conjI allI impI)
    show "segment_loop t f ofs up rb zb w s = Some (True, (set_supt t st' s)\<lparr>malloc_no := malloc_no s + Suc n\<rparr>)"
      unfolding loop IH(1) by (simp add: s1_def set_supt_def upd_vs_def upd_vm_def)
    fix k assume k: "k < Suc n"
    show "\<exists>e. supt_map ?tmp st' (up + of_nat (k * PGSIZE)) = Some e \<and> seg_entry f ofs up rb w k e"
    proof (cases k)
      case 0
      then show ?thesis using first e0 by simp
    next
      case (Suc j)
      then show ?thesis using IH(3) k seg_entry_step [OF _ prb] by blast
    qed
  next
    fix q assume q: "\<forall>k < Suc n. q \<noteq> up + of_nat (k * PGSIZE)"
    have "q \<noteq> up" using q [rule_format, of 0] by simp
    moreover have "\<forall>k < n. q \<noteq> up + of_nat (Suc k * PGSIZE)"
    proof (intro allI impI)
      fix k assume "k < n"
      then show "q \<noteq> up + of_nat (Suc k * PGSIZE)" using q [rule_format, of "Suc k"] by simp
    qed
    ultimately show "supt_map ?tmp st' q = supt_map ?tmp ?st q" using IH(4) st1(4) by simp
  qed (rule IH(2))
qed

end
