(* ===== verification/Fault.thy ===== *)
theory Fault
  imports Exec
begin

text \<open>
  The page fault handler of \<^verbatim>\<open>userprog/exception.c\<close> and the access to user memory of
  \<^verbatim>\<open>userprog/syscall.c\<close>, which relies on it. An access of the kernel to user memory goes through the
  page directory of the running thread; if the page is not present the handler runs, and the access
  starts again or, where the handler gives up, ends with \<open>-1\<close>. A process that is killed is a result
  \<open>Exit\<close>, a panic is \<open>None\<close>.
\<close>

section \<open>The state of a user process\<close>

record file_desc =
  fd_id :: int
  fd_page :: u32
  fd_file :: nat
  fd_dir :: "dir option"

record mmap_desc =
  mm_id :: int
  mm_file :: nat
  mm_addr :: u32
  mm_size :: nat

record uthread =
  tname :: "byte list"
  file_descriptors :: "file_desc list"
  mmap_list :: "mmap_desc list"
  cwd :: "dir option"
  executing_file :: nat
  current_esp :: u32

text \<open>
  \<open>filesys_lock\<close> is the holder of the lock; \<open>keys\<close> are the keys that will be typed and \<open>console\<close> what
  was written to the screen. \<open>access_pc\<close> and \<open>label_pc\<close> are the addresses of the access and of the label
  \<^verbatim>\<open>1\<close> in \<^verbatim>\<open>get_user\<close> and \<^verbatim>\<open>put_user\<close>, and \<open>kernel_esp\<close> is what the frame of a fault in the kernel has as
  \<^verbatim>\<open>esp\<close>.
\<close>

record kctx =
  access_pc :: u32
  label_pc :: u32
  kernel_esp :: u32

record usys =
  pst :: pstate
  uthreads :: "nat \<Rightarrow> uthread"
  filesys_lock :: "nat option"
  keys :: "nat \<Rightarrow> byte"
  key_no :: nat
  console :: "byte list"
  kctx :: kctx

definition upd_pst :: "(pstate \<Rightarrow> pstate) \<Rightarrow> usys \<Rightarrow> usys" where
  "upd_pst f s = s\<lparr>pst := f (pst s)\<rparr>"

definition upd_thread :: "nat \<Rightarrow> (uthread \<Rightarrow> uthread) \<Rightarrow> usys \<Rightarrow> usys" where
  "upd_thread t f s = s\<lparr>uthreads := (uthreads s)(t := f (uthreads s t))\<rparr>"

text \<open>The machine and the page directory of a thread, the file system.\<close>

abbreviation machine_of :: "pstate \<Rightarrow> machine" where "machine_of s \<equiv> mach (vm (vs s))"
abbreviation pd_of :: "nat \<Rightarrow> pstate \<Rightarrow> u32" where "pd_of t s \<equiv> pagedirs (vm (vs s)) t"
abbreviation supt_of :: "nat \<Rightarrow> pstate \<Rightarrow> supt" where "supt_of t s \<equiv> supts (vm (vs s)) t"

section \<open>Results of a system call\<close>

text \<open>
  \<open>Ret v\<close> returns, \<open>Exit c\<close> is the end of the process with code \<open>c\<close>, \<open>Halt\<close> turns the machine off,
  and \<open>Blocked\<close> is a thread that waits in \<^verbatim>\<open>lock_acquire\<close> for a lock of another thread.
\<close>

datatype 'a outcome = Ret 'a | Exit int | Halt | Blocked

fun after_ret :: "('a outcome \<times> usys) option \<Rightarrow> ('a \<Rightarrow> usys \<Rightarrow> ('b outcome \<times> usys) option) \<Rightarrow> ('b outcome \<times> usys) option" where
  "after_ret None f = None"
| "after_ret (Some (Ret v, s)) f = f v s"
| "after_ret (Some (Exit c, s)) f = Some (Exit c, s)"
| "after_ret (Some (Halt, s)) f = Some (Halt, s)"
| "after_ret (Some (Blocked, s)) f = Some (Blocked, s)"

section \<open>The page fault handler\<close>

definition SEL_UCSEG :: u32 where "SEL_UCSEG = 0x1B"
definition SEL_KCSEG :: u32 where "SEL_KCSEG = 0x08"
definition FAULT_P :: u32 where "FAULT_P = 0x1"
definition FAULT_W :: u32 where "FAULT_W = 0x2"
definition FAULT_U :: u32 where "FAULT_U = 0x4"
definition MAX_STACK_SIZE :: u32 where "MAX_STACK_SIZE = 0x800000"

record intr_frame =
  eax :: u32
  error_code :: u32
  eip :: u32
  cs :: u32
  if_esp :: u32

definition load_user_page :: "nat \<Rightarrow> u32 \<Rightarrow> pstate \<Rightarrow> (bool \<times> pstate) option" where
  "load_user_page t page s = do {
     let (p, s) = take_ptr s;
     (ok, v) \<leftarrow> vm_load_page (junk_fte s) (rehash_mem s) (stack_tmp s) p t (pd_of t s) page (vs s);
     Some (ok, s\<lparr>vs := v\<rparr>) }"

text \<open>The test for an access to the stack, and the growth of the stack by a zero page.\<close>

definition stack_access :: "u32 \<Rightarrow> u32 \<Rightarrow> u32 \<Rightarrow> bool" where
  "stack_access esp f_esp fault_addr \<longleftrightarrow>
     (esp \<le> fault_addr \<or> fault_addr = f_esp - 4 \<or> fault_addr = f_esp - 32) \<and>
     PHYS_BASE - MAX_STACK_SIZE \<le> fault_addr \<and> fault_addr < PHYS_BASE"

definition grow_stack :: "nat \<Rightarrow> u32 \<Rightarrow> pstate \<Rightarrow> pstate option" where
  "grow_stack t page s =
     (if \<not> vm_supt_has_entry (stack_tmp s) (supt_of t s) page then do {
        let (p, s) = take_ptr s;
        (_, st) \<leftarrow> vm_supt_install_zeropage (rehash_mem s) p (supt_of t s) page;
        Some (set_supt t st s) }
      else Some s)"

definition kill :: "intr_frame \<Rightarrow> int option" where
  "kill f = (if cs f = SEL_UCSEG then Some (-1) else if cs f = SEL_KCSEG then None else Some (-1))"

text \<open>
  The result is \<open>Inl\<close> the changed frame, or \<open>Inr\<close> the exit code of the process that is killed.
  \<open>saved_esp\<close> is the \<^verbatim>\<open>current_esp\<close> of the thread.
\<close>

definition page_fault :: "nat \<Rightarrow> u32 \<Rightarrow> u32 \<Rightarrow> intr_frame \<Rightarrow> pstate \<Rightarrow> ((intr_frame + int) \<times> pstate) option" where
  "page_fault t saved_esp fault_addr f s = do {
     let not_present = (error_code f AND FAULT_P = 0);
     let user = (error_code f AND FAULT_U \<noteq> 0);
     let fault_page = pg_round_down fault_addr;
     let esp = (if user then if_esp f else saved_esp);
     (ok, s) \<leftarrow> (if \<not> not_present then Some (False, s)
       else do {
         s \<leftarrow> (if stack_access esp (if_esp f) fault_addr then grow_stack t fault_page s else Some s);
         load_user_page t fault_page s });
     if ok then Some (Inl f, s)
     else if \<not> user then Some (Inl (f\<lparr>eip := eax f, eax := 0xffffffff\<rparr>), s)
     else do { c \<leftarrow> kill f; Some (Inr c, s) } }"

section \<open>Access to user memory\<close>

text \<open>
  What the processor does for an access of the kernel: \<open>Inl k\<close> is the kernel address of the byte if the
  page is present and, for a write, writable; the flags \<^verbatim>\<open>PTE_A\<close> and \<^verbatim>\<open>PTE_D\<close> of the entry are set then.
  \<open>Inr\<close> is a fault with its error code. Kernel addresses are always mapped.
\<close>

definition mmu :: "nat \<Rightarrow> bool \<Rightarrow> u32 \<Rightarrow> pstate \<Rightarrow> ((nat + u32) \<times> pstate) option" where
  "mmu t wr a s =
     (if is_kernel_vaddr a then Some (Inl (unat a), s)
      else do {
        let pd = pd_of t s;
        kp \<leftarrow> pagedir_get_page pd a (machine_of s);
        w \<leftarrow> pte_flag PTE_W pd a (machine_of s);
        let code = (if kp = 0 then 0 else FAULT_P) OR (if wr then FAULT_W else 0);
        if kp = 0 \<or> (wr \<and> \<not> w) then Some (Inr code, s)
        else do {
          m \<leftarrow> pagedir_set_accessed pd a True (machine_of s);
          m \<leftarrow> (if wr then pagedir_set_dirty pd a True m else Some m);
          Some (Inl (unat kp), set_mach m s) } })"

definition fault_frame :: "kctx \<Rightarrow> u32 \<Rightarrow> intr_frame" where
  "fault_frame k code = \<lparr>eax = label_pc k, error_code = code, eip = access_pc k, cs = SEL_KCSEG, if_esp = kernel_esp k\<rparr>"

text \<open>
  An access with its restarts: \<open>Inl k\<close> gives the kernel address, \<open>Inr v\<close> the value of \<^verbatim>\<open>eax\<close> with which
  the handler continued behind the access.
\<close>

partial_function (option) user_access ::
    "nat \<Rightarrow> kctx \<Rightarrow> u32 \<Rightarrow> bool \<Rightarrow> u32 \<Rightarrow> pstate \<Rightarrow> ((nat + u32) \<times> pstate) option" where
  [code]: "user_access t k saved_esp wr a s = do {
     (r, s) \<leftarrow> mmu t wr a s;
     (case r of Inl x \<Rightarrow> Some (Inl x, s)
      | Inr code \<Rightarrow> do {
          (r, s) \<leftarrow> page_fault t saved_esp a (fault_frame k code) s;
          (case r of
             Inr c \<Rightarrow> None
           | Inl f \<Rightarrow> if eip f = access_pc k then user_access t k saved_esp wr a s else Some (Inr (eax f), s)) }) }"

definition user_ref :: "nat \<Rightarrow> bool \<Rightarrow> u32 \<Rightarrow> usys \<Rightarrow> ((nat + u32) \<times> usys) option" where
  "user_ref t wr a s = do {
     (r, p) \<leftarrow> user_access t (kctx s) (current_esp (uthreads s t)) wr a (pst s);
     Some (r, s\<lparr>pst := p\<rparr>) }"

definition peek :: "nat \<Rightarrow> usys \<Rightarrow> byte" where
  "peek x s = ram (machine_of (pst s)) x"

definition poke :: "nat \<Rightarrow> byte \<Rightarrow> usys \<Rightarrow> usys" where
  "poke x b s = upd_pst (\<lambda>p. set_mach ((machine_of p)\<lparr>ram := (ram (machine_of p))(x := b)\<rparr>) p) s"

definition get_user :: "nat \<Rightarrow> u32 \<Rightarrow> usys \<Rightarrow> (int \<times> usys) option" where
  "get_user t a s =
     (if \<not> a < PHYS_BASE then Some (-1, s)
      else do {
        (r, s) \<leftarrow> user_ref t False a s;
        Some (case r of Inl x \<Rightarrow> uint (peek x s) | Inr v \<Rightarrow> sint v, s) })"

definition put_user :: "nat \<Rightarrow> u32 \<Rightarrow> byte \<Rightarrow> usys \<Rightarrow> (bool \<times> usys) option" where
  "put_user t a b s =
     (if \<not> a < PHYS_BASE then Some (False, s)
      else do {
        (r, s) \<leftarrow> user_ref t True a s;
        Some (case r of Inl x \<Rightarrow> (label_pc (kctx s) \<noteq> 0xffffffff, poke x b s) | Inr v \<Rightarrow> (sint v \<noteq> -1, s)) })"

text \<open>
  Other kernel code reads and writes user memory without these functions; where the handler gives up
  there, it continues at the value of \<^verbatim>\<open>eax\<close>, and nothing is known: \<open>None\<close>.
\<close>

fun user_bytes :: "nat \<Rightarrow> u32 \<Rightarrow> nat \<Rightarrow> usys \<Rightarrow> (byte list \<times> usys) option" where
  "user_bytes t a 0 s = Some ([], s)"
| "user_bytes t a (Suc n) s = do {
     (r, s) \<leftarrow> user_ref t False a s;
     x \<leftarrow> (case r of Inl x \<Rightarrow> Some x | Inr _ \<Rightarrow> None);
     let b = peek x s;
     (bs, s) \<leftarrow> user_bytes t (a + 1) n s;
     Some (b # bs, s) }"

fun put_user_bytes :: "nat \<Rightarrow> u32 \<Rightarrow> byte list \<Rightarrow> usys \<Rightarrow> usys option" where
  "put_user_bytes t a [] s = Some s"
| "put_user_bytes t a (b # bs) s = do {
     (r, s) \<leftarrow> user_ref t True a s;
     x \<leftarrow> (case r of Inl x \<Rightarrow> Some x | Inr _ \<Rightarrow> None);
     put_user_bytes t (a + 1) bs (poke x b s) }"

partial_function (option) user_string :: "nat \<Rightarrow> u32 \<Rightarrow> usys \<Rightarrow> (byte list \<times> usys) option" where
  [code]: "user_string t a s = do {
     (r, s) \<leftarrow> user_ref t False a s;
     x \<leftarrow> (case r of Inl x \<Rightarrow> Some x | Inr _ \<Rightarrow> None);
     if peek x s = 0 then Some ([], s)
     else do {
       (bs, s') \<leftarrow> user_string t (a + 1) s;
       Some (peek x s # bs, s') } }"

end
