(* ===== verification/Syscall.thy ===== *)
theory Syscall
  imports Fault Stdio
begin

text \<open>
  The system calls of \<^verbatim>\<open>userprog/syscall.c\<close> and the release of a process's resources in
  \<^verbatim>\<open>process_exit\<close>. \<open>t\<close> is the running thread; addresses are words, file descriptors and results are
  integers. A thread that calls \<^verbatim>\<open>lock_acquire\<close> while another one holds \<^verbatim>\<open>filesys_lock\<close> gives \<open>Blocked\<close>: it
  waits there and goes on when the lock is free. The file names are read when the call begins.
\<close>

section \<open>The lock\<close>

definition lock_fs :: "nat \<Rightarrow> usys \<Rightarrow> (unit outcome \<times> usys) option" where
  "lock_fs t s = do {
     ASSERT (filesys_lock s \<noteq> Some t);
     Some (case filesys_lock s of None \<Rightarrow> (Ret (), s\<lparr>filesys_lock := Some t\<rparr>) | Some _ \<Rightarrow> (Blocked, s)) }"

definition unlock_fs :: "nat \<Rightarrow> usys \<Rightarrow> usys option" where
  "unlock_fs t s = do { ASSERT (filesys_lock s = Some t); Some (s\<lparr>filesys_lock := None\<rparr>) }"

text \<open>\<open>locked t body s\<close> is \<^verbatim>\<open>lock_acquire\<close>, a body that returns a value, and \<^verbatim>\<open>lock_release\<close>.\<close>

definition locked :: "nat \<Rightarrow> (usys \<Rightarrow> ('a \<times> usys) option) \<Rightarrow> usys \<Rightarrow> ('a outcome \<times> usys) option" where
  "locked t body s = after_ret (lock_fs t s) (\<lambda>_ s. do {
     (r, s) \<leftarrow> body s;
     s \<leftarrow> unlock_fs t s;
     Some (Ret r, s) })"

text \<open>A call of the file system with the current directory of the thread.\<close>

definition fs_call :: "(nat \<Rightarrow> byte list \<Rightarrow> fsys \<Rightarrow> ('a \<times> fsys) option) \<Rightarrow> usys \<Rightarrow> ('a \<times> usys) option" where
  "fs_call f s = do {
     let p = pst s;
     (r, st) \<leftarrow> f (depth p) (junk_ent p) (fs (vs p));
     Some (r, s\<lparr>pst := upd_vs (\<lambda>v. v\<lparr>fs := st\<rparr>) p\<rparr>) }"

definition the_file :: "nat \<Rightarrow> usys \<Rightarrow> open_file" where
  "the_file f s = files (vs (pst s)) f"

definition set_file :: "nat \<Rightarrow> open_file \<Rightarrow> usys \<Rightarrow> usys" where
  "set_file f fo s = upd_pst (upd_vs (\<lambda>v. v\<lparr>files := (files v)(f := fo)\<rparr>)) s"

definition free_page :: "u32 \<Rightarrow> usys \<Rightarrow> usys option" where
  "free_page p s = do {
     m \<leftarrow> palloc_free_page p (machine_of (pst s));
     Some (upd_pst (set_mach m) s) }"

section \<open>Descriptors\<close>

definition FD_FILE :: nat where "FD_FILE = 1"
definition FD_DIRECTORY :: nat where "FD_DIRECTORY = 2"

fun search_fd :: "file_desc list \<Rightarrow> int \<Rightarrow> nat \<Rightarrow> file_desc option" where
  "search_fd [] fd flag = None"
| "search_fd (d # ds) fd flag =
     (if fd_id d = fd then
        (if fd_dir d \<noteq> None \<and> flag AND FD_DIRECTORY \<noteq> 0 then Some d
         else if fd_dir d = None \<and> flag AND FD_FILE \<noteq> 0 then Some d
         else search_fd ds fd flag)
      else search_fd ds fd flag)"

definition find_file_desc :: "file_desc list \<Rightarrow> int \<Rightarrow> nat \<Rightarrow> file_desc option" where
  "find_file_desc ds fd flag = (if fd < 3 then None else search_fd ds fd flag)"

fun find_mmap_desc :: "mmap_desc list \<Rightarrow> int \<Rightarrow> mmap_desc option" where
  "find_mmap_desc [] mid = None"
| "find_mmap_desc (d # ds) mid = (if mm_id d = mid then Some d else find_mmap_desc ds mid)"

definition fds_of :: "nat \<Rightarrow> usys \<Rightarrow> file_desc list" where
  "fds_of t s = file_descriptors (uthreads s t)"

definition mmaps_of :: "nat \<Rightarrow> usys \<Rightarrow> mmap_desc list" where
  "mmaps_of t s = mmap_list (uthreads s t)"

section \<open>The end of a process\<close>

text \<open>The pages of a mapping, from the \<open>k\<close>-th on.\<close>

fun unmap_loop :: "nat \<Rightarrow> mmap_desc \<Rightarrow> nat \<Rightarrow> nat \<Rightarrow> usys \<Rightarrow> usys option" where
  "unmap_loop t d 0 offset s = Some s"
| "unmap_loop t d (Suc n) offset s = do {
     let p = pst s;
     let sz = (if offset + PGSIZE < mm_size d then PGSIZE else mm_size d - offset);
     v \<leftarrow> vm_supt_mm_unmap (depth p) (rehash_mem p) (stack_tmp p) t (pd_of t p) (mm_addr d + of_nat offset)
            (mm_file d) (int offset) sz (vs p);
     unmap_loop t d n (offset + PGSIZE) (s\<lparr>pst := p\<lparr>vs := v\<rparr>\<rparr>) }"

definition page_count :: "nat \<Rightarrow> nat" where
  "page_count sz = (sz + PGSIZE - 1) div PGSIZE"

definition sys_munmap :: "nat \<Rightarrow> int \<Rightarrow> usys \<Rightarrow> (bool outcome \<times> usys) option" where
  "sys_munmap t mid s =
     (case find_mmap_desc (mmaps_of t s) mid of
        None \<Rightarrow> Some (Ret False, s)
      | Some d \<Rightarrow> locked t (\<lambda>s. do {
          s \<leftarrow> unmap_loop t d (page_count (mm_size d)) 0 s;
          let s = upd_thread t (\<lambda>u. u\<lparr>mmap_list := remove1 d (mmap_list u)\<rparr>) s;
          (_, s) \<leftarrow> fs_call (\<lambda>n _ st. do { st \<leftarrow> file_close n (Some (the_file (mm_file d) s)) st; Some ((), st) }) s;
          Some (True, s) }) s)"

fun close_fds :: "nat \<Rightarrow> file_desc list \<Rightarrow> usys \<Rightarrow> usys option" where
  "close_fds t [] s = Some s"
| "close_fds t (d # ds) s = do {
     let s = upd_thread t (\<lambda>u. u\<lparr>file_descriptors := ds\<rparr>) s;
     (_, s) \<leftarrow> fs_call (\<lambda>n _ st. do { st \<leftarrow> file_close n (Some (the_file (fd_file d) s)) st; Some ((), st) }) s;
     s \<leftarrow> free_page (fd_page d) s;
     close_fds t ds s }"

fun unmap_all :: "nat \<Rightarrow> nat \<Rightarrow> usys \<Rightarrow> (unit outcome \<times> usys) option" where
  "unmap_all t 0 s = Some (Ret (), s)"
| "unmap_all t (Suc n) s =
     (case mmaps_of t s of
        [] \<Rightarrow> Some (Ret (), s)
      | d # _ \<Rightarrow> after_ret (sys_munmap t (mm_id d) s) (\<lambda>ok s. do { ASSERT ok; unmap_all t n s }))"

text \<open>The parts of \<^verbatim>\<open>process_exit\<close> before and after the control blocks are handled (theory Process).\<close>

definition release_files :: "nat \<Rightarrow> usys \<Rightarrow> (unit outcome \<times> usys) option" where
  "release_files t s = do {
     s \<leftarrow> close_fds t (fds_of t s) s;
     after_ret (unmap_all t (length (mmaps_of t s)) s) (\<lambda>_ s. do {
       (_, s) \<leftarrow> fs_call (\<lambda>n _ st. do { st \<leftarrow> dir_close n (cwd (uthreads s t)) st; Some ((), st) }) s;
       Some (Ret (), s) }) }"

definition release_executable :: "nat \<Rightarrow> usys \<Rightarrow> usys option" where
  "release_executable t s =
     (let f = executing_file (uthreads s t)
      in if f \<noteq> NULL then do {
           (fo, s) \<leftarrow> fs_call (\<lambda>n _ st. file_allow_write (the_file f s) st) s;
           let s = set_file f fo s;
           (_, s) \<leftarrow> fs_call (\<lambda>n _ st. do { st \<leftarrow> file_close n (Some fo) st; Some ((), st) }) s;
           Some s }
         else Some s)"

definition release_memory :: "nat \<Rightarrow> usys \<Rightarrow> usys option" where
  "release_memory t s = do {
     let p = pst s;
     v \<leftarrow> vm_supt_destroy (rehash_mem p) (stack_tmp p) t (vm (vs p));
     let pd = pagedirs v t;
     v \<leftarrow> (if pd \<noteq> 0 then do {
              m \<leftarrow> pagedir_activate 0 (mach v);
              m \<leftarrow> pagedir_destroy pd m;
              Some (v\<lparr>pagedirs := (pagedirs v)(t := 0), mach := m\<rparr>) }
            else Some v);
     Some (s\<lparr>pst := upd_vs (upd_vm (\<lambda>_. v)) p\<rparr>) }"

definition process_exit :: "nat \<Rightarrow> usys \<Rightarrow> (unit outcome \<times> usys) option" where
  "process_exit t s = after_ret (release_files t s) (\<lambda>_ s. do {
     s \<leftarrow> release_executable t s;
     s \<leftarrow> release_memory t s;
     Some (Ret (), s) })"

definition exit_message :: "byte list \<Rightarrow> int \<Rightarrow> byte list" where
  "exit_message nm code = nm @ ascs '': exit('' @
     format_integer (word_of_int \<bar>code\<bar>) True (code < 0) base_d plain_conversion @ ascs '')'' @ [10]"

definition sys_exit :: "nat \<Rightarrow> int \<Rightarrow> usys \<Rightarrow> ('a outcome \<times> usys) option" where
  "sys_exit t code s =
     (let s = s\<lparr>console := console s @ exit_message (tname (uthreads s t)) code\<rparr>
      in after_ret (process_exit t s) (\<lambda>_ s. Some (Exit code, s)))"

definition fail_invalid_access :: "nat \<Rightarrow> usys \<Rightarrow> ('a outcome \<times> usys) option" where
  "fail_invalid_access t s = do {
     s \<leftarrow> (if filesys_lock s = Some t then unlock_fs t s else Some s);
     sys_exit t (-1) s }"

section \<open>Checked access to user memory\<close>

definition check_user :: "nat \<Rightarrow> u32 \<Rightarrow> usys \<Rightarrow> (unit outcome \<times> usys) option" where
  "check_user t a s = do {
     (v, s) \<leftarrow> get_user t a s;
     if v = -1 then fail_invalid_access t s else Some (Ret (), s) }"

fun memread_user :: "nat \<Rightarrow> u32 \<Rightarrow> nat \<Rightarrow> usys \<Rightarrow> (byte list outcome \<times> usys) option" where
  "memread_user t src 0 s = Some (Ret [], s)"
| "memread_user t src (Suc n) s = do {
     (v, s) \<leftarrow> get_user t src s;
     if v = -1 then fail_invalid_access t s
     else after_ret (memread_user t (src + 1) n s) (\<lambda>bs s. Some (Ret (word_of_int v # bs), s)) }"

definition read_arg :: "nat \<Rightarrow> u32 \<Rightarrow> usys \<Rightarrow> (u32 outcome \<times> usys) option" where
  "read_arg t a s = after_ret (memread_user t a 4 s) (\<lambda>bs s. Some (Ret (le32_at bs 0), s))"

section \<open>Files\<close>

text \<open>The results are integers or truth values; \<open>name\<close> is the address of the file name.\<close>

definition with_path ::
    "nat \<Rightarrow> u32 \<Rightarrow> (byte list \<Rightarrow> usys \<Rightarrow> ('a outcome \<times> usys) option) \<Rightarrow> usys \<Rightarrow> ('a outcome \<times> usys) option" where
  "with_path t name body s = after_ret (check_user t name s) (\<lambda>_ s. do {
     (path, s) \<leftarrow> user_string t name s;
     body path s })"

definition sys_create :: "nat \<Rightarrow> u32 \<Rightarrow> u32 \<Rightarrow> usys \<Rightarrow> (bool outcome \<times> usys) option" where
  "sys_create t filename initial_size = with_path t filename (\<lambda>path s.
     locked t (fs_call (\<lambda>n. filesys_create n (cwd (uthreads s t)) path (sint initial_size) False)) s)"

definition sys_remove :: "nat \<Rightarrow> u32 \<Rightarrow> usys \<Rightarrow> (bool outcome \<times> usys) option" where
  "sys_remove t filename = with_path t filename (\<lambda>path s.
     locked t (fs_call (\<lambda>n. filesys_remove n (cwd (uthreads s t)) path)) s)"

definition sys_chdir :: "nat \<Rightarrow> u32 \<Rightarrow> usys \<Rightarrow> (bool outcome \<times> usys) option" where
  "sys_chdir t filename = with_path t filename (\<lambda>path. locked t (\<lambda>s. do {
     ((ok, d), s) \<leftarrow> fs_call (\<lambda>n junk st. do {
        (ok, d, st) \<leftarrow> filesys_chdir n (cwd (uthreads s t)) path junk st;
        Some ((ok, d), st) }) s;
     Some (ok, upd_thread t (\<lambda>u. u\<lparr>cwd := d\<rparr>) s) }))"

definition sys_mkdir :: "nat \<Rightarrow> u32 \<Rightarrow> usys \<Rightarrow> (bool outcome \<times> usys) option" where
  "sys_mkdir t filename = with_path t filename (\<lambda>path s.
     locked t (fs_call (\<lambda>n. filesys_create n (cwd (uthreads s t)) path 0 True)) s)"

text \<open>The next descriptor: three are reserved for the standard streams.\<close>

definition next_fd :: "file_desc list \<Rightarrow> int" where
  "next_fd ds = (if ds = [] then 3 else fd_id (last ds) + 1)"

text \<open>The part of \<^verbatim>\<open>sys_open\<close> under the lock; \<open>page\<close> is the page for the descriptor.\<close>

definition open_locked :: "nat \<Rightarrow> byte list \<Rightarrow> u32 \<Rightarrow> usys \<Rightarrow> (int \<times> usys) option" where
  "open_locked t path page s = do {
     (fo, s) \<leftarrow> fs_call (\<lambda>n. filesys_open n (cwd (uthreads s t)) path) s;
     case fo of None \<Rightarrow> do { s \<leftarrow> free_page page s; Some (-1, s) }
     | Some fo \<Rightarrow> do {
         let (f, p) = take_ptr (pst s);
         let s = set_file f fo (s\<lparr>pst := p\<rparr>);
         (d, s) \<leftarrow> fs_call (\<lambda>n _ st. do {
            dir \<leftarrow> inode_is_directory (finode fo) st;
            if dir then do { st \<leftarrow> inode_reopen (finode fo) st; dir_open n (Some (finode fo)) st }
            else Some (None, st) }) s;
         let fd = next_fd (fds_of t s);
         let d = \<lparr>fd_id = fd, fd_page = page, fd_file = f, fd_dir = d\<rparr>;
         Some (fd, upd_thread t (\<lambda>u. u\<lparr>file_descriptors := file_descriptors u @ [d]\<rparr>) s) } }"

definition sys_open :: "nat \<Rightarrow> u32 \<Rightarrow> usys \<Rightarrow> (int outcome \<times> usys) option" where
  "sys_open t filename = with_path t filename (\<lambda>path s. do {
     (page, m) \<leftarrow> palloc_get_page 0 (machine_of (pst s));
     let s = upd_pst (set_mach m) s;
     if page = 0 then Some (Ret (-1), s) else locked t (open_locked t path page) s })"

definition sys_filesize :: "nat \<Rightarrow> int \<Rightarrow> usys \<Rightarrow> (int outcome \<times> usys) option" where
  "sys_filesize t fd = locked t (\<lambda>s.
     (case find_file_desc (fds_of t s) fd FD_FILE of None \<Rightarrow> Some (-1, s)
      | Some d \<Rightarrow> do { len \<leftarrow> file_length (the_file (fd_file d) s) (fs (vs (pst s))); Some (len, s) }))"

text \<open>A bad descriptor returns without releasing the lock.\<close>

definition sys_seek :: "nat \<Rightarrow> int \<Rightarrow> u32 \<Rightarrow> usys \<Rightarrow> (unit outcome \<times> usys) option" where
  "sys_seek t fd position s = after_ret (lock_fs t s) (\<lambda>_ s.
     (case find_file_desc (fds_of t s) fd FD_FILE of
        Some d \<Rightarrow>
          if fd_file d \<noteq> NULL then do {
            fo \<leftarrow> file_seek (the_file (fd_file d) s) (sint position);
            s \<leftarrow> unlock_fs t (set_file (fd_file d) fo s);
            Some (Ret (), s) }
          else Some (Ret (), s)
      | None \<Rightarrow> Some (Ret (), s)))"

definition sys_tell :: "nat \<Rightarrow> int \<Rightarrow> usys \<Rightarrow> (u32 outcome \<times> usys) option" where
  "sys_tell t fd = locked t (\<lambda>s.
     (case find_file_desc (fds_of t s) fd FD_FILE of None \<Rightarrow> Some (-1, s)
      | Some d \<Rightarrow> Some (if fd_file d \<noteq> NULL then word_of_int (file_tell (the_file (fd_file d) s)) else -1, s)))"

definition sys_close :: "nat \<Rightarrow> int \<Rightarrow> usys \<Rightarrow> (unit outcome \<times> usys) option" where
  "sys_close t fd = locked t (\<lambda>s.
     (case find_file_desc (fds_of t s) fd (FD_FILE OR FD_DIRECTORY) of None \<Rightarrow> Some ((), s)
      | Some d \<Rightarrow>
          if fd_file d \<noteq> NULL then do {
            (_, s) \<leftarrow> fs_call (\<lambda>n _ st. do {
               st \<leftarrow> file_close n (Some (the_file (fd_file d) s)) st;
               st \<leftarrow> dir_close n (fd_dir d) st;
               Some ((), st) }) s;
            let s = upd_thread t (\<lambda>u. u\<lparr>file_descriptors := remove1 d (file_descriptors u)\<rparr>) s;
            s \<leftarrow> free_page (fd_page d) s;
            Some ((), s) }
          else Some ((), s)))"

section \<open>Reading and writing\<close>

text \<open>The loops over the pages of a buffer that ends at \<open>lim\<close>.\<close>

partial_function (option) preload_loop :: "nat \<Rightarrow> u32 \<Rightarrow> u32 \<Rightarrow> usys \<Rightarrow> usys option" where
  [code]: "preload_loop t up lim s =
     (if up < lim then do {
        (_, p) \<leftarrow> load_user_page t up (pst s);
        v \<leftarrow> vm_pin_page (stack_tmp p) t up (vm (vs p));
        preload_loop t (up + of_nat PGSIZE) lim (s\<lparr>pst := upd_vs (upd_vm (\<lambda>_. v)) p\<rparr>) }
      else Some s)"

definition preload_and_pin_pages :: "nat \<Rightarrow> u32 \<Rightarrow> u32 \<Rightarrow> usys \<Rightarrow> usys option" where
  "preload_and_pin_pages t buf sz s = preload_loop t (pg_round_down buf) (buf + sz) s"

partial_function (option) unpin_loop :: "nat \<Rightarrow> u32 \<Rightarrow> u32 \<Rightarrow> usys \<Rightarrow> usys option" where
  [code]: "unpin_loop t up lim s =
     (if up < lim then do {
        v \<leftarrow> vm_unpin_page (stack_tmp (pst s)) t up (vm (vs (pst s)));
        unpin_loop t (up + of_nat PGSIZE) lim (upd_pst (upd_vs (upd_vm (\<lambda>_. v))) s) }
      else Some s)"

definition unpin_preloaded_pages :: "nat \<Rightarrow> u32 \<Rightarrow> u32 \<Rightarrow> usys \<Rightarrow> usys option" where
  "unpin_preloaded_pages t buf sz s = unpin_loop t (pg_round_down buf) (buf + sz) s"

fun read_keys :: "nat \<Rightarrow> u32 \<Rightarrow> nat \<Rightarrow> usys \<Rightarrow> (unit outcome \<times> usys) option" where
  "read_keys t a 0 s = Some (Ret (), s)"
| "read_keys t a (Suc n) s = do {
     let key = keys s (key_no s);
     (ok, s) \<leftarrow> put_user t a key (s\<lparr>key_no := key_no s + 1\<rparr>);
     if \<not> ok then do { s \<leftarrow> unlock_fs t s; sys_exit t (-1) s }
     else read_keys t (a + 1) n s }"

text \<open>The part of a transfer between the two tests of the buffer and the release of the lock.\<close>

definition read_file :: "nat \<Rightarrow> int \<Rightarrow> u32 \<Rightarrow> u32 \<Rightarrow> usys \<Rightarrow> (int \<times> usys) option" where
  "read_file t fd buf sz s =
     (case find_file_desc (fds_of t s) fd FD_FILE of None \<Rightarrow> Some (-1, s)
      | Some d \<Rightarrow>
          if fd_file d \<noteq> NULL then do {
            s \<leftarrow> preload_and_pin_pages t buf sz s;
            ((bs, fo), s) \<leftarrow> fs_call (\<lambda>_ _ st. do {
               (bs, fo, st) \<leftarrow> file_read (the_file (fd_file d) s) (sint sz) st;
               Some ((bs, fo), st) }) s;
            s \<leftarrow> put_user_bytes t buf bs (set_file (fd_file d) fo s);
            s \<leftarrow> unpin_preloaded_pages t buf sz s;
            Some (int (length bs), s) }
          else Some (-1, s))"

definition write_file :: "nat \<Rightarrow> int \<Rightarrow> u32 \<Rightarrow> u32 \<Rightarrow> usys \<Rightarrow> (int \<times> usys) option" where
  "write_file t fd buf sz s =
     (case find_file_desc (fds_of t s) fd FD_FILE of None \<Rightarrow> Some (-1, s)
      | Some d \<Rightarrow>
          if fd_file d \<noteq> NULL then do {
            s \<leftarrow> preload_and_pin_pages t buf sz s;
            (bs, s) \<leftarrow> user_bytes t buf (nat (sint sz)) s;
            ((k, fo), s) \<leftarrow> fs_call (\<lambda>n _ st. do {
               (k, fo, st) \<leftarrow> file_write n (the_file (fd_file d) s) bs (sint sz) st;
               Some ((k, fo), st) }) s;
            s \<leftarrow> unpin_preloaded_pages t buf sz (set_file (fd_file d) fo s);
            Some (k, s) }
          else Some (-1, s))"

definition check_buffer :: "nat \<Rightarrow> u32 \<Rightarrow> u32 \<Rightarrow> usys \<Rightarrow> (unit outcome \<times> usys) option" where
  "check_buffer t buf sz s = after_ret (check_user t buf s) (\<lambda>_. check_user t (buf + sz - 1))"

definition sys_read :: "nat \<Rightarrow> int \<Rightarrow> u32 \<Rightarrow> u32 \<Rightarrow> usys \<Rightarrow> (int outcome \<times> usys) option" where
  "sys_read t fd buf sz s = after_ret (check_buffer t buf sz s) (\<lambda>_ s.
     if fd = 0 then after_ret (lock_fs t s) (\<lambda>_ s. after_ret (read_keys t buf (unat sz) s) (\<lambda>_ s. do {
       s \<leftarrow> unlock_fs t s;
       Some (Ret (sint sz), s) }))
     else locked t (read_file t fd buf sz) s)"

definition sys_write :: "nat \<Rightarrow> int \<Rightarrow> u32 \<Rightarrow> u32 \<Rightarrow> usys \<Rightarrow> (int outcome \<times> usys) option" where
  "sys_write t fd buf sz s = after_ret (check_buffer t buf sz s) (\<lambda>_.
     locked t (\<lambda>s.
       if fd = 1 then do {
         (bs, s) \<leftarrow> user_bytes t buf (unat sz) s;
         Some (sint sz, s\<lparr>console := console s @ bs\<rparr>) }
       else write_file t fd buf sz s))"

section \<open>Memory mappings\<close>

fun any_mapped :: "nat \<Rightarrow> u32 \<Rightarrow> nat \<Rightarrow> pstate \<Rightarrow> bool" where
  "any_mapped t a 0 p \<longleftrightarrow> False"
| "any_mapped t a (Suc n) p \<longleftrightarrow>
     vm_supt_has_entry (stack_tmp p) (supt_of t p) a \<or> any_mapped t (a + of_nat PGSIZE) n p"

fun map_loop :: "nat \<Rightarrow> u32 \<Rightarrow> nat \<Rightarrow> nat \<Rightarrow> nat \<Rightarrow> nat \<Rightarrow> pstate \<Rightarrow> pstate option" where
  "map_loop t up f file_size 0 offset p = Some p"
| "map_loop t up f file_size (Suc n) offset p = do {
     let rb = (if offset + PGSIZE < file_size then PGSIZE else file_size - offset);
     let zb = PGSIZE - rb;
     let (a, p) = take_ptr p;
     (_, st) \<leftarrow> vm_supt_install_filesys (rehash_mem p) a (supt_of t p) (up + of_nat offset) f (int offset)
                 (of_nat rb) (of_nat zb) True;
     map_loop t up f file_size n (offset + PGSIZE) (set_supt t st p) }"

definition next_mid :: "mmap_desc list \<Rightarrow> int" where
  "next_mid ds = (if ds \<noteq> [] then mm_id (last ds) + 1 else 1)"

definition map_file :: "nat \<Rightarrow> int \<Rightarrow> u32 \<Rightarrow> usys \<Rightarrow> (int \<times> usys) option" where
  "map_file t fd up s =
     (case find_file_desc (fds_of t s) fd FD_FILE of None \<Rightarrow> Some (-1, s)
      | Some d \<Rightarrow>
          if fd_file d = NULL then Some (-1, s)
          else do {
            (fo, s) \<leftarrow> fs_call (\<lambda>n _ st. file_reopen n (the_file (fd_file d) s) st) s;
            case fo of None \<Rightarrow> Some (-1, s)
            | Some fo \<Rightarrow> do {
                let (f, p) = take_ptr (pst s);
                let s = set_file f fo (s\<lparr>pst := p\<rparr>);
                len \<leftarrow> file_length fo (fs (vs (pst s)));
                let file_size = unat (word_of_int len :: u32);
                if file_size = 0 \<or> any_mapped t up (page_count file_size) (pst s) then Some (-1, s)
                else do {
                  p \<leftarrow> map_loop t up f file_size (page_count file_size) 0 (pst s);
                  let mid = next_mid (mmaps_of t s);
                  let (a, p) = take_ptr p;
                  ASSERT (a \<noteq> NULL);
                  let d = \<lparr>mm_id = mid, mm_file = f, mm_addr = up, mm_size = file_size\<rparr>;
                  Some (mid, upd_thread t (\<lambda>u. u\<lparr>mmap_list := mmap_list u @ [d]\<rparr>) (s\<lparr>pst := p\<rparr>)) } } })"

definition sys_mmap :: "nat \<Rightarrow> int \<Rightarrow> u32 \<Rightarrow> usys \<Rightarrow> (int outcome \<times> usys) option" where
  "sys_mmap t fd up s =
     (if up = 0 \<or> pg_ofs up \<noteq> 0 then Some (Ret (-1), s)
      else if fd \<le> 1 then Some (Ret (-1), s)
      else locked t (map_file t fd up) s)"

section \<open>Directories\<close>

definition sys_readdir :: "nat \<Rightarrow> int \<Rightarrow> u32 \<Rightarrow> usys \<Rightarrow> (bool outcome \<times> usys) option" where
  "sys_readdir t fd name = locked t (\<lambda>s.
     (case find_file_desc (fds_of t s) fd FD_DIRECTORY of None \<Rightarrow> Some (False, s)
      | Some d \<Rightarrow> do {
          isdir \<leftarrow> inode_is_directory (file_get_inode (the_file (fd_file d) s)) (fs (vs (pst s)));
          if \<not> isdir then Some (False, s)
          else do {
            dr \<leftarrow> fd_dir d;
            ((r, dr), s) \<leftarrow> fs_call (\<lambda>_ junk st. do {
               (r, dr, st) \<leftarrow> dir_readdir dr junk st;
               Some ((r, dr), st) }) s;
            let s = upd_thread t (\<lambda>u. u\<lparr>file_descriptors :=
                      map (\<lambda>x. if x = d then x\<lparr>fd_dir := Some dr\<rparr> else x) (file_descriptors u)\<rparr>) s;
            case r of None \<Rightarrow> Some (False, s)
            | Some nm \<Rightarrow> do { s \<leftarrow> put_user_bytes t name (nm @ [0]) s; Some (True, s) } } }))"

text \<open>The descriptor is not checked: a bad one is a null pointer.\<close>

definition sys_isdir :: "nat \<Rightarrow> int \<Rightarrow> usys \<Rightarrow> (bool outcome \<times> usys) option" where
  "sys_isdir t fd = locked t (\<lambda>s. do {
     d \<leftarrow> find_file_desc (fds_of t s) fd (FD_FILE OR FD_DIRECTORY);
     r \<leftarrow> inode_is_directory (file_get_inode (the_file (fd_file d) s)) (fs (vs (pst s)));
     Some (r, s) })"

definition sys_inumber :: "nat \<Rightarrow> int \<Rightarrow> usys \<Rightarrow> (int outcome \<times> usys) option" where
  "sys_inumber t fd = locked t (\<lambda>s. do {
     d \<leftarrow> find_file_desc (fds_of t s) fd (FD_FILE OR FD_DIRECTORY);
     r \<leftarrow> inode_get_inumber (file_get_inode (the_file (fd_file d) s)) (fs (vs (pst s)));
     Some (int r, s) })"

section \<open>The dispatcher\<close>

text \<open>
  \<open>exec\<close> and \<open>wait\<close> stand for \<^verbatim>\<open>process_execute\<close> and \<^verbatim>\<open>process_wait\<close>: other threads run while they wait, and
  theory Process has their steps.
\<close>

definition sys_halt :: "usys \<Rightarrow> ('a outcome \<times> usys) option" where
  "sys_halt s = Some (Halt, s)"

definition sys_exec ::
    "(nat \<Rightarrow> byte list \<Rightarrow> usys \<Rightarrow> (int outcome \<times> usys) option) \<Rightarrow> nat \<Rightarrow> u32 \<Rightarrow> usys \<Rightarrow> (int outcome \<times> usys) option" where
  "sys_exec exec t cmdline = with_path t cmdline (\<lambda>cmd s. after_ret (lock_fs t s) (\<lambda>_ s.
     after_ret (exec t cmd s) (\<lambda>pid s. do { s \<leftarrow> unlock_fs t s; Some (Ret pid, s) })))"

text \<open>What a call leaves in \<^verbatim>\<open>eax\<close>.\<close>

definition ret_int :: "intr_frame \<Rightarrow> (int outcome \<times> usys) option \<Rightarrow> (intr_frame outcome \<times> usys) option" where
  "ret_int f r = after_ret r (\<lambda>v s. Some (Ret (f\<lparr>eax := word_of_int v\<rparr>), s))"

definition ret_bool :: "intr_frame \<Rightarrow> (bool outcome \<times> usys) option \<Rightarrow> (intr_frame outcome \<times> usys) option" where
  "ret_bool f r = after_ret r (\<lambda>v s. Some (Ret (f\<lparr>eax := of_bool v\<rparr>), s))"

definition ret_word :: "intr_frame \<Rightarrow> (u32 outcome \<times> usys) option \<Rightarrow> (intr_frame outcome \<times> usys) option" where
  "ret_word f r = after_ret r (\<lambda>v s. Some (Ret (f\<lparr>eax := v\<rparr>), s))"

definition ret_void :: "intr_frame \<Rightarrow> ('a outcome \<times> usys) option \<Rightarrow> (intr_frame outcome \<times> usys) option" where
  "ret_void f r = after_ret r (\<lambda>_ s. Some (Ret f, s))"

definition dispatch ::
    "(nat \<Rightarrow> byte list \<Rightarrow> usys \<Rightarrow> (int outcome \<times> usys) option) \<Rightarrow> (nat \<Rightarrow> int \<Rightarrow> usys \<Rightarrow> (int outcome \<times> usys) option) \<Rightarrow>
     nat \<Rightarrow> intr_frame \<Rightarrow> u32 \<Rightarrow> usys \<Rightarrow> (intr_frame outcome \<times> usys) option" where
  "dispatch exec wait t f n s = (let esp = if_esp f;
       arg1 = (\<lambda>k. after_ret (read_arg t (esp + 4) s) k);
       arg2 = (\<lambda>k. arg1 (\<lambda>a s. after_ret (read_arg t (esp + 8) s) (k a)));
       arg3 = (\<lambda>k. arg2 (\<lambda>a b s. after_ret (read_arg t (esp + 12) s) (k a b)))
     in
      if n = 0 then sys_halt s
      else if n = 1 then arg1 (\<lambda>a. sys_exit t (sint a))
      else if n = 2 then arg1 (\<lambda>a s. ret_int f (sys_exec exec t a s))
      else if n = 3 then arg1 (\<lambda>a s. ret_int f (wait t (sint a) s))
      else if n = 4 then arg2 (\<lambda>a b s. ret_bool f (sys_create t a b s))
      else if n = 5 then arg1 (\<lambda>a s. ret_bool f (sys_remove t a s))
      else if n = 6 then arg1 (\<lambda>a s. ret_int f (sys_open t a s))
      else if n = 7 then arg1 (\<lambda>a s. ret_int f (sys_filesize t (sint a) s))
      else if n = 8 then arg3 (\<lambda>a b c s. ret_int f (sys_read t (sint a) b c s))
      else if n = 9 then arg3 (\<lambda>a b c s. ret_int f (sys_write t (sint a) b c s))
      else if n = 10 then arg2 (\<lambda>a b s. ret_void f (sys_seek t (sint a) b s))
      else if n = 11 then arg1 (\<lambda>a s. ret_word f (sys_tell t (sint a) s))
      else if n = 12 then arg1 (\<lambda>a s. ret_void f (sys_close t (sint a) s))
      else if n = 13 then arg2 (\<lambda>a b s. ret_int f (sys_mmap t (sint a) b s))
      else if n = 14 then arg1 (\<lambda>a s. ret_void f (sys_munmap t (sint a) s))
      else if n = 15 then arg1 (\<lambda>a s. ret_bool f (sys_chdir t a s))
      else if n = 16 then arg1 (\<lambda>a s. ret_bool f (sys_mkdir t a s))
      else if n = 17 then arg2 (\<lambda>a b s. ret_bool f (sys_readdir t (sint a) b s))
      else if n = 18 then arg1 (\<lambda>a s. ret_bool f (sys_isdir t (sint a) s))
      else if n = 19 then arg1 (\<lambda>a s. ret_int f (sys_inumber t (sint a) s))
      else sys_exit t (-1) s)"

definition syscall_handler ::
    "(nat \<Rightarrow> byte list \<Rightarrow> usys \<Rightarrow> (int outcome \<times> usys) option) \<Rightarrow> (nat \<Rightarrow> int \<Rightarrow> usys \<Rightarrow> (int outcome \<times> usys) option) \<Rightarrow>
     nat \<Rightarrow> intr_frame \<Rightarrow> usys \<Rightarrow> (intr_frame outcome \<times> usys) option" where
  "syscall_handler exec wait t f s = after_ret (read_arg t (if_esp f) s) (\<lambda>n s.
     dispatch exec wait t f n (upd_thread t (\<lambda>u. u\<lparr>current_esp := if_esp f\<rparr>) s))"

end
