(* ===== verification/SyscallFacts.thy ===== *)
theory SyscallFacts
  imports Syscall
begin

text \<open>
  What every system call keeps: the file system lock is free again, and the tables of descriptors and
  mappings are well formed. \<open>post m Q J\<close> is the rule of partial correctness for the results of calls:
  \<open>Q\<close> where the call returns, \<open>J\<close> where the process ends.
\<close>

section \<open>Postconditions\<close>

definition post :: "('a outcome \<times> usys) option \<Rightarrow> ('a \<Rightarrow> usys \<Rightarrow> bool) \<Rightarrow> (usys \<Rightarrow> bool) \<Rightarrow> bool" where
  "post m Q J = (case m of None \<Rightarrow> True | Some (Ret v, s) \<Rightarrow> Q v s | Some (_, s) \<Rightarrow> J s)"

lemma post_simps [simp]:
  "post None Q J" "post (Some (Ret v, s)) Q J = Q v s" "post (Some (Exit c, s)) Q J = J s"
  "post (Some (Halt, s)) Q J = J s" "post (Some (Blocked, s)) Q J = J s"
  by (simp_all add: post_def)

lemma post_after_ret: "post m (\<lambda>v s. post (f v s) Q J) J \<Longrightarrow> post (after_ret m f) Q J"
  by (cases "(m, f)" rule: after_ret.cases) (auto simp: post_def)

lemma post_mono: "post m Q' J' \<Longrightarrow> (\<And>v s. Q' v s \<Longrightarrow> Q v s) \<Longrightarrow> (\<And>s. J' s \<Longrightarrow> J s) \<Longrightarrow> post m Q J"
  by (auto simp: post_def split: option.splits outcome.splits)

text \<open>The same for computations that cannot end the process.\<close>

definition keeps :: "(usys \<Rightarrow> bool) \<Rightarrow> ('a \<times> usys) option \<Rightarrow> bool" where
  "keeps I m \<longleftrightarrow> (case m of None \<Rightarrow> True | Some (_, s) \<Rightarrow> I s)"

lemma keeps_simps [simp]: "keeps I None" "keeps I (Some (r, s)) = I s"
  by (simp_all add: keeps_def)

section \<open>The invariant\<close>

definition fds_ok :: "file_desc list \<Rightarrow> bool" where
  "fds_ok ds \<longleftrightarrow> sorted_wrt (<) (map fd_id ds) \<and> (\<forall>d \<in> set ds. 3 \<le> fd_id d)"

definition mmaps_ok :: "mmap_desc list \<Rightarrow> bool" where
  "mmaps_ok ds \<longleftrightarrow> sorted_wrt (<) (map mm_id ds) \<and> (\<forall>d \<in> set ds. 1 \<le> mm_id d)"

text \<open>\<open>L\<close> is the holder of the lock.\<close>

definition tables_ok :: "nat \<Rightarrow> usys \<Rightarrow> bool" where
  "tables_ok t s \<longleftrightarrow> fds_ok (fds_of t s) \<and> mmaps_ok (mmaps_of t s)"

definition call_inv :: "nat \<Rightarrow> nat option \<Rightarrow> usys \<Rightarrow> bool" where
  "call_inv t L s \<longleftrightarrow> filesys_lock s = L \<and> tables_ok t s"

text \<open>What the invariant depends on; most of the calls' steps change other parts of the state.\<close>

definition user_view :: "usys \<Rightarrow> nat option \<times> (nat \<Rightarrow> uthread) \<times> kctx" where
  "user_view s = (filesys_lock s, uthreads s, kctx s)"

lemma view_simps [simp]:
  "user_view (s\<lparr>pst := p\<rparr>) = user_view s" "user_view (s\<lparr>console := c\<rparr>) = user_view s"
  "user_view (s\<lparr>key_no := n\<rparr>) = user_view s" "user_view (upd_pst f s) = user_view s"
  "user_view (set_file x fo s) = user_view s" "user_view (poke x b s) = user_view s"
  by (simp_all add: user_view_def upd_pst_def set_file_def poke_def)

lemma inv_view: "user_view s' = user_view s \<Longrightarrow> call_inv t L s' = call_inv t L s"
  by (simp add: user_view_def call_inv_def tables_ok_def fds_of_def mmaps_of_def)

lemmas inv_simps [simp] = view_simps [THEN inv_view]

lemma fds_ok_snoc:
  assumes "fds_ok ds" "fd_id d = next_fd ds"
  shows "fds_ok (ds @ [d])"
proof (cases ds rule: rev_cases)
  case Nil
  then show ?thesis using assms by (simp add: fds_ok_def next_fd_def)
next
  case (snoc es e)
  then show ?thesis using assms by (force simp: fds_ok_def next_fd_def sorted_wrt_append)
qed

lemma sorted_remove1: "sorted_wrt R (map f xs) \<Longrightarrow> sorted_wrt R (map f (remove1 x xs))"
  by (induction xs) (auto dest: notin_set_remove1 set_remove1_subset [THEN subsetD])

lemma fds_ok_remove: "fds_ok ds \<Longrightarrow> fds_ok (remove1 d ds)"
  using sorted_remove1 [of "(<)" fd_id ds d] set_remove1_subset [of d ds] by (auto simp: fds_ok_def)

lemma fds_ok_tl: "fds_ok (d # ds) \<Longrightarrow> fds_ok ds"
  by (simp add: fds_ok_def)

lemma mmaps_ok_snoc:
  assumes "mmaps_ok ds" "mm_id d = next_mid ds"
  shows "mmaps_ok (ds @ [d])"
proof (cases ds rule: rev_cases)
  case Nil
  then show ?thesis using assms by (simp add: mmaps_ok_def next_mid_def)
next
  case (snoc es e)
  then show ?thesis using assms by (force simp: mmaps_ok_def next_mid_def sorted_wrt_append)
qed

lemma mmaps_ok_remove: "mmaps_ok ds \<Longrightarrow> mmaps_ok (remove1 d ds)"
  using sorted_remove1 [of "(<)" mm_id ds d] set_remove1_subset [of d ds] by (auto simp: mmaps_ok_def)

section \<open>User memory\<close>

lemma user_ref_view: "user_ref t wr a s = Some (r, s') \<Longrightarrow> user_view s' = user_view s"
  by (auto simp: user_ref_def split: Option.bind_splits)

lemma get_user_view: "get_user t a s = Some (v, s') \<Longrightarrow> user_view s' = user_view s"
  by (auto simp: get_user_def user_ref_view split: Option.bind_splits if_splits)

lemma put_user_view: "put_user t a b s = Some (v, s') \<Longrightarrow> user_view s' = user_view s"
  by (auto simp: put_user_def user_ref_view split: Option.bind_splits if_splits sum.splits)

lemma user_bytes_view: "user_bytes t a n s = Some (bs, s') \<Longrightarrow> user_view s' = user_view s"
  by (induction n arbitrary: a s bs) (auto simp: user_ref_view split: Option.bind_splits)

lemma put_user_bytes_view: "put_user_bytes t a bs s = Some s' \<Longrightarrow> user_view s' = user_view s"
  by (induction bs arbitrary: a s) (auto simp: user_ref_view split: Option.bind_splits)

lemma user_string_view': "user_string t a s = Some r \<Longrightarrow> user_view (snd r) = user_view s"
proof (induction rule: user_string.raw_induct [rotated 1, consumes 1, case_names step])
  case (step f t a s r)
  obtain v s1 x where v: "user_ref t False a s = Some (v, s1)" "(case v of Inl x \<Rightarrow> Some x | Inr _ \<Rightarrow> None) = Some x"
    using step(2) by (auto split: Option.bind_splits)
  have r: "(if peek x s1 = 0 then Some ([], s1) else do { (bs, s') \<leftarrow> f t (a + 1) s1; Some (peek x s1 # bs, s') }) = Some r"
    using step(2) v by simp
  have "user_view (snd r) = user_view s1"
  proof (cases "peek x s1 = 0")
    case False
    then obtain q where "f t (a + 1) s1 = Some q" "snd r = snd q" using r by (auto split: Option.bind_splits prod.splits)
    then show ?thesis using step(1) by metis
  qed (use r in auto)
  then show ?case using user_ref_view [OF v(1)] by simp
qed

lemma user_string_view: "user_string t a s = Some (bs, s') \<Longrightarrow> user_view s' = user_view s"
  using user_string_view' by fastforce

lemma preload_view: "preload_loop t a b s = Some s' \<Longrightarrow> user_view s' = user_view s"
proof (induction rule: preload_loop.raw_induct [rotated 1, consumes 1, case_names step])
  case (step f t a b s r)
  then show ?case by (auto split: Option.bind_splits if_splits)
qed

lemma unpin_view: "unpin_loop t a b s = Some s' \<Longrightarrow> user_view s' = user_view s"
proof (induction rule: unpin_loop.raw_induct [rotated 1, consumes 1, case_names step])
  case (step f t a b s r)
  then show ?case by (auto split: Option.bind_splits if_splits)
qed

lemma fs_call_view: "fs_call f s = Some (r, s') \<Longrightarrow> user_view s' = user_view s"
  by (auto simp: fs_call_def Let_def split: Option.bind_splits)

lemma free_page_view: "free_page p s = Some s' \<Longrightarrow> user_view s' = user_view s"
  by (auto simp: free_page_def split: Option.bind_splits)

lemmas views = user_ref_view get_user_view put_user_view user_bytes_view put_user_bytes_view user_string_view
  preload_view unpin_view fs_call_view free_page_view

section \<open>The lock\<close>

lemma inv_unlock: "unlock_fs t s = Some s' \<Longrightarrow> call_inv t (Some t) s \<Longrightarrow> call_inv t None s'"
  by (auto simp: unlock_fs_def call_inv_def tables_ok_def fds_of_def mmaps_of_def)

lemma post_lock: "call_inv t None s \<Longrightarrow> post (lock_fs t s) (\<lambda>_. call_inv t (Some t)) J"
  by (auto simp: lock_fs_def call_inv_def tables_ok_def fds_of_def mmaps_of_def post_def split: option.splits Option.bind_splits)

lemma post_locked:
  assumes "call_inv t None s" "\<And>s. call_inv t (Some t) s \<Longrightarrow> keeps (call_inv t (Some t)) (body s)"
  shows "post (locked t body s) (\<lambda>_. call_inv t None) (call_inv t None)"
  unfolding locked_def
proof (rule post_after_ret, rule post_mono [OF post_lock [OF assms(1), of "call_inv t None"]])
  fix s1 assume "call_inv t (Some t) s1"
  from assms(2) [OF this] show "post (do { (r, s) \<leftarrow> body s1; s \<leftarrow> unlock_fs t s; Some (Ret r, s) })
      (\<lambda>_. call_inv t None) (call_inv t None)"
    by (cases "body s1") (auto dest: inv_unlock simp: keeps_def post_def split: Option.bind_splits)
qed

section \<open>The end of a process\<close>

lemma unmap_loop_view: "unmap_loop t d n k s = Some s' \<Longrightarrow> user_view s' = user_view s"
  by (induction n arbitrary: k s) (auto simp: Let_def split: Option.bind_splits)

lemma inv_upd_thread:
  assumes "call_inv t L s" "fds_ok (file_descriptors (f (uthreads s t)))" "mmaps_ok (mmap_list (f (uthreads s t)))"
  shows "call_inv t L (upd_thread t f s)"
  using assms by (simp add: call_inv_def tables_ok_def fds_of_def mmaps_of_def upd_thread_def)

lemma tables_of_inv: "call_inv t L s \<Longrightarrow> fds_ok (file_descriptors (uthreads s t))"
    "call_inv t L s \<Longrightarrow> mmaps_ok (mmap_list (uthreads s t))"
  by (simp_all add: call_inv_def tables_ok_def fds_of_def mmaps_of_def)

lemma post_munmap: "call_inv t None s \<Longrightarrow> post (sys_munmap t mid s) (\<lambda>_. call_inv t None) (call_inv t None)"
  unfolding sys_munmap_def
  by (auto split: option.splits Option.bind_splits intro!: post_locked inv_upd_thread mmaps_ok_remove
      simp: keeps_def Let_def unmap_loop_view [THEN inv_view] fs_call_view [THEN inv_view] tables_of_inv)

lemma close_fds_inv: "close_fds t ds s = Some s' \<Longrightarrow> fds_of t s = ds \<Longrightarrow> call_inv t L s \<Longrightarrow> call_inv t L s'"
proof (induction ds arbitrary: s)
  case (Cons d ds)
  let ?s = "upd_thread t (\<lambda>u. u\<lparr>file_descriptors := ds\<rparr>) s"
  obtain s1 s2 r where s: "fs_call (\<lambda>n _ st. do { st \<leftarrow> file_close n (Some (the_file (fd_file d) ?s)) st; Some ((), st) }) ?s = Some (r, s1)"
      "free_page (fd_page d) s1 = Some s2" "close_fds t ds s2 = Some s'"
    using Cons.prems(1) by (auto simp: Let_def split: Option.bind_splits)
  have inv: "call_inv t L ?s" using Cons.prems(2,3)
    by (intro inv_upd_thread) (use tables_of_inv(1) [OF Cons.prems(3)] tables_of_inv(2) [OF Cons.prems(3)] in
        \<open>auto simp: fds_of_def dest: fds_ok_tl\<close>)
  have view: "user_view s2 = user_view ?s" using fs_call_view [OF s(1)] free_page_view [OF s(2)] by simp
  have "fds_of t s2 = ds" using view by (simp add: user_view_def fds_of_def upd_thread_def)
  then show ?case using Cons.IH [OF s(3)] inv inv_view [OF view] by simp
qed simp

lemma post_unmap_all: "call_inv t None s \<Longrightarrow> post (unmap_all t n s) (\<lambda>_. call_inv t None) (call_inv t None)"
proof (induction n arbitrary: s)
  case (Suc n)
  show ?case
  proof (cases "mmaps_of t s")
    case (Cons d ds)
    have "post (do { ASSERT ok; unmap_all t n s1 }) (\<lambda>_. call_inv t None) (call_inv t None)"
      if "call_inv t None s1" for ok s1
      using Suc.IH [OF that] by (cases ok) simp_all
    then show ?thesis using Cons post_mono [OF post_munmap [OF Suc.prems]]
      by (auto intro!: post_after_ret)
  qed (use Suc.prems in simp)
qed simp

lemma post_release_files: "call_inv t None s \<Longrightarrow> post (release_files t s) (\<lambda>_. call_inv t None) (call_inv t None)"
  unfolding release_files_def
  by (auto split: Option.bind_splits intro!: post_after_ret post_mono [OF post_unmap_all]
      dest: close_fds_inv simp: fs_call_view [THEN inv_view])

lemma release_executable_view: "release_executable t s = Some s' \<Longrightarrow> user_view s' = user_view s"
  by (auto simp: release_executable_def Let_def fs_call_view split: if_splits Option.bind_splits)

lemma release_memory_view: "release_memory t s = Some s' \<Longrightarrow> user_view s' = user_view s"
  by (auto simp: release_memory_def Let_def split: if_splits Option.bind_splits)

lemma post_sys_exit: "call_inv t None s \<Longrightarrow> post (sys_exit t c s) Q (call_inv t None)"
proof -
  assume "call_inv t None s"
  then have inv: "call_inv t None (s\<lparr>console := console s @ exit_message (tname (uthreads s t)) c\<rparr>)"
    by (subst inv_view) simp_all
  show ?thesis unfolding sys_exit_def process_exit_def Let_def
    by (intro post_after_ret post_mono [OF post_release_files [OF inv]])
      (auto split: Option.bind_splits simp: release_executable_view [THEN inv_view] release_memory_view [THEN inv_view])
qed

lemma post_fail: "call_inv t L s \<Longrightarrow> L = None \<or> L = Some t \<Longrightarrow> post (fail_invalid_access t s) Q (call_inv t None)"
  unfolding fail_invalid_access_def
  by (auto split: Option.bind_splits if_splits intro!: post_sys_exit dest: inv_unlock simp: call_inv_def)

section \<open>Arguments\<close>

text \<open>A call begins with the lock free; the rules take what follows an access that may end the process.\<close>

lemma post_check_user:
  assumes "call_inv t None s"
  shows "post (check_user t a s) (\<lambda>_. call_inv t None) (call_inv t None)"
  using assms unfolding check_user_def
  by (auto split: Option.bind_splits intro!: post_fail simp: get_user_view [THEN inv_view])

lemma post_memread: "call_inv t None s \<Longrightarrow> post (memread_user t a n s) (\<lambda>_. call_inv t None) (call_inv t None)"
proof (induction n arbitrary: a s)
  case (Suc n)
  then show ?case
    by (auto split: Option.bind_splits intro!: post_fail post_after_ret simp: get_user_view [THEN inv_view]
        intro: post_mono)
qed simp

lemma post_read_arg:
  assumes "call_inv t None s" "\<And>w s. call_inv t None s \<Longrightarrow> post (k w s) Q (call_inv t None)"
  shows "post (after_ret (read_arg t a s) k) Q (call_inv t None)"
  unfolding read_arg_def
  by (rule post_after_ret, rule post_after_ret, rule post_mono [OF post_memread [OF assms(1)]]) (simp_all add: assms(2))

lemma post_with_path:
  assumes "call_inv t None s" "\<And>path s. call_inv t None s \<Longrightarrow> post (body path s) Q (call_inv t None)"
  shows "post (with_path t a body s) Q (call_inv t None)"
  unfolding with_path_def
  by (rule post_after_ret, rule post_mono [OF post_check_user [OF assms(1)]])
    (auto split: Option.bind_splits intro!: assms(2) simp: user_string_view [THEN inv_view])

section \<open>The calls\<close>

lemma keeps_fs_call: "call_inv t L s \<Longrightarrow> keeps (call_inv t L) (fs_call f s)"
  by (auto simp: keeps_def fs_call_view [THEN inv_view] split: option.splits)

abbreviation call_ok :: "nat \<Rightarrow> ('a outcome \<times> usys) option \<Rightarrow> bool" where
  "call_ok t m \<equiv> post m (\<lambda>_. call_inv t None) (call_inv t None)"

lemma sys_create_ok: "call_inv t None s \<Longrightarrow> call_ok t (sys_create t a n s)"
  unfolding sys_create_def by (rule post_with_path) (auto intro: post_locked keeps_fs_call)

lemma remove_ok: "call_inv t None s \<Longrightarrow> call_ok t (sys_remove t a s)"
  unfolding sys_remove_def by (rule post_with_path) (auto intro: post_locked keeps_fs_call)

lemma mkdir_ok: "call_inv t None s \<Longrightarrow> call_ok t (sys_mkdir t a s)"
  unfolding sys_mkdir_def by (rule post_with_path) (auto intro: post_locked keeps_fs_call)

lemma chdir_ok: "call_inv t None s \<Longrightarrow> call_ok t (sys_chdir t a s)"
  unfolding sys_chdir_def
  by (rule post_with_path) (auto intro!: post_locked inv_upd_thread simp: keeps_def fs_call_view [THEN inv_view] tables_of_inv
      split: Option.bind_splits)

lemma keeps_open_locked: "call_inv t L s \<Longrightarrow> keeps (call_inv t L) (open_locked t path page s)"
  unfolding open_locked_def
  by (auto split: Option.bind_splits option.splits prod.splits intro!: inv_upd_thread fds_ok_snoc
      simp: Let_def keeps_def fs_call_view [THEN inv_view] free_page_view [THEN inv_view] tables_of_inv fds_of_def)

lemma open_ok: "call_inv t None s \<Longrightarrow> call_ok t (sys_open t a s)"
  unfolding sys_open_def
  by (rule post_with_path) (auto split: Option.bind_splits intro!: post_locked keeps_open_locked simp: Let_def)

lemma filesize_ok: "call_inv t None s \<Longrightarrow> call_ok t (sys_filesize t fd s)"
  unfolding sys_filesize_def by (rule post_locked) (auto simp: keeps_def split: option.splits Option.bind_splits)

lemma tell_ok: "call_inv t None s \<Longrightarrow> call_ok t (sys_tell t fd s)"
  unfolding sys_tell_def by (rule post_locked) (auto simp: keeps_def split: option.splits Option.bind_splits)

lemma sys_close_ok: "call_inv t None s \<Longrightarrow> call_ok t (sys_close t fd s)"
  unfolding sys_close_def Let_def
  by (rule post_locked) (auto simp: keeps_def fs_call_view [THEN inv_view] free_page_view [THEN inv_view] tables_of_inv
      intro!: inv_upd_thread fds_ok_remove split: option.splits Option.bind_splits if_splits)

lemma keeps_seek:
  assumes "call_inv t None s"
  shows "post (sys_seek t fd p s) (\<lambda>_ s'. tables_ok t s' \<and> filesys_lock s' =
      (case find_file_desc (fds_of t s) fd FD_FILE of Some d \<Rightarrow> if fd_file d \<noteq> NULL then None else Some t | None \<Rightarrow> Some t))
    (call_inv t None)"
  using assms unfolding sys_seek_def
  by (auto simp: lock_fs_def unlock_fs_def call_inv_def tables_ok_def fds_of_def mmaps_of_def set_file_def upd_pst_def
      split: option.splits Option.bind_splits if_splits)

lemma post_check_buffer:
  assumes "call_inv t None s"
  shows "call_ok t (check_buffer t a n s)"
  unfolding check_buffer_def
  by (rule post_after_ret, rule post_mono [OF post_check_user [OF assms]]) (auto intro: post_check_user)

lemma keeps_read_file: "call_inv t L s \<Longrightarrow> keeps (call_inv t L) (read_file t fd a n s)"
  unfolding read_file_def preload_and_pin_pages_def unpin_preloaded_pages_def
  by (auto simp: keeps_def preload_view [THEN inv_view] unpin_view [THEN inv_view] fs_call_view [THEN inv_view]
      put_user_bytes_view [THEN inv_view] split: option.splits Option.bind_splits if_splits)

lemma keeps_write_file: "call_inv t L s \<Longrightarrow> keeps (call_inv t L) (write_file t fd a n s)"
  unfolding write_file_def preload_and_pin_pages_def unpin_preloaded_pages_def
  by (auto simp: keeps_def preload_view [THEN inv_view] unpin_view [THEN inv_view] fs_call_view [THEN inv_view]
      user_bytes_view [THEN inv_view] split: option.splits Option.bind_splits if_splits)

lemma post_read_keys:
  "call_inv t (Some t) s \<Longrightarrow> post (read_keys t a n s) (\<lambda>_. call_inv t (Some t)) (call_inv t None)"
proof (induction n arbitrary: a s)
  case (Suc n)
  let ?m = "put_user t a (keys s (key_no s)) (s\<lparr>key_no := key_no s + 1\<rparr>)"
  show ?case
  proof (cases ?m)
    case None
    then show ?thesis by (simp only: read_keys.simps Let_def bind.bind_lzero post_simps)
  next
    case (Some q)
    obtain ok s1 where q: "q = (ok, s1)" by fastforce
    have "user_view s1 = user_view s" using put_user_view [OF Some [unfolded q]] by simp
    from inv_view [OF this] have inv: "call_inv t (Some t) s1" using Suc.prems by blast
    have eq: "read_keys t a (Suc n) s =
        (if \<not> ok then do { s \<leftarrow> unlock_fs t s1; sys_exit t (-1) s } else read_keys t (a + 1) n s1)"
      using Some q by (simp only: read_keys.simps Let_def bind.bind_lunit prod.case)
    show ?thesis unfolding eq
    proof (cases ok)
      case False
      then show "post (if \<not> ok then do { s \<leftarrow> unlock_fs t s1; sys_exit t (-1) s } else read_keys t (a + 1) n s1)
          (\<lambda>_. call_inv t (Some t)) (call_inv t None)"
        using inv_unlock [OF _ inv] by (cases "unlock_fs t s1") (auto intro: post_sys_exit)
    qed (simp add: Suc.IH [OF inv])
  qed
qed simp

lemma sys_read_ok:
  assumes "call_inv t None s"
  shows "call_ok t (sys_read t fd a n s)"
  unfolding sys_read_def
proof (rule post_after_ret, rule post_mono [OF post_check_buffer [OF assms]])
  fix s assume inv: "call_inv t None s"
  show "call_ok t (if fd = 0 then after_ret (lock_fs t s) (\<lambda>_ s. after_ret (read_keys t a (unat n) s) (\<lambda>_ s. do {
       s \<leftarrow> unlock_fs t s; Some (Ret (sint n), s) })) else locked t (read_file t fd a n) s)"
  proof (cases "fd = 0")
    case True
    have "call_ok t (after_ret (read_keys t a (unat n) s1) (\<lambda>_ s. do { s \<leftarrow> unlock_fs t s; Some (Ret (sint n), s) }))"
      if "call_inv t (Some t) s1" for s1
      by (rule post_after_ret, rule post_mono [OF post_read_keys [OF that]])
        (auto split: Option.bind_splits dest: inv_unlock)
    then show ?thesis unfolding if_P [OF True]
      by (intro post_after_ret [of "lock_fs t s"] post_mono [OF post_lock [OF inv]]) assumption+
  qed (auto intro: post_locked keeps_read_file inv)
qed assumption

lemma sys_write_ok: "call_inv t None s \<Longrightarrow> call_ok t (sys_write t fd a n s)"
  unfolding sys_write_def
proof (rule post_after_ret, erule post_mono [OF post_check_buffer])
  fix s assume "call_inv t None s"
  then show "call_ok t (locked t (\<lambda>s. if fd = 1 then do {
         (bs, s) \<leftarrow> user_bytes t a (unat n) s;
         Some (sint n, s\<lparr>console := console s @ bs\<rparr>) }
       else write_file t fd a n s) s)"
  proof (rule post_locked)
    fix s assume inv: "call_inv t (Some t) s"
    show "keeps (call_inv t (Some t)) (if fd = 1 then do {
         (bs, s) \<leftarrow> user_bytes t a (unat n) s;
         Some (sint n, s\<lparr>console := console s @ bs\<rparr>) }
       else write_file t fd a n s)"
      using inv keeps_write_file [OF inv]
      by (cases "user_bytes t a (unat n) s") (auto simp: user_bytes_view [THEN inv_view])
  qed
qed assumption

lemma keeps_map_file: "call_inv t L s \<Longrightarrow> keeps (call_inv t L) (map_file t fd a s)"
  unfolding map_file_def
  by (auto simp: keeps_def Let_def fs_call_view [THEN inv_view] tables_of_inv mmaps_of_def
      intro!: inv_upd_thread mmaps_ok_snoc split: option.splits Option.bind_splits if_splits prod.splits)

lemma mmap_ok: "call_inv t None s \<Longrightarrow> call_ok t (sys_mmap t fd a s)"
  unfolding sys_mmap_def by (auto intro: post_locked keeps_map_file)

lemma fds_ok_map: "fds_ok ds \<Longrightarrow> (\<And>d. fd_id (f d) = fd_id d) \<Longrightarrow> fds_ok (map f ds)"
  by (simp add: fds_ok_def sorted_wrt_map)

lemma readdir_ok: "call_inv t None s \<Longrightarrow> call_ok t (sys_readdir t fd a s)"
  unfolding sys_readdir_def
  by (rule post_locked) (auto simp: keeps_def Let_def fs_call_view [THEN inv_view] put_user_bytes_view [THEN inv_view] tables_of_inv
      intro!: inv_upd_thread fds_ok_map split: option.splits Option.bind_splits if_splits)

lemma isdir_ok: "call_inv t None s \<Longrightarrow> call_ok t (sys_isdir t fd s)"
  unfolding sys_isdir_def by (rule post_locked) (auto simp: keeps_def split: option.splits Option.bind_splits)

lemma inumber_ok: "call_inv t None s \<Longrightarrow> call_ok t (sys_inumber t fd s)"
  unfolding sys_inumber_def by (rule post_locked) (auto simp: keeps_def split: option.splits Option.bind_splits)

lemma exec_ok:
  assumes "call_inv t None s"
    and exec: "\<And>cmd s. call_inv t (Some t) s \<Longrightarrow> post (exec t cmd s) (\<lambda>_. call_inv t (Some t)) (call_inv t None)"
  shows "call_ok t (sys_exec exec t a s)"
  unfolding sys_exec_def
proof (rule post_with_path [OF assms(1)])
  fix cmd s assume inv: "call_inv t None s"
  have "call_ok t (after_ret (exec t cmd s1) (\<lambda>pid s. do { s \<leftarrow> unlock_fs t s; Some (Ret pid, s) }))"
    if "call_inv t (Some t) s1" for s1
    by (rule post_after_ret, rule post_mono [OF exec [OF that]]) (auto split: Option.bind_splits dest: inv_unlock)
  then show "call_ok t (after_ret (lock_fs t s) (\<lambda>_ s. after_ret (exec t cmd s) (\<lambda>pid s. do { s \<leftarrow> unlock_fs t s; Some (Ret pid, s) })))"
    by (intro post_after_ret [of "lock_fs t s"] post_mono [OF post_lock [OF inv]]) assumption+
qed

text \<open>The dispatcher; a call with a bad descriptor of \<^verbatim>\<open>sys_seek\<close> may keep the lock.\<close>

lemma post_ret:
  "post (ret_int f m1) (\<lambda>_. I) J = post m1 (\<lambda>_. I) J" "post (ret_bool f m2) (\<lambda>_. I) J = post m2 (\<lambda>_. I) J"
  "post (ret_word f m3) (\<lambda>_. I) J = post m3 (\<lambda>_. I) J" "post (ret_void f m4) (\<lambda>_. I) J = post m4 (\<lambda>_. I) J"
  by (cases "(m1, undefined :: int \<Rightarrow> usys \<Rightarrow> (intr_frame outcome \<times> usys) option)" rule: after_ret.cases,
      simp_all add: ret_int_def,
      cases "(m2, undefined :: bool \<Rightarrow> usys \<Rightarrow> (intr_frame outcome \<times> usys) option)" rule: after_ret.cases,
      simp_all add: ret_bool_def,
      cases "(m3, undefined :: u32 \<Rightarrow> usys \<Rightarrow> (intr_frame outcome \<times> usys) option)" rule: after_ret.cases,
      simp_all add: ret_word_def,
      cases "(m4, undefined :: 'a \<Rightarrow> usys \<Rightarrow> (intr_frame outcome \<times> usys) option)" rule: after_ret.cases,
      simp_all add: ret_void_def)

lemma dispatch_ok:
  assumes "call_inv t None s" "n \<noteq> 10"
    and exec: "\<And>cmd s. call_inv t (Some t) s \<Longrightarrow> post (exec t cmd s) (\<lambda>_. call_inv t (Some t)) (call_inv t None)"
    and wait: "\<And>pid s. call_inv t None s \<Longrightarrow> call_ok t (wait t pid s)"
  shows "call_ok t (dispatch exec wait t f n s)"
  unfolding dispatch_def Let_def
  using assms(1,2)
  by (auto simp: post_ret sys_halt_def intro!: post_read_arg post_sys_exit sys_create_ok remove_ok mkdir_ok chdir_ok open_ok filesize_ok
      tell_ok sys_close_ok sys_read_ok sys_write_ok mmap_ok readdir_ok isdir_ok inumber_ok post_munmap exec_ok exec wait)

end
