(* ===== verification/VmProps.thy ===== *)
theory VmProps
  imports Page Demo
begin

text \<open>
  The properties of virtual memory: swap, the page allocator, page directories, eviction and
  loading, with small machines on which they are applied.
\<close>

section \<open>Small machines\<close>

definition demo_pool :: "u32 \<Rightarrow> u32 \<Rightarrow> pool" where
  "demo_pool base w = \<lparr>used_map = \<lparr>bit_cnt = 32, bits = [w]\<rparr>, pbase = base\<rparr>"

text \<open>Two pools of 32 pages; the first kernel page is a page directory without tables.\<close>

definition demo_machine :: machine where
  "demo_machine = \<lparr>ram = (\<lambda>_. 0), kernel_pool = demo_pool 0xc0100000 1, user_pool = demo_pool 0xc0200000 0,
     init_page_dir = 0xc0050000, init_ram_pages = 1024, cr3 = 0x50000\<rparr>"

abbreviation demo_pd :: u32 where "demo_pd \<equiv> 0xc0100000"

lemma demo_pool_ok: "base \<noteq> 0 \<Longrightarrow> pg_ofs base = 0 \<Longrightarrow> unat base + 131072 \<le> 2 ^ 32 \<Longrightarrow> pool_ok (demo_pool base w)"
  by (simp add: pool_ok_def demo_pool_def bm_wf_def SIZE_MOD_def Bitmap.elem_cnt_eq PGSIZE_def)

lemma demo_aligned: "pg_ofs 0xc0100000 = 0" "pg_ofs 0xc0200000 = 0" "pg_ofs 0x8048000 = 0"
  by (simp_all add: pg_ofs_dvd)

lemma demo_machine_ok: "machine_ok demo_machine"
proof -
  have "pool_pages (demo_pool 0xc0100000 1) \<inter> pool_pages (demo_pool 0xc0200000 0) = {}"
    by (auto simp: pool_pages_def demo_pool_def PGSIZE_def)
  then show ?thesis by (simp add: machine_ok_def demo_machine_def demo_pool_ok demo_aligned)
qed

lemma demo_pd_ok: "pd_ok demo_pd demo_machine"
proof -
  have "unat demo_pd \<in> in_use demo_machine"
    by (auto simp: in_use_def used_def demo_machine_def demo_pool_def bmap_def PGSIZE_def intro!: exI [of _ "0::nat"])
  moreover have "ent (ram demo_machine) demo_pd i = 0" for i
    by (simp add: ent_def ld32_def un_le32_def demo_machine_def)
  ultimately show ?thesis using demo_machine_ok by (simp add: pd_ok_def demo_aligned pd_table_def)
qed

lemma demo_entry: "pd_entry demo_pd demo_machine va = 0"
  by (simp add: pd_entry_def pd_table_def ent_def ld32_def un_le32_def demo_machine_def)

lemma demo_high: "pools_high demo_machine"
  by (simp add: pools_high_def demo_machine_def demo_pool_def PHYS_BASE_def)

text \<open>A swap device of two slots.\<close>

definition demo_swap :: swap where
  "demo_swap = \<lparr>swap_block = \<lparr>bname = ''hdc'', btype = BLOCK_SWAP, bsize = 16,
      medium = (\<lambda>_. replicate BLOCK_SECTOR_SIZE 0), read_cnt = 0, write_cnt = 0\<rparr>,
    swap_available = \<lparr>bit_cnt = 2, bits = [3]\<rparr>, swap_size = 2\<rparr>"

lemma demo_swap_ok: "swap_ok demo_swap"
  by (simp add: swap_ok_def demo_swap_def block_ok_def bm_wf_def SIZE_MOD_def Bitmap.elem_cnt_eq)

lemma demo_swap_free: "swap_map demo_swap 0 = None" "swap_map demo_swap 1 = None" "swap_size demo_swap = 2"
  by (simp_all add: swap_map_def demo_swap_def bmap_def)

section \<open>Properties\<close>

text \<open>C40: Swapping refines a map from slots to pages: a page that was swapped out comes back unchanged from its slot,
  also when another page went out in between, which got a different slot and stays where it is.\<close>

theorem swap_roundtrip:
  assumes "swap_ok s" "length p = PGSIZE" "length q = PGSIZE"
    and "vm_swap_out PHYS_BASE p s = Some (i, s1)" "vm_swap_out PHYS_BASE q s1 = Some (j, s2)"
  shows "i \<noteq> j \<and> (\<exists>s3. vm_swap_in i PHYS_BASE s2 = Some (p, s3) \<and> swap_map s3 = (swap_map s)(j \<mapsto> q))"
  by (rule swap_store.out_out_in [OF assms])

theorem swap_roundtrip_witness:
  "\<exists>i j s2 s3. vm_swap_in i PHYS_BASE s2 = Some (replicate PGSIZE 1, s3) \<and> swap_map s3 j = Some (replicate PGSIZE 2)"
proof -
  have "\<exists>i < swap_size demo_swap. swap_map demo_swap i = None" using demo_swap_free by (intro exI [of _ 0]) simp
  then obtain i s1 where o: "vm_swap_out PHYS_BASE (replicate PGSIZE 1) demo_swap = Some (i, s1)" "swap_ok s1"
    "swap_map s1 = (swap_map demo_swap)(i \<mapsto> replicate PGSIZE 1)" "swap_size s1 = swap_size demo_swap"
    using swap_out_ok [OF demo_swap_ok, of "replicate PGSIZE 1" PHYS_BASE] by auto
  have "\<exists>j < swap_size s1. swap_map s1 j = None"
    unfolding o(3,4) using demo_swap_free by (intro exI [of _ "if i = 0 then 1 else 0"]) simp
  then obtain j s2 where "vm_swap_out PHYS_BASE (replicate PGSIZE 2) s1 = Some (j, s2)"
    using swap_out_ok [OF o(2), of "replicate PGSIZE 2" PHYS_BASE] by auto
  from swap_roundtrip [OF demo_swap_ok _ _ o(1) this] obtain s3 where
    "vm_swap_in i PHYS_BASE s2 = Some (replicate PGSIZE 1, s3)" "swap_map s3 = (swap_map demo_swap)(j \<mapsto> replicate PGSIZE 2)" by auto
  then show ?thesis by (intro exI [of _ i] exI [of _ j] exI [of _ s2] exI [of _ s3]) simp
qed

text \<open>C39: The page allocator hands out pages that nobody has: the pages returned are aligned, were not in use, are
  exactly the ones in use in addition afterwards, are zero if asked for, and no other memory changes; a null
  result changes nothing.\<close>

theorem palloc_fresh_pages:
  assumes "machine_ok m" "0 < cnt" "palloc_get_multiple flags cnt m = Some (p, m')"
  shows "machine_ok m' \<and> (if p = 0 then m' = m
     else pg_ofs p = 0 \<and> page_run (unat p) cnt \<inter> in_use m = {} \<and> in_use m' = in_use m \<union> page_run (unat p) cnt \<and>
       (\<forall>x. ram m' x = (if flags AND PAL_ZERO \<noteq> 0 \<and> unat p \<le> x \<and> x < unat p + PGSIZE * cnt then 0 else ram m x)))"
  using palloc_get_ok [OF assms] by simp

theorem palloc_fresh_pages_witness:
  "\<exists>p m'. palloc_get_multiple PAL_ZERO 2 demo_machine = Some (p, m') \<and> unat p \<noteq> unat demo_pd"
proof -
  obtain p m' where g: "palloc_get_multiple PAL_ZERO 2 demo_machine = Some (p, m')"
    using palloc_returns [OF demo_machine_ok, of PAL_ZERO 2] by (auto simp: PAL_ZERO_def PAL_ASSERT_def)
  have u: "unat demo_pd \<in> in_use demo_machine" using demo_pd_ok by (simp add: pd_ok_def)
  have "unat p \<noteq> unat demo_pd"
  proof (cases "p = 0")
    case False
    have "unat p \<in> page_run (unat p) 2" by (auto simp: page_run_def intro!: exI [of _ "0::nat"])
    with palloc_fresh_pages [OF demo_machine_ok _ g] False have "unat p \<notin> in_use demo_machine" by auto
    with u show ?thesis by auto
  qed simp
  with g show ?thesis by blast
qed



text \<open>The clock never evicts a pinned or recently referenced frame: what \<open>pick_frame_to_evict\<close> returns is not
  pinned, its page is not marked accessed, and it is a frame of the list, or the tail of the list.\<close>

theorem pick_never_pinned:
  assumes "pick_frame_to_evict junk pd v = Some (c, v')"
  shows "\<not> pinned (entry_at junk c v') \<and> pagedir_is_accessed pd (fupage (entry_at junk c v')) (mach v') = Some False \<and>
    (c = CEnd \<or> (\<exists>p \<in> set (frame_list v). c = CElem p)) \<and> ftes v' = ftes v"
proof -
  have "pick_loop junk (hash_size (frame_map v) + hash_size (frame_map v) + 1) pd v = Some (c, v')"
    using assms by (simp add: pick_frame_to_evict_def Let_def split: if_splits)
  from pick_loop_props [OF this] show ?thesis by blast
qed

text \<open>Two frames, the first pinned; the clock has not started.\<close>

definition demo_fte :: "u32 \<Rightarrow> bool \<Rightarrow> fte" where
  "demo_fte kp b = \<lparr>fkpage = kp, fupage = 0x8048000, fthread = Some 1, pinned = b\<rparr>"

definition demo_vm :: "cptr \<Rightarrow> vmem" where
  "demo_vm c = \<lparr>frame_map = \<lparr>htable.elem_cnt = 2, bucket_cnt = 4, buckets = replicate 4 []\<rparr>, frame_list = [8, 9], clock_ptr = c,
     ftes = (\<lambda>_. demo_fte 0xc0201000 False)(8 := demo_fte 0xc0200000 True), mach = demo_machine, swp = demo_swap,
     supts = (\<lambda>_. \<lparr>page_map = \<lparr>htable.elem_cnt = 0, bucket_cnt = 4, buckets = replicate 4 []\<rparr>,
       entries = (\<lambda>_. \<lparr>upage = 0, kpage = 0, status = ALL_ZERO, pdirty = False, swap_index = 0, pfile = 0,
         file_offset = 0, read_bytes = 0, zero_bytes = 0, writable = False\<rparr>)\<rparr>),
     pagedirs = (\<lambda>_. demo_pd), running = 1\<rparr>"

lemma demo_accessed: "pagedir_is_accessed demo_pd va demo_machine = Some False"
  by (simp add: pagedir_is_accessed_def pte_flag_ok [OF demo_pd_ok] demo_entry)

theorem pick_never_pinned_witness:
  "\<exists>v'. pick_frame_to_evict (demo_fte 0 False) demo_pd (demo_vm CNull) = Some (CElem 9, v') \<and> \<not> pinned (ftes v' 9)"
proof -
  have "\<exists>v'. pick_frame_to_evict (demo_fte 0 False) demo_pd (demo_vm CNull) = Some (CElem 9, v')"
    by (simp add: pick_frame_to_evict_def hash_size_def clock_frame_next_def demo_vm_def demo_fte_def entry_at_def Let_def
        demo_accessed eval_nat_numeral)
  then obtain v' where v': "pick_frame_to_evict (demo_fte 0 False) demo_pd (demo_vm CNull) = Some (CElem 9, v')" by blast
  then have "\<not> pinned (entry_at (demo_fte 0 False) (CElem 9) v')" using pick_never_pinned [OF v'] by blast
  with v' show ?thesis by (simp add: entry_at_def)
qed

lemma after_last: "distinct (xs @ [p]) \<Longrightarrow> after (xs @ [p]) p = Some CEnd"
proof (induction xs)
  case (Cons x xs)
  then show ?case by (cases xs) auto
qed simp

text \<open>The clock does not step over the tail of the list: with the hand on the last frame the next candidate is the
  memory around the tail, and if that happens to look unpinned and unreferenced it is returned as the victim.\<close>

theorem clock_evicts_tail:
  assumes "frame_list v = xs @ [p]" "distinct (frame_list v)" "clock_ptr v = CElem p" "hash_size (frame_map v) \<noteq> 0"
    and "\<not> pinned junk" "pagedir_is_accessed pd (fupage junk) (mach v) = Some False"
  shows "\<exists>v'. pick_frame_to_evict junk pd v = Some (CEnd, v') \<and> entry_at junk CEnd v' = junk"
proof -
  have "clock_frame_next v = Some (v\<lparr>clock_ptr := CEnd\<rparr>)"
    using assms(1-3) after_last [of xs p] by (auto simp: clock_frame_next_def split: list.split)
  then show ?thesis using assms(4-6)
    by (auto simp: pick_frame_to_evict_def Let_def entry_at_def)
qed

theorem clock_evicts_tail_witness:
  "\<exists>v'. pick_frame_to_evict (demo_fte 0 False) demo_pd (demo_vm (CElem 9)) = Some (CEnd, v')"
proof -
  have "frame_list (demo_vm (CElem 9)) = [8] @ [9]" "distinct (frame_list (demo_vm (CElem 9)))"
    "clock_ptr (demo_vm (CElem 9)) = CElem 9" "hash_size (frame_map (demo_vm (CElem 9))) \<noteq> 0"
    "\<not> pinned (demo_fte 0 False)" "pagedir_is_accessed demo_pd (fupage (demo_fte 0 False)) (mach (demo_vm (CElem 9))) = Some False"
    by (simp_all add: demo_vm_def hash_size_def demo_fte_def demo_accessed)
  from clock_evicts_tail [OF this] show ?thesis by blast
qed

text \<open>Loading gives a page the contents its entry promises: zeros, the page that was swapped out, or the bytes of the
  file with zeros behind them.\<close>

theorem load_page_contents:
  assumes "fetch_page e kp s = Some (True, w, s')" "status e \<noteq> ON_FRAME" "swap_ok (swp (vm s))"
    and "kp \<ge> PHYS_BASE" "unat (read_bytes e) \<le> PGSIZE"
  shows "page_bytes kp (mach (vm s')) = (case status e of
      ON_SWAP \<Rightarrow> the (swap_map (swp (vm s)) (unat (swap_index e)))
    | FROM_FILESYS \<Rightarrow>
        fst (the (file_read ((files s (pfile e))\<lparr>pos := file_offset e\<rparr>) (sint (read_bytes e)) (fs s))) @
        replicate (unat (zero_bytes e)) 0
    | _ \<Rightarrow> replicate PGSIZE 0)"
  by (rule fetch_page_contents [OF assms])


theorem load_page_contents_witness:
  "\<exists>e s w s'. fetch_page e 0xc0200000 s = Some (True, w, s') \<and> status e = ON_SWAP \<and>
     page_bytes 0xc0200000 (mach (vm s')) = replicate PGSIZE 1"
proof -
  have "\<exists>i < swap_size demo_swap. swap_map demo_swap i = None" using demo_swap_free by (intro exI [of _ 0]) simp
  then obtain i s1 where o: "vm_swap_out PHYS_BASE (replicate PGSIZE 1) demo_swap = Some (i, s1)" "swap_ok s1"
    "swap_map s1 = (swap_map demo_swap)(i \<mapsto> replicate PGSIZE 1)" "swap_size s1 = swap_size demo_swap"
    using swap_out_ok [OF demo_swap_ok, of "replicate PGSIZE 1" PHYS_BASE] by auto
  have k: "(0xc0200000::u32) \<ge> PHYS_BASE" by (simp add: PHYS_BASE_def)
  have m: "swap_map s1 i = Some (replicate PGSIZE 1)" using o(3) by simp
  have i: "i < 2" using swap_map_size [OF m] o(4) demo_swap_free by simp
  then have u: "unat (of_nat i :: u32) = i" by (simp add: unat_of_nat take_bit_nat_eq_self_iff)
  define e :: spte where "e = \<lparr>upage = 0x8048000, kpage = 0, status = ON_SWAP, pdirty = False, swap_index = of_nat i, pfile = 0,
     file_offset = 0, read_bytes = 0, zero_bytes = 0, writable = True\<rparr>"
  define s where "s = \<lparr>vm = (demo_vm CNull)\<lparr>swp := s1\<rparr>, fs = demo_fs, files = (\<lambda>_. \<lparr>finode = 7, pos = 0, deny_write = False\<rparr>)\<rparr>"
  obtain s2 where "vm_swap_in i 0xc0200000 s1 = Some (replicate PGSIZE 1, s2)"
    using swap_in_ok [OF o(2) k, of i] m by auto
  then obtain s' where f: "fetch_page e 0xc0200000 s = Some (True, True, s')"
    by (simp add: fetch_page_def e_def s_def u)
  have e: "status e \<noteq> ON_FRAME" "swap_ok (swp (vm s))" "unat (read_bytes e) \<le> PGSIZE" "status e = ON_SWAP"
    "swap_map (swp (vm s)) (unat (swap_index e)) = Some (replicate PGSIZE 1)"
    using o(2) m by (simp_all add: e_def s_def u)
  from load_page_contents [OF f e(1,2) k e(3)] f e(4,5) show ?thesis
    by (intro exI [of _ e] exI [of _ s] exI [of _ True] exI [of _ s']) simp
qed

end
