(* ===== verification/UserProps.thy ===== *)
theory UserProps
  imports Exec VmProps Demo
begin

text \<open>
  The properties of the user program code: the layout of the arguments on the first stack, the pages
  a segment maps.
\<close>

section \<open>The first stack\<close>

text \<open>
  What the calling convention of \<^verbatim>\<open>main\<close> expects below \<open>lim\<close>: a return address, the count, the vector
  of the addresses of the strings, ended by a null pointer, and the strings themselves.
\<close>

definition args_frame :: "byte list list \<Rightarrow> u32 \<Rightarrow> u32 \<Rightarrow> cmem \<Rightarrow> bool" where
  "args_frame ss lim esp r \<longleftrightarrow> (let argv = unat (ld32 r (unat esp + 8)) in
     unat esp mod 4 = 0 \<and> ld32 r (unat esp) = 0 \<and> ld32 r (unat esp + 4) = of_nat (length ss) \<and>
     argv = unat esp + 12 \<and> ld32 r (argv + 4 * length ss) = 0 \<and>
     (\<forall>i < length ss. let a = unat (ld32 r (argv + 4 * i)) in
        cstr r a (ss ! i) \<and> unat esp < a \<and> a + length (ss ! i) < unat lim))"

text \<open>C20: Pushing the arguments leaves the stack a program's start code expects, whatever the strings are, and changes
  only bytes between the new stack pointer and the old one.\<close>

theorem push_arguments_layout:
  assumes "list_all2 (cstr r) toks ss" "stack_need ss + 4 * (length ss + 5) < unat esp"
    and "\<forall>tok \<in> set toks. unat esp \<le> tok"
  shows "\<exists>esp' r'. push_arguments toks esp r = Some (esp', r') \<and> args_frame ss esp esp' r' \<and>
    unat esp - (stack_need ss + 4 * (length ss + 5)) < unat esp' \<and> (\<forall>x. x < unat esp' \<or> unat esp \<le> x \<longrightarrow> r' x = r x)"
proof -
  obtain esp' r' addrs where p: "push_arguments toks esp r = Some (esp', r')"
      "unat esp - (stack_need ss + 4 * (length ss + 5)) < unat esp'" "unat esp' mod 4 = 0"
      "ld32 r' (unat esp') = 0" "ld32 r' (unat esp' + 4) = of_nat (length ss)"
      "ld32 r' (unat esp' + 8) = esp' + 12" "length addrs = length ss"
      "\<forall>i < length ss. ld32 r' (unat esp' + 12 + 4 * i) = addrs ! i" "ld32 r' (unat esp' + 12 + 4 * length ss) = 0"
      "list_all2 (\<lambda>a s. cstr r' (unat a) s \<and> unat esp' < unat a \<and> unat a + length s < unat esp) addrs ss"
      "\<forall>x. x < unat esp' \<or> unat esp \<le> x \<longrightarrow> r' x = r x" "unat esp' + 12 \<le> unat esp"
    using push_arguments_ok [OF assms] by (elim exE conjE) (rule that; assumption)
  have "unat esp' + 12 < 2 ^ 32" using p(12) unsigned_less [of esp, where ?'a = nat] by simp
  then have "unat (esp' + 12) = unat esp' + 12" by (simp add: unat_add_lem [THEN iffD1])
  then have argv: "unat (ld32 r' (unat esp' + 8)) = unat esp' + 12" using p(6) by simp
  have "let a = unat (ld32 r' (unat esp' + 12 + 4 * i)) in
      cstr r' a (ss ! i) \<and> unat esp' < a \<and> a + length (ss ! i) < unat esp" if "i < length ss" for i
    using list_all2_nthD2 [OF p(10) that] p(8) that by (simp only: Let_def)
  then have "args_frame ss esp esp' r'"
    unfolding args_frame_def argv Let_def using p(3-5,9) by blast
  with p(1,2,11) show ?thesis by blast
qed

text \<open>The command line \<open>a -b\<close>, two tokens in kernel memory.\<close>

theorem push_arguments_layout_witness:
  "\<exists>esp' r'. push_arguments [0xc0200000, 0xc0200002] PHYS_BASE
     (\<lambda>x. if x = 0xc0200000 then 97 else if x = 0xc0200002 then 45 else if x = 0xc0200003 then 98 else 0) =
     Some (esp', r') \<and> args_frame [[97], [45, 98]] PHYS_BASE esp' r'"
proof -
  let ?r = "(\<lambda>x. if x = 0xc0200000 then 97 else if x = 0xc0200002 then 45 else if x = 0xc0200003 then 98 else 0) :: cmem"
  have "list_all2 (cstr ?r) [0xc0200000, 0xc0200002] [[97], [45, 98]]" by (simp add: cstr_def bytes_at_Suc)
  moreover have "stack_need [[97], [45, 98]] + 4 * (length [[97], [45, 98 :: byte]] + 5) < unat PHYS_BASE"
    by (simp add: stack_need_def PHYS_BASE_def)
  moreover have "\<forall>tok \<in> set [0xc0200000, 0xc0200002]. unat PHYS_BASE \<le> tok" by (simp add: PHYS_BASE_def)
  ultimately show ?thesis using push_arguments_layout by blast
qed

section \<open>Segments\<close>


text \<open>A process with an empty address space.\<close>

definition demo_spte :: spte where
  "demo_spte = \<lparr>upage = 0, kpage = 0, status = ALL_ZERO, pdirty = False, swap_index = 0, pfile = 0, file_offset = 0,
     read_bytes = 0, zero_bytes = 0, writable = False\<rparr>"

definition demo_ps :: pstate where
  "demo_ps = \<lparr>vs = \<lparr>vm = (demo_vm CNull)\<lparr>supts := (\<lambda>_. demo_supt)\<rparr>, fs = demo_fs,
       files = (\<lambda>_. \<lparr>finode = 7, pos = 0, deny_write = False\<rparr>)\<rparr>,
     mallocs = (\<lambda>k. 3000 + 16 * k), malloc_no = 0, rehash_mem = (\<lambda>_. True), stack_tmp = 500,
     junk_fte = demo_fte 0 False, junk_ent = [], depth = 3\<rparr>"

lemma demo_seg_pre: "n < 1000 \<Longrightarrow> (\<forall>k < n. is_user_vaddr (up + of_nat (k * PGSIZE))) \<Longrightarrow> seg_pre 1 n up demo_ps"
  by (auto simp: seg_pre_def Let_def demo_ps_def demo_vm_def demo_supt_ok demo_supt_facts get_page_ok [OF demo_pd_ok]
      demo_entry inj_on_def)


end
