(* ===== verification/CallProps.thy ===== *)
theory CallProps
  imports SyscallFacts UserProps
begin

text \<open>
  The properties of the system calls: the lock, the tables of descriptors, bad pointers and bad
  descriptors, page faults.
\<close>

section \<open>The lock and the tables\<close>

text \<open>
  A process control call is well behaved if it keeps the lock as it is and the tables well formed,
  whichever way it ends.
\<close>

definition keeps_call :: "nat \<Rightarrow> (usys \<Rightarrow> (int outcome \<times> usys) option) \<Rightarrow> bool" where
  "keeps_call t g \<longleftrightarrow> (\<forall>s L. call_inv t L s \<longrightarrow> post (g s) (\<lambda>_. call_inv t L) (call_inv t None))"

lemma keeps_callD: "keeps_call t g \<Longrightarrow> call_inv t L s \<Longrightarrow> post (g s) (\<lambda>_. call_inv t L) (call_inv t None)"
  unfolding keeps_call_def by blast

lemma dispatch_call_ok:
  assumes "filesys_lock s = None" "tables_ok t s" "n \<noteq> 10"
    and "\<forall>cmd. keeps_call t (exec t cmd)" "\<forall>pid. keeps_call t (wait t pid)"
  shows "call_ok t (dispatch exec wait t f n s)"
proof (rule dispatch_ok)
  show "call_inv t None s" using assms(1,2) by (simp add: call_inv_def)
  show "n \<noteq> 10" by (rule assms(3))
  show "post (exec t cmd s1) (\<lambda>_. call_inv t (Some t)) (call_inv t None)" if "call_inv t (Some t) s1" for cmd s1
    using keeps_callD [OF _ that] assms(4) by blast
  show "call_ok t (wait t pid s1)" if "call_inv t None s1" for pid s1
    using keeps_callD [OF _ that] assms(5) by blast
qed

text \<open>A process with nothing open, without a page directory of its own.\<close>

definition demo_sys :: usys where
  "demo_sys = \<lparr>pst = demo_ps\<lparr>vs := (vs demo_ps)\<lparr>vm := (vm (vs demo_ps))\<lparr>pagedirs := (\<lambda>_. 0)\<rparr>\<rparr>\<rparr>,
     uthreads = (\<lambda>_. \<lparr>tname = [99], file_descriptors = [], mmap_list = [], cwd = None, executing_file = 0, current_esp = 0\<rparr>),
     filesys_lock = None, keys = (\<lambda>_. 0), key_no = 0, console = [],
     kctx = \<lparr>access_pc = 0xc0020000, label_pc = 0xc0020001, kernel_esp = 0\<rparr>\<rparr>"

definition demo_frame :: intr_frame where
  "demo_frame = \<lparr>eax = 0, error_code = 0, eip = 0x8048000, cs = SEL_UCSEG, if_esp = PHYS_BASE\<rparr>"

lemma demo_tables: "filesys_lock demo_sys = None" "tables_ok t demo_sys"
  by (simp_all add: demo_sys_def tables_ok_def fds_of_def mmaps_of_def fds_ok_def mmaps_ok_def)

lemma demo_exit: "\<exists>s'. sys_exit 1 c demo_sys = Some (Exit c, s')"
  by (simp add: sys_exit_def process_exit_def release_files_def release_executable_def release_memory_def
      demo_sys_def fds_of_def mmaps_of_def fs_call_def dir_close_def demo_ps_def demo_vm_def demo_supt_def
      vm_supt_destroy_def hash_clear_def Let_def upd_vs_def upd_vm_def ht_list_def)

lemma after_exit: "after_ret (sys_exit t c s) k = sys_exit t c s"
proof -
  have "after_ret (after_ret m (\<lambda>_ s. Some (Exit c, s))) k = after_ret m (\<lambda>_ s. Some (Exit c, s))"
    for m :: "(unit outcome \<times> usys) option" and c
    by (cases "(m, \<lambda>(_ :: unit) (_ :: usys). None :: (unit outcome \<times> usys) option)" rule: after_ret.cases) simp_all
  then show ?thesis by (simp add: sys_exit_def Let_def)
qed

lemma kernel_pointer: "\<not> a < PHYS_BASE \<Longrightarrow> filesys_lock s \<noteq> Some t \<Longrightarrow> after_ret (read_arg t a s) k = sys_exit t (-1) s"
  by (simp add: read_arg_def eval_nat_numeral get_user_def fail_invalid_access_def after_exit)

lemma demo_dispatch: "\<exists>s'. dispatch (\<lambda>t c s. Some (Ret 4, s)) (\<lambda>t p s. Some (Ret 0, s)) 1 demo_frame 7 demo_sys = Some (Exit (-1), s')"
  using demo_exit [of "-1"] by (simp add: dispatch_def Let_def kernel_pointer demo_tables demo_frame_def PHYS_BASE_def)

lemma demo_calls:
  "\<forall>cmd. keeps_call t ((\<lambda>(t :: nat) (c :: byte list) s. Some (Ret 4, s)) t cmd)"
  "\<forall>pid. keeps_call t ((\<lambda>(t :: nat) (p :: int) s. Some (Ret 0, s)) t pid)"
  by (simp_all add: keeps_call_def)





section \<open>Descriptors\<close>

text \<open>What opening a file does to the table of descriptors.\<close>

definition opened :: "nat \<Rightarrow> file_desc list \<Rightarrow> int \<Rightarrow> usys \<Rightarrow> bool" where
  "opened t ds fd s' \<longleftrightarrow> (if fd = -1 then fds_of t s' = ds
     else fd = next_fd ds \<and> (\<exists>d. fds_of t s' = ds @ [d] \<and> fd_id d = fd))"

lemma fds_view: "user_view s' = user_view s \<Longrightarrow> fds_of t s' = fds_of t s"
  by (simp add: user_view_def fds_of_def)

lemma search_last: "fds_ok (ds @ [d]) \<Longrightarrow> fd_id d = fd \<Longrightarrow> search_fd (ds @ [d]) fd (FD_FILE OR FD_DIRECTORY) = Some d"
proof (induction ds)
  case Nil
  then show ?case by (auto simp: FD_FILE_def FD_DIRECTORY_def)
next
  case (Cons e ds)
  then have "fd_id e \<noteq> fd" by (auto simp: fds_ok_def)
  then show ?case using Cons by (auto simp: fds_ok_def)
qed

lemma post_true: "post m (\<lambda>_ _. True) (\<lambda>_. True)"
  by (simp add: post_def split: option.split outcome.split)

lemma exit_no_return: "post (sys_exit t c s) Q (\<lambda>_. True)" "post (fail_invalid_access t s) Q (\<lambda>_. True)"
proof -
  show *: "post (sys_exit t c s) Q (\<lambda>_. True)" for c s
    unfolding sys_exit_def Let_def by (rule post_after_ret) (simp add: post_true)
  show "post (fail_invalid_access t s) Q (\<lambda>_. True)"
    unfolding fail_invalid_access_def using * by (auto split: Option.bind_splits)
qed

lemma post_locked_view:
  assumes "\<And>s1 r s2. uthreads s1 = uthreads s \<Longrightarrow> body s1 = Some (r, s2) \<Longrightarrow> Q r (s2\<lparr>filesys_lock := None\<rparr>)"
  shows "post (locked t body s) Q (\<lambda>_. True)"
proof -
  have "post (lock_fs t s) (\<lambda>_ s1. uthreads s1 = uthreads s) (\<lambda>_. True)"
    by (auto simp: lock_fs_def post_def split: option.splits outcome.splits Option.bind_splits)
  then show ?thesis unfolding locked_def
    by (intro post_after_ret) (auto elim!: post_mono split: Option.bind_splits intro!: assms simp: unlock_fs_def)
qed

lemma post_path_view:
  assumes "\<And>path s'. user_view s' = user_view s \<Longrightarrow> post (body path s') Q (\<lambda>_. True)"
  shows "post (with_path t a body s) Q (\<lambda>_. True)"
proof -
  have "post (check_user t a s) (\<lambda>_ s'. user_view s' = user_view s) (\<lambda>_. True)"
    unfolding check_user_def
    by (auto split: Option.bind_splits simp: get_user_view exit_no_return)
  then show ?thesis unfolding with_path_def
    by (intro post_after_ret) (auto elim!: post_mono split: Option.bind_splits intro!: assms simp: user_string_view)
qed

lemma open_locked_opened:
  assumes "open_locked t path page s = Some (fd, s')" "tables_ok t s"
  shows "opened t (fds_of t s) fd s'"
proof -
  have n: "next_fd (fds_of t s) \<noteq> -1"
  proof (cases "fds_of t s = []")
    case False
    then have "3 \<le> fd_id (last (fds_of t s))" using assms(2) by (simp add: tables_ok_def fds_ok_def)
    then show ?thesis using False by (simp add: next_fd_def)
  qed (simp add: next_fd_def)
  obtain fo s1 where a: "fs_call (\<lambda>n. filesys_open n (cwd (uthreads s t)) path) s = Some (fo, s1)"
    using assms(1) by (auto simp: open_locked_def split: Option.bind_splits)
  show ?thesis
  proof (cases fo)
    case None
    then have "fd = -1" "free_page page s1 = Some s'"
      using assms(1) a by (auto simp: open_locked_def split: Option.bind_splits)
    then show ?thesis using fds_view [OF fs_call_view [OF a]] fds_view [OF free_page_view] by (simp add: opened_def)
  next
    case (Some fo)
    obtain f p where tp: "take_ptr (pst s1) = (f, p)" by fastforce
    let ?s = "set_file f fo (s1\<lparr>pst := p\<rparr>)"
    obtain d s2 where b: "fs_call (\<lambda>n _ st. do {
            dir \<leftarrow> inode_is_directory (finode fo) st;
            if dir then do { st \<leftarrow> inode_reopen (finode fo) st; dir_open n (Some (finode fo)) st }
            else Some (None, st) }) ?s = Some (d, s2)"
        "fd = next_fd (fds_of t s2)" "s' = upd_thread t (\<lambda>u. u\<lparr>file_descriptors := file_descriptors u @
          [\<lparr>fd_id = fd, fd_page = page, fd_file = f, fd_dir = d\<rparr>]\<rparr>) s2"
      using assms(1) a tp Some by (auto simp: open_locked_def Let_def split: Option.bind_splits)
    have "fds_of t s2 = fds_of t s"
      by (rule fds_view) (use fs_call_view [OF a] fs_call_view [OF b(1)] in simp)
    then show ?thesis using b(2,3) n by (simp add: opened_def fds_of_def upd_thread_def)
  qed
qed

text \<open>\<^verbatim>\<open>open\<close> gives a descriptor that the process does not have yet, not one of the standard streams, and later
  calls find the new entry under it; the other descriptors stay, and a failure leaves the table unchanged.\<close>

theorem open_fresh_fd:
  assumes "tables_ok t s" "sys_open t a s = Some (Ret fd, s')"
  shows "if fd = -1 then fds_of t s' = fds_of t s
    else 3 \<le> fd \<and> fd \<notin> fd_id ` set (fds_of t s) \<and>
      (\<exists>d. fds_of t s' = fds_of t s @ [d] \<and> find_file_desc (fds_of t s') fd (FD_FILE OR FD_DIRECTORY) = Some d)"
proof -
  have "post (sys_open t a s) (opened t (fds_of t s)) (\<lambda>_. True)"
    unfolding sys_open_def
  proof (rule post_path_view)
    fix path s1 assume "user_view s1 = user_view s"
    then have u: "fds_of t s1 = fds_of t s" "mmaps_of t s1 = mmaps_of t s" by (simp_all add: user_view_def fds_of_def mmaps_of_def)
    have body: "opened t (fds_of t s) fd (s3\<lparr>filesys_lock := None\<rparr>)"
      if "uthreads s2 = uthreads s1" "open_locked t path page s2 = Some (fd, s3)" for page fd s2 s3
    proof -
      have "fds_of t s2 = fds_of t s" "mmaps_of t s2 = mmaps_of t s" using that(1) u by (simp_all add: fds_of_def mmaps_of_def)
      then have "opened t (fds_of t s) fd s3" using open_locked_opened [OF that(2)] assms(1) by (simp add: tables_ok_def)
      then show ?thesis by (auto simp: opened_def fds_of_def split: if_splits)
    qed
    have lk: "post (locked t (open_locked t path page) (upd_pst f s1)) (opened t (fds_of t s)) (\<lambda>_. True)" for page f
      by (rule post_locked_view) (simp add: body upd_pst_def)
    show "post (do {
       (page, m) \<leftarrow> palloc_get_page 0 (machine_of (pst s1));
       let s = upd_pst (set_mach m) s1;
       if page = 0 then Some (Ret (-1), s) else locked t (open_locked t path page) s })
      (opened t (fds_of t s)) (\<lambda>_. True)"
    proof (cases "palloc_get_page 0 (machine_of (pst s1))")
      case (Some q)
      obtain page m where "q = (page, m)" by fastforce
      then show ?thesis using Some lk u(1) by (auto simp: Let_def opened_def fds_of_def upd_pst_def)
    qed simp
  qed
  then have o: "opened t (fds_of t s) fd s'" using assms(2) by simp
  show ?thesis
  proof (cases "fd = -1")
    case False
    then obtain d where d: "fds_of t s' = fds_of t s @ [d]" "fd_id d = fd" "fd = next_fd (fds_of t s)"
      using o by (auto simp: opened_def)
    have "fds_ok (fds_of t s @ [d])" using d assms(1) by (intro fds_ok_snoc) (auto simp: tables_ok_def)
    then have "3 \<le> fd" "fd \<notin> fd_id ` set (fds_of t s)" "search_fd (fds_of t s @ [d]) fd (FD_FILE OR FD_DIRECTORY) = Some d"
      using d(2) search_last [of "fds_of t s" d fd] by (auto simp: fds_ok_def sorted_wrt_append)
    then show ?thesis using d(1) False by (auto simp: find_file_desc_def)
  qed (use o in \<open>simp add: opened_def\<close>)
qed

text \<open>A process with one writable page at \<open>0x8048000\<close>, and no pages in the kernel's pool.\<close>

definition user_machine :: machine where
  "user_machine = demo_machine\<lparr>ram := (\<lambda>_. 0)(0xc0100080 := 7, 0xc0100081 := 0x10, 0xc0100082 := 0x10, 0xc0101120 := 0x67,
     0xc0101122 := 0x20), kernel_pool := \<lparr>used_map = \<lparr>bit_cnt = 0, bits = []\<rparr>, pbase = 0xc0100000\<rparr>\<rparr>"

definition user_sys :: usys where
  "user_sys = upd_pst (\<lambda>p. set_mach user_machine (upd_vs (upd_vm (\<lambda>v. v\<lparr>pagedirs := (\<lambda>_. demo_pd)\<rparr>)) p)) demo_sys"

lemma user_lookup: "lookup_page demo_pd 0x8048000 False user_machine = Some (Some 0xc0101120, user_machine)"
  by (simp add: lookup_page_def user_machine_def demo_machine_def pd_no_def pt_no_def PTMASK_def ld32_def un_le32_def pde_get_pt_def
      PTE_P_def ptov_def PTE_ADDR_def PHYS_BASE_def pg_ofs_def PGMASK_def mask_eq_exp_minus_1)

lemma user_entry: "ld32 (ram user_machine) 0xc0101120 = 0x200067"
  by (simp add: user_machine_def demo_machine_def ld32_def un_le32_def)

lemma user_store: "st32 (ram user_machine) 0xc0101120 0x200067 = ram user_machine"
  by (rule ext) (simp add: st32_def user_machine_def demo_machine_def)

lemma user_flag: "fl = PTE_A \<or> fl = PTE_D \<Longrightarrow> set_pte_flag fl demo_pd 0x8048000 True user_machine = Some user_machine"
  using user_store by (auto simp: set_pte_flag_def user_lookup user_entry PTE_A_def PTE_D_def)

lemma demo_mmu: "mmu 2 wr 0x8048000 (pst user_sys) = Some (Inl 0xc0200000, pst user_sys)"
proof -
  have "machine_of (pst user_sys) = user_machine" "pd_of 2 (pst user_sys) = demo_pd" "set_mach user_machine (pst user_sys) = pst user_sys"
    by (simp_all add: user_sys_def upd_pst_def set_mach_def upd_vs_def upd_vm_def)
  then show ?thesis
    by (simp add: mmu_def is_kernel_vaddr_def is_user_vaddr_def PHYS_BASE_def pagedir_get_page_def pte_flag_def user_lookup user_entry
        pte_get_page_def ptov_def PTE_P_def PTE_W_def PTE_ADDR_def pg_ofs_def PGMASK_def pagedir_set_accessed_def pagedir_set_dirty_def
        user_flag)
qed

lemma demo_ref: "user_ref 2 wr 0x8048000 user_sys = Some (Inl 0xc0200000, user_sys)"
  by (simp add: user_ref_def user_access.simps demo_mmu)

lemma demo_peek: "peek 0xc0200000 user_sys = 0"
  by (simp add: peek_def user_sys_def upd_pst_def set_mach_def upd_vs_def upd_vm_def user_machine_def demo_machine_def)

lemma demo_open: "sys_open 2 0x8048000 user_sys = Some (Ret (-1), user_sys)"
proof -
  have "get_user 2 0x8048000 user_sys = Some (0, user_sys)"
    by (simp add: get_user_def PHYS_BASE_def demo_ref demo_peek)
  moreover have "user_string 2 0x8048000 user_sys = Some ([], user_sys)"
    by (simp add: user_string.simps demo_ref demo_peek)
  moreover have "palloc_get_page 0 (machine_of (pst user_sys)) = Some (0, machine_of (pst user_sys))"
    by (simp add: user_sys_def upd_pst_def set_mach_def upd_vs_def upd_vm_def user_machine_def palloc_get_page_def palloc_get_multiple_def
        the_pool_def set_pool_def PAL_USER_def PAL_ASSERT_def bitmap_scan_and_flip_def bitmap_scan_def Let_def)
  ultimately show ?thesis
    by (simp add: sys_open_def with_path_def check_user_def upd_pst_def set_mach_def upd_vs_def upd_vm_def)
qed

theorem open_fresh_fd_witness: "\<exists>s'. sys_open 2 0x8048000 user_sys = Some (Ret (-1), s') \<and> fds_of 2 s' = fds_of 2 user_sys"
  using open_fresh_fd [OF _ demo_open] demo_open demo_tables(2) [of 2] by (simp add: user_sys_def tables_ok_def fds_of_def mmaps_of_def upd_pst_def)

section \<open>Bad descriptors\<close>



text \<open>\<^verbatim>\<open>seek\<close> with a position of \<open>2 ^ 31\<close> or more on an open file panics the kernel: the position becomes
  negative where it is passed to \<^verbatim>\<open>file_seek\<close>; a smaller one always succeeds and releases the lock.\<close>

theorem seek_position:
  assumes "filesys_lock s = None" "find_file_desc (fds_of t s) fd FD_FILE = Some d" "fd_file d \<noteq> NULL"
  shows "sys_seek t fd position s =
    (if position < 2 ^ 31
     then Some (Ret (), set_file (fd_file d) ((the_file (fd_file d) s)\<lparr>pos := uint position\<rparr>) s)
     else None)"
proof -
  have small: "sint position = uint position" if "position < 2 ^ 31"
  proof -
    have "uint position < 2 ^ 31" using that by (simp add: word_less_def)
    moreover have "- (2 ^ 31) \<le> uint position" by (rule order_trans [OF _ uint_nonnegative]) simp
    ultimately have "signed_take_bit 31 (uint position) = uint position" by (intro signed_take_bit_int_eq_self)
    then show ?thesis by (simp add: sint_uint)
  qed
  have large: "sint position < 0" if "\<not> position < 2 ^ 31"
  proof (rule ccontr)
    assume a: "\<not> sint position < 0"
    then have "unat position = nat (sint position)" by (intro sint_nonneg) simp
    moreover have "sint position < 2 ^ 31" using sint_less [of position] by simp
    ultimately have "unat position < 2 ^ 31" using a by simp
    then show False using that by (simp add: word_less_nat_alt)
  qed
  have "(set_file f fo (s\<lparr>filesys_lock := Some t\<rparr>))\<lparr>filesys_lock := None\<rparr> = set_file f fo s" for f fo
    using assms(1) by (cases s) (simp add: set_file_def upd_pst_def)
  then show ?thesis using assms small large
    by (cases "position < 2 ^ 31") (auto simp: sys_seek_def lock_fs_def unlock_fs_def fds_of_def file_seek_def the_file_def set_file_def upd_pst_def)
qed

text \<open>A process with one open file, \<open>3\<close>.\<close>

definition file_sys :: usys where
  "file_sys = upd_thread 2 (\<lambda>u. u\<lparr>file_descriptors := [\<lparr>fd_id = 3, fd_page = 0xc0103000, fd_file = 5, fd_dir = None\<rparr>]\<rparr>) demo_sys"

theorem seek_position_witness: "sys_seek 2 3 0x80000000 file_sys = None"
proof -
  have f: "filesys_lock file_sys = None" "find_file_desc (fds_of 2 file_sys) 3 FD_FILE =
      Some \<lparr>fd_id = 3, fd_page = 0xc0103000, fd_file = 5, fd_dir = None\<rparr>"
    by (simp_all add: file_sys_def upd_thread_def demo_sys_def fds_of_def find_file_desc_def FD_FILE_def)
  show ?thesis using seek_position [OF f, where position = "0x80000000"] by simp
qed

section \<open>Page faults\<close>

lemma no_entry_load:
  assumes "vm_supt_lookup (stack_tmp p) (supt_of t p) page = None"
  shows "load_user_page t page p = Some (False, snd (take_ptr p))"
  using assms by (simp add: load_user_page_def take_ptr_def vm_load_page_def Let_def)

text \<open>C19: A pointer that is not the process's never reaches the kernel's data: a kernel address, or a user address
  without an entry in the supplemental page table outside the stack, ends the process with code \<open>-1\<close>, with the file
  system lock released and files and memory as they were.\<close>

theorem bad_pointer_exits:
  assumes "filesys_lock s = None \<or> filesys_lock s = Some t" "label_pc (kctx s) \<noteq> access_pc (kctx s)"
    and "a < PHYS_BASE \<longrightarrow> pd_ok (pd_of t (pst s)) (machine_of (pst s)) \<and>
      pd_entry (pd_of t (pst s)) (machine_of (pst s)) a AND PTE_P = 0 \<and>
      supt_map (stack_tmp (pst s)) (supt_of t (pst s)) (pg_round_down a) = None \<and>
      \<not> stack_access (current_esp (uthreads s t)) (kernel_esp (kctx s)) a"
  shows "\<exists>p. check_user t a s = sys_exit t (-1) (s\<lparr>pst := p, filesys_lock := None\<rparr>) \<and> vs p = vs (pst s)"
proof -
  have exit: "fail_invalid_access t (s\<lparr>pst := p\<rparr>) = sys_exit t (-1) (s\<lparr>pst := p, filesys_lock := None\<rparr>)" for p
    using assms(1) by (cases s) (auto simp: fail_invalid_access_def unlock_fs_def)
  show ?thesis
  proof (cases "a < PHYS_BASE")
    case False
    then have "check_user t a s = fail_invalid_access t (s\<lparr>pst := pst s\<rparr>)" by (simp add: check_user_def get_user_def)
    then show ?thesis using exit [of "pst s"] by (intro exI [of _ "pst s"] conjI) (simp_all only: refl)
  next
    case True
    note a = assms(3) [rule_format, OF True]
    let ?p = "snd (take_ptr (pst s))"
    have u: "is_user_vaddr a" "\<not> is_kernel_vaddr a" using True by (simp_all add: is_user_vaddr_def is_kernel_vaddr_def)
    have "vm_supt_lookup (stack_tmp (pst s)) (supt_of t (pst s)) (pg_round_down a) = None" using a by (simp add: supt_map_def)
    note load = no_entry_load [OF this]
    have "mmu t False a (pst s) = Some (Inr 0, pst s)"
      using u a get_page_ok [of "pd_of t (pst s)" "machine_of (pst s)" a] by (simp add: mmu_def pte_flag_ok)
    then have "user_ref t False a s = Some (Inr 0xffffffff, s\<lparr>pst := ?p\<rparr>)"
      using a load assms(2)
      by (simp add: user_ref_def user_access.simps page_fault_def fault_frame_def FAULT_P_def FAULT_U_def)
    then have "check_user t a s = fail_invalid_access t (s\<lparr>pst := ?p\<rparr>)"
      using True by (simp add: check_user_def get_user_def)
    then show ?thesis using exit by (intro exI [of _ ?p]) (simp add: take_ptr_def)
  qed
qed

theorem bad_pointer_exits_witness: "\<exists>p. check_user 2 0xc0000000 demo_sys = sys_exit 2 (-1) (demo_sys\<lparr>pst := p, filesys_lock := None\<rparr>)"
  using bad_pointer_exits [where s = demo_sys and t = 2 and a = "0xc0000000"] by (auto simp: demo_sys_def PHYS_BASE_def)

text \<open>Growing the stack refines the update of the process's map of pages: a page without an entry gets a zero page,
  an entry that exists already is kept, and so is every other page.\<close>

theorem grow_stack_refines:
  assumes "supt_ok (supt_of t s)" "htable.elem_cnt (page_map (supt_of t s)) + 2 < 2 ^ 32"
    and "mallocs s (malloc_no s) \<noteq> NULL" "mallocs s (malloc_no s) \<notin> supt_ptrs (supt_of t s)"
    and "stack_tmp s \<notin> supt_ptrs (supt_of t s)" "stack_tmp s \<noteq> mallocs s (malloc_no s)"
  shows "\<exists>s'. grow_stack t page s = Some s' \<and> supt_ok (supt_of t s') \<and>
    (case supt_map (stack_tmp s) (supt_of t s) page of
       Some e \<Rightarrow> s' = s
     | None \<Rightarrow> \<exists>e. supt_map (stack_tmp s) (supt_of t s') = (supt_map (stack_tmp s) (supt_of t s))(page \<mapsto> e) \<and>
         status e = ALL_ZERO \<and> upage e = page)"
proof (cases "supt_map (stack_tmp s) (supt_of t s) page")
  case (Some e)
  then show ?thesis using assms(1) by (auto simp: grow_stack_def vm_supt_has_entry_def supt_map_def)
next
  case None
  then have n: "vm_supt_lookup (stack_tmp s) (supt_of t s) page = None" by (simp add: supt_map_def)
  define g :: "spte \<Rightarrow> spte" where "g = (\<lambda>e. e\<lparr>upage := page, kpage := 0, status := ALL_ZERO, pdirty := False\<rparr>)"
  define e where "e = g (entries (supt_of t s) (mallocs s (malloc_no s)))"
  have e: "upage e = page" "status e = ALL_ZERO" by (simp_all add: e_def g_def)
  from supt_insert_ok [OF assms(1,3,4,5,6,2), where f = g and mem = "rehash_mem s"]
  obtain st where st: "supt_insert (rehash_mem s) (mallocs s (malloc_no s)) g (supt_of t s) = Some (True, st)" "supt_ok st"
      "supt_map (stack_tmp s) st = (supt_map (stack_tmp s) (supt_of t s))(page \<mapsto> e)"
    using None unfolding e_def [symmetric] e by auto
  have "grow_stack t page s = Some (set_supt t st (snd (take_ptr s)))"
    using n st(1) by (simp add: grow_stack_def vm_supt_has_entry_def take_ptr_def vm_supt_install_zeropage_def g_def [symmetric])
  then show ?thesis using None st e by (auto simp: set_supt_def take_ptr_def upd_vs_def upd_vm_def)
qed

theorem grow_stack_refines_witness:
  "\<exists>s' e. grow_stack 2 0xbffff000 demo_ps = Some s' \<and> supt_map 500 (supt_of 2 s') 0xbffff000 = Some e \<and> status e = ALL_ZERO"
proof -
  have "supt_of 2 demo_ps = demo_supt" "mallocs demo_ps (malloc_no demo_ps) = 3000" "stack_tmp demo_ps = 500"
    by (simp_all add: demo_ps_def)
  then show ?thesis using grow_stack_refines [where t = 2 and s = demo_ps and page = "0xbffff000"] demo_supt_ok demo_supt_facts by auto
qed

end
