(* ===== verification/Process.thy ===== *)
theory Process
  imports Prelude
begin

text \<open>
  The protocol between a process and its parent in \<^verbatim>\<open>userprog/process.c\<close> and \<^verbatim>\<open>userprog/syscall.c\<close>: the
  process control blocks, \<^verbatim>\<open>process_execute\<close>, \<^verbatim>\<open>start_process\<close>, \<^verbatim>\<open>process_wait\<close>, \<^verbatim>\<open>sys_exit\<close> and the part of
  \<^verbatim>\<open>process_exit\<close> that handles control blocks. A timer interrupt may switch threads between any two
  accesses, so each function is split where another thread can see the difference; \<open>point\<close> says where
  a thread is, and \<open>pstep\<close> is one step of one thread. A result \<open>None\<close> is a panic or an access to a
  control block that was freed. What the functions do with files and memory is in theory Syscall.
\<close>

section \<open>State\<close>

definition PID_ERROR :: int where "PID_ERROR = -1"
definition PID_INITIALIZING :: int where "PID_INITIALIZING = -2"

text \<open>Semaphores are their counters: a thread in \<^verbatim>\<open>sema_down\<close> goes on when the counter is positive.\<close>

record pcb =
  pid :: int
  parent_thread :: "nat option"
  waiting :: bool
  exited :: bool
  orphan :: bool
  exitcode :: int
  sema_initialization :: nat
  sema_wait :: nat

datatype point =
    Unborn
  | Running
  | Exec_down nat
  | Exec_push nat
  | Start nat
  | Start_up nat bool
  | Start_failed
  | Wait_test nat
  | Wait_down nat
  | Wait_reap nat
  | Exit_children
  | Exit_orphan nat
  | Exit_mark
  | Exit_orphaned nat
  | Exit_up nat bool
  | Exit_free bool
  | Dead

text \<open>The control blocks by address, \<open>None\<close> where none is allocated; \<open>own\<close> is the field \<^verbatim>\<open>pcb\<close> of a thread.\<close>

record procs =
  pcbs :: "nat \<Rightarrow> pcb option"
  child_list :: "nat \<Rightarrow> nat list"
  own :: "nat \<Rightarrow> nat option"
  place :: "nat \<Rightarrow> point"

definition go :: "nat \<Rightarrow> point \<Rightarrow> procs \<Rightarrow> procs" where
  "go t x s = s\<lparr>place := (place s)(t := x)\<rparr>"

definition upd_pcb :: "nat \<Rightarrow> (pcb \<Rightarrow> pcb) \<Rightarrow> procs \<Rightarrow> procs option" where
  "upd_pcb p f s = do { c \<leftarrow> pcbs s p; Some (s\<lparr>pcbs := (pcbs s)(p := Some (f c))\<rparr>) }"

definition free_pcb :: "nat \<Rightarrow> procs \<Rightarrow> procs option" where
  "free_pcb p s = do { c \<leftarrow> pcbs s p; Some (s\<lparr>pcbs := (pcbs s)(p := None)\<rparr>) }"

definition set_children :: "nat \<Rightarrow> nat list \<Rightarrow> procs \<Rightarrow> procs" where
  "set_children t ps s = s\<lparr>child_list := (child_list s)(t := ps)\<rparr>"

section \<open>Creating a process\<close>

text \<open>\<open>p\<close> is the page for the control block and \<open>u\<close> the new thread.\<close>

definition new_pcb :: "nat \<Rightarrow> pcb" where
  "new_pcb t = \<lparr>pid = PID_INITIALIZING, parent_thread = Some t, waiting = False, exited = False, orphan = False,
     exitcode = -1, sema_initialization = 0, sema_wait = 0\<rparr>"

definition execute_begin :: "nat \<Rightarrow> nat \<Rightarrow> nat \<Rightarrow> procs \<Rightarrow> procs" where
  "execute_begin t p u s = go u (Start p) (go t (Exec_down p) (s\<lparr>pcbs := (pcbs s)(p := Some (new_pcb t))\<rparr>))"

definition execute_down :: "nat \<Rightarrow> nat \<Rightarrow> procs \<Rightarrow> procs option" where
  "execute_down t p s = do {
     s \<leftarrow> upd_pcb p (\<lambda>c. c\<lparr>sema_initialization := sema_initialization c - 1\<rparr>) s;
     Some (go t (Exec_push p) s) }"

text \<open>The result is what \<^verbatim>\<open>process_execute\<close> returns.\<close>

definition execute_push :: "nat \<Rightarrow> nat \<Rightarrow> procs \<Rightarrow> (int \<times> procs) option" where
  "execute_push t p s = do {
     c \<leftarrow> pcbs s p;
     let s = (if pid c \<ge> 0 then set_children t (child_list s t @ [p]) s else s);
     Some (pid c, go t Running s) }"

text \<open>\<open>ok\<close> is the result of \<^verbatim>\<open>load\<close>.\<close>

definition start_assign :: "nat \<Rightarrow> nat \<Rightarrow> bool \<Rightarrow> procs \<Rightarrow> procs option" where
  "start_assign t p ok s = do {
     s \<leftarrow> upd_pcb p (\<lambda>c. c\<lparr>pid := if ok then int t else PID_ERROR\<rparr>) s;
     Some (go t (Start_up p ok) (s\<lparr>own := (own s)(t := Some p)\<rparr>)) }"

definition exit_begin :: "nat \<Rightarrow> int \<Rightarrow> procs \<Rightarrow> procs option" where
  "exit_begin t code s = do {
     s \<leftarrow> (case own s t of Some p \<Rightarrow> upd_pcb p (\<lambda>c. c\<lparr>exitcode := code\<rparr>) s | None \<Rightarrow> Some s);
     Some (go t Exit_children s) }"

definition start_up :: "nat \<Rightarrow> nat \<Rightarrow> bool \<Rightarrow> procs \<Rightarrow> procs option" where
  "start_up t p ok s = do {
     s \<leftarrow> upd_pcb p (\<lambda>c. c\<lparr>sema_initialization := sema_initialization c + 1\<rparr>) s;
     Some (go t (if \<not> ok then Start_failed else Running) s) }"

section \<open>Waiting for a child\<close>

text \<open>The search through the children; \<open>None\<close> is an access to a freed control block.\<close>

fun find_child :: "nat list \<Rightarrow> int \<Rightarrow> procs \<Rightarrow> nat option option" where
  "find_child [] child_tid s = Some None"
| "find_child (p # ps) child_tid s = do {
     c \<leftarrow> pcbs s p;
     if pid c = child_tid then Some (Some p) else find_child ps child_tid s }"

definition wait_begin :: "nat \<Rightarrow> int \<Rightarrow> procs \<Rightarrow> (int option \<times> procs) option" where
  "wait_begin t child_tid s = do {
     r \<leftarrow> find_child (child_list s t) child_tid s;
     case r of None \<Rightarrow> Some (Some (-1), s)
     | Some p \<Rightarrow> do {
         c \<leftarrow> pcbs s p;
         if waiting c then Some (Some (-1), s)
         else do {
           s \<leftarrow> upd_pcb p (\<lambda>c. c\<lparr>waiting := True\<rparr>) s;
           Some (None, go t (Wait_test p) s) } } }"

definition wait_test :: "nat \<Rightarrow> nat \<Rightarrow> procs \<Rightarrow> procs option" where
  "wait_test t p s = do {
     c \<leftarrow> pcbs s p;
     Some (go t (if \<not> exited c then Wait_down p else Wait_reap p) s) }"

definition wait_down :: "nat \<Rightarrow> nat \<Rightarrow> procs \<Rightarrow> procs option" where
  "wait_down t p s = do {
     s \<leftarrow> upd_pcb p (\<lambda>c. c\<lparr>sema_wait := sema_wait c - 1\<rparr>) s;
     Some (go t (Wait_reap p) s) }"

definition wait_reap :: "nat \<Rightarrow> nat \<Rightarrow> procs \<Rightarrow> (int \<times> procs) option" where
  "wait_reap t p s = do {
     c \<leftarrow> pcbs s p;
     ASSERT (exited c);
     let s = set_children t (remove1 p (child_list s t)) s;
     s \<leftarrow> free_pcb p s;
     Some (exitcode c, go t Running s) }"

section \<open>The end of a process\<close>

definition exit_children :: "nat \<Rightarrow> procs \<Rightarrow> procs option" where
  "exit_children t s = (case child_list s t of
     [] \<Rightarrow> Some (go t Exit_mark s)
   | p # ps \<Rightarrow> do {
       let s = set_children t ps s;
       c \<leftarrow> pcbs s p;
       if exited c then free_pcb p s else Some (go t (Exit_orphan p) s) })"

definition exit_orphan :: "nat \<Rightarrow> nat \<Rightarrow> procs \<Rightarrow> procs option" where
  "exit_orphan t p s = do {
     s \<leftarrow> upd_pcb p (\<lambda>c. c\<lparr>orphan := True, parent_thread := None\<rparr>) s;
     Some (go t Exit_children s) }"

definition exit_mark :: "nat \<Rightarrow> procs \<Rightarrow> procs option" where
  "exit_mark t s = do {
     p \<leftarrow> own s t;
     s \<leftarrow> upd_pcb p (\<lambda>c. c\<lparr>exited := True\<rparr>) s;
     Some (go t (Exit_orphaned p) s) }"

definition exit_orphaned :: "nat \<Rightarrow> nat \<Rightarrow> procs \<Rightarrow> procs option" where
  "exit_orphaned t p s = do { c \<leftarrow> pcbs s p; Some (go t (Exit_up p (orphan c)) s) }"

definition exit_up :: "nat \<Rightarrow> nat \<Rightarrow> bool \<Rightarrow> procs \<Rightarrow> procs option" where
  "exit_up t p cur_orphan s = do {
     s \<leftarrow> upd_pcb p (\<lambda>c. c\<lparr>sema_wait := sema_wait c + 1\<rparr>) s;
     Some (go t (Exit_free cur_orphan) s) }"

text \<open>
  \<open>PCB_OFS\<close> is the offset of the field \<^verbatim>\<open>pcb\<close> in the page of its thread: \<^verbatim>\<open>& cur->pcb\<close> is its address, not
  the control block's, and \<^verbatim>\<open>palloc_free_page\<close> asserts that it is a multiple of the page size.
\<close>

definition PCB_OFS :: nat where "PCB_OFS = 92"

definition exit_free :: "nat \<Rightarrow> bool \<Rightarrow> procs \<Rightarrow> procs option" where
  "exit_free t cur_orphan s = do {
     ASSERT (cur_orphan \<longrightarrow> PCB_OFS mod 4096 = 0);
     Some (go t Dead s) }"

section \<open>Steps\<close>

text \<open>
  What a step tells: a call that returned or a process that began to exit. \<open>Executed t v\<close> is the result
  of \<^verbatim>\<open>process_execute\<close>, \<open>Refused t c\<close> and \<open>Reaped t c v\<close> are results of \<^verbatim>\<open>process_wait\<close> for the child \<open>c\<close>, \<open>-1\<close>
  at once or the exit code \<open>v\<close>.
\<close>

datatype event = Silent | Executed nat int | Refused nat int | Reaped nat int int | SysExit nat int

text \<open>A thread that waits for a semaphore has no step while its counter is 0.\<close>

inductive pstep :: "nat \<Rightarrow> event \<Rightarrow> procs \<Rightarrow> procs option \<Rightarrow> bool" where
  execute_failed: "place s t = Running \<Longrightarrow> pstep t (Executed t PID_ERROR) s (Some s)"
| execute: "place s t = Running \<Longrightarrow> p \<noteq> 0 \<Longrightarrow> pcbs s p = None \<Longrightarrow> place s u = Unborn \<Longrightarrow> own s u = None \<Longrightarrow> child_list s u = [] \<Longrightarrow>
    pstep t Silent s (Some (execute_begin t p u s))"
| execute_down: "place s t = Exec_down p \<Longrightarrow> (\<forall>c. pcbs s p = Some c \<longrightarrow> sema_initialization c > 0) \<Longrightarrow>
    pstep t Silent s (execute_down t p s)"
| execute_push: "place s t = Exec_push p \<Longrightarrow> execute_push t p s = Some (v, s') \<Longrightarrow> pstep t (Executed t v) s (Some s')"
| execute_fault: "place s t = Exec_push p \<Longrightarrow> execute_push t p s = None \<Longrightarrow> pstep t Silent s None"
| start_assign: "place s t = Start p \<Longrightarrow> pstep t Silent s (start_assign t p ok s)"
| start_up: "place s t = Start_up p ok \<Longrightarrow> pstep t Silent s (start_up t p ok s)"
| start_failed: "place s t = Start_failed \<Longrightarrow> pstep t (SysExit t (-1)) s (exit_begin t (-1) s)"
| wait_refused: "place s t = Running \<Longrightarrow> wait_begin t c s = Some (Some v, s') \<Longrightarrow> pstep t (Refused t c) s (Some s')"
| wait_begin: "place s t = Running \<Longrightarrow> wait_begin t c s = Some (None, s') \<Longrightarrow> pstep t Silent s (Some s')"
| wait_fault: "place s t = Running \<Longrightarrow> wait_begin t c s = None \<Longrightarrow> pstep t Silent s None"
| wait_test: "place s t = Wait_test p \<Longrightarrow> pstep t Silent s (wait_test t p s)"
| wait_down: "place s t = Wait_down p \<Longrightarrow> (\<forall>c. pcbs s p = Some c \<longrightarrow> sema_wait c > 0) \<Longrightarrow> pstep t Silent s (wait_down t p s)"
| wait_reap: "place s t = Wait_reap p \<Longrightarrow> pcbs s p = Some c \<Longrightarrow> wait_reap t p s = Some (v, s') \<Longrightarrow>
    pstep t (Reaped t (pid c) v) s (Some s')"
| reap_fault: "place s t = Wait_reap p \<Longrightarrow> wait_reap t p s = None \<Longrightarrow> pstep t Silent s None"
| exit: "place s t = Running \<Longrightarrow> pstep t (SysExit t code) s (exit_begin t code s)"
| exit_children: "place s t = Exit_children \<Longrightarrow> pstep t Silent s (exit_children t s)"
| exit_orphan: "place s t = Exit_orphan p \<Longrightarrow> pstep t Silent s (exit_orphan t p s)"
| exit_mark: "place s t = Exit_mark \<Longrightarrow> pstep t Silent s (exit_mark t s)"
| exit_orphaned: "place s t = Exit_orphaned p \<Longrightarrow> pstep t Silent s (exit_orphaned t p s)"
| exit_up: "place s t = Exit_up p b \<Longrightarrow> pstep t Silent s (exit_up t p b s)"
| exit_free: "place s t = Exit_free b \<Longrightarrow> pstep t Silent s (exit_free t b s)"

text \<open>The first thread runs without a control block.\<close>

definition boot :: procs where
  "boot = \<lparr>pcbs = (\<lambda>_. None), child_list = (\<lambda>_. []), own = (\<lambda>_. None), place = (\<lambda>_. Unborn)(1 := Running)\<rparr>"

text \<open>The window in \<^verbatim>\<open>process_exit\<close> between \<^verbatim>\<open>exited = true\<close> and the end of \<^verbatim>\<open>sema_up\<close>.\<close>

fun in_window :: "point \<Rightarrow> bool" where
  "in_window (Exit_orphaned _) = True"
| "in_window (Exit_up _ _) = True"
| "in_window _ = False"

text \<open>
  All executions, and those in which no other thread runs while one is in that window. A history is a
  list of events, the last one first.
\<close>

inductive run :: "event list \<Rightarrow> procs \<Rightarrow> bool" where
  run_boot: "run [] boot"
| run_step: "run tr s \<Longrightarrow> pstep t e s (Some s') \<Longrightarrow> run (e # tr) s'"

inductive calm_run :: "event list \<Rightarrow> procs \<Rightarrow> bool" where
  calm_boot: "calm_run [] boot"
| calm_step: "calm_run tr s \<Longrightarrow> \<forall>u. u \<noteq> t \<longrightarrow> \<not> in_window (place s u) \<Longrightarrow> pstep t e s (Some s') \<Longrightarrow> calm_run (e # tr) s'"

inductive_cases pstepE: "pstep t e s r"

end
