(* ===== verification/ProcessFacts.thy ===== *)
theory ProcessFacts
  imports Process
begin

text \<open>
  The invariant of the protocol of theory Process: who refers to a control block, when it may be freed,
  and what its fields say about its process.
\<close>

section \<open>References\<close>

text \<open>The control block a thread will still use as its own.\<close>

fun own_at :: "point \<Rightarrow> nat option \<Rightarrow> nat option" where
  "own_at (Start p) _ = Some p"
| "own_at Unborn _ = None"
| "own_at (Exit_free _) _ = None"
| "own_at Dead _ = None"
| "own_at _ x = x"

definition owner_of :: "procs \<Rightarrow> nat \<Rightarrow> nat option" where
  "owner_of s t = own_at (place s t) (own s t)"

text \<open>The control blocks a thread refers to as a parent.\<close>

fun extra :: "point \<Rightarrow> nat list" where
  "extra (Exec_down p) = [p]"
| "extra (Exec_push p) = [p]"
| "extra (Exit_orphan p) = [p]"
| "extra _ = []"

definition refs :: "procs \<Rightarrow> nat \<Rightarrow> nat list" where
  "refs s t = child_list s t @ extra (place s t)"

fun waits :: "point \<Rightarrow> nat option" where
  "waits (Wait_test p) = Some p"
| "waits (Wait_down p) = Some p"
| "waits (Wait_reap p) = Some p"
| "waits _ = None"

fun names_own :: "point \<Rightarrow> nat option" where
  "names_own (Start_up p _) = Some p"
| "names_own (Exit_orphaned p) = Some p"
| "names_own (Exit_up p _) = Some p"
| "names_own _ = None"

section \<open>The invariant\<close>

definition owners_ok :: "procs \<Rightarrow> bool" where
  "owners_ok s \<longleftrightarrow> (\<forall>t p. owner_of s t = Some p \<longrightarrow> (\<exists>c. pcbs s p = Some c \<and> exited c = in_window (place s t))) \<and>
     (\<forall>t u p. owner_of s t = Some p \<longrightarrow> owner_of s u = Some p \<longrightarrow> t = u) \<and>
     (\<forall>t p. names_own (place s t) = Some p \<longrightarrow> own s t = Some p)"

definition refs_ok :: "procs \<Rightarrow> bool" where
  "refs_ok s \<longleftrightarrow> (\<forall>t. \<forall>p \<in> set (refs s t). pcbs s p \<noteq> None) \<and> (\<forall>t. distinct (refs s t)) \<and>
     (\<forall>t u. t \<noteq> u \<longrightarrow> set (refs s t) \<inter> set (refs s u) = {}) \<and>
     (\<forall>t p. waits (place s t) = Some p \<longrightarrow> p \<in> set (child_list s t))"

definition sema_ok :: "procs \<Rightarrow> bool" where
  "sema_ok s \<longleftrightarrow> (\<forall>p c. pcbs s p = Some c \<longrightarrow> sema_wait c > 0 \<longrightarrow> exited c) \<and>
     (\<forall>t p c. place s t = Wait_reap p \<longrightarrow> pcbs s p = Some c \<longrightarrow> exited c)"

definition calm :: "nat \<Rightarrow> procs \<Rightarrow> bool" where
  "calm t s \<longleftrightarrow> (\<forall>u. u \<noteq> t \<longrightarrow> \<not> in_window (place s u))"

lemma proj_simps [simp]:
  "place (go t x s) = (place s)(t := x)" "pcbs (go t x s) = pcbs s" "own (go t x s) = own s" "child_list (go t x s) = child_list s"
  "place (set_children t ps s) = place s" "pcbs (set_children t ps s) = pcbs s" "own (set_children t ps s) = own s"
  "child_list (set_children t ps s) = (child_list s)(t := ps)"
  by (simp_all add: go_def set_children_def)

lemmas op_defs = execute_begin_def execute_down_def execute_push_def start_assign_def exit_begin_def start_up_def wait_begin_def
  wait_test_def wait_down_def wait_reap_def exit_children_def exit_orphan_def exit_mark_def exit_orphaned_def exit_up_def
  exit_free_def upd_pcb_def free_pcb_def Let_def

lemma refs_live: "refs_ok s \<Longrightarrow> p \<in> set (refs s t) \<Longrightarrow> pcbs s p \<noteq> None"
  unfolding refs_ok_def by blast

text \<open>A step changes the references of one thread \<open>t\<close>; blocks that vanish were referred to by it alone.\<close>

lemma refs_step:
  assumes ok: "refs_ok s"
    and other: "\<And>u. u \<noteq> t \<Longrightarrow> refs s' u = refs s u \<and> child_list s' u = child_list s u \<and> (waits (place s' u) = waits (place s u))"
    and sub: "set (refs s' t) \<subseteq> set (refs s t) \<union> {q. pcbs s q = None \<and> pcbs s' q \<noteq> None}" "distinct (refs s' t)"
    and live: "\<And>q. pcbs s q \<noteq> None \<Longrightarrow> pcbs s' q \<noteq> None \<or> q \<in> set (refs s t) \<and> q \<notin> set (refs s' t)"
    and wait: "\<And>p. waits (place s' t) = Some p \<Longrightarrow> p \<in> set (child_list s' t)"
  shows "refs_ok s'"
proof -
  have alive: "pcbs s p \<noteq> None" if "p \<in> set (refs s u)" for u p using ok that unfolding refs_ok_def by blast
  have apart: "p \<notin> set (refs s v)" if "p \<in> set (refs s u)" "u \<noteq> v" for u v p using ok that unfolding refs_ok_def by blast
  show ?thesis unfolding refs_ok_def
  proof (intro conjI allI ballI impI)
    fix u p assume p: "p \<in> set (refs s' u)"
    show "pcbs s' p \<noteq> None"
    proof (cases "u = t")
      case True
      then show ?thesis using p sub(1) live alive by blast
    next
      case False
      then have "p \<in> set (refs s u)" using p other by simp
      then show ?thesis using live [OF alive] apart [of p u t] False by blast
    qed
  next
    fix u show "distinct (refs s' u)" using ok other [of u] sub(2) by (cases "u = t") (auto simp: refs_ok_def)
  next
    fix u v :: nat assume "u \<noteq> v"
    moreover have "set (refs s' t) \<inter> set (refs s w) = {}" if "w \<noteq> t" for w
      using sub(1) apart [of _ t w] alive [of _ w] that by fastforce
    moreover have "set (refs s u) \<inter> set (refs s v) = {}" if "u \<noteq> v" using ok that by (simp add: refs_ok_def)
    ultimately show "set (refs s' u) \<inter> set (refs s' v) = {}"
      using other [of u] other [of v] by (cases "u = t"; cases "v = t") (simp_all add: Int_commute)
  next
    fix u p assume "waits (place s' u) = Some p"
    then show "p \<in> set (child_list s' u)" using wait ok other [of u] by (cases "u = t") (auto simp: refs_ok_def)
  qed
qed

lemma find_child_in: "find_child ps c s = Some (Some p) \<Longrightarrow> p \<in> set ps"
  by (induction ps) (auto split: Option.bind_splits if_splits)

lemma step_refs:
  assumes ok: "refs_ok s" and step: "pstep t e s (Some s')"
  shows "refs_ok s'"
proof -
  have d: "distinct (refs s t)" using ok by (simp add: refs_ok_def)
  have w: "waits (place s t) = Some p \<Longrightarrow> p \<in> set (child_list s t)" for p using ok by (simp add: refs_ok_def)
  have l: "pcbs s p = None \<Longrightarrow> p \<notin> set (child_list s t)" for p
    using refs_live [OF ok, of p t] by (auto simp: refs_def)
  show ?thesis
    using step
  proof (cases rule: pstep.cases)
    case execute_failed
    then show ?thesis using ok by simp
  next
    case (execute p u)
    then have "t \<noteq> u" by auto
    then show ?thesis using execute d l
      by (intro refs_step [where t = t, OF ok]) (auto simp: refs_def op_defs)
  next
    case (execute_down p)
    then show ?thesis using d
      by (intro refs_step [where t = t, OF ok]) (auto simp: refs_def op_defs split: Option.bind_splits if_splits)
  next
    case (execute_push p v)
    then show ?thesis using d
      by (intro refs_step [where t = t, OF ok]) (auto simp: refs_def op_defs split: Option.bind_splits if_splits)
  next
    case (start_assign p ok)
    then show ?thesis using d
      by (intro refs_step [where t = t, OF assms(1)]) (auto simp: refs_def op_defs split: Option.bind_splits if_splits)
  next
    case (start_up p ok)
    then show ?thesis using d
      by (intro refs_step [where t = t, OF assms(1)]) (auto simp: refs_def op_defs split: Option.bind_splits if_splits)
  next
    case start_failed
    then show ?thesis using d
      by (intro refs_step [where t = t, OF assms(1)]) (auto simp: refs_def op_defs split: Option.bind_splits option.splits if_splits)
  next
    case (wait_refused c v)
    then show ?thesis using ok by (auto simp: op_defs split: Option.bind_splits if_splits option.splits)
  next
    case (wait_begin c)
    then show ?thesis using d
      by (intro refs_step [where t = t, OF assms(1)])
        (auto simp: refs_def op_defs dest!: find_child_in split: Option.bind_splits if_splits option.splits)
  next
    case (wait_test p)
    then show ?thesis using d w
      by (intro refs_step [where t = t, OF assms(1)]) (auto simp: refs_def op_defs split: Option.bind_splits if_splits)
  next
    case (wait_down p)
    then show ?thesis using d w
      by (intro refs_step [where t = t, OF assms(1)]) (auto simp: refs_def op_defs split: Option.bind_splits if_splits)
  next
    case (wait_reap p c v)
    then show ?thesis using d w
      by (intro refs_step [where t = t, OF assms(1)]) (auto simp: refs_def op_defs split: Option.bind_splits if_splits)
  next
    case (exit code)
    then show ?thesis using d
      by (intro refs_step [where t = t, OF assms(1)]) (auto simp: refs_def op_defs split: Option.bind_splits option.splits if_splits)
  next
    case exit_children
    then show ?thesis using d
      by (intro refs_step [where t = t, OF assms(1)]) (auto simp: refs_def op_defs split: Option.bind_splits if_splits list.splits)
  next
    case (exit_orphan p)
    then show ?thesis using d
      by (intro refs_step [where t = t, OF assms(1)]) (auto simp: refs_def op_defs split: Option.bind_splits if_splits)
  next
    case exit_mark
    then show ?thesis using d
      by (intro refs_step [where t = t, OF assms(1)]) (auto simp: refs_def op_defs split: Option.bind_splits if_splits)
  next
    case (exit_orphaned p)
    then show ?thesis using d
      by (intro refs_step [where t = t, OF assms(1)]) (auto simp: refs_def op_defs split: Option.bind_splits if_splits)
  next
    case (exit_up p b)
    then show ?thesis using d
      by (intro refs_step [where t = t, OF assms(1)]) (auto simp: refs_def op_defs split: Option.bind_splits if_splits)
  next
    case (exit_free b)
    then show ?thesis using d
      by (intro refs_step [where t = t, OF assms(1)]) (auto simp: refs_def op_defs split: Option.bind_splits if_splits)
  qed
qed

text \<open>A step changes what one thread \<open>x\<close> owns; the other threads keep their control blocks as they were.\<close>

lemma owners_step:
  assumes ok: "owners_ok s"
    and other: "\<And>v. v \<noteq> x \<Longrightarrow> owner_of s' v = owner_of s v \<and> in_window (place s' v) = in_window (place s v) \<and>
      names_own (place s' v) = names_own (place s v) \<and> own s' v = own s v"
    and new: "\<And>p. owner_of s' x = Some p \<Longrightarrow> owner_of s x = Some p \<or> pcbs s p = None"
    and names: "\<And>p. names_own (place s' x) = Some p \<Longrightarrow> own s' x = Some p"
    and keep: "\<And>v q c. v \<noteq> x \<Longrightarrow> owner_of s v = Some q \<Longrightarrow> pcbs s q = Some c \<Longrightarrow> \<exists>c'. pcbs s' q = Some c' \<and> exited c' = exited c"
    and mine: "\<And>q. owner_of s' x = Some q \<Longrightarrow> \<exists>c'. pcbs s' q = Some c' \<and> exited c' = in_window (place s' x)"
  shows "owners_ok s'"
proof -
  have o1: "\<exists>c. pcbs s p = Some c \<and> exited c = in_window (place s t)" if "owner_of s t = Some p" for t p
    using ok that unfolding owners_ok_def by blast
  have o2: "t = u" if "owner_of s t = Some p" "owner_of s u = Some p" for t u p
    using ok that unfolding owners_ok_def by blast
  have o3: "own s t = Some p" if "names_own (place s t) = Some p" for t p
    using ok that unfolding owners_ok_def by blast
  have uniq: "t = x" if "owner_of s' x = Some p" "owner_of s' t = Some p" for t p
  proof (rule ccontr)
    assume "t \<noteq> x"
    then have t: "owner_of s t = Some p" using other [of t] that(2) by simp
    then have "owner_of s x = Some p" using new [OF that(1)] o1 [OF t] by auto
    then show False using o2 [OF t] \<open>t \<noteq> x\<close> by blast
  qed
  show ?thesis unfolding owners_ok_def
  proof (intro conjI allI impI)
    fix t p assume p: "owner_of s' t = Some p"
    show "\<exists>c. pcbs s' p = Some c \<and> exited c = in_window (place s' t)"
    proof (cases "t = x")
      case False
      then obtain c where "pcbs s p = Some c" "exited c = in_window (place s t)" using p other [of t] o1 by auto
      then show ?thesis using keep [OF False, of p c] other [OF False] p by auto
    qed (use p mine in auto)
  next
    fix t u p assume p: "owner_of s' t = Some p" "owner_of s' u = Some p"
    show "t = u"
    proof (cases "t = x \<or> u = x")
      case True
      then show ?thesis using uniq p by blast
    next
      case False
      then show ?thesis using other o2 p by metis
    qed
  next
    fix t p assume "names_own (place s' t) = Some p"
    then show "own s' t = Some p" using names other [of t] o3 by (cases "t = x") auto
  qed
qed

text \<open>The block a parent may free has no thread left that uses it, while no other thread is in the window.\<close>

lemma freed_unused:
  assumes "owners_ok s" "calm t s" "\<not> in_window (place s t)" "pcbs s p = Some c" "exited c"
  shows "owner_of s u \<noteq> Some p"
proof
  assume u: "owner_of s u = Some p"
  then have "in_window (place s u)" using assms(1,4,5) unfolding owners_ok_def by fastforce
  then show False using assms(2,3) by (cases "u = t") (auto simp: calm_def)
qed

lemma step_owners:
  assumes ok: "owners_ok s" and sema: "sema_ok s" and calm: "calm t s" and step: "pstep t e s (Some s')"
  shows "owners_ok s'"
proof -
  note free = freed_unused [OF ok calm]
  have o1: "\<exists>c. pcbs s p = Some c \<and> exited c = in_window (place s t)" if "owner_of s t = Some p" for t p
    using ok that unfolding owners_ok_def by blast
  have o2: "t = u" if "owner_of s t = Some p" "owner_of s u = Some p" for t u p
    using ok that unfolding owners_ok_def by blast
  have o3: "own s t = Some p" if "names_own (place s t) = Some p" for t p
    using ok that unfolding owners_ok_def by blast
  show ?thesis
    using step
  proof (cases rule: pstep.cases)
    case execute_failed
    then show ?thesis using ok by simp
  next
    case (execute p u)
    then have "t \<noteq> u" by auto
    then show ?thesis using execute o1
      by (intro owners_step [where x = u, OF ok]) (auto simp: owner_of_def op_defs new_pcb_def)
  next
    case (execute_down p)
    then show ?thesis using o1 [of t]
      by (intro owners_step [where x = t, OF ok]) (auto simp: owner_of_def op_defs split: Option.bind_splits if_splits)
  next
    case (execute_push p v)
    then show ?thesis using o1 [of t]
      by (intro owners_step [where x = t, OF ok]) (auto simp: owner_of_def op_defs split: Option.bind_splits if_splits)
  next
    case (start_assign p ok)
    then show ?thesis using o1 [of t p] o2 [of t p]
      by (intro owners_step [where x = t, OF assms(1)]) (auto simp: owner_of_def op_defs split: Option.bind_splits if_splits)
  next
    case (start_up p ok)
    then show ?thesis using o1 [of t p] o3 [of t p]
      by (intro owners_step [where x = t, OF assms(1)]) (auto simp: owner_of_def op_defs split: Option.bind_splits if_splits)
  next
    case start_failed
    then show ?thesis using o1 [of t]
      by (intro owners_step [where x = t, OF assms(1)]) (auto simp: owner_of_def op_defs split: Option.bind_splits option.splits)
  next
    case (wait_refused c v)
    then show ?thesis using ok by (auto simp: op_defs split: Option.bind_splits if_splits option.splits)
  next
    case (wait_begin c)
    then show ?thesis using o1 [of t]
      by (intro owners_step [where x = t, OF assms(1)])
        (auto simp: owner_of_def op_defs split: Option.bind_splits if_splits option.splits)
  next
    case (wait_test p)
    then show ?thesis using o1 [of t]
      by (intro owners_step [where x = t, OF assms(1)]) (auto simp: owner_of_def op_defs split: Option.bind_splits if_splits)
  next
    case (wait_down p)
    then show ?thesis using o1 [of t]
      by (intro owners_step [where x = t, OF assms(1)]) (auto simp: owner_of_def op_defs split: Option.bind_splits if_splits)
  next
    case (wait_reap p c v)
    have "owner_of s u \<noteq> Some p" for u
      by (rule free) (use wait_reap in \<open>auto simp: op_defs split: Option.bind_splits if_splits\<close>)
    then show ?thesis using wait_reap o1 [of t]
      by (intro owners_step [where x = t, OF assms(1)]) (auto simp: owner_of_def op_defs split: Option.bind_splits if_splits)
  next
    case (exit code)
    then show ?thesis using o1 [of t]
      by (intro owners_step [where x = t, OF assms(1)]) (auto simp: owner_of_def op_defs split: Option.bind_splits option.splits)
  next
    case exit_children
    have "owner_of s u \<noteq> Some p" if "pcbs s p = Some c" "exited c" for u p c
      by (rule free) (use exit_children that in auto)
    then show ?thesis using exit_children o1 [of t]
      by (intro owners_step [where x = t, OF assms(1)]) (auto simp: owner_of_def op_defs split: Option.bind_splits if_splits list.splits)
  next
    case (exit_orphan p)
    then show ?thesis using o1 [of t]
      by (intro owners_step [where x = t, OF assms(1)]) (auto simp: owner_of_def op_defs split: Option.bind_splits if_splits)
  next
    case exit_mark
    then show ?thesis using o1 [of t] o2 [of t]
      by (intro owners_step [where x = t, OF assms(1)]) (auto simp: owner_of_def op_defs split: Option.bind_splits if_splits)
  next
    case (exit_orphaned p)
    then show ?thesis using o1 [of t] o3 [of t]
      by (intro owners_step [where x = t, OF assms(1)]) (auto simp: owner_of_def op_defs split: Option.bind_splits if_splits)
  next
    case (exit_up p b)
    then show ?thesis using o1 [of t] o3 [of t]
      by (intro owners_step [where x = t, OF assms(1)]) (auto simp: owner_of_def op_defs split: Option.bind_splits if_splits)
  next
    case (exit_free b)
    then show ?thesis using o1 [of t]
      by (intro owners_step [where x = t, OF assms(1)]) (auto simp: owner_of_def op_defs split: Option.bind_splits if_splits)
  qed
qed

text \<open>The fields of a block change monotonously: once exited, always exited, and only then may the semaphore rise.\<close>

lemma sema_step:
  assumes ok: "sema_ok s" and live: "\<And>v q. place s v = Wait_reap q \<Longrightarrow> pcbs s q \<noteq> None"
    and old: "\<And>q c c'. pcbs s q = Some c \<Longrightarrow> pcbs s' q = Some c' \<Longrightarrow>
      (exited c \<longrightarrow> exited c') \<and> (sema_wait c' \<le> sema_wait c \<or> exited c')"
    and new: "\<And>q c'. pcbs s q = None \<Longrightarrow> pcbs s' q = Some c' \<Longrightarrow> sema_wait c' = 0"
    and reap: "\<And>v q c'. place s' v = Wait_reap q \<Longrightarrow> pcbs s' q = Some c' \<Longrightarrow> place s v = Wait_reap q \<or> exited c'"
  shows "sema_ok s'"
proof -
  have s1: "exited c" if "pcbs s p = Some c" "sema_wait c > 0" for p c using ok that unfolding sema_ok_def by blast
  have s2: "exited c" if "place s t = Wait_reap p" "pcbs s p = Some c" for t p c using ok that unfolding sema_ok_def by blast
  have "exited c'" if c': "pcbs s' q = Some c'" "sema_wait c' > 0" for q c'
  proof (cases "pcbs s q")
    case None
    then show ?thesis using new c' by force
  next
    case (Some c)
    then show ?thesis using old [OF Some c'(1)] s1 [OF Some] c'(2) by linarith
  qed
  moreover have "exited c'" if c': "place s' v = Wait_reap q" "pcbs s' q = Some c'" for v q c'
  proof (rule ccontr)
    assume n: "\<not> exited c'"
    then have v: "place s v = Wait_reap q" using reap [OF c'] by blast
    then obtain c where c: "pcbs s q = Some c" using live by blast
    then show False using old [OF c c'(2)] s2 [OF v c] n by blast
  qed
  ultimately show ?thesis unfolding sema_ok_def by blast
qed

lemma step_sema:
  assumes ok: "sema_ok s" and owners: "owners_ok s" and refs: "refs_ok s" and step: "pstep t e s (Some s')"
  shows "sema_ok s'"
proof -
  have s1: "exited c" if "place s t = Wait_down p" "pcbs s p = Some c" "sema_wait c > 0" for p c
    using ok that unfolding sema_ok_def by blast
  have win: "exited c" if "place s t = Exit_up p b" "pcbs s p = Some c" for p b c
  proof -
    have "own s t = Some p" using owners that(1) unfolding owners_ok_def by simp
    then have "owner_of s t = Some p" using that(1) by (simp add: owner_of_def)
    then show ?thesis using owners that unfolding owners_ok_def by fastforce
  qed
  have live: "pcbs s p \<noteq> None" if "place s v = Wait_reap p" for v p
  proof -
    have "p \<in> set (child_list s v)" using refs that unfolding refs_ok_def by simp
    then show ?thesis using refs_live [OF refs, of p v] by (simp add: refs_def)
  qed
  show ?thesis
    using step
  proof (cases rule: pstep.cases)
    case execute_failed
    then show ?thesis using ok by simp
  next
    case (wait_down p)
    then show ?thesis using s1 [of p]
      by (intro sema_step [OF ok live]) (auto simp: op_defs split: Option.bind_splits if_splits)
  next
    case (exit_up p b)
    then show ?thesis using win [of p b]
      by (intro sema_step [OF ok live]) (auto simp: op_defs split: Option.bind_splits if_splits)
  qed (intro sema_step [OF ok live], auto simp: op_defs new_pcb_def split: Option.bind_splits if_splits option.splits list.splits)+
qed

section \<open>No fault\<close>

definition proto_ok :: "procs \<Rightarrow> bool" where
  "proto_ok s \<longleftrightarrow> refs_ok s \<and> owners_ok s \<and> sema_ok s"

lemma boot_ok: "proto_ok boot"
  by (simp add: proto_ok_def refs_ok_def owners_ok_def sema_ok_def boot_def refs_def owner_of_def)

lemma calm_run_ok: "calm_run tr s \<Longrightarrow> proto_ok s"
proof (induction rule: calm_run.induct)
  case calm_boot
  show ?case by (rule boot_ok)
next
  case (calm_step tr s t e s')
  then show ?case using step_refs step_owners step_sema by (auto simp: proto_ok_def calm_def)
qed

lemma step_no_fault:
  assumes ok: "proto_ok s" and step: "pstep t e s None"
  shows "place s t = Exit_mark \<and> own s t = None \<or> place s t = Exit_free True"
proof -
  have refs: "refs_ok s" and owners: "owners_ok s" and sema: "sema_ok s" using ok by (simp_all add: proto_ok_def)
  have kid: "pcbs s p \<noteq> None" if "p \<in> set (child_list s t)" for p using refs_live [OF refs, of p t] that by (simp add: refs_def)
  have ext: "pcbs s p \<noteq> None" if "p \<in> set (extra (place s t))" for p using refs_live [OF refs, of p t] that by (simp add: refs_def)
  have wt: "pcbs s p \<noteq> None" if "waits (place s t) = Some p" for p using kid refs that unfolding refs_ok_def by blast
  have mine: "pcbs s p \<noteq> None" if "owner_of s t = Some p" for p using owners that unfolding owners_ok_def by fastforce
  have nm: "own s t = Some p" if "names_own (place s t) = Some p" for p using owners that unfolding owners_ok_def by blast
  have reap: "exited c" if "place s t = Wait_reap p" "pcbs s p = Some c" for p c using sema that unfolding sema_ok_def by blast
  have found: "find_child ps c s \<noteq> None" if "set ps \<subseteq> set (child_list s t)" for ps c
    using that
  proof (induction ps)
    case (Cons p ps)
    then obtain x where "pcbs s p = Some x" using kid [of p] by auto
    then show ?case using Cons by simp
  qed simp
  show ?thesis
    using step
  proof (cases rule: pstep.cases)
    case (execute_down p)
    then show ?thesis using ext [of p] by (auto simp: op_defs split: Option.bind_splits)
  next
    case (execute_fault p)
    then show ?thesis using ext [of p] by (auto simp: op_defs split: Option.bind_splits)
  next
    case (start_assign p ok)
    then show ?thesis using mine [of p] by (auto simp: op_defs owner_of_def split: Option.bind_splits)
  next
    case (start_up p ok)
    then show ?thesis using mine [of p] nm [of p] by (auto simp: op_defs owner_of_def split: Option.bind_splits)
  next
    case start_failed
    then show ?thesis using mine by (auto simp: op_defs owner_of_def split: Option.bind_splits option.splits)
  next
    case (wait_fault c)
    then show ?thesis using found [of "child_list s t" c] kid find_child_in [of "child_list s t" c s]
      by (fastforce simp: op_defs split: Option.bind_splits option.splits if_splits)
  next
    case (wait_test p)
    then show ?thesis using wt [of p] by (auto simp: op_defs split: Option.bind_splits)
  next
    case (wait_down p)
    then show ?thesis using wt [of p] by (auto simp: op_defs split: Option.bind_splits)
  next
    case (reap_fault p)
    then show ?thesis using wt [of p] reap [of p] by (auto simp: op_defs split: Option.bind_splits if_splits)
  next
    case (exit code)
    then show ?thesis using mine by (auto simp: op_defs owner_of_def split: Option.bind_splits option.splits)
  next
    case exit_children
    then show ?thesis using kid by (fastforce simp: op_defs split: Option.bind_splits list.splits if_splits)
  next
    case (exit_orphan p)
    then show ?thesis using ext [of p] by (auto simp: op_defs split: Option.bind_splits)
  next
    case exit_mark
    then show ?thesis using mine by (auto simp: op_defs owner_of_def split: Option.bind_splits)
  next
    case (exit_orphaned p)
    then show ?thesis using mine [of p] nm [of p] by (auto simp: op_defs owner_of_def split: Option.bind_splits)
  next
    case (exit_up p b)
    then show ?thesis using mine [of p] nm [of p] by (auto simp: op_defs owner_of_def split: Option.bind_splits)
  next
    case (exit_free b)
    then show ?thesis by (cases b) (auto simp: op_defs)
  qed
qed

section \<open>Identifiers\<close>

fun started :: "point \<Rightarrow> bool" where
  "started Unborn = False"
| "started (Start _) = False"
| "started _ = True"

text \<open>A control block has the identifier of its process as long as it exists.\<close>

definition pids_ok :: "procs \<Rightarrow> bool" where
  "pids_ok s \<longleftrightarrow>
     (\<forall>p c t. pcbs s p = Some c \<longrightarrow> pid c = int t \<longrightarrow> own s t = Some p \<and> started (place s t)) \<and>
     (\<forall>t p c. owner_of s t = Some p \<longrightarrow> pcbs s p = Some c \<longrightarrow>
        (if started (place s t) then pid c = int t \<or> pid c = PID_ERROR else pid c = PID_INITIALIZING)) \<and>
     (\<forall>t. \<forall>p \<in> set (child_list s t). \<forall>c. pcbs s p = Some c \<longrightarrow> 0 \<le> pid c)"

lemma pids_step:
  assumes ok: "pids_ok s" and refs: "refs_ok s" and owners: "owners_ok s"
    and pcb: "\<And>q c'. pcbs s' q = Some c' \<Longrightarrow> (\<exists>c. pcbs s q = Some c \<and> pid c' = pid c) \<or>
      pcbs s q = None \<and> pid c' = PID_INITIALIZING \<or>
      place s t = Start q \<and> (pid c' = int t \<or> pid c' = PID_ERROR) \<and> own s' t = Some q \<and> started (place s' t)"
    and keep: "\<And>v. started (place s v) \<Longrightarrow> started (place s' v) \<and> own s' v = own s v"
    and owner: "\<And>v q. owner_of s' v = Some q \<Longrightarrow> owner_of s v = Some q \<and> (started (place s' v) = started (place s v)) \<or>
      pcbs s q = None \<and> \<not> started (place s' v) \<or> v = t \<and> place s t = Start q \<and> started (place s' t) \<and>
        (\<forall>c'. pcbs s' q = Some c' \<longrightarrow> pid c' = int t \<or> pid c' = PID_ERROR)"
    and child: "\<And>v q. q \<in> set (child_list s' v) \<Longrightarrow> q \<in> set (child_list s v) \<or>
      (\<forall>c'. pcbs s' q = Some c' \<longrightarrow> 0 \<le> pid c')"
  shows "pids_ok s'"
proof -
  have p1: "own s v = Some p \<and> started (place s v)" if "pcbs s p = Some c" "pid c = int v" for p c v
    using ok that unfolding pids_ok_def by blast
  have p2: "if started (place s v) then pid c = int v \<or> pid c = PID_ERROR else pid c = PID_INITIALIZING"
    if "owner_of s v = Some p" "pcbs s p = Some c" for v p c using ok that unfolding pids_ok_def by blast
  have p3: "0 \<le> pid c" if "p \<in> set (child_list s v)" "pcbs s p = Some c" for v p c
    using ok that unfolding pids_ok_def by blast
  have live: "\<exists>c. pcbs s q = Some c" if "owner_of s v = Some q" for v q using owners that unfolding owners_ok_def by blast
  have uniq: "v = w" if "owner_of s v = Some q" "owner_of s w = Some q" for v w q using owners that unfolding owners_ok_def by blast
  have start: "owner_of s t = Some q" if "place s t = Start q" for q using that by (simp add: owner_of_def)
  have "own s' v = Some q \<and> started (place s' v)" if c': "pcbs s' q = Some c'" "pid c' = int v" for q c' v
    using pcb [OF c'(1)] c'(2) p1 [of q _ v] keep [of v] by (auto simp: PID_ERROR_def PID_INITIALIZING_def)
  moreover have "if started (place s' v) then pid c' = int v \<or> pid c' = PID_ERROR else pid c' = PID_INITIALIZING"
    if v: "owner_of s' v = Some q" and c': "pcbs s' q = Some c'" for v q c'
    using owner [OF v]
  proof (elim disjE conjE)
    assume o: "owner_of s v = Some q" "started (place s' v) = started (place s v)"
    obtain c where c: "pcbs s q = Some c" using live [OF o(1)] by blast
    have "pid c' = pid c \<or> v = t \<and> started (place s' t) \<and> (pid c' = int t \<or> pid c' = PID_ERROR)"
      using pcb [OF c'] c uniq [OF o(1) start] by auto
    then show ?thesis using p2 [OF o(1) c] o(2) by auto
  next
    assume "pcbs s q = None" "\<not> started (place s' v)"
    then show ?thesis using pcb [OF c'] start live by fastforce
  qed (use c' in auto)
  moreover have "0 \<le> pid c'" if q: "q \<in> set (child_list s' v)" and c': "pcbs s' q = Some c'" for v q c'
    using child [OF q]
  proof
    assume old: "q \<in> set (child_list s v)"
    then obtain c where c: "pcbs s q = Some c" using refs_live [OF refs, of q v] by (auto simp: refs_def)
    then have "0 \<le> pid c" by (rule p3 [OF old])
    moreover have "place s t \<noteq> Start q" using p2 [OF start c] \<open>0 \<le> pid c\<close> by (auto simp: PID_INITIALIZING_def)
    ultimately show ?thesis using pcb [OF c'] c by auto
  qed (use c' in blast)
  ultimately show ?thesis unfolding pids_ok_def by blast
qed

lemma step_pids:
  assumes ok: "pids_ok s" and refs: "refs_ok s" and owners: "owners_ok s" and step: "pstep t e s (Some s')"
  shows "pids_ok s'"
  using step
proof (cases rule: pstep.cases)
  case execute_failed
  then show ?thesis using ok by simp
next
  case (execute p u)
  then have "t \<noteq> u" by auto
  then show ?thesis using execute
    by (intro pids_step [OF ok refs owners, where t = t]) (auto simp: op_defs new_pcb_def owner_of_def split: if_splits)
qed (intro pids_step [OF ok refs owners, where t = t],
    auto simp: op_defs new_pcb_def owner_of_def split: Option.bind_splits if_splits option.splits list.splits
      dest!: in_set_takeD set_remove1_subset [THEN subsetD])+

section \<open>Exit codes\<close>

fun exits :: "point \<Rightarrow> bool" where
  "exits Exit_children = True"
| "exits (Exit_orphan _) = True"
| "exits Exit_mark = True"
| "exits (Exit_orphaned _) = True"
| "exits (Exit_up _ _) = True"
| "exits _ = False"

text \<open>The exit code in a block is the one its process exited with.\<close>

definition codes_ok :: "event list \<Rightarrow> procs \<Rightarrow> bool" where
  "codes_ok tr s \<longleftrightarrow>
     (\<forall>t p c. exits (place s t) \<longrightarrow> own s t = Some p \<longrightarrow> pcbs s p = Some c \<longrightarrow> SysExit t (exitcode c) \<in> set tr) \<and>
     (\<forall>t p c. pcbs s p = Some c \<longrightarrow> exited c \<longrightarrow> pid c = int t \<longrightarrow> SysExit t (exitcode c) \<in> set tr)"

lemma exits_owner: "exits (place s t) \<Longrightarrow> own s t = Some p \<Longrightarrow> owner_of s t = Some p"
  by (cases "place s t") (simp_all add: owner_of_def)

lemma exits_started: "exits x \<Longrightarrow> started x"
  by (cases x) simp_all

lemma codes_step:
  assumes ok: "codes_ok tr s" and owners: "owners_ok s" and pids: "pids_ok s"
    and pcb: "\<And>q c'. pcbs s' q = Some c' \<Longrightarrow> (\<exists>c. pcbs s q = Some c \<and> exitcode c' = exitcode c \<and>
        (pid c' = pid c \<or> \<not> exited c') \<and> (exited c' = exited c \<or> exits (place s t) \<and> own s t = Some q)) \<or>
      \<not> exited c' \<and> (\<forall>v. v \<noteq> t \<longrightarrow> owner_of s v \<noteq> Some q) \<and>
        (exits (place s' t) \<longrightarrow> own s' t = Some q \<longrightarrow> SysExit t (exitcode c') \<in> set tr')"
    and keep: "\<And>v. exits (place s' v) \<Longrightarrow> (exits (place s v) \<or> v = t \<and> (\<forall>q c'. own s' v = Some q \<longrightarrow> pcbs s' q = Some c' \<longrightarrow>
      SysExit v (exitcode c') \<in> set tr')) \<and> own s' v = own s v"
    and tr: "set tr \<subseteq> set tr'"
  shows "codes_ok tr' s'"
proof -
  have h1: "SysExit v (exitcode c) \<in> set tr" if "exits (place s v)" "own s v = Some p" "pcbs s p = Some c" for v p c
    using ok that unfolding codes_ok_def by blast
  have h2: "SysExit v (exitcode c) \<in> set tr" if "pcbs s p = Some c" "exited c" "pid c = int v" for v p c
    using ok that unfolding codes_ok_def by blast
  have mine: "v = t" if "exits (place s t)" "own s t = Some q" "pcbs s q = Some c" "pid c = int v" for q c v
  proof -
    have "pid c = int t \<or> pid c = PID_ERROR"
      using pids that exits_owner [OF that(1,2)] exits_started [OF that(1)] unfolding pids_ok_def by fastforce
    then show ?thesis using that(4) by (auto simp: PID_ERROR_def)
  qed
  have "SysExit v (exitcode c') \<in> set tr'" if v: "exits (place s' v)" "own s' v = Some q" and c': "pcbs s' q = Some c'" for v q c'
  proof (cases "exits (place s v)")
    case True
    then have o: "own s v = Some q" using keep [OF v(1)] v(2) by simp
    from pcb [OF c'] consider (old) c where "pcbs s q = Some c" "exitcode c' = exitcode c"
      | (new) "\<forall>w. w \<noteq> t \<longrightarrow> owner_of s w \<noteq> Some q" "exits (place s' t) \<longrightarrow> own s' t = Some q \<longrightarrow> SysExit t (exitcode c') \<in> set tr'"
      by blast
    then show ?thesis
    proof cases
      case (old c)
      then show ?thesis using h1 [OF True o] tr by auto
    next
      case new
      then show ?thesis using exits_owner [OF True o] v by (cases "v = t") auto
    qed
  qed (use keep [OF v(1)] v c' in auto)
  moreover have "SysExit v (exitcode c') \<in> set tr'" if c': "pcbs s' q = Some c'" "exited c'" "pid c' = int v" for v q c'
  proof -
    from pcb [OF c'(1)] c'(2) obtain c where c: "pcbs s q = Some c" "exitcode c' = exitcode c" "pid c' = pid c"
        "exited c' = exited c \<or> exits (place s t) \<and> own s t = Some q" by blast
    from c(4) show ?thesis
    proof
      assume "exited c' = exited c"
      then show ?thesis using h2 [OF c(1)] c'(2,3) c(2,3) tr by auto
    next
      assume "exits (place s t) \<and> own s t = Some q"
      then show ?thesis using mine [OF _ _ c(1), of v] h1 [OF _ _ c(1)] c'(3) c(2,3) tr by auto
    qed
  qed
  ultimately show ?thesis unfolding codes_ok_def by blast
qed

lemma step_codes:
  assumes ok: "codes_ok tr s" and owners: "owners_ok s" and pids: "pids_ok s" and step: "pstep t e s (Some s')"
  shows "codes_ok (e # tr) s'"
proof -
  have o1: "\<exists>c. pcbs s p = Some c \<and> exited c = in_window (place s v)" if "owner_of s v = Some p" for v p
    using owners that unfolding owners_ok_def by blast
  have o2: "v = u" if "owner_of s v = Some p" "owner_of s u = Some p" for v u p
    using owners that unfolding owners_ok_def by blast
  show ?thesis
    using step
  proof (cases rule: pstep.cases)
    case execute_failed
    then show ?thesis using ok by (auto simp: codes_ok_def)
  next
    case (execute p u)
    then have "t \<noteq> u" by auto
    moreover have "owner_of s v \<noteq> Some p" for v using o1 [of v p] execute by auto
    ultimately show ?thesis using execute
      by (intro codes_step [OF ok owners pids, where t = t]) (auto simp: op_defs new_pcb_def split: if_splits)
  next
    case (start_assign p b)
    then show ?thesis using o1 [of t p] 
      by (intro codes_step [OF ok owners pids, where t = t]) (auto simp: op_defs owner_of_def split: Option.bind_splits if_splits)
  next
    case start_failed
    then show ?thesis using o1 [of t] o2 [of t]
      by (intro codes_step [OF ok owners pids, where t = t]) (auto simp: op_defs owner_of_def split: Option.bind_splits if_splits option.splits)
  next
    case (exit code)
    then show ?thesis using o1 [of t] o2 [of t]
      by (intro codes_step [OF ok owners pids, where t = t]) (auto simp: op_defs owner_of_def split: Option.bind_splits if_splits option.splits)
  qed (intro codes_step [OF ok owners pids, where t = t],
      auto simp: op_defs split: Option.bind_splits if_splits option.splits list.splits)+
qed

section \<open>Reaping\<close>

definition reaped :: "event list \<Rightarrow> int list" where
  "reaped tr = concat (map (\<lambda>e. case e of Reaped t c v \<Rightarrow> [c] | _ \<Rightarrow> []) tr)"

lemma reaped_Cons: "reaped (e # tr) = (case e of Reaped t c v \<Rightarrow> [c] | _ \<Rightarrow> []) @ reaped tr"
  by (simp add: reaped_def)

lemma reaped_in: "Reaped u k v \<in> set tr \<Longrightarrow> k \<in> set (reaped tr)"
  by (force simp: reaped_def)

text \<open>A child is reaped once, with the code it exited with, and its block is gone then.\<close>

definition reap_ok :: "event list \<Rightarrow> procs \<Rightarrow> bool" where
  "reap_ok tr s \<longleftrightarrow> distinct (reaped tr) \<and>
     (\<forall>u k v. Reaped u k v \<in> set tr \<longrightarrow> (\<exists>t. k = int t \<and> SysExit t v \<in> set tr)) \<and>
     (\<forall>t. int t \<in> set (reaped tr) \<longrightarrow> started (place s t) \<and> (\<forall>p c. pcbs s p = Some c \<longrightarrow> pid c \<noteq> int t))"

lemma step_reap:
  assumes ok: "reap_ok tr s" and pids: "pids_ok s" and codes: "codes_ok tr s" and refs: "refs_ok s" and step: "pstep t e s (Some s')"
  shows "reap_ok (e # tr) s'"
proof -
  have r1: "distinct (reaped tr)" using ok by (simp add: reap_ok_def)
  have r2: "\<exists>t. k = int t \<and> SysExit t v \<in> set tr" if "Reaped u k v \<in> set tr" for u k v
    using ok that unfolding reap_ok_def by blast
  have r3: "started (place s v) \<and> (\<forall>p c. pcbs s p = Some c \<longrightarrow> pid c \<noteq> int v)" if "int v \<in> set (reaped tr)" for v
    using ok that unfolding reap_ok_def by blast
  have same: "reap_ok (e # tr) s'" if e: "\<And>u k v. e \<noteq> Reaped u k v"
    and p: "\<And>q c'. pcbs s' q = Some c' \<Longrightarrow> (\<exists>c. pcbs s q = Some c \<and> pid c' = pid c) \<or> pid c' < 0 \<or> (\<exists>p. place s t = Start p) \<and> pid c' = int t"
    and st: "\<And>v. started (place s v) \<Longrightarrow> started (place s' v)"
  proof -
    have "reaped (e # tr) = reaped tr" using e by (cases e) (auto simp: reaped_Cons)
    moreover have "pid c' \<noteq> int v" if v: "int v \<in> set (reaped tr)" and c': "pcbs s' q = Some c'" for v q c'
      using p [OF c'] r3 [OF v] by auto
    ultimately show ?thesis unfolding reap_ok_def using r1 r2 r3 st e by fastforce
  qed
  show ?thesis
    using step
  proof (cases rule: pstep.cases)
    case (wait_reap p c v)
    have c: "exited c" "v = exitcode c" "s' = go t Running (set_children t (remove1 p (child_list s t)) s \<lparr>pcbs := (pcbs s)(p := None)\<rparr>)"
      using wait_reap by (auto simp: op_defs split: Option.bind_splits if_splits)
    have "p \<in> set (child_list s t)" using refs wait_reap unfolding refs_ok_def by simp
    then have "0 \<le> pid c" using pids wait_reap unfolding pids_ok_def by blast
    then obtain k where k: "pid c = int k" using nonneg_int_cases by blast
    have own: "own s k = Some p" "started (place s k)" using pids k wait_reap unfolding pids_ok_def by blast+
    have "SysExit k v \<in> set tr" using codes c(1,2) k wait_reap unfolding codes_ok_def by blast
    moreover have "pid c' \<noteq> int k" if "pcbs s q = Some c'" "q \<noteq> p" for q c'
      using pids that own(1) unfolding pids_ok_def by fastforce
    moreover have "int k \<notin> set (reaped tr)" using r3 [of k] k wait_reap by blast
    ultimately show ?thesis using wait_reap k own r1 r2 r3 unfolding reap_ok_def c(3)
      by (auto simp: reaped_Cons)
  next
    case execute_failed
    then show ?thesis by (intro same) auto
  next
    case (execute p u)
    then show ?thesis by (intro same) (auto simp: op_defs new_pcb_def PID_INITIALIZING_def split: if_splits)
  qed (rule same, (auto simp: op_defs PID_ERROR_def split: Option.bind_splits if_splits option.splits list.splits) [3])+
qed

section \<open>No wakeup is lost\<close>

definition wake_ok :: "procs \<Rightarrow> bool" where
  "wake_ok s \<longleftrightarrow> (\<forall>p c. pcbs s p = Some c \<longrightarrow> (\<exists>t. owner_of s t = Some p) \<or>
     exited c \<and> (sema_wait c > 0 \<or> (\<exists>t. place s t = Wait_reap p)))"

lemma wake_step:
  assumes ok: "wake_ok s"
    and pcb: "\<And>q c'. pcbs s' q = Some c' \<Longrightarrow> (\<exists>v. owner_of s' v = Some q) \<or> exited c' \<and> sema_wait c' > 0 \<or>
      (\<exists>c. pcbs s q = Some c \<and> (exited c \<longrightarrow> exited c') \<and> (sema_wait c' \<ge> sema_wait c \<or> place s' t = Wait_reap q))"
    and owner: "\<And>v q c'. owner_of s v = Some q \<Longrightarrow> pcbs s' q = Some c' \<Longrightarrow> owner_of s' v = Some q \<or> exited c' \<and> sema_wait c' > 0"
    and reap: "\<And>v q. place s v = Wait_reap q \<Longrightarrow> place s' v = Wait_reap q \<or> pcbs s' q = None"
  shows "wake_ok s'"
  unfolding wake_ok_def
proof (intro allI impI)
  fix q c' assume c': "pcbs s' q = Some c'"
  show "(\<exists>t. owner_of s' t = Some q) \<or> exited c' \<and> (sema_wait c' > 0 \<or> (\<exists>t. place s' t = Wait_reap q))"
  proof (rule ccontr)
    assume n: "\<not> ?thesis"
    then obtain c where c: "pcbs s q = Some c" "exited c \<longrightarrow> exited c'" "sema_wait c' \<ge> sema_wait c \<or> place s' t = Wait_reap q"
      using pcb [OF c'] by blast
    have no: "owner_of s v \<noteq> Some q" for v using owner [OF _ c', of v] n by blast
    then have "exited c" "sema_wait c > 0 \<or> (\<exists>t. place s t = Wait_reap q)" using ok c(1) unfolding wake_ok_def by blast+
    moreover have "place s v \<noteq> Wait_reap q" for v using reap [of v q] n c' c(2) \<open>exited c\<close> by auto
    ultimately show False using n c by auto
  qed
qed

lemma step_wake:
  assumes ok: "wake_ok s" and owners: "owners_ok s" and step: "pstep t e s (Some s')"
  shows "wake_ok s'"
proof -
  have win: "exited c" "owner_of s t = Some p" if "place s t = Exit_up p b" "pcbs s p = Some c" for p b c
  proof -
    have "own s t = Some p" using owners that(1) unfolding owners_ok_def by simp
    then show "owner_of s t = Some p" using that(1) by (simp add: owner_of_def)
    then show "exited c" using owners that unfolding owners_ok_def by fastforce
  qed
  show ?thesis
    using step
  proof (cases rule: pstep.cases)
    case execute_failed
    then show ?thesis using ok by simp
  next
    case (execute p u)
    then have "t \<noteq> u" by auto
    then have "owner_of s' u = Some p" using execute by (simp add: op_defs owner_of_def)
    then show ?thesis using execute \<open>t \<noteq> u\<close>
      by (intro wake_step [OF ok, where t = t]) (auto simp: op_defs new_pcb_def owner_of_def split: if_splits)
  next
    case (exit_up p b)
    then obtain c where c: "pcbs s p = Some c" "s' = go t (Exit_free b) (s\<lparr>pcbs := (pcbs s)(p := Some (c\<lparr>sema_wait := sema_wait c + 1\<rparr>))\<rparr>)"
      by (auto simp: op_defs split: Option.bind_splits)
    have x: "exited c" "owner_of s t = Some p" using win exit_up c(1) by blast+
    show ?thesis
    proof (rule wake_step [OF ok, where t = t], goal_cases)
      case (1 q c')
      then show ?case using c x by (auto split: if_splits)
    next
      case (2 v q c')
      then show ?case using c x by (cases "v = t") (auto simp: owner_of_def split: if_splits)
    next
      case (3 v q)
      then show ?case using c exit_up by auto
    qed
  qed (rule wake_step [OF ok, where t = t], (auto simp: op_defs owner_of_def split: Option.bind_splits if_splits option.splits list.splits) [3])+
qed

section \<open>All of it\<close>

definition hist_ok :: "event list \<Rightarrow> procs \<Rightarrow> bool" where
  "hist_ok tr s \<longleftrightarrow> proto_ok s \<and> pids_ok s \<and> codes_ok tr s \<and> reap_ok tr s \<and> wake_ok s"

lemma calm_run_hist: "calm_run tr s \<Longrightarrow> hist_ok tr s"
proof (induction rule: calm_run.induct)
  case calm_boot
  show ?case using boot_ok
    by (simp add: hist_ok_def pids_ok_def codes_ok_def reap_ok_def wake_ok_def boot_def reaped_def owner_of_def)
next
  case (calm_step tr s t e s')
  then have "refs_ok s" "owners_ok s" "sema_ok s" by (simp_all add: hist_ok_def proto_ok_def)
  then show ?case using calm_step step_refs step_owners step_sema step_pids step_codes step_reap step_wake
    by (auto simp: hist_ok_def proto_ok_def calm_def)
qed

lemma wake_enabled:
  assumes ok: "hist_ok tr s" and w: "place s t = Wait_down p" and fin: "\<And>u. owner_of s u \<noteq> Some p"
  shows "\<exists>s'. pstep t Silent s (Some s')"
proof -
  have refs: "refs_ok s" and wake: "wake_ok s" using ok by (simp_all add: hist_ok_def proto_ok_def)
  have mem: "p \<in> set (child_list s v)" if "place s v = Wait_reap p \<or> place s v = Wait_down p" for v
    using refs that unfolding refs_ok_def by auto
  then obtain c where c: "pcbs s p = Some c" using refs_live [OF refs, of p t] w by (auto simp: refs_def)
  have "place s v \<noteq> Wait_reap p" for v
  proof
    assume v: "place s v = Wait_reap p"
    then have "v \<noteq> t" using w by auto
    moreover have "p \<in> set (refs s v)" "p \<in> set (refs s t)" using mem v w by (auto simp: refs_def)
    ultimately show False using refs unfolding refs_ok_def by blast
  qed
  then have "sema_wait c > 0" using wake c fin unfolding wake_ok_def by blast
  then have "pstep t Silent s (wait_down t p s)" using w c by (intro pstep.wait_down) auto
  then show ?thesis using c by (auto simp: wait_down_def upd_pcb_def)
qed

end
