(* ===== verification/ProcProps.thy ===== *)
theory ProcProps
  imports ProcessFacts
begin

text \<open>
  The properties of the protocol between a process and its parent, with executions on which they are
  applied: a parent that waits for its child, a parent that exits first, and a race.
\<close>

section \<open>Executions\<close>

text \<open>The first thread creates the thread 2; its control block is at 1.\<close>

definition blk :: "int \<Rightarrow> nat option \<Rightarrow> bool \<Rightarrow> bool \<Rightarrow> bool \<Rightarrow> int \<Rightarrow> nat \<Rightarrow> nat \<Rightarrow> pcb" where
  "blk i par w ex orph code si sw = \<lparr>pid = i, parent_thread = par, waiting = w, exited = ex, orphan = orph,
     exitcode = code, sema_initialization = si, sema_wait = sw\<rparr>"

definition two :: "pcb option \<Rightarrow> nat list \<Rightarrow> nat option \<Rightarrow> point \<Rightarrow> point \<Rightarrow> procs" where
  "two c ps o2 x1 x2 = \<lparr>pcbs = (\<lambda>_. None)(1 := c), child_list = (\<lambda>_. [])(1 := ps), own = (\<lambda>_. None)(2 := o2),
     place = (\<lambda>_. Unborn)(1 := x1, 2 := x2)\<rparr>"

lemma calm_is_run: "calm_run tr s \<Longrightarrow> run tr s"
  by (induction rule: calm_run.induct) (auto intro: run.intros)

text \<open>One step of the first and of the second thread.\<close>

lemma calm1:
  assumes "calm_run tr (two c ps o2 x1 x2)" "pstep 1 e (two c ps o2 x1 x2) r" "r = Some s'" "\<not> in_window x2"
  shows "calm_run (e # tr) s'"
  by (rule calm_step [OF assms(1)]) (use assms(2-4) in \<open>auto simp: two_def\<close>)

lemma calm2:
  assumes "calm_run tr (two c ps o2 x1 x2)" "pstep 2 e (two c ps o2 x1 x2) r" "r = Some s'" "\<not> in_window x1"
  shows "calm_run (e # tr) s'"
  by (rule calm_step [OF assms(1)]) (use assms(2-4) in \<open>auto simp: two_def\<close>)

lemma boot_two: "boot = two None [] None Running Unborn"
  by (simp add: boot_def two_def fun_eq_iff)

lemma two_simps: "pcbs (two c ps o2 x1 x2) = (\<lambda>_. None)(1 := c)" "child_list (two c ps o2 x1 x2) = (\<lambda>_. [])(1 := ps)"
  "own (two c ps o2 x1 x2) = (\<lambda>_. None)(2 := o2)" "place (two c ps o2 x1 x2) = (\<lambda>_. Unborn)(1 := x1, 2 := x2)"
  by (simp_all add: two_def)

lemmas trace_defs = two_simps op_defs two_def go_def set_children_def fun_eq_iff blk_def PID_INITIALIZING_def

lemma race1: "run tr (two c ps o2 x1 x2) \<Longrightarrow> pstep 1 e (two c ps o2 x1 x2) r \<Longrightarrow> r = Some s' \<Longrightarrow> run (e # tr) s'"
  by (auto intro: run_step)

lemma child_started: "calm_run [Silent] (two (Some (blk (-2) (Some 1) False False False (-1) 0 0)) [] None (Exec_down 1) (Start 1))"
proof -
  have "pstep 1 Silent boot (Some (execute_begin 1 1 2 boot))" by (rule pstep.execute) (simp_all add: boot_def)
  moreover have "execute_begin 1 1 2 boot = two (Some (blk (-2) (Some 1) False False False (-1) 0 0)) [] None (Exec_down 1) (Start 1)"
    by (simp add: execute_begin_def boot_two two_def go_def fun_eq_iff new_pcb_def blk_def PID_INITIALIZING_def)
  ultimately show ?thesis using calm_step [OF calm_boot, of 1 Silent] by (simp add: boot_def)
qed

lemma child_assigned: "calm_run [Silent, Silent] (two (Some (blk (2) (Some 1) False False False (-1) 0 0)) [] (Some 1) (Exec_down 1) (Start_up 1 True))"
  by (rule calm2 [OF child_started pstep.start_assign [where ok = True]]) (auto simp: trace_defs)

lemma child_up: "calm_run [Silent, Silent, Silent] (two (Some (blk (2) (Some 1) False False False (-1) 1 0)) [] (Some 1) (Exec_down 1) (Running))"
  by (rule calm2 [OF child_assigned pstep.start_up]) (auto simp: trace_defs)

lemma child_known: "calm_run [Silent, Silent, Silent, Silent] (two (Some (blk (2) (Some 1) False False False (-1) 0 0)) [] (Some 1) (Exec_push 1) (Running))"
  by (rule calm1 [OF child_up pstep.execute_down]) (auto simp: trace_defs)

lemma child_runs: "calm_run [Executed 1 2, Silent, Silent, Silent, Silent] (two (Some (blk (2) (Some 1) False False False (-1) 0 0)) [1] (Some 1) (Running) (Running))"
  by (rule calm1 [OF child_known pstep.execute_push]) (auto simp: trace_defs)

lemma child_exits: "calm_run [SysExit 2 7, Executed 1 2, Silent, Silent, Silent, Silent] (two (Some (blk (2) (Some 1) False False False (7) 0 0)) [1] (Some 1) (Running) (Exit_children))"
  by (rule calm2 [OF child_runs pstep.exit [where code = 7]]) (auto simp: trace_defs)

lemma child_ends: "calm_run [Silent, SysExit 2 7, Executed 1 2, Silent, Silent, Silent, Silent] (two (Some (blk (2) (Some 1) False False False (7) 0 0)) [1] (Some 1) (Running) (Exit_mark))"
  by (rule calm2 [OF child_exits pstep.exit_children]) (auto simp: trace_defs)

lemma child_marked: "calm_run [Silent, Silent, SysExit 2 7, Executed 1 2, Silent, Silent, Silent, Silent] (two (Some (blk (2) (Some 1) False True False (7) 0 0)) [1] (Some 1) (Running) (Exit_orphaned 1))"
  by (rule calm2 [OF child_ends pstep.exit_mark]) (auto simp: trace_defs)

lemma child_read: "calm_run [Silent, Silent, Silent, SysExit 2 7, Executed 1 2, Silent, Silent, Silent, Silent] (two (Some (blk (2) (Some 1) False True False (7) 0 0)) [1] (Some 1) (Running) (Exit_up 1 False))"
  by (rule calm2 [OF child_marked pstep.exit_orphaned]) (auto simp: trace_defs)

lemma child_signalled: "calm_run [Silent, Silent, Silent, Silent, SysExit 2 7, Executed 1 2, Silent, Silent, Silent, Silent] (two (Some (blk (2) (Some 1) False True False (7) 0 1)) [1] (Some 1) (Running) (Exit_free False))"
  by (rule calm2 [OF child_read pstep.exit_up]) (auto simp: trace_defs)

lemma wait_begun: "calm_run [Silent, Silent, Silent, Silent, Silent, SysExit 2 7, Executed 1 2, Silent, Silent, Silent, Silent] (two (Some (blk (2) (Some 1) True True False (7) 0 1)) [1] (Some 1) (Wait_test 1) (Exit_free False))"
  by (rule calm1 [OF child_signalled pstep.wait_begin [where c = 2]]) (auto simp: trace_defs)

lemma wait_tested: "calm_run [Silent, Silent, Silent, Silent, Silent, Silent, SysExit 2 7, Executed 1 2, Silent, Silent, Silent, Silent] (two (Some (blk (2) (Some 1) True True False (7) 0 1)) [1] (Some 1) (Wait_reap 1) (Exit_free False))"
  by (rule calm1 [OF wait_begun pstep.wait_test]) (auto simp: trace_defs)

lemma wait_reaped: "calm_run [Reaped 1 2 7, Silent, Silent, Silent, Silent, Silent, Silent, SysExit 2 7, Executed 1 2, Silent, Silent, Silent, Silent] (two (None) [] (Some 1) (Running) (Exit_free False))"
proof -
  have "pstep 1 (Reaped 1 (pid (blk 2 (Some 1) True True False 7 0 1)) 7) (two (Some (blk 2 (Some 1) True True False 7 0 1)) [1] (Some 1) (Wait_reap 1) (Exit_free False)) (Some (two None [] (Some 1) Running (Exit_free False)))"
    by (rule pstep.wait_reap [where p = 1]) (auto simp: trace_defs)
  then have "pstep 1 (Reaped 1 2 7) (two (Some (blk 2 (Some 1) True True False 7 0 1)) [1] (Some 1) (Wait_reap 1) (Exit_free False)) (Some (two None [] (Some 1) Running (Exit_free False)))" by (simp add: blk_def)
  then show ?thesis by (rule calm1 [OF wait_tested]) simp_all
qed

lemma race_begun: "run [Silent, Silent, Silent, SysExit 2 7, Executed 1 2, Silent, Silent, Silent, Silent] (two (Some (blk (2) (Some 1) True True False (7) 0 0)) [1] (Some 1) (Wait_test 1) (Exit_orphaned 1))"
  by (rule race1 [OF child_marked [THEN calm_is_run] pstep.wait_begin [where c = 2]]) (auto simp: trace_defs)

lemma race_tested: "run [Silent, Silent, Silent, Silent, SysExit 2 7, Executed 1 2, Silent, Silent, Silent, Silent] (two (Some (blk (2) (Some 1) True True False (7) 0 0)) [1] (Some 1) (Wait_reap 1) (Exit_orphaned 1))"
  by (rule race1 [OF race_begun pstep.wait_test]) (auto simp: trace_defs)

lemma race_reaped: "run [Reaped 1 2 7, Silent, Silent, Silent, Silent, SysExit 2 7, Executed 1 2, Silent, Silent, Silent, Silent] (two (None) [] (Some 1) (Running) (Exit_orphaned 1))"
proof -
  have "pstep 1 (Reaped 1 (pid (blk 2 (Some 1) True True False 7 0 0)) 7) (two (Some (blk 2 (Some 1) True True False 7 0 0)) [1] (Some 1) (Wait_reap 1) (Exit_orphaned 1)) (Some (two None [] (Some 1) Running (Exit_orphaned 1)))"
    by (rule pstep.wait_reap [where p = 1]) (auto simp: trace_defs)
  then have "pstep 1 (Reaped 1 2 7) (two (Some (blk 2 (Some 1) True True False 7 0 0)) [1] (Some 1) (Wait_reap 1) (Exit_orphaned 1)) (Some (two None [] (Some 1) Running (Exit_orphaned 1)))" by (simp add: blk_def)
  then show ?thesis by (rule race1 [OF race_tested]) simp_all
qed

lemma parent_waits: "calm_run [Silent, Executed 1 2, Silent, Silent, Silent, Silent] (two (Some (blk (2) (Some 1) True False False (-1) 0 0)) [1] (Some 1) (Wait_test 1) (Running))"
  by (rule calm1 [OF child_runs pstep.wait_begin [where c = 2]]) (auto simp: trace_defs)

lemma parent_sleeps: "calm_run [Silent, Silent, Executed 1 2, Silent, Silent, Silent, Silent] (two (Some (blk (2) (Some 1) True False False (-1) 0 0)) [1] (Some 1) (Wait_down 1) (Running))"
  by (rule calm1 [OF parent_waits pstep.wait_test]) (auto simp: trace_defs)

lemma sleep_exits: "calm_run [SysExit 2 7, Silent, Silent, Executed 1 2, Silent, Silent, Silent, Silent] (two (Some (blk (2) (Some 1) True False False (7) 0 0)) [1] (Some 1) (Wait_down 1) (Exit_children))"
  by (rule calm2 [OF parent_sleeps pstep.exit [where code = 7]]) (auto simp: trace_defs)

lemma sleep_ends: "calm_run [Silent, SysExit 2 7, Silent, Silent, Executed 1 2, Silent, Silent, Silent, Silent] (two (Some (blk (2) (Some 1) True False False (7) 0 0)) [1] (Some 1) (Wait_down 1) (Exit_mark))"
  by (rule calm2 [OF sleep_exits pstep.exit_children]) (auto simp: trace_defs)

lemma sleep_marked: "calm_run [Silent, Silent, SysExit 2 7, Silent, Silent, Executed 1 2, Silent, Silent, Silent, Silent] (two (Some (blk (2) (Some 1) True True False (7) 0 0)) [1] (Some 1) (Wait_down 1) (Exit_orphaned 1))"
  by (rule calm2 [OF sleep_ends pstep.exit_mark]) (auto simp: trace_defs)

lemma sleep_read: "calm_run [Silent, Silent, Silent, SysExit 2 7, Silent, Silent, Executed 1 2, Silent, Silent, Silent, Silent] (two (Some (blk (2) (Some 1) True True False (7) 0 0)) [1] (Some 1) (Wait_down 1) (Exit_up 1 False))"
  by (rule calm2 [OF sleep_marked pstep.exit_orphaned]) (auto simp: trace_defs)

lemma sleep_signalled: "calm_run [Silent, Silent, Silent, Silent, SysExit 2 7, Silent, Silent, Executed 1 2, Silent, Silent, Silent, Silent] (two (Some (blk (2) (Some 1) True True False (7) 0 1)) [1] (Some 1) (Wait_down 1) (Exit_free False))"
  by (rule calm2 [OF sleep_read pstep.exit_up]) (auto simp: trace_defs)

lemma parent_exits: "calm_run [SysExit 1 0, Executed 1 2, Silent, Silent, Silent, Silent] (two (Some (blk (2) (Some 1) False False False (-1) 0 0)) [1] (Some 1) (Exit_children) (Running))"
  by (rule calm1 [OF child_runs pstep.exit [where code = 0]]) (auto simp: trace_defs)

lemma parent_pops: "calm_run [Silent, SysExit 1 0, Executed 1 2, Silent, Silent, Silent, Silent] (two (Some (blk (2) (Some 1) False False False (-1) 0 0)) [] (Some 1) (Exit_orphan 1) (Running))"
  by (rule calm1 [OF parent_exits pstep.exit_children]) (auto simp: trace_defs)

lemma parent_orphans: "calm_run [Silent, Silent, SysExit 1 0, Executed 1 2, Silent, Silent, Silent, Silent] (two (Some (blk (2) None False False True (-1) 0 0)) [] (Some 1) (Exit_children) (Running))"
  by (rule calm1 [OF parent_pops pstep.exit_orphan]) (auto simp: trace_defs)

lemma orphan_exits: "calm_run [SysExit 2 7, Silent, Silent, SysExit 1 0, Executed 1 2, Silent, Silent, Silent, Silent] (two (Some (blk (2) None False False True (7) 0 0)) [] (Some 1) (Exit_children) (Exit_children))"
  by (rule calm2 [OF parent_orphans pstep.exit [where code = 7]]) (auto simp: trace_defs)

lemma orphan_ends: "calm_run [Silent, SysExit 2 7, Silent, Silent, SysExit 1 0, Executed 1 2, Silent, Silent, Silent, Silent] (two (Some (blk (2) None False False True (7) 0 0)) [] (Some 1) (Exit_children) (Exit_mark))"
  by (rule calm2 [OF orphan_exits pstep.exit_children]) (auto simp: trace_defs)

lemma orphan_marked: "calm_run [Silent, Silent, SysExit 2 7, Silent, Silent, SysExit 1 0, Executed 1 2, Silent, Silent, Silent, Silent] (two (Some (blk (2) None False True True (7) 0 0)) [] (Some 1) (Exit_children) (Exit_orphaned 1))"
  by (rule calm2 [OF orphan_ends pstep.exit_mark]) (auto simp: trace_defs)

lemma orphan_read: "calm_run [Silent, Silent, Silent, SysExit 2 7, Silent, Silent, SysExit 1 0, Executed 1 2, Silent, Silent, Silent, Silent] (two (Some (blk (2) None False True True (7) 0 0)) [] (Some 1) (Exit_children) (Exit_up 1 True))"
  by (rule calm2 [OF orphan_marked pstep.exit_orphaned]) (auto simp: trace_defs)

lemma orphan_signalled: "calm_run [Silent, Silent, Silent, Silent, SysExit 2 7, Silent, Silent, SysExit 1 0, Executed 1 2, Silent, Silent, Silent, Silent] (two (Some (blk (2) None False True True (7) 0 1)) [] (Some 1) (Exit_children) (Exit_free True))"
  by (rule calm2 [OF orphan_read pstep.exit_up]) (auto simp: trace_defs)

section \<open>Properties\<close>

text \<open>C14: As long as no other thread runs between the moment a process marks itself as exited and the end of its
  \<^verbatim>\<open>sema_up\<close>, no step touches a freed control block and no assertion fails, with two exceptions: the end of a thread
  without a control block and the release of the block of an orphan.\<close>

theorem protocol_no_fault:
  assumes "calm_run tr s" "pstep t e s None"
  shows "place s t = Exit_mark \<and> own s t = None \<or> place s t = Exit_free True"
  using step_no_fault [OF calm_run_ok [OF assms(1)] assms(2)] .

theorem protocol_no_fault_witness:
  "\<exists>tr s. calm_run tr s \<and> pstep 2 Silent s None \<and> place s 2 = Exit_free True"
proof -
  let ?s = "two (Some (blk 2 None False True True 7 0 1)) [] (Some 1) Exit_children (Exit_free True)"
  have "exit_free 2 True ?s = None" by (simp add: exit_free_def PCB_OFS_def)
  then have f: "pstep 2 Silent ?s None" using pstep.exit_free [of ?s 2 True] by (simp add: two_def)
  have "place ?s 2 = Exit_free True" using protocol_no_fault [OF orphan_signalled f] by (auto simp: two_def)
  with f orphan_signalled show ?thesis by blast
qed





text \<open>C35: The window is real: if the parent calls \<^verbatim>\<open>process_wait\<close> after its child set \<^verbatim>\<open>exited\<close> and before the child's
  \<^verbatim>\<open>sema_up\<close>, it frees the control block, and the next access of the child is to freed memory.\<close>

theorem wait_exit_race:
  "\<exists>tr s. run tr s \<and> Reaped 1 2 7 \<in> set tr \<and> place s 2 = Exit_orphaned 1 \<and> pstep 2 Silent s None"
proof -
  let ?s = "two None [] (Some 1) Running (Exit_orphaned 1)"
  have "exit_orphaned 2 1 ?s = None" by (simp add: exit_orphaned_def two_def)
  then have "pstep 2 Silent ?s None" using pstep.exit_orphaned [of ?s 2 1] by (simp add: two_def)
  then show ?thesis using race_reaped by (intro exI [of _ ?s] exI conjI) (auto simp: two_def)
qed

text \<open>A process whose parent ended before it panics the kernel when it ends: it frees the address of its own
  pointer instead of the control block.\<close>

theorem orphan_exit_panics:
  assumes "place s t = Exit_free True" "pstep t e s r"
  shows "r = None"
  using assms(2,1) by (cases rule: pstep.cases) (auto simp: exit_free_def PCB_OFS_def)

theorem orphan_exit_panics_witness:
  "\<exists>tr s. calm_run tr s \<and> SysExit 1 0 \<in> set tr \<and> SysExit 2 7 \<in> set tr \<and> (\<forall>e r. pstep 2 e s r \<longrightarrow> r = None)"
proof -
  let ?s = "two (Some (blk 2 None False True True 7 0 1)) [] (Some 1) Exit_children (Exit_free True)"
  have "place ?s 2 = Exit_free True" by (simp add: two_def)
  then have "\<forall>e r. pstep 2 e ?s r \<longrightarrow> r = None" using orphan_exit_panics by blast
  with orphan_signalled show ?thesis by (intro exI conjI) (assumption | simp)+
qed

end
