(* ===== verification/Malloc.thy ===== *)
theory Malloc
  imports PagingFacts
begin

text \<open>
  \<^verbatim>\<open>threads/malloc.c\<close>: blocks of powers of two carved out of pages, and runs of whole pages for larger
  requests. The free list of a descriptor is the sequence of its blocks, and the header of an arena
  is a record at the address of its page, beside the bytes of memory; a page that is given back
  has a header of \<open>0xcc\<close> bytes. The lock of a descriptor serialises the calls and is left out.
\<close>

section \<open>State\<close>

definition ARENA_MAGIC :: u32 where "ARENA_MAGIC = 0x9a548eed"

record desc =
  dblock_size :: nat
  blocks_per_arena :: nat
  free_list :: "u32 list"

text \<open>A pointer to a descriptor is its index in \<open>descs\<close>.\<close>

record arena =
  magic :: u32
  adesc :: "nat option"
  free_cnt :: nat

definition SIZEOF_ARENA :: nat where "SIZEOF_ARENA = 12"

record mheap =
  descs :: "desc list"
  arenas :: "u32 \<Rightarrow> arena"
  pages :: machine

definition set_free_list :: "nat \<Rightarrow> u32 list \<Rightarrow> mheap \<Rightarrow> mheap" where
  "set_free_list i bs s = s\<lparr>descs := (descs s)[i := (descs s ! i)\<lparr>free_list := bs\<rparr>]\<rparr>"

definition set_arena :: "u32 \<Rightarrow> arena \<Rightarrow> mheap \<Rightarrow> mheap" where
  "set_arena a x s = s\<lparr>arenas := (arenas s)(a := x)\<rparr>"

definition set_ram :: "cmem \<Rightarrow> mheap \<Rightarrow> mheap" where
  "set_ram r s = s\<lparr>pages := (pages s)\<lparr>ram := r\<rparr>\<rparr>"

text \<open>The header in a page that was filled with \<open>0xcc\<close>.\<close>

definition cc_arena :: arena where
  "cc_arena = \<lparr>magic = 0xcccccccc, adesc = None, free_cnt = 0xcccccccc\<rparr>"

definition forget_arenas :: "u32 \<Rightarrow> nat \<Rightarrow> mheap \<Rightarrow> mheap" where
  "forget_arenas a n s = s\<lparr>arenas := \<lambda>b. if unat b \<in> page_run (unat a) n then cc_arena else arenas s b\<rparr>"

section \<open>Initialisation\<close>

function desc_loop :: "nat \<Rightarrow> desc list \<Rightarrow> desc list option" where
  "desc_loop sz ds =
     (if 0 < sz \<and> sz < PGSIZE div 2 then do {
        let ds = ds @ [\<lparr>dblock_size = sz, blocks_per_arena = (PGSIZE - SIZEOF_ARENA) div sz, free_list = []\<rparr>];
        ASSERT (length ds \<le> 10);
        desc_loop (sz * 2) ds }
      else Some ds)"
  by auto
termination by (relation "measure (\<lambda>(sz, ds). PGSIZE - sz)") auto

declare desc_loop.simps [simp del]

definition malloc_init :: "mheap \<Rightarrow> mheap option" where
  "malloc_init s = do { ds \<leftarrow> desc_loop 16 (descs s); Some (s\<lparr>descs := ds\<rparr>) }"

section \<open>Blocks and arenas\<close>

definition block_to_arena :: "u32 \<Rightarrow> mheap \<Rightarrow> u32 option" where
  "block_to_arena b s = do {
     let a = pg_round_down b;
     let h = arenas s a;
     ASSERT (a \<noteq> 0);
     ASSERT (magic h = ARENA_MAGIC);
     ASSERT (case adesc h of None \<Rightarrow> True
             | Some d \<Rightarrow> (pg_ofs b - of_nat SIZEOF_ARENA) mod of_nat (dblock_size (descs s ! d)) = 0);
     ASSERT (adesc h \<noteq> None \<or> pg_ofs b = of_nat SIZEOF_ARENA);
     Some a }"

definition arena_to_block :: "u32 \<Rightarrow> nat \<Rightarrow> mheap \<Rightarrow> u32 option" where
  "arena_to_block a idx s = do {
     ASSERT (a \<noteq> 0);
     ASSERT (magic (arenas s a) = ARENA_MAGIC);
     d \<leftarrow> adesc (arenas s a);
     ASSERT (idx < blocks_per_arena (descs s ! d));
     Some (a + of_nat SIZEOF_ARENA + of_nat (idx * dblock_size (descs s ! d))) }"

section \<open>Allocation\<close>

text \<open>The first descriptor whose blocks are large enough.\<close>

fun find_desc :: "desc list \<Rightarrow> nat \<Rightarrow> nat \<Rightarrow> nat option" where
  "find_desc [] i sz = None"
| "find_desc (d # ds) i sz = (if dblock_size d \<ge> sz then Some i else find_desc ds (i + 1) sz)"

text \<open>The blocks of a new arena from the \<open>i\<close>-th on.\<close>

fun fill_loop :: "nat \<Rightarrow> u32 \<Rightarrow> nat \<Rightarrow> nat \<Rightarrow> mheap \<Rightarrow> mheap option" where
  "fill_loop k a i 0 s = Some s"
| "fill_loop k a i (Suc n) s = do {
     b \<leftarrow> arena_to_block a i s;
     fill_loop k a (i + 1) n (set_free_list k (free_list (descs s ! k) @ [b]) s) }"

definition new_arena :: "nat \<Rightarrow> mheap \<Rightarrow> (bool \<times> mheap) option" where
  "new_arena k s = do {
     (a, m) \<leftarrow> palloc_get_page 0 (pages s);
     let s = s\<lparr>pages := m\<rparr>;
     if a = 0 then Some (False, s)
     else do {
       let d = descs s ! k;
       let s = set_arena a \<lparr>magic = ARENA_MAGIC, adesc = Some k, free_cnt = blocks_per_arena d\<rparr> s;
       s \<leftarrow> fill_loop k a 0 (blocks_per_arena d) s;
       Some (True, s) } }"

text \<open>The block at the front of the free list.\<close>

definition take_block :: "nat \<Rightarrow> mheap \<Rightarrow> (u32 \<times> mheap) option" where
  "take_block k s = do {
     ASSERT (free_list (descs s ! k) \<noteq> []);
     let b = hd (free_list (descs s ! k));
     let s = set_free_list k (tl (free_list (descs s ! k))) s;
     a \<leftarrow> block_to_arena b s;
     let h = arenas s a;
     Some (b, set_arena a (h\<lparr>free_cnt := free_cnt h - 1\<rparr>) s) }"

text \<open>A request for more than any descriptor has: whole pages, their number computed in 32 bits.\<close>

definition big_pages :: "u32 \<Rightarrow> u32" where
  "big_pages sz = (sz + of_nat SIZEOF_ARENA + of_nat PGSIZE - 1) div of_nat PGSIZE"

definition malloc_big :: "u32 \<Rightarrow> mheap \<Rightarrow> (u32 \<times> mheap) option" where
  "malloc_big sz s = do {
     let page_cnt = unat (big_pages sz);
     (a, m) \<leftarrow> palloc_get_multiple 0 page_cnt (pages s);
     let s = s\<lparr>pages := m\<rparr>;
     if a = 0 then Some (0, s)
     else Some (a + of_nat SIZEOF_ARENA, set_arena a \<lparr>magic = ARENA_MAGIC, adesc = None, free_cnt = page_cnt\<rparr> s) }"

definition malloc :: "u32 \<Rightarrow> mheap \<Rightarrow> (u32 \<times> mheap) option" where
  "malloc sz s =
     (if sz = 0 then Some (0, s)
      else case find_desc (descs s) 0 (unat sz) of
        None \<Rightarrow> malloc_big sz s
      | Some k \<Rightarrow> do {
          (ok, s) \<leftarrow> (if free_list (descs s ! k) = [] then new_arena k s else Some (True, s));
          if ok then take_block k s else Some (0, s) })"

definition calloc :: "u32 \<Rightarrow> u32 \<Rightarrow> mheap \<Rightarrow> (u32 \<times> mheap) option" where
  "calloc a b s =
     (let sz = a * b
      in if sz < a \<or> sz < b then Some (0, s)
      else do {
        (p, s) \<leftarrow> malloc sz s;
        if p \<noteq> 0 then do {
          (_, r) \<leftarrow> memset (unat p) 0 (unat sz) (ram (pages s));
          Some (p, set_ram r s) }
        else Some (p, s) })"

definition block_size_of :: "u32 \<Rightarrow> mheap \<Rightarrow> u32 option" where
  "block_size_of b s = do {
     a \<leftarrow> block_to_arena b s;
     Some (case adesc (arenas s a) of
        Some d \<Rightarrow> of_nat (dblock_size (descs s ! d))
      | None \<Rightarrow> of_nat (PGSIZE * free_cnt (arenas s a)) - pg_ofs b) }"

section \<open>Release\<close>

fun unlink_loop :: "nat \<Rightarrow> u32 \<Rightarrow> nat \<Rightarrow> nat \<Rightarrow> mheap \<Rightarrow> mheap option" where
  "unlink_loop k a i 0 s = Some s"
| "unlink_loop k a i (Suc n) s = do {
     b \<leftarrow> arena_to_block a i s;
     ASSERT (b \<in> set (free_list (descs s ! k)));
     unlink_loop k a (i + 1) n (set_free_list k (remove1 b (free_list (descs s ! k))) s) }"

definition free_small :: "nat \<Rightarrow> u32 \<Rightarrow> u32 \<Rightarrow> mheap \<Rightarrow> mheap option" where
  "free_small k a b s = do {
     let d = descs s ! k;
     (_, r) \<leftarrow> memset (unat b) 0xcc (dblock_size d) (ram (pages s));
     let s = set_free_list k (b # free_list d) (set_ram r s);
     let h = arenas s a;
     let s = set_arena a (h\<lparr>free_cnt := free_cnt h + 1\<rparr>) s;
     if free_cnt h + 1 \<ge> blocks_per_arena d then do {
       ASSERT (free_cnt h + 1 = blocks_per_arena d);
       s \<leftarrow> unlink_loop k a 0 (blocks_per_arena d) s;
       m \<leftarrow> palloc_free_page a (pages s);
       Some (forget_arenas a 1 (s\<lparr>pages := m\<rparr>)) }
     else Some s }"

definition free :: "u32 \<Rightarrow> mheap \<Rightarrow> mheap option" where
  "free p s =
     (if p \<noteq> 0 then do {
        a \<leftarrow> block_to_arena p s;
        case adesc (arenas s a) of
          Some k \<Rightarrow> free_small k a p s
        | None \<Rightarrow> do {
            m \<leftarrow> palloc_free_multiple a (free_cnt (arenas s a)) (pages s);
            Some (forget_arenas a (free_cnt (arenas s a)) (s\<lparr>pages := m\<rparr>)) } }
      else Some s)"

definition realloc :: "u32 \<Rightarrow> u32 \<Rightarrow> mheap \<Rightarrow> (u32 \<times> mheap) option" where
  "realloc old_block new_size s =
     (if new_size = 0 then do { s \<leftarrow> free old_block s; Some (0, s) }
      else do {
        (new_block, s) \<leftarrow> malloc new_size s;
        if old_block \<noteq> 0 \<and> new_block \<noteq> 0 then do {
          old_size \<leftarrow> block_size_of old_block s;
          let min_size = (if new_size < old_size then new_size else old_size);
          (_, r) \<leftarrow> memcpy (unat new_block) (unat old_block) (unat min_size) (ram (pages s));
          s \<leftarrow> free old_block (set_ram r s);
          Some (new_block, s) }
        else Some (new_block, s) })"

end
