(* ===== verification/MallocFacts.thy ===== *)
theory MallocFacts
  imports Malloc
begin

text \<open>
  The invariant of \<^verbatim>\<open>malloc\<close> and what every operation does to it. \<open>K\<close> says which pages are arenas and
  of which kind, \<open>live\<close> which blocks are allocated and how many bytes they have; both are ghosts.
\<close>

section \<open>Addresses\<close>

lemma unat_pg_round_down: "unat (pg_round_down v) = unat v - unat v mod 4096"
proof -
  have e: "pg_round_down v = v - pg_ofs v" proof -
    have "v AND NOT PGMASK = v AND NOT (v AND PGMASK)" by (rule bit_word_eqI) (auto simp: bit_and_iff bit_not_iff bit_or_iff)
    also have "\<dots> = v - (v AND PGMASK)"
      by (rule disjunctive_diff_eq_and_not [symmetric]) (auto intro!: bit_word_eqI simp: bit_and_iff bit_not_iff)
    finally show ?thesis by (simp add: pg_round_down_def pg_ofs_def)
  qed
  have "pg_ofs v \<le> v" by (simp add: word_le_nat_alt unat_pg_ofs)
  then show ?thesis unfolding e by (simp add: unat_sub word_le_nat_alt unat_pg_ofs)
qed

lemma page_plus:
  assumes "pg_ofs a = 0" "n < 4096"
  shows "unat (a + of_nat n) = unat a + n" "pg_round_down (a + of_nat n) = a" "pg_ofs (a + of_nat n) = of_nat n"
proof -
  obtain q where q: "unat a = 4096 * q" using assms(1) by (auto simp: pg_ofs_dvd elim: dvdE)
  have "unat a < 2 ^ 32" using unsigned_less [of a] by simp
  then have "q < 1048576" by (simp add: q)
  then have "unat a + n < 2 ^ 32" using assms(2) by (simp add: q)
  moreover have n: "unat (of_nat n :: u32) = n" by (rule of_nat_inverse [OF refl]) (use assms(2) in simp)
  ultimately show u: "unat (a + of_nat n) = unat a + n" using unat_add_lem [of a "of_nat n"] by simp
  show "pg_round_down (a + of_nat n) = a"
    unfolding word_unat_eq_iff unat_pg_round_down u using assms(2) by (simp add: q)
  show "pg_ofs (a + of_nat n) = of_nat n"
    unfolding word_unat_eq_iff unat_pg_ofs u using assms(2) by (simp add: q n)
qed

lemma runs_disjoint:
  assumes "pg_ofs a = 0" "pg_ofs b = 0" "page_run (unat a) n \<inter> page_run (unat b) m = {}"
  shows "{unat a..<unat a + PGSIZE * n} \<inter> {unat b..<unat b + PGSIZE * m} = {}"
proof (rule equals0I)
  fix x assume x: "x \<in> {unat a..<unat a + PGSIZE * n} \<inter> {unat b..<unat b + PGSIZE * m}"
  obtain q where q: "unat a = 4096 * q" using assms(1) by (auto simp: pg_ofs_dvd elim: dvdE)
  obtain r where r: "unat b = 4096 * r" using assms(2) by (auto simp: pg_ofs_dvd elim: dvdE)
  let ?p = "x div 4096"
  have i: "q \<le> ?p" "?p < q + n" "r \<le> ?p" "?p < r + m" using x by (auto simp: q r PGSIZE_def less_mult_imp_div_less div_le_mono)
  have "4096 * ?p \<in> page_run (unat a) n" unfolding page_run_def q PGSIZE_def
    using i by (auto intro!: exI [of _ "?p - q"] simp: algebra_simps)
  moreover have "4096 * ?p \<in> page_run (unat b) m" unfolding page_run_def r PGSIZE_def
    using i by (auto intro!: exI [of _ "?p - r"] simp: algebra_simps)
  ultimately show False using assms(3) by blast
qed

section \<open>Descriptors\<close>

definition bsz :: "nat \<Rightarrow> nat" where "bsz k = 16 * 2 ^ k"
definition bpa :: "nat \<Rightarrow> nat" where "bpa k = 4084 div bsz k"

definition descs_ok :: "desc list \<Rightarrow> bool" where
  "descs_ok ds \<longleftrightarrow> length ds = 7 \<and> (\<forall>k < 7. dblock_size (ds ! k) = bsz k \<and> blocks_per_arena (ds ! k) = bpa k)"

lemma bsz_pos [simp]: "0 < bsz k"
  by (simp add: bsz_def)

lemma kind_cases: "k < 7 \<Longrightarrow> k = 0 \<or> k = 1 \<or> k = 2 \<or> k = 3 \<or> k = 4 \<or> k = 5 \<or> k = (6::nat)"
  by presburger

lemma all7: "(\<forall>k < 7. P k) \<longleftrightarrow> P 0 \<and> P 1 \<and> P 2 \<and> P 3 \<and> P 4 \<and> P 5 \<and> P (6 :: nat)"
  using kind_cases by auto

lemma bpa_pos: "k < 7 \<Longrightarrow> 1 < bpa k"
  by (drule kind_cases) (auto simp: bpa_def bsz_def)

lemma bsz_le: "k < 7 \<Longrightarrow> bsz k \<le> 1024"
  by (drule kind_cases) (auto simp: bsz_def)

text \<open>Initialisation makes seven descriptors, for blocks of 16 to 1024 bytes.\<close>

lemma malloc_init_ok:
  assumes "descs s = []"
  shows "\<exists>ds. malloc_init s = Some (s\<lparr>descs := ds\<rparr>) \<and> descs_ok ds \<and> (\<forall>k < 7. free_list (ds ! k) = [])"
proof -
  have "\<exists>ds. desc_loop 16 [] = Some ds \<and> descs_ok ds \<and> (\<forall>k < 7. free_list (ds ! k) = [])"
    by (simp add: desc_loop.simps PGSIZE_def SIZEOF_ARENA_def descs_ok_def bsz_def bpa_def all7)
  then show ?thesis using assms by (auto simp: malloc_init_def)
qed

lemma find_desc_Some:
  "find_desc ds i sz = Some k \<Longrightarrow>
     i \<le> k \<and> k - i < length ds \<and> sz \<le> dblock_size (ds ! (k - i)) \<and> (\<forall>j < k - i. dblock_size (ds ! j) < sz)"
proof (induction ds arbitrary: i)
  case (Cons d ds)
  show ?case
  proof (cases "dblock_size d \<ge> sz")
    case False
    then have n: "i + 1 \<le> k" "k - (i + 1) < length ds" "sz \<le> dblock_size (ds ! (k - (i + 1)))" "\<forall>j < k - (i + 1). dblock_size (ds ! j) < sz"
      using Cons.IH [of "i + 1"] Cons.prems by auto
    then have "k - i = Suc (k - (i + 1))" by simp
    then show ?thesis using n False by (auto simp: less_Suc_eq_0_disj)
  qed (use Cons.prems in auto)
qed simp

lemma find_desc_None: "find_desc ds i sz = None \<Longrightarrow> d \<in> set ds \<Longrightarrow> dblock_size d < sz"
  by (induction ds arbitrary: i) (auto split: if_splits)

lemma find_desc_ok:
  assumes "descs_ok ds"
  shows "(\<exists>k < 7. find_desc ds 0 sz = Some k \<and> sz \<le> bsz k \<and> (\<forall>j < k. bsz j < sz)) \<or> (find_desc ds 0 sz = None \<and> 1024 < sz)"
proof (cases "find_desc ds 0 sz")
  case None
  have "ds ! 6 \<in> set ds" using assms by (simp add: descs_ok_def)
  from find_desc_None [OF None this] assms show ?thesis using None by (simp add: descs_ok_def bsz_def)
next
  case (Some k)
  from find_desc_Some [OF this] assms show ?thesis using Some by (auto simp: descs_ok_def)
qed

text \<open>The block of index \<open>i\<close> in an arena.\<close>

definition blk :: "u32 \<Rightarrow> nat \<Rightarrow> nat \<Rightarrow> u32" where
  "blk a k i = a + of_nat (12 + i * bsz k)"

lemma blk_end:
  assumes "i < bpa k"
  shows "12 + i * bsz k + bsz k \<le> 4096"
proof -
  have "Suc i * bsz k \<le> bpa k * bsz k" using assms by (intro mult_right_mono) auto
  also have "\<dots> \<le> 4084" by (simp add: bpa_def)
  finally show ?thesis by simp
qed

lemma blk_addr:
  assumes "pg_ofs a = 0" "i < bpa k"
  shows "unat (blk a k i) = unat a + 12 + i * bsz k" "pg_round_down (blk a k i) = a" "pg_ofs (blk a k i) = of_nat (12 + i * bsz k)"
    "blk a k i \<noteq> 0"
proof -
  have "12 + i * bsz k < 4096" using blk_end [OF assms(2)] bsz_pos [of k] by linarith
  note p = page_plus [OF assms(1) this]
  show u: "unat (blk a k i) = unat a + 12 + i * bsz k" using p(1) by (simp add: blk_def)
  show "pg_round_down (blk a k i) = a" "pg_ofs (blk a k i) = of_nat (12 + i * bsz k)" using p(2,3) by (simp_all add: blk_def)
  show "blk a k i \<noteq> 0" using u by auto
qed

lemma blk_inj:
  assumes "pg_ofs a = 0" "i < bpa k" "j < bpa k" "blk a k i = blk a k j"
  shows "i = j"
proof -
  have "i * bsz k = j * bsz k" using blk_addr(1) [OF assms(1,2)] blk_addr(1) [OF assms(1,3)] unfolding assms(4) by linarith
  then show ?thesis using bsz_pos [of k] by (metis mult_cancel2 less_numeral_extra(3))
qed


section \<open>The invariant\<close>

datatype kind = Small nat | Big nat

fun npages :: "kind \<Rightarrow> nat" where
  "npages (Small k) = 1"
| "npages (Big n) = n"

abbreviation fl :: "mheap \<Rightarrow> nat \<Rightarrow> u32 list" where
  "fl s k \<equiv> free_list (descs s ! k)"

definition arenas_ok :: "mheap \<Rightarrow> (u32 \<Rightarrow> kind option) \<Rightarrow> bool" where
  "arenas_ok s K \<longleftrightarrow>
     (\<forall>a x. K a = Some x \<longrightarrow> pg_ofs a = 0 \<and> a \<noteq> 0 \<and> 0 < npages x \<and> page_run (unat a) (npages x) \<subseteq> used (kernel_pool (pages s))) \<and>
     (\<forall>a b x y. K a = Some x \<and> K b = Some y \<and> a \<noteq> b \<longrightarrow> page_run (unat a) (npages x) \<inter> page_run (unat b) (npages y) = {})"

definition avail :: "(u32 \<Rightarrow> nat option) \<Rightarrow> u32 \<Rightarrow> nat \<Rightarrow> nat set" where
  "avail live a k = {i. i < bpa k \<and> live (blk a k i) = None}"

fun header_of :: "(u32 \<Rightarrow> nat option) \<Rightarrow> u32 \<Rightarrow> kind \<Rightarrow> arena" where
  "header_of live a (Small k) = \<lparr>magic = ARENA_MAGIC, adesc = Some k, free_cnt = card (avail live a k)\<rparr>"
| "header_of live a (Big n) = \<lparr>magic = ARENA_MAGIC, adesc = None, free_cnt = n\<rparr>"

definition headers_ok :: "mheap \<Rightarrow> (u32 \<Rightarrow> kind option) \<Rightarrow> (u32 \<Rightarrow> nat option) \<Rightarrow> bool" where
  "headers_ok s K live \<longleftrightarrow> (\<forall>a x. K a = Some x \<longrightarrow> arenas s a = header_of live a x \<and> (\<forall>k. x = Small k \<longrightarrow> k < 7))"

definition lists_ok :: "mheap \<Rightarrow> (u32 \<Rightarrow> kind option) \<Rightarrow> (u32 \<Rightarrow> nat option) \<Rightarrow> bool" where
  "lists_ok s K live \<longleftrightarrow> (\<forall>k < 7. distinct (fl s k) \<and>
     set (fl s k) = {blk a k i | a i. K a = Some (Small k) \<and> i \<in> avail live a k})"

definition live_ok :: "(u32 \<Rightarrow> kind option) \<Rightarrow> (u32 \<Rightarrow> nat option) \<Rightarrow> bool" where
  "live_ok K live \<longleftrightarrow>
     (\<forall>p c. live p = Some c \<longrightarrow> (\<exists>a k i. K a = Some (Small k) \<and> i < bpa k \<and> p = blk a k i \<and> c = bsz k) \<or>
       (\<exists>a n. K a = Some (Big n) \<and> p = a + 12 \<and> c = PGSIZE * n - 12)) \<and>
     (\<forall>a n. K a = Some (Big n) \<longrightarrow> live (a + 12) = Some (PGSIZE * n - 12))"

definition heap_inv :: "mheap \<Rightarrow> (u32 \<Rightarrow> kind option) \<Rightarrow> (u32 \<Rightarrow> nat option) \<Rightarrow> bool" where
  "heap_inv s K live \<longleftrightarrow> machine_ok (pages s) \<and> descs_ok (descs s) \<and> arenas_ok s K \<and> headers_ok s K live \<and>
     lists_ok s K live \<and> live_ok K live"

lemmas heap_inv_defs = heap_inv_def arenas_ok_def headers_ok_def lists_ok_def live_ok_def

text \<open>No arena is kept without an allocated block.\<close>

definition no_idle :: "(u32 \<Rightarrow> kind option) \<Rightarrow> (u32 \<Rightarrow> nat option) \<Rightarrow> bool" where
  "no_idle K live \<longleftrightarrow> (\<forall>a k. K a = Some (Small k) \<longrightarrow> (\<exists>i < bpa k. live (blk a k i) \<noteq> None))"

definition block_bytes :: "u32 \<Rightarrow> nat \<Rightarrow> nat set" where
  "block_bytes p c = {unat p..<unat p + c}"

lemma heap_invD:
  assumes "heap_inv s K live"
  shows "machine_ok (pages s)" "descs_ok (descs s)" "live_ok K live"
    "\<And>a x. K a = Some x \<Longrightarrow> pg_ofs a = 0 \<and> a \<noteq> 0 \<and> 0 < npages x \<and> page_run (unat a) (npages x) \<subseteq> used (kernel_pool (pages s))"
    "\<And>a b x y. K a = Some x \<Longrightarrow> K b = Some y \<Longrightarrow> a \<noteq> b \<Longrightarrow> page_run (unat a) (npages x) \<inter> page_run (unat b) (npages y) = {}"
    "\<And>a x. K a = Some x \<Longrightarrow> arenas s a = header_of live a x"
    "\<And>a k. K a = Some (Small k) \<Longrightarrow> k < 7"
    "\<And>k. k < 7 \<Longrightarrow> distinct (fl s k)"
    "\<And>k. k < 7 \<Longrightarrow> set (fl s k) = {blk a k i | a i. K a = Some (Small k) \<and> i \<in> avail live a k}"
proof -
  have h: "machine_ok (pages s)" "descs_ok (descs s)" "live_ok K live" "arenas_ok s K" "headers_ok s K live" "lists_ok s K live"
    using assms by (simp_all add: heap_inv_def)
  show "machine_ok (pages s)" "descs_ok (descs s)" "live_ok K live" by fact+
  show "pg_ofs a = 0 \<and> a \<noteq> 0 \<and> 0 < npages x \<and> page_run (unat a) (npages x) \<subseteq> used (kernel_pool (pages s))" if "K a = Some x" for a x
    using h(4) that unfolding arenas_ok_def by blast
  show "page_run (unat a) (npages x) \<inter> page_run (unat b) (npages y) = {}" if "K a = Some x" "K b = Some y" "a \<noteq> b" for a b x y
    using h(4) that unfolding arenas_ok_def by blast
  show "arenas s a = header_of live a x" if "K a = Some x" for a x using h(5) that unfolding headers_ok_def by blast
  show "k < 7" if "K a = Some (Small k)" for a k using h(5) that unfolding headers_ok_def by blast
  show "distinct (fl s k)" if "k < 7" for k using h(6) that unfolding lists_ok_def by blast
  show "set (fl s k) = {blk a k i | a i. K a = Some (Small k) \<and> i \<in> avail live a k}" if "k < 7" for k
    using h(6) that unfolding lists_ok_def by blast
qed

lemma live_cases:
  assumes "heap_inv s K live" "live p = Some c"
  obtains a k i where "K a = Some (Small k)" "i < bpa k" "p = blk a k i" "c = bsz k"
  | a n where "K a = Some (Big n)" "p = a + 12" "c = PGSIZE * n - 12"
  using assms unfolding heap_inv_def live_ok_def by metis

lemma big_addr:
  assumes "pg_ofs a = 0"
  shows "unat (a + 12) = unat a + 12" "pg_round_down (a + 12) = a" "pg_ofs (a + 12) = 12"
  using page_plus [OF assms, of 12] by simp_all

text \<open>An allocated block lies in its arena, behind the header.\<close>

lemma live_inside:
  assumes inv: "heap_inv s K live" and l: "live p = Some c"
  shows "\<exists>x. K (pg_round_down p) = Some x \<and> block_bytes p c \<subseteq> {unat (pg_round_down p) + 12..<unat (pg_round_down p) + PGSIZE * npages x}"
  using inv l
proof (cases rule: live_cases)
  case (1 a k i)
  note a = heap_invD(4) [OF inv 1(1)]
  note b = blk_addr [OF _ 1(2), of a]
  show ?thesis using a b 1 blk_end [OF 1(2)] by (auto simp: block_bytes_def PGSIZE_def)
next
  case (2 a n)
  note a = heap_invD(4) [OF inv 2(1)]
  show ?thesis using a 2 big_addr [of a] by (auto simp: block_bytes_def PGSIZE_def)
qed

lemma live_in_pages:
  assumes "heap_inv s K live" "live p = Some c"
  obtains x where "K (pg_round_down p) = Some x"
    "block_bytes p c \<subseteq> {unat (pg_round_down p)..<unat (pg_round_down p) + PGSIZE * npages x}"
  using live_inside [OF assms] by (meson add_leE atLeastLessThan_iff le_add1 subsetD subsetI)

lemma small_unique:
  assumes inv: "heap_inv s K live" and K: "K a = Some (Small k)" "K a' = Some (Small k')"
    and i: "i < bpa k" "j < bpa k'" and e: "blk a k i = blk a' k' j"
  shows "a = a' \<and> k = k' \<and> i = j"
proof -
  have o: "pg_ofs a = 0" "pg_ofs a' = 0" using heap_invD(4) [OF inv] K by blast+
  have a: "a = a'" using blk_addr(2) [OF o(1) i(1)] blk_addr(2) [OF o(2) i(2)] e by simp
  with K have k: "k = k'" by simp
  show ?thesis using a k blk_inj [OF o(1) i(1), of j] i(2) e by simp
qed

text \<open>Allocated blocks do not overlap.\<close>

lemma live_disjoint:
  assumes inv: "heap_inv s K live" and p: "live p = Some c" and q: "live q = Some d" and n: "p \<noteq> q"
  shows "block_bytes p c \<inter> block_bytes q d = {}"
proof (cases "pg_round_down p = pg_round_down q")
  case False
  obtain x where x: "K (pg_round_down p) = Some x"
    "block_bytes p c \<subseteq> {unat (pg_round_down p)..<unat (pg_round_down p) + PGSIZE * npages x}"
    using live_in_pages [OF inv p] by blast
  obtain y where y: "K (pg_round_down q) = Some y"
    "block_bytes q d \<subseteq> {unat (pg_round_down q)..<unat (pg_round_down q) + PGSIZE * npages y}"
    using live_in_pages [OF inv q] by blast
  show ?thesis
    using runs_disjoint [OF _ _ heap_invD(5) [OF inv x(1) y(1) False]] heap_invD(4) [OF inv x(1)] heap_invD(4) [OF inv y(1)] x(2) y(2)
    by blast
next
  case True
  from inv p show ?thesis
  proof (cases rule: live_cases)
    case (1 a k i)
    have a: "pg_ofs a = 0" using heap_invD(4) [OF inv 1(1)] by simp
    have ra: "pg_round_down q = a" using True 1(3) blk_addr(2) [OF a 1(2)] by simp
    from inv q show ?thesis
    proof (cases rule: live_cases)
      case j: (1 a' k' j)
      have "pg_ofs a' = 0" using heap_invD(4) [OF inv j(1)] by simp
      then have e: "a' = a" "k' = k" using ra j 1(1) blk_addr(2) [of a' j k'] by simp_all
      then have "i \<noteq> j" using n 1(3) j(3) by auto
      then have "i < j \<or> j < i" by linarith
      then have "Suc i * bsz k \<le> j * bsz k \<or> Suc j * bsz k \<le> i * bsz k" by (metis Suc_leI mult_le_mono1)
      then show ?thesis using 1 j e blk_addr(1) [OF a 1(2)] blk_addr(1) [of a j k] a by (auto simp: block_bytes_def)
    next
      case (2 a' n)
      then show ?thesis using ra big_addr(2) [of a'] heap_invD(4) [OF inv 2(1)] 1(1) by auto
    qed
  next
    case (2 a n)
    have ra: "pg_round_down q = a" using True 2 big_addr(2) [of a] heap_invD(4) [OF inv 2(1)] by simp
    from inv q show ?thesis
    proof (cases rule: live_cases)
      case j: (1 a' k' j)
      have "pg_ofs a' = 0" using heap_invD(4) [OF inv j(1)] by simp
      then show ?thesis using ra j 2(1) blk_addr(2) [of a' j k'] by simp
    next
      case (2 a' n')
      then show ?thesis using ra big_addr(2) [of a'] heap_invD(4) [OF inv 2(1)] n \<open>p = a + 12\<close> by auto
    qed
  qed
qed


section \<open>Taking a block\<close>

lemma fl_set [simp]:
  "k < length (descs s) \<Longrightarrow> fl (set_free_list k bs s) j = (if j = k then bs else fl s j)"
  "arenas (set_free_list k bs s) = arenas s" "pages (set_free_list k bs s) = pages s"
  "length (descs (set_free_list k bs s)) = length (descs s)"
  by (simp_all add: set_free_list_def)

lemma arena_set [simp]:
  "descs (set_arena a x s) = descs s" "arenas (set_arena a x s) = (arenas s)(a := x)" "pages (set_arena a x s) = pages s"
  by (simp_all add: set_arena_def)

lemma ram_set [simp]:
  "descs (set_ram r s) = descs s" "arenas (set_ram r s) = arenas s" "pages (set_ram r s) = (pages s)\<lparr>ram := r\<rparr>"
  by (simp_all add: set_ram_def)

lemma forget_set [simp]:
  "descs (forget_arenas a n s) = descs s" "pages (forget_arenas a n s) = pages s"
  by (simp_all add: forget_arenas_def)

lemma descs_ok_set: "descs_ok (descs s) \<Longrightarrow> k < 7 \<Longrightarrow> descs_ok (descs (set_free_list k bs s))"
  by (auto simp: descs_ok_def set_free_list_def nth_list_update)

lemma descs_len: "descs_ok ds \<Longrightarrow> length ds = 7"
  by (simp add: descs_ok_def)

lemma descs_at: "descs_ok ds \<Longrightarrow> k < 7 \<Longrightarrow> dblock_size (ds ! k) = bsz k \<and> blocks_per_arena (ds ! k) = bpa k"
  by (simp add: descs_ok_def)

lemma index_aligned:
  assumes "i < bpa k"
  shows "(of_nat (12 + i * bsz k) - of_nat SIZEOF_ARENA) mod (of_nat (bsz k) :: u32) = 0"
proof -
  have b: "i * bsz k < 4096" "bsz k < 4096" using blk_end [OF assms] bsz_pos [of k] by linarith+
  have u: "unat (of_nat (i * bsz k) :: u32) = i * bsz k" "unat (of_nat (bsz k) :: u32) = bsz k"
    by (rule of_nat_inverse [OF refl], use b in simp)+
  have "unat (of_nat (i * bsz k) mod (of_nat (bsz k) :: u32)) = 0" by (simp only: unat_mod u mod_mult_self2_is_0)
  then show ?thesis by (simp add: SIZEOF_ARENA_def unat_eq_zero)
qed

lemma block_to_arena_small:
  assumes "pg_ofs a = 0" "a \<noteq> 0" "i < bpa k" "k < 7" "descs_ok (descs s)"
    "magic (arenas s a) = ARENA_MAGIC" "adesc (arenas s a) = Some k"
  shows "block_to_arena (blk a k i) s = Some a"
  using assms blk_addr [OF assms(1,3)] index_aligned [OF assms(3)] descs_at [OF assms(5,4)]
  by (simp add: block_to_arena_def)

lemma block_to_arena_big:
  assumes "pg_ofs a = 0" "a \<noteq> 0" "magic (arenas s a) = ARENA_MAGIC" "adesc (arenas s a) = None"
  shows "block_to_arena (a + 12) s = Some a"
  using assms big_addr [OF assms(1)] by (simp add: block_to_arena_def SIZEOF_ARENA_def)

lemma arena_to_block_ok:
  assumes "a \<noteq> 0" "i < bpa k" "k < 7" "descs_ok (descs s)" "magic (arenas s a) = ARENA_MAGIC" "adesc (arenas s a) = Some k"
  shows "arena_to_block a i s = Some (blk a k i)"
  using assms descs_at [OF assms(4,3)] by (simp add: arena_to_block_def blk_def SIZEOF_ARENA_def)

text \<open>How one allocation changes the available blocks.\<close>

lemma avail_upd:
  assumes K: "K a = Some (Small k)" "K a' = Some (Small k')" and i: "i < bpa k" and inv: "heap_inv s K live"
  shows "avail (live(blk a k i := v)) a' k' =
    (if a' = a then (if v = None then insert i (avail live a k) else avail live a k - {i}) else avail live a' k')"
proof -
  have e: "blk a' k' j = blk a k i \<longleftrightarrow> a' = a \<and> j = i" if "j < bpa k'" for j
    using small_unique [OF inv K(2,1) that i] K by auto
  show ?thesis
  proof (cases "a' = a")
    case True
    with K have k: "k' = k" by simp
    show ?thesis using i e unfolding True k by (cases v) (auto simp: avail_def)
  next
    case False
    then show ?thesis using e by (auto simp: avail_def)
  qed
qed

lemma header_upd:
  assumes "K a = Some (Small k)" "K a' = Some x" "i < bpa k" "heap_inv s K live" "a' \<noteq> a"
  shows "header_of (live(blk a k i := v)) a' x = header_of live a' x"
  using assms avail_upd [OF assms(1) _ assms(3,4)] by (cases x) auto

lemma avail_other:
  assumes "\<And>i. i < bpa k \<Longrightarrow> blk a k i \<noteq> p"
  shows "avail (live(p := v)) a k = avail live a k"
  using assms by (auto simp: avail_def)

lemma finite_avail [simp]: "finite (avail live a k)"
  by (simp add: avail_def)

lemma blk_not_big:
  assumes inv: "heap_inv s K live" and K: "K a = Some (Small k)" "K a' = Some (Big n)" and i: "i < bpa k"
  shows "blk a k i \<noteq> a' + 12"
proof
  assume e: "blk a k i = a' + 12"
  have "a = a'" using blk_addr(2) [of a i k] big_addr(2) [of a'] heap_invD(4) [OF inv K(1)] heap_invD(4) [OF inv K(2)] i e by metis
  with K show False by simp
qed

lemma live_ok_take:
  assumes inv: "heap_inv s K live" and K: "K a = Some (Small k)" and i: "i < bpa k"
  shows "live_ok K (live(blk a k i \<mapsto> bsz k))"
  using assms blk_not_big [OF inv K] unfolding heap_inv_def live_ok_def by (auto simp: fun_upd_def) metis+

lemma take_ok:
  assumes inv: "heap_inv s K live" and k: "k < 7" and ne: "fl s k \<noteq> []"
  obtains a i s' where "take_block k s = Some (blk a k i, s')" "blk a k i = hd (fl s k)" "K a = Some (Small k)" "i < bpa k"
    "live (blk a k i) = None" "heap_inv s' K (live(blk a k i \<mapsto> bsz k))" "pages s' = pages s"
proof -
  note d = heap_invD(2) [OF inv]
  have len: "length (descs s) = 7" by (rule descs_len [OF d])
  have "hd (fl s k) \<in> set (fl s k)" using ne by simp
  then obtain a i where K: "K a = Some (Small k)" and i: "i \<in> avail live a k" and b: "blk a k i = hd (fl s k)"
    using heap_invD(9) [OF inv k] by auto
  have ib: "i < bpa k" and l: "live (blk a k i) = None" using i by (simp_all add: avail_def)
  have a: "pg_ofs a = 0" "a \<noteq> 0" using heap_invD(4) [OF inv K] by auto
  have h: "arenas s a = \<lparr>magic = ARENA_MAGIC, adesc = Some k, free_cnt = card (avail live a k)\<rparr>"
    using heap_invD(6) [OF inv K] by simp
  let ?s = "set_free_list k (tl (fl s k)) s"
  let ?s' = "set_arena a ((arenas s a)\<lparr>free_cnt := free_cnt (arenas s a) - 1\<rparr>) ?s"
  let ?l = "live(blk a k i \<mapsto> bsz k)"
  have t: "take_block k s = Some (blk a k i, ?s')"
    using ne block_to_arena_small [OF a ib k descs_ok_set [OF d k, of "tl (fl s k)"]] h b
    by (simp add: take_block_def Let_def)
  have av: "avail ?l a' k' = (if a' = a then avail live a k - {i} else avail live a' k')" if "K a' = Some (Small k')" for a' k'
    using avail_upd [OF K that ib inv, of "Some (bsz k)"] by simp
  have "headers_ok ?s' K ?l"
    using heap_invD(6,7) [OF inv] K i header_upd [OF K _ ib inv] av [OF K] unfolding headers_ok_def
    by (auto simp: h card_Diff_singleton)
  moreover have "lists_ok ?s' K ?l"
    unfolding lists_ok_def
  proof (intro allI impI)
    fix k' :: nat assume k': "k' < 7"
    have e: "{blk a k' i | a i. K a = Some (Small k') \<and> i \<in> avail ?l a k'} =
        {blk a k' i | a i. K a = Some (Small k') \<and> i \<in> avail live a k'} - {blk a k i}"
      using small_unique [OF inv _ K _ ib] K by (auto simp: avail_def) 
    show "distinct (fl ?s' k') \<and> set (fl ?s' k') = {blk a k' i | a i. K a = Some (Small k') \<and> i \<in> avail ?l a k'}"
    proof (cases "k' = k")
      case True
      have "distinct (hd (fl s k) # tl (fl s k))" using ne heap_invD(8) [OF inv k] by simp
      moreover have "set (fl s k) = insert (hd (fl s k)) (set (tl (fl s k)))" using ne by (metis list.collapse list.simps(15))
      ultimately show ?thesis unfolding e unfolding True using heap_invD(9) [OF inv k] len k by (auto simp: b)
    next
      case False
      have "blk a k i \<notin> set (fl s k')" using heap_invD(9) [OF inv k'] small_unique [OF inv K _ ib] False by (auto simp: avail_def)
      then show ?thesis unfolding e using heap_invD(8,9) [OF inv k'] False len k by auto
    qed
  qed
  moreover have "arenas_ok ?s' K" using inv by (simp add: heap_inv_def arenas_ok_def)
  ultimately have "heap_inv ?s' K ?l"
    using live_ok_take [OF inv K ib] heap_invD(1) [OF inv] descs_ok_set [OF d k] by (simp add: heap_inv_def)
  with t b K ib l show ?thesis using that by simp
qed


section \<open>New arenas\<close>

lemma used_sub: "used pl \<subseteq> pool_pages pl"
  by (auto simp: used_def pool_pages_def)

lemma kernel_get:
  assumes ok: "machine_ok m" and cnt: "0 < cnt" and g: "palloc_get_multiple 0 cnt m = Some (p, m')"
  shows "machine_ok m'" "p = 0 \<Longrightarrow> m' = m"
    "p \<noteq> 0 \<Longrightarrow> pg_ofs p = 0 \<and> page_run (unat p) cnt \<subseteq> used (kernel_pool m') \<and> page_run (unat p) cnt \<inter> in_use m = {} \<and>
       used (kernel_pool m) \<subseteq> used (kernel_pool m') \<and> ram m' = ram m"
proof -
  note r = palloc_get_ok [OF ok cnt g]
  show m': "machine_ok m'" "p = 0 \<Longrightarrow> m' = m" using r by simp_all
  assume p: "p \<noteq> 0"
  have u: "user_pool m' = user_pool m"
    using g cnt by (auto simp: palloc_get_multiple_def Let_def set_pool_def split: if_splits Option.bind_splits)
  have i: "in_use m' = in_use m \<union> page_run (unat p) cnt" "page_run (unat p) cnt \<inter> in_use m = {}" using r p by simp_all
  have d: "used (kernel_pool m) \<inter> used (user_pool m) = {}" using ok used_sub unfolding machine_ok_def by blast
  have "page_run (unat p) cnt \<subseteq> used (kernel_pool m')" "used (kernel_pool m) \<subseteq> used (kernel_pool m')"
    using i d unfolding in_use_def u by blast+
  with r p i show "pg_ofs p = 0 \<and> page_run (unat p) cnt \<subseteq> used (kernel_pool m') \<and> page_run (unat p) cnt \<inter> in_use m = {} \<and>
       used (kernel_pool m) \<subseteq> used (kernel_pool m') \<and> ram m' = ram m"
    by (simp add: fun_eq_iff)
qed

lemma kernel_full:
  assumes ok: "machine_ok m" and g: "palloc_get_multiple 0 1 m = Some (0, m')"
  shows "pool_pages (kernel_pool m) \<subseteq> used (kernel_pool m)"
proof (rule ccontr)
  let ?k = "kernel_pool m"
  assume "\<not> pool_pages ?k \<subseteq> used ?k"
  then obtain i where i: "i < bit_cnt (used_map ?k)" "\<not> bmap (used_map ?k) i" by (auto simp: pool_pages_def used_def)
  have k: "pool_ok ?k" using ok by (simp add: machine_ok_def)
  have gr: "\<exists>j \<ge> 0. bgroup (used_map ?k) j 1 False" using i by (auto simp: bgroup_def intro!: exI [of _ i])
  obtain j um where s: "bitmap_scan_and_flip (used_map ?k) 0 1 False = Some (j, um)" "j \<noteq> BITMAP_ERROR" "bgroup (used_map ?k) j 1 False"
    using scan_and_flip_bmap [of "used_map ?k" 0 1 False] k gr by (auto simp: pool_ok_def split: if_splits)
  have "unat (pbase ?k + of_nat (PGSIZE * j)) = unat (pbase ?k) + PGSIZE * j" by (rule pool_addr [OF k]) (use s(3) in \<open>simp add: bgroup_def\<close>)
  then have "pbase ?k + of_nat (PGSIZE * j) \<noteq> 0" using k by (metis add_is_0 pool_ok_def unat_eq_zero)
  then show False using g s(1,2) by (simp add: palloc_get_multiple_def Let_def the_pool_def)
qed

lemma in_run: "0 < n \<Longrightarrow> a \<in> page_run a n"
  by (auto simp: page_run_def intro!: exI [of _ "0 :: nat"])

lemma fresh_page:
  assumes inv: "heap_inv s K live" and f: "page_run (unat a) n \<inter> in_use (pages s) = {}" "0 < n"
  shows "K a = None" "\<And>b x. K b = Some x \<Longrightarrow> page_run (unat b) (npages x) \<inter> page_run (unat a) n = {}"
proof -
  show d: "page_run (unat b) (npages x) \<inter> page_run (unat a) n = {}" if "K b = Some x" for b x
    using heap_invD(4) [OF inv that] f by (auto simp: in_use_def)
  show "K a = None"
  proof (cases "K a")
    case (Some x)
    then show ?thesis using d [OF Some] in_run [OF f(2), of "unat a"] in_run [of "npages x" "unat a"] heap_invD(4) [OF inv Some] by auto
  qed
qed

text \<open>Where there is no arena there is no block.\<close>

lemma not_live:
  assumes inv: "heap_inv s K live" and K: "K (pg_round_down p) = None"
  shows "live p = None"
  using live_inside [OF inv, of p] K by (cases "live p") auto

lemma arenas_ok_new:
  assumes inv: "heap_inv s K live" and x: "pg_ofs a = 0" "a \<noteq> 0" "0 < npages x"
    and r: "page_run (unat a) (npages x) \<subseteq> used (kernel_pool (pages s'))" "page_run (unat a) (npages x) \<inter> in_use (pages s) = {}"
    and u: "used (kernel_pool (pages s)) \<subseteq> used (kernel_pool (pages s'))"
  shows "arenas_ok s' (K(a \<mapsto> x))"
  unfolding arenas_ok_def
proof (intro conjI allI impI)
  fix b y assume "(K(a \<mapsto> x)) b = Some y"
  then show "pg_ofs b = 0" "b \<noteq> 0" "0 < npages y" "page_run (unat b) (npages y) \<subseteq> used (kernel_pool (pages s'))"
    using x r(1) u heap_invD(4) [OF inv, of b y] by (auto split: if_splits)
next
  fix b c y z assume h: "(K(a \<mapsto> x)) b = Some y \<and> (K(a \<mapsto> x)) c = Some z \<and> b \<noteq> c"
  note d = fresh_page(2) [OF inv r(2) x(3)]
  show "page_run (unat b) (npages y) \<inter> page_run (unat c) (npages z) = {}"
    using h d [of b y] d [of c z] heap_invD(5) [OF inv, of b y c z] by (auto split: if_splits)
qed

lemma fill_loop_ok:
  assumes "a \<noteq> 0" "k < 7" "descs_ok (descs s)" "magic (arenas s a) = ARENA_MAGIC" "adesc (arenas s a) = Some k" "i + n \<le> bpa k"
  shows "\<exists>s'. fill_loop k a i n s = Some s' \<and> descs_ok (descs s') \<and> arenas s' = arenas s \<and> pages s' = pages s \<and>
    (\<forall>j. fl s' j = (if j = k then fl s k @ map (blk a k) [i..<i + n] else fl s j))"
  using assms
proof (induction n arbitrary: i s)
  case (Suc n)
  let ?s = "set_free_list k (fl s k @ [blk a k i]) s"
  have b: "arena_to_block a i s = Some (blk a k i)" using Suc.prems by (intro arena_to_block_ok) auto
  have "descs_ok (descs ?s)" using descs_ok_set Suc.prems by blast
  then obtain s' where s': "fill_loop k a (i + 1) n ?s = Some s'" "descs_ok (descs s')" "arenas s' = arenas s" "pages s' = pages s"
    "\<forall>j. fl s' j = (if j = k then fl ?s k @ map (blk a k) [i + 1..<i + 1 + n] else fl ?s j)"
    using Suc.IH [of ?s "i + 1"] Suc.prems by auto
  have "k < length (descs s)" using Suc.prems descs_len by simp
  moreover have "[i..<i + Suc n] = i # [i + 1..<i + 1 + n]" by (simp add: upt_rec)
  ultimately show ?case using s' b by simp
qed simp

lemma new_arena_ok:
  assumes inv: "heap_inv s K live" and k: "k < 7" and e: "fl s k = []"
  obtains (none) s' where "new_arena k s = Some (False, s')" "heap_inv s' K live" "ram (pages s') = ram (pages s)"
      "pool_pages (kernel_pool (pages s)) \<subseteq> used (kernel_pool (pages s))"
  | (new) a s' where "new_arena k s = Some (True, s')" "K a = None" "heap_inv s' (K(a \<mapsto> Small k)) live" "fl s' k \<noteq> []"
      "hd (fl s' k) = blk a k 0" "ram (pages s') = ram (pages s)" "pg_ofs a = 0"
proof -
  note d = heap_invD(2) [OF inv]
  obtain a m where g: "palloc_get_multiple 0 1 (pages s) = Some (a, m)"
    using palloc_returns [OF heap_invD(1) [OF inv], of 0 1] by auto
  note m = kernel_get [OF heap_invD(1) [OF inv] _ g]
  show ?thesis
  proof (cases "a = 0")
    case True
    then have "s\<lparr>pages := m\<rparr> = s" using m(2) by simp
    then show ?thesis using none [of s] g True inv kernel_full [OF heap_invD(1) [OF inv]] by (simp add: new_arena_def palloc_get_page_def)
  next
    case False
    have a: "pg_ofs a = 0" and r: "page_run (unat a) 1 \<subseteq> used (kernel_pool m)" "page_run (unat a) 1 \<inter> in_use (pages s) = {}"
      and u: "used (kernel_pool (pages s)) \<subseteq> used (kernel_pool m)" and ram: "ram m = ram (pages s)"
      using m(3) [OF _ False] by auto
    let ?s = "set_arena a \<lparr>magic = ARENA_MAGIC, adesc = Some k, free_cnt = bpa k\<rparr> (s\<lparr>pages := m\<rparr>)"
    let ?K = "K(a \<mapsto> Small k)"
    have Ka: "K a = None" by (rule fresh_page(1) [OF inv r(2)]) simp
    obtain s' where f: "fill_loop k a 0 (bpa k) ?s = Some s'" "descs_ok (descs s')" "arenas s' = arenas ?s" "pages s' = m"
      "\<forall>j. fl s' j = (if j = k then map (blk a k) [0..<bpa k] else fl s j)"
      using fill_loop_ok [OF False k, of ?s 0 "bpa k"] d e by auto
    have n: "new_arena k s = Some (True, s')"
      using g False f(1) descs_at [OF d k] by (simp add: new_arena_def palloc_get_page_def Let_def)
    have av: "avail live a k = {..<bpa k}" using not_live [OF inv] blk_addr(2) [OF a, of _ k] Ka by (auto simp: avail_def)
    have "headers_ok s' ?K live"
      using heap_invD(6,7) [OF inv] Ka k f(3) unfolding headers_ok_def by (auto simp: av)
    moreover have "lists_ok s' ?K live"
      unfolding lists_ok_def
    proof (intro allI impI)
      fix k' :: nat assume k': "k' < 7"
      show "distinct (fl s' k') \<and> set (fl s' k') = {blk b k' i | b i. ?K b = Some (Small k') \<and> i \<in> avail live b k'}"
      proof (cases "k' = k")
        case True
        have "{blk b k i | b i. K b = Some (Small k) \<and> i \<in> avail live b k} = {}" using heap_invD(9) [OF inv k] e by simp
        then have "{blk b k i | b i. ?K b = Some (Small k) \<and> i \<in> avail live b k} = blk a k ` {..<bpa k}" using av by auto
        moreover have "distinct (map (blk a k) [0..<bpa k])" using blk_inj [OF a, of _ k] by (auto simp: distinct_map inj_on_def)
        ultimately show ?thesis using f(5) True by auto
      next
        case False
        have "{blk b k' i | b i. ?K b = Some (Small k') \<and> i \<in> avail live b k'} = {blk b k' i | b i. K b = Some (Small k') \<and> i \<in> avail live b k'}"
          using False Ka by (auto; metis option.distinct(1))
        then show ?thesis using f(5) False heap_invD(8,9) [OF inv k'] by simp
      qed
    qed
    moreover have "arenas_ok s' ?K" using arenas_ok_new [OF inv a False, of "Small k"] r u f(4) by simp
    moreover have "live_ok ?K live" using heap_invD(3) [OF inv] Ka unfolding live_ok_def by (auto; metis option.distinct(1))
    ultimately have "heap_inv s' ?K live" using m(1) f(2,4) by (simp add: heap_inv_def)
    moreover have "fl s' k \<noteq> [] \<and> hd (fl s' k) = blk a k 0" using f(5) bpa_pos [OF k] by (simp add: hd_map)
    ultimately show ?thesis using new [OF n Ka] f(4) ram a by simp
  qed
qed


section \<open>Allocation\<close>

definition heap_ok :: "mheap \<Rightarrow> (u32 \<Rightarrow> nat option) \<Rightarrow> bool" where
  "heap_ok s live \<longleftrightarrow> (\<exists>K. heap_inv s K live \<and> no_idle K live)"

lemma no_idle_upd: "no_idle K live \<Longrightarrow> no_idle K (live(p \<mapsto> c))"
  unfolding no_idle_def by (metis fun_upd_apply option.distinct(1))

lemma small_malloc_ok:
  assumes inv: "heap_inv s K live" and id: "no_idle K live" and k: "k < 7"
  shows "\<exists>p s'. do { (ok, s) \<leftarrow> (if fl s k = [] then new_arena k s else Some (True, s));
      if ok then take_block k s else Some (0, s) } = Some (p, s') \<and> ram (pages s') = ram (pages s) \<and>
    (if p = 0 then heap_ok s' live \<and> pool_pages (kernel_pool (pages s)) \<subseteq> used (kernel_pool (pages s))
     else live p = None \<and> heap_ok s' (live(p \<mapsto> bsz k)))"
proof (cases "fl s k = []")
  case False
  obtain a i s' where t: "take_block k s = Some (blk a k i, s')" "K a = Some (Small k)" "i < bpa k"
    "live (blk a k i) = None" "heap_inv s' K (live(blk a k i \<mapsto> bsz k))" "pages s' = pages s"
    using take_ok [OF inv k False] by blast
  have "blk a k i \<noteq> 0" using blk_addr(4) [OF _ t(3)] heap_invD(4) [OF inv t(2)] by blast
  then show ?thesis using False t no_idle_upd [OF id] by (auto simp: heap_ok_def)
next
  case True
  from inv k True show ?thesis
  proof (cases rule: new_arena_ok)
    case (none s')
    then show ?thesis using id True by (auto simp: heap_ok_def)
  next
    case (new a s1)
    obtain b i s' where t: "take_block k s1 = Some (blk b k i, s')" "blk b k i = hd (fl s1 k)" "(K(a \<mapsto> Small k)) b = Some (Small k)" "i < bpa k"
      "live (blk b k i) = None" "heap_inv s' (K(a \<mapsto> Small k)) (live(blk b k i \<mapsto> bsz k))" "pages s' = pages s1"
      using take_ok [OF new(3) k new(4)] by blast
    have b: "b = a" using small_unique [OF new(3) t(3), of a k i 0] t(2,4) new(5) bpa_pos [OF k] by auto
    have "blk b k i \<noteq> 0" using blk_addr(4) [OF _ t(4)] new(7) b by blast
    moreover have "no_idle (K(a \<mapsto> Small k)) (live(blk b k i \<mapsto> bsz k))"
      unfolding no_idle_def
    proof (intro allI impI)
      fix c j assume c: "(K(a \<mapsto> Small k)) c = Some (Small j)"
      show "\<exists>n < bpa j. (live(blk b k i \<mapsto> bsz k)) (blk c j n) \<noteq> None"
      proof (cases "c = a")
        case True
        then show ?thesis using c t(4) b by (auto intro!: exI [of _ i])
      next
        case False
        then obtain n where "n < bpa j" "live (blk c j n) \<noteq> None" using id c unfolding no_idle_def by (metis fun_upd_other)
        then show ?thesis by (intro exI [of _ n]) auto
      qed
    qed
    ultimately show ?thesis using True t new by (auto simp: heap_ok_def)
  qed
qed

lemma big_pages_ok:
  assumes "unat sz + 4107 < 2 ^ 32"
  shows "unat (big_pages sz) = (unat sz + 4107) div 4096"
proof -
  have n: "unat (4107 :: u32) = 4107" by simp
  have e: "sz + of_nat SIZEOF_ARENA + of_nat PGSIZE - 1 = sz + 4107" by (simp add: SIZEOF_ARENA_def PGSIZE_def)
  have "unat (sz + 4107) = unat sz + 4107" using unat_add_lem [of sz 4107] assms n by simp
  then show ?thesis unfolding big_pages_def e by (simp add: unat_div PGSIZE_def)
qed

lemma malloc_big_ok:
  assumes inv: "heap_inv s K live" and id: "no_idle K live"
  shows "\<exists>p s'. malloc_big sz s = Some (p, s') \<and> ram (pages s') = ram (pages s) \<and>
    (if p = 0 then heap_ok s' live
     else live p = None \<and> (let c = PGSIZE * unat (big_pages sz) - 12 in heap_ok s' (live(p \<mapsto> c)) \<and> (unat sz + 4107 < 2 ^ 32 \<longrightarrow> unat sz \<le> c)))"
proof -
  let ?n = "unat (big_pages sz)"
  obtain a m where g: "palloc_get_multiple 0 ?n (pages s) = Some (a, m)"
    using palloc_returns [OF heap_invD(1) [OF inv], of 0 ?n] by auto
  show ?thesis
  proof (cases "a = 0")
    case True
    have "m = pages s"
    proof (cases "?n = 0")
      case True
      then show ?thesis using g by (simp add: palloc_get_multiple_def)
    next
      case False
      then show ?thesis using kernel_get(2) [OF heap_invD(1) [OF inv] _ g] True by simp
    qed
    then have "s\<lparr>pages := m\<rparr> = s" by simp
    then show ?thesis using g True inv id by (auto simp: malloc_big_def heap_ok_def)
  next
    case False
    have n0: "0 < ?n" using g False by (auto simp: palloc_get_multiple_def intro: ccontr)
    note m = kernel_get [OF heap_invD(1) [OF inv] n0 g]
    have a: "pg_ofs a = 0" and r: "page_run (unat a) ?n \<subseteq> used (kernel_pool m)" "page_run (unat a) ?n \<inter> in_use (pages s) = {}"
      and u: "used (kernel_pool (pages s)) \<subseteq> used (kernel_pool m)" and ram: "ram m = ram (pages s)"
      using m(3) [OF False] by auto
    let ?s = "set_arena a \<lparr>magic = ARENA_MAGIC, adesc = None, free_cnt = ?n\<rparr> (s\<lparr>pages := m\<rparr>)"
    let ?K = "K(a \<mapsto> Big ?n)" and ?l = "live(a + 12 \<mapsto> PGSIZE * ?n - 12)"
    have Ka: "K a = None" by (rule fresh_page(1) [OF inv r(2) n0])
    note p = big_addr [OF a]
    have l: "live (a + 12) = None" by (rule not_live [OF inv]) (simp add: p Ka)
    have nb: "blk b k i \<noteq> a + 12" if "K b = Some (Small k)" "i < bpa k" for b k i
    proof
      assume e: "blk b k i = a + 12"
      have "b = a" using blk_addr(2) [OF _ that(2), of b] heap_invD(4) [OF inv that(1)] p(2) unfolding e by simp
      then show False using that(1) Ka by simp
    qed
    have av: "avail ?l b k = avail live b k" if "K b = Some (Small k)" for b k
      by (rule avail_other) (rule nb [OF that])
    have "headers_ok ?s ?K ?l"
      unfolding headers_ok_def
    proof (intro allI impI)
      fix b x assume "?K b = Some x"
      then show "arenas ?s b = header_of ?l b x \<and> (\<forall>k. x = Small k \<longrightarrow> k < 7)"
        using heap_invD(6) [OF inv, of b x] heap_invD(7) [OF inv, of b] av [of b] by (cases x) (auto split: if_splits)
    qed
    moreover have "lists_ok ?s ?K ?l"
      unfolding lists_ok_def
    proof (intro allI impI)
      fix k :: nat assume k: "k < 7"
      have "{blk b k i | b i. ?K b = Some (Small k) \<and> i \<in> avail ?l b k} = {blk b k i | b i. K b = Some (Small k) \<and> i \<in> avail live b k}"
        using Ka av by (auto; metis option.distinct(1))
      then show "distinct (fl ?s k) \<and> set (fl ?s k) = {blk b k i | b i. ?K b = Some (Small k) \<and> i \<in> avail ?l b k}"
        using heap_invD(8,9) [OF inv k] by simp
    qed
    moreover have "arenas_ok ?s ?K" using arenas_ok_new [OF inv a False, of "Big ?n"] n0 r u by simp
    moreover have "live_ok ?K ?l"
    proof -
      have "b + 12 = a + 12 \<longleftrightarrow> b = a" for b by simp
      then show ?thesis using heap_invD(3) [OF inv] Ka l unfolding live_ok_def by (auto; metis option.distinct(1))
    qed
    ultimately have "heap_inv ?s ?K ?l" using m(1) heap_invD(2) [OF inv] by (simp add: heap_inv_def)
    moreover have "no_idle ?K ?l" using id by (fastforce simp: no_idle_def)
    moreover have "unat sz \<le> PGSIZE * ?n - 12" if "unat sz + 4107 < 2 ^ 32"
      using div_mult_mod_eq [of "unat sz + 4107" 4096] mod_less_divisor [of 4096 "unat sz + 4107"]
      unfolding big_pages_ok [OF that] PGSIZE_def by linarith
    moreover have "a + 12 \<noteq> 0" using p(1) by auto
    ultimately show ?thesis using g False l ram by (auto simp: malloc_big_def heap_ok_def Let_def SIZEOF_ARENA_def)
  qed
qed

text \<open>An allocation returns memory nobody has, or null and nothing happened.\<close>

lemma malloc_ok:
  assumes ok: "heap_ok s live" and sz: "sz \<noteq> 0"
  shows "\<exists>p s'. malloc sz s = Some (p, s') \<and> ram (pages s') = ram (pages s) \<and>
    (if p = 0 then heap_ok s' live \<and> (unat sz \<le> 1024 \<longrightarrow> pool_pages (kernel_pool (pages s)) \<subseteq> used (kernel_pool (pages s)))
     else live p = None \<and> (\<exists>c. heap_ok s' (live(p \<mapsto> c)) \<and> (unat sz + 4107 < 2 ^ 32 \<longrightarrow> unat sz \<le> c)))"
proof -
  obtain K where inv: "heap_inv s K live" and id: "no_idle K live" using ok by (auto simp: heap_ok_def)
  from find_desc_ok [OF heap_invD(2) [OF inv], of "unat sz"] show ?thesis
  proof
    assume "\<exists>k < 7. find_desc (descs s) 0 (unat sz) = Some k \<and> unat sz \<le> bsz k \<and> (\<forall>j < k. bsz j < unat sz)"
    then obtain k where "k < 7" "find_desc (descs s) 0 (unat sz) = Some k" "unat sz \<le> bsz k" by blast
    then show ?thesis using small_malloc_ok [OF inv id, of k] sz by (auto simp: malloc_def split: if_splits) 
  next
    assume "find_desc (descs s) 0 (unat sz) = None \<and> 1024 < unat sz"
    then show ?thesis using malloc_big_ok [OF inv id, of sz] sz by (auto simp: malloc_def Let_def split: if_splits)
  qed
qed

end
