(* ===== verification/MallocRelease.thy ===== *)
theory MallocRelease
  imports MallocFacts
begin

text \<open>
  \<^verbatim>\<open>free\<close> and \<^verbatim>\<open>realloc\<close> keep the invariant of \<^verbatim>\<open>malloc\<close>; the page of an arena goes back to the page
  allocator with its last block.
\<close>

section \<open>Giving pages back\<close>

lemma kernel_free:
  assumes ok: "machine_ok m" and a: "pg_ofs a = 0" "0 < n" and r: "page_run (unat a) n \<subseteq> used (kernel_pool m)"
  obtains m' where "palloc_free_multiple a n m = Some m'" "machine_ok m'" "in_use m' = in_use m - page_run (unat a) n"
    "used (kernel_pool m') = used (kernel_pool m) - page_run (unat a) n"
    "\<And>x. x \<notin> {unat a..<unat a + PGSIZE * n} \<Longrightarrow> ram m' x = ram m x"
proof -
  let ?k = "kernel_pool m"
  have k: "pool_ok ?k" using ok by (simp add: machine_ok_def)
  have "unat a \<in> used ?k" using r in_run [OF a(2), of "unat a"] by auto
  then obtain i where i: "unat a = unat (pbase ?k) + PGSIZE * i" "i < bit_cnt (used_map ?k)" by (auto simp: used_def)
  have run: "i + j < bit_cnt (used_map ?k) \<and> bmap (used_map ?k) (i + j)" if "j < n" for j
  proof -
    have "unat a + PGSIZE * j \<in> used ?k" using r that by (auto simp: page_run_def)
    then obtain l where "unat (pbase ?k) + PGSIZE * i + PGSIZE * j = unat (pbase ?k) + PGSIZE * l" "l < bit_cnt (used_map ?k)" "bmap (used_map ?k) l"
      unfolding used_def i(1) by auto
    then have "i + j = l \<and> l < bit_cnt (used_map ?k) \<and> bmap (used_map ?k) l" by (simp add: PGSIZE_def)
    then show ?thesis by auto
  qed
  have p: "a = pbase ?k + of_nat (PGSIZE * i)" using i(1) unfolding pool_addr [OF k i(2), symmetric] by (simp add: word_unat_eq_iff)
  have ic: "i + n \<le> bit_cnt (used_map ?k)" using conjunct1 [OF run [of "n - 1"]] a(2) by linarith
  have b: "\<forall>j \<in> {i..<i + n}. bmap (used_map ?k) j" using run by (metis add_less_cancel_left atLeastLessThan_iff le_Suc_ex)
  have pl: "?k = the_pool False m" by (simp add: the_pool_def)
  obtain m' where m': "palloc_free_multiple a n m = Some m'" "machine_ok m'" "in_use m' = in_use m - page_run (unat a) n"
    "\<forall>x. ram m' x = (if unat a \<le> x \<and> x < unat a + PGSIZE * n then 0xcc else ram m x)"
    using palloc_free_ok [OF ok p pl ic a(2) b] by auto
  have "unat a \<in> pool_pages ?k" using i by (auto simp: pool_pages_def)
  then have "user_pool m' = user_pool m"
    using m'(1) from_pool [OF k a(1)] by (auto simp: palloc_free_multiple_def Let_def set_pool_def split: if_splits Option.bind_splits)
  then have "used (kernel_pool m') = used ?k - page_run (unat a) n"
    using m'(2,3) ok r used_sub unfolding machine_ok_def in_use_def by (auto 0 4; blast)
  moreover have "ram m' x = ram m x" if "x \<notin> {unat a..<unat a + PGSIZE * n}" for x using spec [OF m'(4), of x] that by auto
  ultimately show ?thesis using that m'(1-3) by blast
qed

text \<open>An arena without blocks goes away.\<close>

lemma inv_drop:
  assumes inv: "heap_inv s K live" and K: "K a = Some x"
    and s': "machine_ok (pages s')" "descs_ok (descs s')"
      "used (kernel_pool (pages s')) = used (kernel_pool (pages s)) - page_run (unat a) (npages x)"
      "\<And>b. unat b \<notin> page_run (unat a) (npages x) \<Longrightarrow> arenas s' b = arenas s b"
      "\<And>k. k < 7 \<Longrightarrow> fl s' k = filter (\<lambda>b. pg_round_down b \<noteq> a) (fl s k)"
  shows "heap_inv s' (K(a := None)) (\<lambda>p. if pg_round_down p = a then None else live p)"
proof -
  let ?K = "K(a := None)" and ?l = "\<lambda>p. if pg_round_down p = a then None else live p"
  have rd: "pg_round_down (blk b k i) = b" if "K b = Some (Small k)" "i < bpa k" for b k i
    using blk_addr(2) [OF _ that(2)] heap_invD(4) [OF inv that(1)] by blast
  have rb: "pg_round_down (b + 12) = b" if "K b = Some (Big n)" for b n using big_addr(2) heap_invD(4) [OF inv that] by blast
  have av: "avail ?l b k = avail live b k" if "K b = Some (Small k)" "b \<noteq> a" for b k
    using rd [OF that(1)] that(2) by (auto simp: avail_def)
  have dj: "page_run (unat b) (npages y) \<inter> page_run (unat a) (npages x) = {}" if "K b = Some y" "b \<noteq> a" for b y
    by (rule heap_invD(5) [OF inv that(1) K that(2)])
  have "headers_ok s' ?K ?l"
    unfolding headers_ok_def
  proof (intro allI impI)
    fix b y assume "?K b = Some y"
    then have b: "K b = Some y" "b \<noteq> a" by (auto split: if_splits)
    have "unat b \<notin> page_run (unat a) (npages x)" using dj [OF b] in_run [of "npages y" "unat b"] heap_invD(4) [OF inv b(1)] by auto
    then show "arenas s' b = header_of ?l b y \<and> (\<forall>k. y = Small k \<longrightarrow> k < 7)"
      using s'(4) heap_invD(6) [OF inv b(1)] heap_invD(7) [OF inv, of b] b av [of b] by (cases y) auto
  qed
  moreover have "lists_ok s' ?K ?l"
    unfolding lists_ok_def
  proof (intro allI impI)
    fix k :: nat assume k: "k < 7"
    have "{blk b k i | b i. ?K b = Some (Small k) \<and> i \<in> avail ?l b k} =
        {p \<in> {blk b k i | b i. K b = Some (Small k) \<and> i \<in> avail live b k}. pg_round_down p \<noteq> a}"
      using av rd by (auto simp: avail_def split: if_splits) 
    then show "distinct (fl s' k) \<and> set (fl s' k) = {blk b k i | b i. ?K b = Some (Small k) \<and> i \<in> avail ?l b k}"
      using heap_invD(8,9) [OF inv k] s'(5) [OF k] by (simp only: set_filter distinct_filter)
  qed
  moreover have "arenas_ok s' ?K"
    unfolding arenas_ok_def
  proof (intro conjI allI impI)
    fix b y assume "?K b = Some y"
    then have b: "K b = Some y" "b \<noteq> a" by (auto split: if_splits)
    then show "pg_ofs b = 0" "b \<noteq> 0" "0 < npages y" "page_run (unat b) (npages y) \<subseteq> used (kernel_pool (pages s'))"
      using heap_invD(4) [OF inv b(1)] dj [OF b] s'(3) by auto
  next
    fix b c y z assume "?K b = Some y \<and> ?K c = Some z \<and> b \<noteq> c"
    then show "page_run (unat b) (npages y) \<inter> page_run (unat c) (npages z) = {}"
      using heap_invD(5) [OF inv, of b y c z] by (auto split: if_splits)
  qed
  moreover have "live_ok ?K ?l"
    unfolding live_ok_def
  proof (intro conjI allI impI)
    fix p c assume "?l p = Some c"
    then have p: "live p = Some c" "pg_round_down p \<noteq> a" by (auto split: if_splits)
    from inv p(1) show "(\<exists>b k i. ?K b = Some (Small k) \<and> i < bpa k \<and> p = blk b k i \<and> c = bsz k) \<or>
        (\<exists>b n. ?K b = Some (Big n) \<and> p = b + 12 \<and> c = PGSIZE * n - 12)"
    proof (cases rule: live_cases)
      case (1 b k i)
      then show ?thesis using rd [OF 1(1,2)] p(2) by auto
    next
      case (2 b n)
      then show ?thesis using rb [OF 2(1)] p(2) by auto
    qed
  next
    fix b n assume "?K b = Some (Big n)"
    then have "K b = Some (Big n)" "b \<noteq> a" by (auto split: if_splits)
    then show "?l (b + 12) = Some (PGSIZE * n - 12)" using rb heap_invD(3) [OF inv] by (auto simp: live_ok_def)
  qed
  ultimately show ?thesis using s'(1,2) by (simp add: heap_inv_def)
qed

lemma sub_minus: "A \<subseteq> B \<Longrightarrow> B \<subseteq> F \<Longrightarrow> x \<notin> A \<Longrightarrow> A \<subseteq> F - {x}"
  by blast

lemma unlink_loop_ok:
  assumes "a \<noteq> 0" "k < 7" "descs_ok (descs s)" "magic (arenas s a) = ARENA_MAGIC" "adesc (arenas s a) = Some k" "i + n \<le> bpa k"
    "distinct (fl s k)" "blk a k ` {i..<i + n} \<subseteq> set (fl s k)" "pg_ofs a = 0"
  shows "\<exists>s'. unlink_loop k a i n s = Some s' \<and> descs_ok (descs s') \<and> arenas s' = arenas s \<and> pages s' = pages s \<and>
    (\<forall>j. fl s' j = (if j = k then filter (\<lambda>b. b \<notin> blk a k ` {i..<i + n}) (fl s k) else fl s j))"
  using assms
proof (induction n arbitrary: i s)
  case 0
  then show ?case by simp
next
  case (Suc n)
  let ?s = "set_free_list k (remove1 (blk a k i) (fl s k)) s"
  have len: "k < length (descs s)" using Suc.prems descs_len by simp
  have b: "arena_to_block a i s = Some (blk a k i)" using Suc.prems by (intro arena_to_block_ok) auto
  have m: "blk a k i \<in> set (fl s k)" using Suc.prems(8) by auto
  have r: "remove1 (blk a k i) (fl s k) = filter (\<lambda>b. b \<noteq> blk a k i) (fl s k)"
    using Suc.prems(7) by (simp add: distinct_remove1_removeAll removeAll_filter_not_eq eq_commute)
  have nb: "blk a k i \<notin> blk a k ` {i + 1..<i + 1 + n}"
  proof
    assume "blk a k i \<in> blk a k ` {i + 1..<i + 1 + n}"
    then obtain j where "blk a k i = blk a k j" "i < j" "j < bpa k" using Suc.prems(6) by auto
    then show False using blk_inj [OF Suc.prems(9), of i k j] Suc.prems(6) by simp
  qed
  have "blk a k ` {i + 1..<i + 1 + n} \<subseteq> blk a k ` {i..<i + Suc n}" by (intro image_mono) auto
  moreover have "set (fl ?s k) = set (fl s k) - {blk a k i}" 
  proof -
    have "fl ?s k = remove1 (blk a k i) (fl s k)" using fl_set(1) [OF len] by simp
    then show ?thesis using set_remove1_eq [OF Suc.prems(7)] by (simp only:)
  qed
  ultimately have sub: "blk a k ` {i + 1..<i + 1 + n} \<subseteq> set (fl ?s k)" using sub_minus [OF _ Suc.prems(8) nb] by metis
  have "descs_ok (descs ?s)" using descs_ok_set Suc.prems by blast
  then obtain s' where s': "unlink_loop k a (i + 1) n ?s = Some s'" "descs_ok (descs s')" "arenas s' = arenas s" "pages s' = pages s"
    "\<forall>j. fl s' j = (if j = k then filter (\<lambda>b. b \<notin> blk a k ` {i + 1..<i + 1 + n}) (fl ?s k) else fl ?s j)"
    using Suc.IH [of ?s "i + 1"] Suc.prems len sub by auto
  have "{i..<i + Suc n} = insert i {i + 1..<i + 1 + n}" by auto
  then have "filter (\<lambda>b. b \<notin> blk a k ` {i..<i + Suc n}) (fl s k) = filter (\<lambda>b. b \<notin> blk a k ` {i + 1..<i + 1 + n}) (fl ?s k)"
    using len by (simp add: r conj_commute)
  then show ?case using s' b m len by simp
qed


section \<open>Free\<close>

lemma free_block_ok:
  assumes inv: "heap_inv s K live" and K: "K a = Some (Small k)" and i: "i < bpa k" and l: "live (blk a k i) \<noteq> None"
  shows "heap_inv (set_arena a ((arenas s a)\<lparr>free_cnt := free_cnt (arenas s a) + 1\<rparr>)
      (set_free_list k (blk a k i # fl s k) (set_ram r s))) K (live(blk a k i := None))"
    (is "heap_inv ?s' K ?l")
proof -
  note d = heap_invD(2) [OF inv]
  have k: "k < 7" by (rule heap_invD(7) [OF inv K])
  have len: "length (descs s) = 7" by (rule descs_len [OF d])
  have na: "i \<notin> avail live a k" using l by (simp add: avail_def)
  have av: "avail ?l a' k' = (if a' = a then insert i (avail live a k) else avail live a' k')" if "K a' = Some (Small k')" for a' k'
    using avail_upd [OF K that i inv, of None] by simp
  have "headers_ok ?s' K ?l"
    using heap_invD(6,7) [OF inv] K na header_upd [OF K _ i inv] av [OF K] unfolding headers_ok_def by auto
  moreover have "lists_ok ?s' K ?l"
    unfolding lists_ok_def
  proof (intro allI impI)
    fix k' :: nat assume k': "k' < 7"
    have e: "{blk b k' j | b j. K b = Some (Small k') \<and> j \<in> avail ?l b k'} =
        {blk b k' j | b j. K b = Some (Small k') \<and> j \<in> avail live b k'} \<union> (if k' = k then {blk a k i} else {})"
      (is "?L = ?R")
    proof (intro set_eqI iffI)
      fix p assume "p \<in> ?L"
      then obtain b j where p: "p = blk b k' j" "K b = Some (Small k')" "j \<in> avail ?l b k'" by blast
      then show "p \<in> ?R" using av [OF p(2)] K by (cases "b = a") auto
    next
      fix p assume "p \<in> ?R"
      then show "p \<in> ?L"
      proof
        assume "p \<in> {blk b k' j | b j. K b = Some (Small k') \<and> j \<in> avail live b k'}"
        then obtain b j where p: "p = blk b k' j" "K b = Some (Small k')" "j \<in> avail live b k'" by blast
        have "j \<in> avail ?l b k'" using av [OF p(2)] p(2,3) K by (cases "b = a") auto
        with p show ?thesis by blast
      next
        assume "p \<in> (if k' = k then {blk a k i} else {})"
        then show ?thesis using av [OF K] K by (auto split: if_splits)
      qed
    qed
    have "blk a k i \<notin> set (fl s k)" using heap_invD(9) [OF inv k] l by (auto simp: avail_def)
    then show "distinct (fl ?s' k') \<and> set (fl ?s' k') = {blk b k' j | b j. K b = Some (Small k') \<and> j \<in> avail ?l b k'}"
      unfolding e using heap_invD(8,9) [OF inv k'] len k by auto
  qed
  moreover have "arenas_ok ?s' K" using inv by (simp add: heap_inv_def arenas_ok_def)
  moreover have "live_ok K ?l"
    using heap_invD(3) [OF inv] blk_not_big [OF inv K _ i] unfolding live_ok_def by (auto split: if_splits; metis)
  ultimately show ?thesis using heap_invD(1) [OF inv] descs_ok_set [OF d k] descs_ok_set [of "set_ram r s" k] d k
    by (simp add: heap_inv_def machine_ok_def)
qed

lemma drop_arena:
  assumes inv: "heap_inv s K live" and K: "K a = Some (Small k)" and e: "\<And>i. i < bpa k \<Longrightarrow> live (blk a k i) = None"
  obtains s1 m where "unlink_loop k a 0 (bpa k) s = Some s1" "palloc_free_page a (pages s1) = Some m"
    "heap_inv (forget_arenas a 1 (s1\<lparr>pages := m\<rparr>)) (K(a := None)) live" "in_use m = in_use (pages s) - {unat a}"
    "\<forall>x. x \<notin> {unat a..<unat a + PGSIZE} \<longrightarrow> ram m x = ram (pages s) x"
proof -
  note d = heap_invD(2) [OF inv]
  have k: "k < 7" by (rule heap_invD(7) [OF inv K])
  have a: "pg_ofs a = 0" "a \<noteq> 0" "page_run (unat a) 1 \<subseteq> used (kernel_pool (pages s))" using heap_invD(4) [OF inv K] by auto
  have h: "magic (arenas s a) = ARENA_MAGIC" "adesc (arenas s a) = Some k" using heap_invD(6) [OF inv K] by simp_all
  have "avail live a k = {..<bpa k}" using e by (auto simp: avail_def)
  then have sub: "blk a k ` {0..<0 + bpa k} \<subseteq> set (fl s k)" using heap_invD(9) [OF inv k] K by auto blast
  obtain s1 where s1: "unlink_loop k a 0 (bpa k) s = Some s1" "descs_ok (descs s1)" "arenas s1 = arenas s" "pages s1 = pages s"
    "\<forall>j. fl s1 j = (if j = k then filter (\<lambda>b. b \<notin> blk a k ` {0..<0 + bpa k}) (fl s k) else fl s j)"
    using unlink_loop_ok [OF a(2) k d h, of 0 "bpa k"] heap_invD(8) [OF inv k] sub a(1) by auto
  obtain m where m: "palloc_free_multiple a 1 (pages s) = Some m" "machine_ok m" "in_use m = in_use (pages s) - page_run (unat a) 1"
    "used (kernel_pool m) = used (kernel_pool (pages s)) - page_run (unat a) 1"
    "\<And>x. x \<notin> {unat a..<unat a + PGSIZE * 1} \<Longrightarrow> ram m x = ram (pages s) x"
    using kernel_free [OF heap_invD(1) [OF inv] a(1) _ a(3)] by auto
  have rd: "pg_round_down p = a \<longleftrightarrow> p \<in> blk a k ` {0..<0 + bpa k}" if "p \<in> set (fl s k)" for p
    using that heap_invD(9) [OF inv k] blk_addr(2) heap_invD(4) [OF inv] K by (fastforce simp: avail_def)
  have other: "pg_round_down p \<noteq> a" if p: "p \<in> set (fl s j)" and j: "j < 7" "j \<noteq> k" for p j
  proof -
    obtain b i where b: "K b = Some (Small j)" "i < bpa j" "p = blk b j i" using p heap_invD(9) [OF inv j(1)] by (auto simp: avail_def)
    have "pg_round_down p = b" using blk_addr(2) [OF _ b(2)] heap_invD(4) [OF inv b(1)] b(3) by blast
    then show ?thesis using b(1) K j(2) by auto
  qed
  have f: "fl s1 j = filter (\<lambda>b. pg_round_down b \<noteq> a) (fl s j)" if "j < 7" for j
  proof (cases "j = k")
    case True
    then show ?thesis using s1(5) rd by (auto intro!: filter_cong)
  next
    case False
    then show ?thesis using s1(5) other [OF _ that False] by (simp add: filter_id_conv)
  qed
  have l: "(\<lambda>p. if pg_round_down p = a then None else live p) = live"
  proof
    fix p
    show "(if pg_round_down p = a then None else live p) = live p"
    proof (cases "live p")
      case (Some c)
      from inv Some show ?thesis
      proof (cases rule: live_cases)
        case (1 b j i)
        have "pg_round_down p = b" using blk_addr(2) [OF _ 1(2)] heap_invD(4) [OF inv 1(1)] 1(3) by blast
        then show ?thesis using 1 e [of i] K Some by auto
      next
        case (2 b n)
        then have "pg_round_down p = b" using big_addr(2) heap_invD(4) [OF inv 2(1)] by blast
        then show ?thesis using 2(1) K by auto
      qed
    qed simp
  qed
  have "heap_inv (forget_arenas a 1 (s1\<lparr>pages := m\<rparr>)) (K(a := None)) (\<lambda>p. if pg_round_down p = a then None else live p)"
    by (rule inv_drop [OF inv K]) (use m s1 f in \<open>auto simp: forget_arenas_def\<close>)
  then show ?thesis using that [OF s1(1)] m s1(4) l by (simp add: palloc_free_page_def page_run_def)
qed


text \<open>
  Releasing a block: the invariant holds without it, no other block changes, and memory the arena
  does not need any more goes back.
\<close>

definition untouched :: "(u32 \<Rightarrow> nat option) \<Rightarrow> u32 \<Rightarrow> cmem \<Rightarrow> cmem \<Rightarrow> bool" where
  "untouched live p r r' \<longleftrightarrow> (\<forall>q c x. live q = Some c \<and> q \<noteq> p \<and> x \<in> block_bytes q c \<longrightarrow> r' x = r x)"

lemma untouchedI:
  assumes inv: "heap_inv s K live" and K: "K a = Some x" and p: "live p = Some c"
    and o: "\<And>q. live q \<noteq> None \<Longrightarrow> pg_round_down q = a \<Longrightarrow> q = p"
    and r: "\<And>y. y \<notin> block_bytes p c \<union> {unat a..<unat a + PGSIZE * npages x} \<Longrightarrow> r' y = r y"
  shows "untouched live p r r'"
  unfolding untouched_def
proof (intro allI impI)
  fix q d y assume h: "live q = Some d \<and> q \<noteq> p \<and> y \<in> block_bytes q d"
  have y1: "y \<notin> block_bytes p c" using live_disjoint [OF inv p, of q d] h by blast
  have qa: "pg_round_down q \<noteq> a" using o [of q] h by auto
  obtain z where z: "K (pg_round_down q) = Some z" "block_bytes q d \<subseteq> {unat (pg_round_down q)..<unat (pg_round_down q) + PGSIZE * npages z}"
    using live_in_pages [OF inv] h by blast
  have "{unat (pg_round_down q)..<unat (pg_round_down q) + PGSIZE * npages z} \<inter> {unat a..<unat a + PGSIZE * npages x} = {}"
    using runs_disjoint [OF _ _ heap_invD(5) [OF inv z(1) K qa]] heap_invD(4) [OF inv z(1)] heap_invD(4) [OF inv K] by blast
  with z(2) h have "y \<notin> {unat a..<unat a + PGSIZE * npages x}" by blast
  with y1 show "r' y = r y" by (intro r) blast
qed

lemma round_small:
  assumes inv: "heap_inv s K live" and K: "K a = Some (Small k)" and q: "live q \<noteq> None" "pg_round_down q = a"
  obtains j where "j < bpa k" "q = blk a k j"
proof -
  obtain c where "live q = Some c" using q(1) by blast
  from inv this show ?thesis
  proof (cases rule: live_cases)
    case (1 b k' j)
    have "pg_round_down q = b" using blk_addr(2) [OF _ 1(2)] heap_invD(4) [OF inv 1(1)] 1(3) by blast
    then show ?thesis using that 1 K q(2) by auto
  next
    case (2 b n)
    have "pg_round_down q = b" using big_addr(2) heap_invD(4) [OF inv 2(1)] 2(2) by blast
    then show ?thesis using 2 K q(2) by auto
  qed
qed

lemma round_big:
  assumes inv: "heap_inv s K live" and K: "K a = Some (Big n)" and q: "live q \<noteq> None" "pg_round_down q = a"
  shows "q = a + 12"
proof -
  obtain c where "live q = Some c" using q(1) by blast
  from inv this show ?thesis
  proof (cases rule: live_cases)
    case (1 b k' j)
    have "pg_round_down q = b" using blk_addr(2) [OF _ 1(2)] heap_invD(4) [OF inv 1(1)] 1(3) by blast
    then show ?thesis using 1 K q(2) by auto
  next
    case (2 b n)
    have "pg_round_down q = b" using big_addr(2) heap_invD(4) [OF inv 2(1)] 2(2) by blast
    then show ?thesis using 2 q(2) by auto
  qed
qed

lemma live_none_upd:
  assumes inv: "heap_inv s K live" and o: "\<And>q. live q \<noteq> None \<Longrightarrow> pg_round_down q = a \<Longrightarrow> q = p" and p: "pg_round_down p = a"
  shows "(\<lambda>q. if pg_round_down q = a then None else live q) = live(p := None)"
proof
  fix q show "(if pg_round_down q = a then None else live q) = (live(p := None)) q"
    by (metis fun_upd_apply o p)
qed

lemma free_small_ok:
  assumes inv: "heap_inv s K live" and id: "no_idle K live" and K: "K a = Some (Small k)" and i: "i < bpa k"
    and l: "live (blk a k i) = Some c"
  shows "\<exists>s'. free (blk a k i) s = Some s' \<and> heap_ok s' (live(blk a k i := None)) \<and>
    untouched live (blk a k i) (ram (pages s)) (ram (pages s')) \<and>
    ((\<forall>q. live q \<noteq> None \<and> pg_round_down q = a \<longrightarrow> q = blk a k i) \<longrightarrow> in_use (pages s') = in_use (pages s) - {unat a})"
proof -
  let ?b = "blk a k i" and ?l = "live(blk a k i := None)"
  note d = heap_invD(2) [OF inv]
  have k: "k < 7" by (rule heap_invD(7) [OF inv K])
  have a: "pg_ofs a = 0" "a \<noteq> 0" using heap_invD(4) [OF inv K] by auto
  note ba = blk_addr [OF a(1) i]
  have h: "arenas s a = \<lparr>magic = ARENA_MAGIC, adesc = Some k, free_cnt = card (avail live a k)\<rparr>"
    using heap_invD(6) [OF inv K] by simp
  have c: "c = bsz k" using inv l
  proof (cases rule: live_cases)
    case (1 a' k' j)
    then show ?thesis using small_unique [OF inv K 1(1) i 1(2)] by simp
  next
    case (2 a' n)
    then show ?thesis using blk_not_big [OF inv K 2(1) i] by simp
  qed
  define r where "r = fill (ram (pages s)) (unat ?b) 0xcc (bsz k)"
  define s1 where "s1 = set_arena a ((arenas s a)\<lparr>free_cnt := free_cnt (arenas s a) + 1\<rparr>) (set_free_list k (?b # fl s k) (set_ram r s))"
  have inv1: "heap_inv s1 K ?l" unfolding s1_def by (rule free_block_ok [OF inv K i]) (simp add: l)
  have r: "r y = ram (pages s) y" if "y \<notin> block_bytes ?b c" for y using that by (auto simp: r_def fill_at block_bytes_def c)
  have p1: "pages s1 = (pages s)\<lparr>ram := r\<rparr>" by (simp add: s1_def)
  have na: "i \<notin> avail live a k" using l by (simp add: avail_def)
  have cd: "card (avail live a k) + 1 = card (avail ?l a k)" using avail_upd [OF K K i inv, of None] na by simp
  have av: "avail ?l a k \<subseteq> {..<bpa k}" by (auto simp: avail_def)
  have le: "card (avail ?l a k) \<le> bpa k" using card_mono [OF _ av] by simp
  have fr: "free ?b s = free_small k a ?b s"
    using ba(4) block_to_arena_small [OF a i k d] h by (simp add: free_def)
  have fs: "free_small k a ?b s = (if card (avail ?l a k) \<ge> bpa k then do {
       s' \<leftarrow> unlink_loop k a 0 (bpa k) s1;
       m \<leftarrow> palloc_free_page a (pages s');
       Some (forget_arenas a 1 (s'\<lparr>pages := m\<rparr>)) } else Some s1)"
  proof -
    have hc: "free_cnt (arenas s a) + 1 = card (avail ?l a k)" using h cd by simp
    have "free_small k a ?b s = (if free_cnt (arenas s a) + 1 \<ge> bpa k then do {
       ASSERT (free_cnt (arenas s a) + 1 = bpa k);
       s' \<leftarrow> unlink_loop k a 0 (bpa k) s1;
       m \<leftarrow> palloc_free_page a (pages s');
       Some (forget_arenas a 1 (s'\<lparr>pages := m\<rparr>)) } else Some s1)"
      using ba(4) descs_at [OF d k] by (simp add: free_small_def memset_def Let_def unat_eq_zero s1_def r_def)
    then show ?thesis using le unfolding hc by (cases "card (avail ?l a k) = bpa k") simp_all
  qed
  show ?thesis
  proof (cases "card (avail ?l a k) \<ge> bpa k")
    case False
    have "avail ?l a k \<noteq> {..<bpa k}" using False by (metis card_lessThan order_refl)
    then obtain j where "j \<in> {..<bpa k} - avail ?l a k" using psubset_imp_ex_mem [OF psubsetI [OF av]] by metis
    then have "j < bpa k" "j \<notin> avail ?l a k" by simp_all
    then have ex: "\<exists>j < bpa k. ?l (blk a k j) \<noteq> None" unfolding avail_def by blast
    have "no_idle K ?l"
      unfolding no_idle_def
    proof (intro allI impI)
      fix b j assume b: "K b = Some (Small j)"
      show "\<exists>n < bpa j. ?l (blk b j n) \<noteq> None"
      proof (cases "b = a")
        case True
        then have jk: "j = k" using K b by simp
        show ?thesis unfolding jk True by (rule ex)
      next
        case False
        obtain n where n: "n < bpa j" "live (blk b j n) \<noteq> None" using id b unfolding no_idle_def by blast
        have "blk b j n \<noteq> ?b" using small_unique [OF inv b K n(1) i] False by blast
        then show ?thesis using n by (intro exI [of _ n]) auto
      qed
    qed
    moreover have "untouched live ?b (ram (pages s)) (ram (pages s1))"
      using live_disjoint [OF inv l] r unfolding untouched_def p1 by (auto simp: disjoint_iff)
    moreover have "\<not> (\<forall>q. live q \<noteq> None \<and> pg_round_down q = a \<longrightarrow> q = ?b)"
      using ex blk_addr(2) [OF a(1)] by (auto split: if_splits)
    ultimately show ?thesis using False fr fs inv1 by (auto simp: heap_ok_def)
  next
    case True
    have "avail ?l a k = {..<bpa k}" using True av by (intro card_seteq) simp_all
    then have "j \<in> avail ?l a k" if "j < bpa k" for j using that by simp
    then have e: "?l (blk a k j) = None" if "j < bpa k" for j using that unfolding avail_def by blast
    have o: "q = ?b" if q: "live q \<noteq> None" and rq: "pg_round_down q = a" for q
    proof -
      obtain j where "j < bpa k" "q = blk a k j" using round_small [OF inv K q rq] .
      then show ?thesis using e q by (metis fun_upd_other)
    qed
    obtain s2 m where u: "unlink_loop k a 0 (bpa k) s1 = Some s2" "palloc_free_page a (pages s2) = Some m"
      "heap_inv (forget_arenas a 1 (s2\<lparr>pages := m\<rparr>)) (K(a := None)) ?l" "in_use m = in_use (pages s1) - {unat a}"
      "\<forall>x. x \<notin> {unat a..<unat a + PGSIZE} \<longrightarrow> ram m x = ram (pages s1) x"
      using drop_arena [OF inv1 K e] by metis
    have "no_idle (K(a := None)) ?l"
      unfolding no_idle_def
    proof (intro allI impI)
      fix b j assume b: "(K(a := None)) b = Some (Small j)"
      then have b: "K b = Some (Small j)" "b \<noteq> a" by (auto split: if_splits)
      obtain n where n: "n < bpa j" "live (blk b j n) \<noteq> None" using id b unfolding no_idle_def by blast
      have "blk b j n \<noteq> ?b" using small_unique [OF inv b(1) K n(1) i] b(2) by blast
      then show "\<exists>n < bpa j. ?l (blk b j n) \<noteq> None" using n by (intro exI [of _ n]) auto
    qed
    moreover have "untouched live ?b (ram (pages s)) (ram m)"
      using u(5) r by (intro untouchedI [OF inv K l o]) (auto simp: p1)
    moreover have "in_use (pages s1) = in_use (pages s)" by (simp add: p1 in_use_def)
    ultimately show ?thesis using True fr fs u by (auto simp: heap_ok_def)
  qed
qed

lemma free_big_ok:
  assumes inv: "heap_inv s K live" and id: "no_idle K live" and K: "K a = Some (Big n)"
  shows "\<exists>s'. free (a + 12) s = Some s' \<and> heap_ok s' (live(a + 12 := None)) \<and>
    untouched live (a + 12) (ram (pages s)) (ram (pages s')) \<and> in_use (pages s') = in_use (pages s) - page_run (unat a) n"
proof -
  have a: "pg_ofs a = 0" "a \<noteq> 0" "0 < n" "page_run (unat a) n \<subseteq> used (kernel_pool (pages s))" using heap_invD(4) [OF inv K] by auto
  have h: "arenas s a = \<lparr>magic = ARENA_MAGIC, adesc = None, free_cnt = n\<rparr>" using heap_invD(6) [OF inv K] by simp
  obtain m where m: "palloc_free_multiple a n (pages s) = Some m" "machine_ok m" "in_use m = in_use (pages s) - page_run (unat a) n"
    "used (kernel_pool m) = used (kernel_pool (pages s)) - page_run (unat a) n"
    "\<And>x. x \<notin> {unat a..<unat a + PGSIZE * n} \<Longrightarrow> ram m x = ram (pages s) x"
    using kernel_free [OF heap_invD(1) [OF inv] a(1,3,4)] by blast
  let ?s = "forget_arenas a n (s\<lparr>pages := m\<rparr>)"
  have p0: "a + 12 \<noteq> 0" using big_addr(1) [OF a(1)] by auto
  have f: "free (a + 12) s = Some ?s" using p0 block_to_arena_big [OF a(1,2)] h m(1) by (simp add: free_def)
  have o: "q = a + 12" if "live q \<noteq> None" "pg_round_down q = a" for q using round_big [OF inv K that] .
  have fr: "fl s k = filter (\<lambda>b. pg_round_down b \<noteq> a) (fl s k)" if k: "k < 7" for k
  proof -
    have "pg_round_down p \<noteq> a" if p: "p \<in> set (fl s k)" for p
    proof -
      obtain b i where b: "K b = Some (Small k)" "i < bpa k" "p = blk b k i" using p heap_invD(9) [OF inv k] by (auto simp: avail_def)
      have "pg_round_down p = b" using blk_addr(2) [OF _ b(2)] heap_invD(4) [OF inv b(1)] b(3) by blast
      then show ?thesis using b(1) K by auto
    qed
    then show ?thesis by (simp add: filter_id_conv)
  qed
  have "heap_inv ?s (K(a := None)) (\<lambda>q. if pg_round_down q = a then None else live q)"
    by (rule inv_drop [OF inv K]) (use m heap_invD(2) [OF inv] fr in \<open>auto simp: forget_arenas_def\<close>)
  moreover have "(\<lambda>q. if pg_round_down q = a then None else live q) = live(a + 12 := None)"
    by (rule live_none_upd [OF inv o big_addr(2) [OF a(1)]])
  moreover have "no_idle (K(a := None)) (live(a + 12 := None))"
    unfolding no_idle_def
  proof (intro allI impI)
    fix b j assume "(K(a := None)) b = Some (Small j)"
    then have b: "K b = Some (Small j)" "b \<noteq> a" by (auto split: if_splits)
    obtain i where i: "i < bpa j" "live (blk b j i) \<noteq> None" using id b unfolding no_idle_def by blast
    have "blk b j i \<noteq> a + 12" by (rule blk_not_big [OF inv b(1) K i(1)])
    then show "\<exists>i < bpa j. (live(a + 12 := None)) (blk b j i) \<noteq> None" using i by (intro exI [of _ i]) auto
  qed
  moreover have "live (a + 12) = Some (PGSIZE * n - 12)" using heap_invD(3) [OF inv] K by (simp add: live_ok_def)
  then have "untouched live (a + 12) (ram (pages s)) (ram m)"
    using m(5) by (intro untouchedI [OF inv K _ o]) auto
  ultimately show ?thesis using f m(3) by (auto simp: heap_ok_def)
qed

end
