(* ===== verification/MallocProps.thy ===== *)
theory MallocProps
  imports MallocRelease VmProps
begin

text \<open>The properties of \<^verbatim>\<open>malloc\<close>, \<^verbatim>\<open>free\<close>, \<^verbatim>\<open>calloc\<close> and \<^verbatim>\<open>realloc\<close>, and a small heap.\<close>

section \<open>Copying blocks\<close>

lemma ram_inv: "heap_inv s K live \<Longrightarrow> heap_inv (set_ram r s) K live"
  by (simp add: heap_inv_defs machine_ok_def)

lemma ram_ok: "heap_ok s live \<Longrightarrow> heap_ok (set_ram r s) live"
  unfolding heap_ok_def using ram_inv by blast

lemma heap_disjoint: "heap_ok s live \<Longrightarrow> live p = Some c \<Longrightarrow> live q = Some d \<Longrightarrow> p \<noteq> q \<Longrightarrow> block_bytes p c \<inter> block_bytes q d = {}"
  by (meson heap_ok_def live_disjoint)

lemma live_nonnull:
  assumes "heap_ok s live" "live p = Some c"
  shows "p \<noteq> 0"
proof
  assume p: "p = 0"
  obtain K where "heap_inv s K live" using assms(1) by (auto simp: heap_ok_def)
  from live_inside [OF this assms(2)] heap_invD(4) [OF this] show False by (auto simp: p pg_round_down_def)
qed

lemma block_size_ok:
  assumes "heap_ok s live" "live p = Some c"
  shows "\<exists>n. block_size_of p s = Some n \<and> unat n = c"
proof -
  obtain K where inv: "heap_inv s K live" using assms(1) by (auto simp: heap_ok_def)
  note d = heap_invD(2) [OF inv]
  from inv assms(2) show ?thesis
  proof (cases rule: live_cases)
    case (1 a k i)
    have k: "k < 7" by (rule heap_invD(7) [OF inv 1(1)])
    have a: "pg_ofs a = 0" "a \<noteq> 0" using heap_invD(4) [OF inv 1(1)] by auto
    have "unat (of_nat (bsz k) :: u32) = bsz k" by (rule of_nat_inverse [OF refl]) (use bsz_le [OF k] in simp)
    then show ?thesis using block_to_arena_small [OF a 1(2) k d] heap_invD(6) [OF inv 1(1)] 1(3,4) descs_at [OF d k]
      by (simp add: block_size_of_def)
  next
    case (2 a n)
    have a: "pg_ofs a = 0" "a \<noteq> 0" "0 < n" "page_run (unat a) n \<subseteq> used (kernel_pool (pages s))" using heap_invD(4) [OF inv 2(1)] by auto
    have "unat a + PGSIZE * (n - 1) \<in> pool_pages (kernel_pool (pages s))"
      using a(3,4) used_sub by (fastforce simp: page_run_def)
    then obtain j where j: "unat a + PGSIZE * (n - 1) = unat (pbase (kernel_pool (pages s))) + PGSIZE * j"
      "j < bit_cnt (used_map (kernel_pool (pages s)))" by (auto simp: pool_pages_def)
    have "unat a + PGSIZE * n \<le> 2 ^ 32"
    proof -
      have "pool_ok (kernel_pool (pages s))" using heap_invD(1) [OF inv] by (simp add: machine_ok_def)
      then have "unat (pbase (kernel_pool (pages s))) + PGSIZE * Suc j \<le> 2 ^ 32"
        using j(2) unfolding pool_ok_def by (meson Suc_leI add_left_mono le_trans mult_le_mono2)
      then show ?thesis using j(1) a(3) by (cases n) (simp_all add: algebra_simps)
    qed
    moreover have "unat a \<noteq> 0" using a(2) by (simp add: unat_eq_zero)
    ultimately have l: "PGSIZE * n < 2 ^ 32" by simp
    have u: "unat (of_nat (PGSIZE * n) :: u32) = PGSIZE * n" by (rule of_nat_inverse [OF refl]) (use l in simp)
    have "12 \<le> PGSIZE * n" using a(3) by (simp add: PGSIZE_def)
    then have "(12 :: u32) \<le> of_nat (PGSIZE * n)" by (simp add: word_le_nat_alt u del: of_nat_mult)
    then have "unat (of_nat (PGSIZE * n) - 12 :: u32) = PGSIZE * n - 12" by (simp add: unat_sub u del: of_nat_mult)
    then show ?thesis using block_to_arena_big [OF a(1,2)] heap_invD(6) [OF inv 2(1)] 2(2,3) big_addr [OF a(1)]
      by (simp add: block_size_of_def)
  qed
qed

lemma free_ok:
  assumes ok: "heap_ok s live" and p: "live p = Some c"
  shows "\<exists>s'. free p s = Some s' \<and> heap_ok s' (live(p := None)) \<and> untouched live p (ram (pages s)) (ram (pages s')) \<and>
    ((\<forall>q. live q \<noteq> None \<and> pg_round_down q = pg_round_down p \<longrightarrow> q = p) \<longrightarrow> unat (pg_round_down p) \<notin> in_use (pages s'))"
proof -
  obtain K where inv: "heap_inv s K live" and id: "no_idle K live" using ok by (auto simp: heap_ok_def)
  from inv p show ?thesis
  proof (cases rule: live_cases)
    case (1 a k i)
    have r: "pg_round_down p = a" using blk_addr(2) [OF _ 1(2)] heap_invD(4) [OF inv 1(1)] 1(3) by blast
    from free_small_ok [OF inv id 1(1,2) p [unfolded 1(3)], folded 1(3)] show ?thesis unfolding r by (metis Diff_iff insertI1)
  next
    case (2 a n)
    have r: "pg_round_down p = a" using big_addr(2) heap_invD(4) [OF inv 2(1)] 2(2) by blast
    have "unat a \<in> page_run (unat a) n" using in_run heap_invD(4) [OF inv 2(1)] by simp
    moreover obtain s' where "free p s = Some s'" "heap_ok s' (live(p := None))" "untouched live p (ram (pages s)) (ram (pages s'))"
      "in_use (pages s') = in_use (pages s) - page_run (unat a) n"
      using free_big_ok [OF inv id 2(1), folded 2(2)] by blast
    ultimately show ?thesis unfolding r by blast
  qed
qed

section \<open>A small heap\<close>

definition demo_descs :: "desc list" where
  "demo_descs = map (\<lambda>k. \<lparr>dblock_size = bsz k, blocks_per_arena = bpa k, free_list = []\<rparr>) [0..<7]"

definition demo_mheap :: mheap where
  "demo_mheap = \<lparr>descs = demo_descs, arenas = (\<lambda>_. cc_arena), pages = demo_machine\<rparr>"

lemma demo_mheap_ok: "heap_ok demo_mheap (\<lambda>_. None)"
proof -
  have "heap_inv demo_mheap (\<lambda>_. None) (\<lambda>_. None)"
    using demo_machine_ok by (simp add: heap_inv_defs demo_mheap_def demo_descs_def descs_ok_def)
  then show ?thesis by (auto simp: heap_ok_def no_idle_def)
qed

lemma demo_pages_free: "\<not> pool_pages (kernel_pool demo_machine) \<subseteq> used (kernel_pool demo_machine)"
proof
  assume "pool_pages (kernel_pool demo_machine) \<subseteq> used (kernel_pool demo_machine)"
  moreover have "unat (0xc0100000 :: u32) + PGSIZE * 1 \<in> pool_pages (kernel_pool demo_machine)"
    unfolding pool_pages_def demo_machine_def demo_pool_def by auto
  ultimately have "unat (0xc0100000 :: u32) + PGSIZE * 1 \<in> used (kernel_pool demo_machine)" by blast
  then show False by (auto simp: used_def demo_machine_def demo_pool_def bmap_def PGSIZE_def)
qed

lemma demo_block:
  obtains p s' c where "malloc 100 demo_mheap = Some (p, s')" "p \<noteq> 0" "heap_ok s' [p \<mapsto> c]" "100 \<le> c" "ram (pages s') = ram demo_machine"
  using malloc_ok [OF demo_mheap_ok, of 100] demo_pages_free by (auto simp: demo_mheap_def split: if_splits)

section \<open>Properties\<close>

text \<open>C22: \<open>malloc\<close> returns memory nobody has: a block that was not allocated, that overlaps no allocated block and
  is large enough, with no byte of memory changed; a null result means that nothing was allocated, and for a
  block of up to 1 kB that every page of the kernel is in use. The size holds for requests that leave room for
  the header in 32 bits.\<close>

theorem malloc_fresh_block:
  assumes "heap_ok s live" "sz \<noteq> 0"
  shows "\<exists>p s'. malloc sz s = Some (p, s') \<and> ram (pages s') = ram (pages s) \<and>
    (if p = 0 then heap_ok s' live \<and> (unat sz \<le> 1024 \<longrightarrow> pool_pages (kernel_pool (pages s)) \<subseteq> used (kernel_pool (pages s)))
     else live p = None \<and> (\<exists>c. heap_ok s' (live(p \<mapsto> c)) \<and> (unat sz + 4107 < 2 ^ 32 \<longrightarrow> unat sz \<le> c) \<and>
       (\<forall>q d. live q = Some d \<longrightarrow> block_bytes p c \<inter> block_bytes q d = {})))"
proof -
  obtain p s' where m: "malloc sz s = Some (p, s')" "ram (pages s') = ram (pages s)"
    "if p = 0 then heap_ok s' live \<and> (unat sz \<le> 1024 \<longrightarrow> pool_pages (kernel_pool (pages s)) \<subseteq> used (kernel_pool (pages s)))
     else live p = None \<and> (\<exists>c. heap_ok s' (live(p \<mapsto> c)) \<and> (unat sz + 4107 < 2 ^ 32 \<longrightarrow> unat sz \<le> c))"
    using malloc_ok [OF assms] by blast
  have "block_bytes p c \<inter> block_bytes q d = {}" if "heap_ok s' (live(p \<mapsto> c))" "live p = None" "live q = Some d" for c q d
    using heap_disjoint [OF that(1), of p c q d] that by (cases "q = p") auto
  then show ?thesis using m by (intro exI [of _ p] exI [of _ s']) (auto split: if_splits; metis)
qed

theorem malloc_fresh_block_witness:
  "\<exists>p s'. malloc 100 demo_mheap = Some (p, s') \<and> p \<noteq> 0 \<and> (\<exists>c. heap_ok s' [p \<mapsto> c] \<and> 100 \<le> c)"
  using malloc_fresh_block [OF demo_mheap_ok, of 100] demo_pages_free by (auto simp: demo_mheap_def split: if_splits)

text \<open>C23: \<open>free\<close> of an allocated block returns, keeps the allocator's state well formed without the block, and changes
  no byte of any other allocated block; with the last block of its page the page goes back to the page allocator.\<close>

theorem free_releases_block:
  assumes "heap_ok s live" "live p = Some c"
  shows "\<exists>s'. free p s = Some s' \<and> heap_ok s' (live(p := None)) \<and>
    (\<forall>q d x. live q = Some d \<and> q \<noteq> p \<and> x \<in> block_bytes q d \<longrightarrow> ram (pages s') x = ram (pages s) x) \<and>
    ((\<forall>q. live q \<noteq> None \<and> pg_round_down q = pg_round_down p \<longrightarrow> q = p) \<longrightarrow> unat (pg_round_down p) \<notin> in_use (pages s'))"
  using free_ok [OF assms] unfolding untouched_def by blast

theorem free_releases_block_witness:
  "\<exists>p s1 s2. malloc 100 demo_mheap = Some (p, s1) \<and> p \<noteq> 0 \<and> free p s1 = Some s2 \<and> heap_ok s2 (\<lambda>_. None) \<and>
     unat (pg_round_down p) \<notin> in_use (pages s2)"
proof -
  obtain p s1 c where m: "malloc 100 demo_mheap = Some (p, s1)" "p \<noteq> 0" "heap_ok s1 [p \<mapsto> c]" by (rule demo_block)
  obtain s2 where "free p s1 = Some s2" "heap_ok s2 ([p \<mapsto> c](p := None))" "unat (pg_round_down p) \<notin> in_use (pages s2)"
    using free_releases_block [OF m(3), of p c] by (auto split: if_splits)
  moreover have "[p \<mapsto> c](p := None) = (\<lambda>_. None)" by auto
  ultimately show ?thesis using m by auto
qed



text \<open>Sizes wrap: \<open>malloc\<close> of the largest size there is returns a block of one page, and \<open>calloc\<close> of 65537
  elements of 65537 bytes one of 131073 bytes, although its test is to find such products.\<close>

theorem malloc_size_wraps:
  assumes "heap_ok s live"
  shows "(\<exists>p s'. malloc (- 1) s = Some (p, s') \<and> (if p = 0 then heap_ok s' live else heap_ok s' (live(p \<mapsto> 4084)))) \<and>
    (\<exists>p s'. calloc 65537 65537 s = Some (p, s') \<and>
      (if p = 0 then heap_ok s' live else \<exists>c. heap_ok s' (live(p \<mapsto> c)) \<and> c < 65537 * 65537))"
proof
  obtain K where inv: "heap_inv s K live" and id: "no_idle K live" using assms by (auto simp: heap_ok_def)
  have big: "malloc sz s = malloc_big sz s" if "1024 < unat sz" for sz
  proof -
    have "find_desc (descs s) 0 (unat sz) = None" using find_desc_ok [OF heap_invD(2) [OF inv], of "unat sz"] bsz_le that by fastforce
    then show ?thesis using that by (auto simp: malloc_def)
  qed
  have e1: "big_pages (- 1) = 1" by (simp add: big_pages_def SIZEOF_ARENA_def PGSIZE_def)
  show "\<exists>p s'. malloc (- 1) s = Some (p, s') \<and> (if p = 0 then heap_ok s' live else heap_ok s' (live(p \<mapsto> 4084)))"
  proof -
    have "1024 < unat (- 1 :: u32)" by (simp add: unsigned_minus_1_eq_mask mask_eq_exp_minus_1)
    note b = big [OF this]
    have c: "PGSIZE * unat (1 :: u32) - 12 = 4084" by (simp add: PGSIZE_def)
    obtain p s' where "malloc_big (- 1) s = Some (p, s')" "if p = 0 then heap_ok s' live else heap_ok s' (live(p \<mapsto> 4084))"
      using malloc_big_ok [OF inv id, of "- 1"] unfolding e1 c Let_def by metis
    then show ?thesis using b by (intro exI [of _ p] exI [of _ s'] conjI) simp_all
  qed
  have e2: "(65537 * 65537 :: u32) = 131073" by simp
  have ca: "calloc 65537 65537 s = do {
       (p, s) \<leftarrow> malloc 131073 s;
       if p \<noteq> 0 then do {
         (_, r) \<leftarrow> memset (unat p) 0 (unat (131073 :: u32)) (ram (pages s));
         Some (p, set_ram r s) }
       else Some (p, s) }"
    unfolding calloc_def Let_def e2 by simp
  have b2: "unat (big_pages 131073) = 33" by (simp add: big_pages_def SIZEOF_ARENA_def PGSIZE_def)
  obtain p s1 where m: "malloc 131073 s = Some (p, s1)" "if p = 0 then heap_ok s1 live else heap_ok s1 (live(p \<mapsto> PGSIZE * 33 - 12))"
    using malloc_big_ok [OF inv id, of 131073] big [of 131073] b2 by (auto simp: Let_def split: if_splits)
  show "\<exists>p s'. calloc 65537 65537 s = Some (p, s') \<and>
      (if p = 0 then heap_ok s' live else \<exists>c. heap_ok s' (live(p \<mapsto> c)) \<and> c < 65537 * 65537)"
  proof (cases "p = 0")
    case True
    then show ?thesis using m by (simp add: ca)
  next
    case False
    let ?s = "set_ram (fill (ram (pages s1)) (unat p) 0 131073) s1"
    have "calloc 65537 65537 s = Some (p, ?s)" using m False by (simp add: ca memset_def unat_eq_zero)
    moreover have "heap_ok ?s (live(p \<mapsto> PGSIZE * 33 - 12))" using m(2) False ram_ok by simp
    ultimately show ?thesis using False by (auto simp: PGSIZE_def intro!: exI [of _ "PGSIZE * 33 - 12"])
  qed
qed

theorem malloc_size_wraps_witness: "\<exists>p s'. malloc (- 1) demo_mheap = Some (p, s')"
  using malloc_size_wraps [OF demo_mheap_ok] by auto

end
