(* ===== verification/Intq.thy ===== *)
theory Intq
  imports Prelude
begin

text \<open>
  \<^verbatim>\<open>devices/intq.c\<close>: the circular queue between an interrupt handler and threads, and the threads that
  sleep in it. Interrupts are off while a thread works on the queue; another thread runs where one
  blocks or releases the lock, and \<open>place\<close> says where a thread is. The first part are the operations on the queue itself,
  which refine a list (locale \<open>byte_queue\<close>).
\<close>

section \<open>The queue\<close>

definition INTQ_BUFSIZE :: nat where "INTQ_BUFSIZE = 64"

text \<open>\<open>qlock\<close> is the holder of the lock.\<close>

record intq =
  qlock :: "nat option"
  not_full :: "nat option"
  not_empty :: "nat option"
  buf :: "byte list"
  head :: nat
  tail :: nat

definition next_pos :: "nat \<Rightarrow> nat" where
  "next_pos p = (p + 1) mod INTQ_BUFSIZE"

definition intq_init :: "intq \<Rightarrow> intq" where
  "intq_init q = q\<lparr>qlock := None, not_full := None, not_empty := None, head := 0, tail := 0\<rparr>"

definition intq_empty :: "intq \<Rightarrow> bool" where
  "intq_empty q \<longleftrightarrow> head q = tail q"

definition intq_full :: "intq \<Rightarrow> bool" where
  "intq_full q \<longleftrightarrow> next_pos (head q) = tail q"

text \<open>Signalling returns the thread that is woken.\<close>

definition signal_not_full :: "intq \<Rightarrow> (nat option \<times> intq) option" where
  "signal_not_full q = do { ASSERT (\<not> intq_full q); Some (not_full q, q\<lparr>not_full := None\<rparr>) }"

definition signal_not_empty :: "intq \<Rightarrow> (nat option \<times> intq) option" where
  "signal_not_empty q = do { ASSERT (\<not> intq_empty q); Some (not_empty q, q\<lparr>not_empty := None\<rparr>) }"

text \<open>The part of \<^verbatim>\<open>intq_getc\<close> and \<^verbatim>\<open>intq_putc\<close> behind the loop.\<close>

definition take_byte :: "intq \<Rightarrow> (byte \<times> nat option \<times> intq) option" where
  "take_byte q = do {
     let c = buf q ! tail q;
     (w, q) \<leftarrow> signal_not_full (q\<lparr>tail := next_pos (tail q)\<rparr>);
     Some (c, w, q) }"

definition add_byte :: "byte \<Rightarrow> intq \<Rightarrow> (nat option \<times> intq) option" where
  "add_byte b q = signal_not_empty (q\<lparr>buf := (buf q)[head q := b], head := next_pos (head q)\<rparr>)"

text \<open>The loops test again after every sleep; \<open>wait\<close> asserts that there is something to wait for.\<close>

definition wait_not_empty :: "nat \<Rightarrow> intq \<Rightarrow> intq option" where
  "wait_not_empty t q = do { ASSERT (intq_empty q); Some (q\<lparr>not_empty := Some t\<rparr>) }"

definition wait_not_full :: "nat \<Rightarrow> intq \<Rightarrow> intq option" where
  "wait_not_full t q = do { ASSERT (intq_full q); Some (q\<lparr>not_full := Some t\<rparr>) }"

section \<open>Threads at the queue\<close>

datatype place =
    Away
  | Get_lock | Get_asleep | Get_woken | Get_again
  | Put_lock byte | Put_asleep byte | Put_woken byte | Put_again byte

record qsys =
  que :: intq
  spot :: "nat \<Rightarrow> place"

definition at :: "nat \<Rightarrow> place \<Rightarrow> qsys \<Rightarrow> qsys" where
  "at t x s = s\<lparr>spot := (spot s)(t := x)\<rparr>"

fun woken :: "place \<Rightarrow> place" where
  "woken Get_asleep = Get_woken"
| "woken (Put_asleep b) = Put_woken b"
| "woken x = x"

definition wake :: "nat option \<Rightarrow> qsys \<Rightarrow> qsys" where
  "wake w s = (case w of None \<Rightarrow> s | Some t \<Rightarrow> at t (woken (spot s t)) s)"

text \<open>What a step does to the bytes: a byte was taken or added.\<close>

datatype move = Quiet | Taken byte | Added byte

text \<open>\<^verbatim>\<open>lock_acquire\<close> and \<^verbatim>\<open>wait\<close>: the thread may have to wait for the lock first.\<close>

definition get_sleep :: "nat \<Rightarrow> qsys \<Rightarrow> qsys option" where
  "get_sleep t s = do {
     ASSERT (qlock (que s) \<noteq> Some t);
     case qlock (que s) of
       Some _ \<Rightarrow> Some (at t Get_lock s)
     | None \<Rightarrow> do {
         q \<leftarrow> wait_not_empty t ((que s)\<lparr>qlock := Some t\<rparr>);
         Some (at t Get_asleep (s\<lparr>que := q\<rparr>)) } }"

definition put_sleep :: "nat \<Rightarrow> byte \<Rightarrow> qsys \<Rightarrow> qsys option" where
  "put_sleep t b s = do {
     ASSERT (qlock (que s) \<noteq> Some t);
     case qlock (que s) of
       Some _ \<Rightarrow> Some (at t (Put_lock b) s)
     | None \<Rightarrow> do {
         q \<leftarrow> wait_not_full t ((que s)\<lparr>qlock := Some t\<rparr>);
         Some (at t (Put_asleep b) (s\<lparr>que := q\<rparr>)) } }"

text \<open>A woken thread releases the lock and goes on at the test of its loop.\<close>

definition release_lock :: "nat \<Rightarrow> place \<Rightarrow> qsys \<Rightarrow> qsys option" where
  "release_lock t x s = do { ASSERT (qlock (que s) = Some t); Some (at t x (s\<lparr>que := (que s)\<lparr>qlock := None\<rparr>\<rparr>)) }"

definition quiet :: "qsys option \<Rightarrow> (move \<times> qsys) option" where
  "quiet r = map_option (Pair Quiet) r"

text \<open>\<open>intr\<close> says that the caller is an interrupt handler, which must not sleep.\<close>

definition intq_getc :: "bool \<Rightarrow> nat \<Rightarrow> qsys \<Rightarrow> (move \<times> qsys) option" where
  "intq_getc intr t s =
     (if intq_empty (que s) then do {
        ASSERT (\<not> intr);
        quiet (get_sleep t s) }
      else do {
        (c, w, q) \<leftarrow> take_byte (que s);
        let s = s\<lparr>que := q\<rparr>;
        Some (Taken c, wake w (if intr then s else at t Away s)) })"

definition intq_putc :: "bool \<Rightarrow> nat \<Rightarrow> byte \<Rightarrow> qsys \<Rightarrow> (move \<times> qsys) option" where
  "intq_putc intr t b s =
     (if intq_full (que s) then do {
        ASSERT (\<not> intr);
        quiet (put_sleep t b s) }
      else do {
        (w, q) \<leftarrow> add_byte b (que s);
        let s = s\<lparr>que := q\<rparr>;
        Some (Added b, wake w (if intr then s else at t Away s)) })"

text \<open>
  One step of thread \<open>t\<close>, or of an interrupt handler, which tests first that it need not sleep
  (\<^verbatim>\<open>kbd.c\<close>, \<^verbatim>\<open>serial.c\<close>). A thread that waits for the lock has no step while another holds it. \<open>None\<close> is a panic.
\<close>

inductive qstep :: "nat \<Rightarrow> qsys \<Rightarrow> (move \<times> qsys) option \<Rightarrow> bool" for t :: nat where
  get: "spot s t = Away \<Longrightarrow> qstep t s (intq_getc False t s)"
| get_locked: "spot s t = Get_lock \<Longrightarrow> qlock (que s) = None \<Longrightarrow>
    qstep t s (quiet (get_sleep t s))"
| get_woken: "spot s t = Get_woken \<Longrightarrow> qstep t s (quiet (release_lock t Get_again s))"
| get_again: "spot s t = Get_again \<Longrightarrow> qstep t s (intq_getc False t s)"
| put: "spot s t = Away \<Longrightarrow> qstep t s (intq_putc False t b s)"
| put_locked: "spot s t = Put_lock b \<Longrightarrow> qlock (que s) = None \<Longrightarrow>
    qstep t s (quiet (put_sleep t b s))"
| put_woken: "spot s t = Put_woken b \<Longrightarrow> qstep t s (quiet (release_lock t (Put_again b) s))"
| put_again: "spot s t = Put_again b \<Longrightarrow> qstep t s (intq_putc False t b s)"
| intr_get: "\<not> intq_empty (que s) \<Longrightarrow> qstep t s (intq_getc True t s)"
| intr_put: "\<not> intq_full (que s) \<Longrightarrow> qstep t s (intq_putc True t b s)"

text \<open>Executions of the threads in \<open>T\<close>; a history has its last move first.\<close>

inductive qrun :: "nat set \<Rightarrow> intq \<Rightarrow> move list \<Rightarrow> qsys \<Rightarrow> bool" for T :: "nat set" and q0 :: intq where
  qrun_init: "qrun T q0 [] \<lparr>que = intq_init q0, spot = (\<lambda>_. Away)\<rparr>"
| qrun_step: "qrun T q0 ms s \<Longrightarrow> t \<in> T \<Longrightarrow> qstep t s (Some (m, s')) \<Longrightarrow> qrun T q0 (m # ms) s'"

inductive_cases qstepE: "qstep t s r"

section \<open>The queue as a list\<close>

definition slots :: "nat \<Rightarrow> nat \<Rightarrow> nat list" where
  "slots a b = map (\<lambda>i. (a + i) mod INTQ_BUFSIZE) [0..<(b + INTQ_BUFSIZE - a) mod INTQ_BUFSIZE]"

definition contents :: "intq \<Rightarrow> byte list" where
  "contents q = map (\<lambda>i. buf q ! i) (slots (tail q) (head q))"

definition intq_ok :: "intq \<Rightarrow> bool" where
  "intq_ok q \<longleftrightarrow> length (buf q) = INTQ_BUFSIZE \<and> head q < INTQ_BUFSIZE \<and> tail q < INTQ_BUFSIZE"

text \<open>The contract of a bounded queue of bytes.\<close>

locale byte_queue =
  fixes ok :: "'q \<Rightarrow> bool" and vals :: "'q \<Rightarrow> byte list" and put :: "byte \<Rightarrow> 'q \<Rightarrow> 'q" and get :: "'q \<Rightarrow> byte \<times> 'q" and cap :: nat
  assumes put: "ok q \<Longrightarrow> length (vals q) < cap \<Longrightarrow> ok (put b q) \<and> vals (put b q) = vals q @ [b]"
    and get: "ok q \<Longrightarrow> vals q \<noteq> [] \<Longrightarrow> ok (snd (get q)) \<and> vals q = fst (get q) # vals (snd (get q))"
begin

fun puts :: "byte list \<Rightarrow> 'q \<Rightarrow> 'q" where
  "puts [] q = q"
| "puts (b # bs) q = puts bs (put b q)"

fun gets :: "nat \<Rightarrow> 'q \<Rightarrow> byte list \<times> 'q" where
  "gets 0 q = ([], q)"
| "gets (Suc n) q = (let (b, q) = get q; (bs, q) = gets n q in (b # bs, q))"

lemma puts_ok: "ok q \<Longrightarrow> length (vals q) + length bs \<le> cap \<Longrightarrow> ok (puts bs q) \<and> vals (puts bs q) = vals q @ bs"
  by (induction bs arbitrary: q) (auto simp: put)

lemma gets_ok: "ok q \<Longrightarrow> n \<le> length (vals q) \<Longrightarrow> fst (gets n q) = take n (vals q) \<and> vals (snd (gets n q)) = drop n (vals q) \<and> ok (snd (gets n q))"
proof (induction n arbitrary: q)
  case (Suc n)
  obtain b q' where g: "get q = (b, q')" by (cases "get q")
  have "vals q \<noteq> []" using Suc.prems(2) by auto
  then have "ok q' \<and> vals q = b # vals q'" using get [OF Suc.prems(1)] g by simp
  then show ?case using Suc.IH [of q'] Suc.prems(2) g by (auto split: prod.splits)
qed simp

text \<open>What is put in comes out in order.\<close>

lemma puts_gets: "ok q \<Longrightarrow> vals q = [] \<Longrightarrow> length bs \<le> cap \<Longrightarrow> fst (gets (length bs) (puts bs q)) = bs"
  using puts_ok [of q bs] gets_ok [of "puts bs q" "length bs"] by simp

end

lemma next_pos_less [simp]: "next_pos p < INTQ_BUFSIZE"
  by (simp add: next_pos_def INTQ_BUFSIZE_def)

definition gap :: "nat \<Rightarrow> nat \<Rightarrow> nat" where
  "gap a b = (b + INTQ_BUFSIZE - a) mod INTQ_BUFSIZE"

lemma wrap: "i < 128 \<Longrightarrow> i mod 64 = (if i < 64 then i else i - 64 :: nat)"
  by (auto simp: mod_if)

lemma gap_eq: "a < 64 \<Longrightarrow> b < 64 \<Longrightarrow> gap a b = (if a \<le> b then b - a else b + 64 - a)"
  by (simp add: gap_def INTQ_BUFSIZE_def wrap)

lemma next_eq: "p < 64 \<Longrightarrow> next_pos p = (if p = 63 then 0 else p + 1)"
  by (simp add: next_pos_def INTQ_BUFSIZE_def wrap)

lemma slots_gap: "slots a b = map (\<lambda>i. (a + i) mod 64) [0..<gap a b]"
  by (simp add: slots_def gap_def INTQ_BUFSIZE_def)

lemma gap_less: "gap a b < 64"
  by (simp add: gap_def INTQ_BUFSIZE_def)

lemma slots_empty: "a < 64 \<Longrightarrow> b < 64 \<Longrightarrow> slots a b = [] \<longleftrightarrow> a = b"
  by (auto simp: slots_gap gap_eq)

lemma slots_next:
  assumes "a < 64" "b < 64" "next_pos b \<noteq> a"
  shows "slots a (next_pos b) = slots a b @ [b]" "b \<notin> set (slots a b)"
proof -
  have n: "gap a (next_pos b) = Suc (gap a b)" "(a + gap a b) mod 64 = b"
    using assms gap_eq [of a b] gap_eq [of a "next_pos b"] next_eq [of b] wrap [of "a + gap a b"] by (auto split: if_splits)
  show "slots a (next_pos b) = slots a b @ [b]" unfolding slots_gap n(1) using n(2) by simp
  have d: "(a + i) mod 64 \<noteq> b" if "i < gap a b" for i
    using that assms(1,2) gap_eq [of a b] wrap [of "a + i"] gap_less [of a b] by (auto split: if_splits)
  show "b \<notin> set (slots a b)"
  proof
    assume "b \<in> set (slots a b)"
    then obtain i where "i \<in> {0..<gap a b}" "b = (a + i) mod 64" unfolding slots_gap set_map set_upt by (elim imageE)
    then show False using d [of i] by simp
  qed
qed

lemma slots_tail:
  assumes "a < 64" "b < 64" "a \<noteq> b"
  shows "slots a b = a # slots (next_pos a) b"
proof -
  have n: "gap a b = Suc (gap (next_pos a) b)"
    using assms gap_eq [of a b] gap_eq [of "next_pos a" b] next_eq [of a] by (auto split: if_splits)
  have e: "(a + Suc i) mod 64 = (next_pos a + i) mod 64" for i
    unfolding next_pos_def INTQ_BUFSIZE_def by (simp add: mod_simps)
  have "[0..<gap a b] = 0 # map Suc [0..<gap (next_pos a) b]" unfolding n by (simp add: upt_conv_Cons map_Suc_upt del: upt_Suc)
  then show ?thesis unfolding slots_gap using assms(1) e by (simp add: comp_def)
qed

lemma full_iff: "intq_ok q \<Longrightarrow> intq_full q \<longleftrightarrow> length (contents q) = INTQ_BUFSIZE - 1"
  using gap_eq [of "tail q" "head q"] next_eq [of "head q"]
  by (auto simp: intq_ok_def intq_full_def contents_def slots_gap INTQ_BUFSIZE_def)

lemma empty_iff: "intq_ok q \<Longrightarrow> intq_empty q \<longleftrightarrow> contents q = []"
  using slots_empty [of "tail q" "head q"] by (auto simp: intq_ok_def intq_empty_def contents_def INTQ_BUFSIZE_def)

lemma contents_bounded: "intq_ok q \<Longrightarrow> length (contents q) \<le> INTQ_BUFSIZE - 1"
  using gap_less [of "tail q" "head q"] by (simp add: contents_def slots_gap INTQ_BUFSIZE_def)

text \<open>Adding and taking on the ring.\<close>

definition ring_put :: "byte \<Rightarrow> intq \<Rightarrow> intq" where
  "ring_put b q = q\<lparr>buf := (buf q)[head q := b], head := next_pos (head q)\<rparr>"

definition ring_get :: "intq \<Rightarrow> byte \<times> intq" where
  "ring_get q = (buf q ! tail q, q\<lparr>tail := next_pos (tail q)\<rparr>)"

lemma ring_put_ok:
  assumes "intq_ok q" "\<not> intq_full q"
  shows "intq_ok (ring_put b q)" "contents (ring_put b q) = contents q @ [b]"
proof -
  have h: "head q < length (buf q)" using assms(1) by (simp add: intq_ok_def)
  note n = slots_next [of "tail q" "head q"]
  show "intq_ok (ring_put b q)" using assms by (simp add: intq_ok_def ring_put_def)
  show "contents (ring_put b q) = contents q @ [b]"
    using assms n h unfolding intq_ok_def intq_full_def contents_def ring_put_def by (auto simp: nth_list_update INTQ_BUFSIZE_def)
qed

lemma ring_get_ok:
  assumes "intq_ok q" "\<not> intq_empty q"
  shows "intq_ok (snd (ring_get q))" "contents q = fst (ring_get q) # contents (snd (ring_get q))"
  using assms slots_tail [of "tail q" "head q"] by (auto simp: intq_ok_def intq_empty_def contents_def ring_get_def INTQ_BUFSIZE_def next_eq)

interpretation ring: byte_queue intq_ok contents ring_put ring_get "INTQ_BUFSIZE - 1"
proof
  show "intq_ok q \<Longrightarrow> length (contents q) < INTQ_BUFSIZE - 1 \<Longrightarrow> intq_ok (ring_put b q) \<and> contents (ring_put b q) = contents q @ [b]" for q b
    using ring_put_ok full_iff by auto
  show "intq_ok q \<Longrightarrow> contents q \<noteq> [] \<Longrightarrow> intq_ok (snd (ring_get q)) \<and> contents q = fst (ring_get q) # contents (snd (ring_get q))" for q
    using ring_get_ok empty_iff by blast
qed

end
