(* ===== verification/IntqProps.thy ===== *)
theory IntqProps
  imports Intq
begin

text \<open>
  The properties of the interrupt queue: bytes come out in the order they went in, no thread sleeps while it
  could go on, one thread at a time is safe, and two readers can panic the kernel.
\<close>

section \<open>Effect of the operations\<close>

lemma contents_upd [simp]:
  "contents (q\<lparr>qlock := l\<rparr>) = contents q" "contents (q\<lparr>not_full := l\<rparr>) = contents q" "contents (q\<lparr>not_empty := l\<rparr>) = contents q"
  "intq_ok (q\<lparr>qlock := l\<rparr>) = intq_ok q" "intq_ok (q\<lparr>not_full := l\<rparr>) = intq_ok q" "intq_ok (q\<lparr>not_empty := l\<rparr>) = intq_ok q"
  "intq_empty (q\<lparr>qlock := l\<rparr>) = intq_empty q" "intq_empty (q\<lparr>not_full := l\<rparr>) = intq_empty q" "intq_empty (q\<lparr>not_empty := l\<rparr>) = intq_empty q"
  "intq_full (q\<lparr>qlock := l\<rparr>) = intq_full q" "intq_full (q\<lparr>not_full := l\<rparr>) = intq_full q" "intq_full (q\<lparr>not_empty := l\<rparr>) = intq_full q"
  by (simp_all add: contents_def intq_ok_def intq_empty_def intq_full_def)

lemma at_simps [simp]: "que (at t x s) = que s" "spot (at t x s) = (spot s)(t := x)"
  by (simp_all add: at_def)

lemma wake_simps [simp]: "que (wake w s) = que s" "spot (wake w s) = (case w of None \<Rightarrow> spot s | Some t \<Rightarrow> (spot s)(t := woken (spot s t)))"
  by (auto simp: wake_def split: option.splits)

lemma quiet_Some [simp]: "quiet r = Some (m, s) \<longleftrightarrow> m = Quiet \<and> r = Some s" "Some (m, s) = quiet r \<longleftrightarrow> m = Quiet \<and> r = Some s"
  "quiet r = None \<longleftrightarrow> r = None" "None = quiet r \<longleftrightarrow> r = None"
  by (cases r; auto simp: quiet_def)+

lemma intq_init_ok: "length (buf q) = INTQ_BUFSIZE \<Longrightarrow> intq_ok (intq_init q) \<and> contents (intq_init q) = []"
  by (simp add: intq_ok_def intq_init_def contents_def slots_gap gap_def INTQ_BUFSIZE_def)

lemma take_byte_ok:
  assumes "intq_ok q" "\<not> intq_empty q"
  shows "\<exists>q'. take_byte q = Some (fst (ring_get q), not_full q, q'\<lparr>not_full := None\<rparr>) \<and> q' = snd (ring_get q) \<and> intq_ok q' \<and>
    contents q = fst (ring_get q) # contents q' \<and> \<not> intq_full q' \<and> qlock q' = qlock q \<and> not_empty q' = not_empty q \<and> not_full q' = not_full q"
proof -
  let ?q = "snd (ring_get q)"
  note r = ring_get_ok [OF assms]
  have "\<not> intq_full ?q" using full_iff [OF r(1)] contents_bounded [OF assms(1)] r(2) by (simp add: INTQ_BUFSIZE_def)
  then show ?thesis using r by (intro exI [of _ ?q]) (simp add: take_byte_def signal_not_full_def ring_get_def Let_def)
qed

lemma add_byte_ok:
  assumes "intq_ok q" "\<not> intq_full q"
  shows "\<exists>q'. add_byte b q = Some (not_empty q, q'\<lparr>not_empty := None\<rparr>) \<and> intq_ok q' \<and>
    contents q' = contents q @ [b] \<and> \<not> intq_empty q' \<and> qlock q' = qlock q \<and> not_empty q' = not_empty q \<and> not_full q' = not_full q"
proof -
  let ?q = "ring_put b q"
  note r = ring_put_ok [OF assms, of b]
  have "\<not> intq_empty ?q" using empty_iff [OF r(1)] r(2) by simp
  then show ?thesis using r by (intro exI [of _ ?q]) (simp add: add_byte_def signal_not_empty_def ring_put_def)
qed

lemma getc_cases:
  assumes ok: "intq_ok (que s)"
  obtains (sleep) "intq_empty (que s)" "\<not> intr" "intq_getc intr t s = quiet (get_sleep t s)"
  | (panic) "intq_empty (que s)" intr "intq_getc intr t s = None"
  | (byte) c q' where "\<not> intq_empty (que s)" "intq_ok q'" "contents (que s) = c # contents q'" "\<not> intq_full q'"
      "qlock q' = qlock (que s)" "not_empty q' = not_empty (que s)"
      "intq_getc intr t s = Some (Taken c, wake (not_full (que s)) (if intr then s\<lparr>que := q'\<lparr>not_full := None\<rparr>\<rparr> else at t Away (s\<lparr>que := q'\<lparr>not_full := None\<rparr>\<rparr>)))"
proof (cases "intq_empty (que s)")
  case True
  then show ?thesis using sleep panic by (cases intr) (simp_all add: intq_getc_def)
next
  case False
  obtain q' where "take_byte (que s) = Some (fst (ring_get (que s)), not_full (que s), q'\<lparr>not_full := None\<rparr>)" "intq_ok q'"
    "contents (que s) = fst (ring_get (que s)) # contents q'" "\<not> intq_full q'" "qlock q' = qlock (que s)" "not_empty q' = not_empty (que s)"
    using take_byte_ok [OF ok False] by blast
  then show ?thesis using byte [of q' "fst (ring_get (que s))"] False by (simp add: intq_getc_def Let_def)
qed

lemma putc_cases:
  assumes ok: "intq_ok (que s)"
  obtains (sleep) "intq_full (que s)" "\<not> intr" "intq_putc intr t b s = quiet (put_sleep t b s)"
  | (panic) "intq_full (que s)" intr "intq_putc intr t b s = None"
  | (byte) q' where "\<not> intq_full (que s)" "intq_ok q'" "contents q' = contents (que s) @ [b]" "\<not> intq_empty q'"
      "qlock q' = qlock (que s)" "not_full q' = not_full (que s)"
      "intq_putc intr t b s = Some (Added b, wake (not_empty (que s)) (if intr then s\<lparr>que := q'\<lparr>not_empty := None\<rparr>\<rparr> else at t Away (s\<lparr>que := q'\<lparr>not_empty := None\<rparr>\<rparr>)))"
proof (cases "intq_full (que s)")
  case True
  then show ?thesis using sleep panic by (cases intr) (simp_all add: intq_putc_def)
next
  case False
  obtain q' where "add_byte b (que s) = Some (not_empty (que s), q'\<lparr>not_empty := None\<rparr>)" "intq_ok q'"
    "contents q' = contents (que s) @ [b]" "\<not> intq_empty q'" "qlock q' = qlock (que s)" "not_full q' = not_full (que s)"
    using add_byte_ok [OF ok False] by blast
  then show ?thesis using byte [of q'] False by (simp add: intq_putc_def Let_def)
qed

section \<open>Invariants\<close>

fun holds :: "place \<Rightarrow> bool" where
  "holds Get_asleep = True"
| "holds Get_woken = True"
| "holds (Put_asleep _) = True"
| "holds (Put_woken _) = True"
| "holds _ = False"

fun put_sleeps :: "place \<Rightarrow> bool" where
  "put_sleeps (Put_asleep _) = True"
| "put_sleeps _ = False"

text \<open>The lock and the waiters are those of the threads, and a thread sleeps only for a reason.\<close>

definition queue_inv :: "qsys \<Rightarrow> bool" where
  "queue_inv s \<longleftrightarrow> intq_ok (que s) \<and> (\<forall>t. qlock (que s) = Some t \<longleftrightarrow> holds (spot s t)) \<and>
     (\<forall>t. not_empty (que s) = Some t \<longleftrightarrow> spot s t = Get_asleep) \<and>
     (\<forall>t. not_full (que s) = Some t \<longleftrightarrow> put_sleeps (spot s t)) \<and>
     (\<forall>t. spot s t = Get_asleep \<longrightarrow> intq_empty (que s)) \<and> (\<forall>t. put_sleeps (spot s t) \<longrightarrow> intq_full (que s))"

fun effect :: "move \<Rightarrow> byte list \<Rightarrow> byte list \<Rightarrow> bool" where
  "effect Quiet xs ys \<longleftrightarrow> ys = xs"
| "effect (Taken c) xs ys \<longleftrightarrow> xs = c # ys"
| "effect (Added b) xs ys \<longleftrightarrow> ys = xs @ [b]"

lemma not_both: "intq_ok q \<Longrightarrow> intq_empty q \<Longrightarrow> \<not> intq_full q"
  using full_iff [of q] empty_iff [of q] by (auto simp: INTQ_BUFSIZE_def)

lemma place_woken: "woken x = Get_asleep \<longleftrightarrow> False" "put_sleeps (woken x) \<longleftrightarrow> False" "holds (woken x) = holds x"
  by (cases x; simp)+

lemma get_sleep_inv:
  assumes inv: "queue_inv s" and nh: "\<not> holds (spot s t)" and g: "get_sleep t s = Some s'"
  shows "queue_inv s' \<and> contents (que s') = contents (que s)"
proof (cases "qlock (que s)")
  case (Some u)
  then have "s' = at t Get_lock s" using g by (auto simp: get_sleep_def split: if_splits)
  moreover have "put_sleeps (spot s t) = False" "spot s t \<noteq> Get_asleep" using nh by (cases "spot s t"; simp)+
  ultimately show ?thesis using inv nh unfolding queue_inv_def by (auto; metis)
next
  case None
  then have s': "intq_empty (que s)" "s' = at t Get_asleep (s\<lparr>que := (que s)\<lparr>qlock := Some t, not_empty := Some t\<rparr>\<rparr>)"
    using g by (auto simp: get_sleep_def wait_not_empty_def split: if_splits)
  have "\<not> holds (spot s u)" for u using inv None by (auto simp: queue_inv_def)
  then have "\<not> put_sleeps (spot s u)" "spot s u \<noteq> Get_asleep" for u by (metis holds.simps(3) put_sleeps.elims(2), metis holds.simps(1))
  then show ?thesis using inv s' \<open>\<And>u. \<not> holds (spot s u)\<close> unfolding queue_inv_def by auto
qed

lemma put_sleep_inv:
  assumes inv: "queue_inv s" and nh: "\<not> holds (spot s t)" and g: "put_sleep t b s = Some s'"
  shows "queue_inv s' \<and> contents (que s') = contents (que s)"
proof (cases "qlock (que s)")
  case (Some u)
  then have "s' = at t (Put_lock b) s" using g by (auto simp: put_sleep_def split: if_splits)
  moreover have "put_sleeps (spot s t) = False" "spot s t \<noteq> Get_asleep" using nh by (cases "spot s t"; simp)+
  ultimately show ?thesis using inv nh unfolding queue_inv_def by (auto; metis)
next
  case None
  then have s': "intq_full (que s)" "s' = at t (Put_asleep b) (s\<lparr>que := (que s)\<lparr>qlock := Some t, not_full := Some t\<rparr>\<rparr>)"
    using g by (auto simp: put_sleep_def wait_not_full_def split: if_splits)
  have "\<not> holds (spot s u)" for u using inv None by (auto simp: queue_inv_def)
  then have "\<not> put_sleeps (spot s u)" "spot s u \<noteq> Get_asleep" for u by (metis holds.simps(3) put_sleeps.elims(2), metis holds.simps(1))
  then show ?thesis using inv s' \<open>\<And>u. \<not> holds (spot s u)\<close> unfolding queue_inv_def by auto
qed

lemma getc_inv:
  assumes inv: "queue_inv s" and nh: "intr \<or> \<not> holds (spot s t)" and g: "intq_getc intr t s = Some (m, s')"
  shows "queue_inv s' \<and> effect m (contents (que s)) (contents (que s'))"
proof -
  have ok: "intq_ok (que s)" using inv by (simp add: queue_inv_def)
  from ok show ?thesis
  proof (cases rule: getc_cases [of s intr t])
    case sleep
    then show ?thesis using get_sleep_inv [OF inv, of t s'] nh g by auto
  next
    case panic
    then show ?thesis using g by simp
  next
    case (byte c q')
    have na: "spot s u \<noteq> Get_asleep" for u using inv byte(1) by (auto simp: queue_inv_def)
    then have ne: "not_empty (que s) = None" using inv by (cases "not_empty (que s)") (auto simp: queue_inv_def)
    have s': "m = Taken c" "s' = wake (not_full (que s)) (if intr then s\<lparr>que := q'\<lparr>not_full := None\<rparr>\<rparr> else at t Away (s\<lparr>que := q'\<lparr>not_full := None\<rparr>\<rparr>))"
      using byte(7) g by simp_all
    have w: "put_sleeps (spot s u) \<longleftrightarrow> not_full (que s) = Some u" "holds (spot s u) \<longleftrightarrow> qlock (que s) = Some u" for u
      using inv by (simp_all add: queue_inv_def)
    have ps: "put_sleeps (spot s u) \<Longrightarrow> holds (spot s u)" for u by (cases "spot s u") auto
    show ?thesis using byte s'(1) na ne w ps nh unfolding s'(2) queue_inv_def
      by (cases "not_full (que s)") (auto simp: place_woken)
  qed
qed

lemma putc_inv:
  assumes inv: "queue_inv s" and nh: "intr \<or> \<not> holds (spot s t)" and g: "intq_putc intr t b s = Some (m, s')"
  shows "queue_inv s' \<and> effect m (contents (que s)) (contents (que s'))"
proof -
  have ok: "intq_ok (que s)" using inv by (simp add: queue_inv_def)
  from ok show ?thesis
  proof (cases rule: putc_cases [of s intr t b])
    case sleep
    then show ?thesis using put_sleep_inv [OF inv, of t b s'] nh g by auto
  next
    case panic
    then show ?thesis using g by simp
  next
    case (byte q')
    have na: "\<not> put_sleeps (spot s u)" for u using inv byte(1) by (auto simp: queue_inv_def)
    then have ne: "not_full (que s) = None" using inv by (cases "not_full (que s)") (auto simp: queue_inv_def)
    have s': "m = Added b" "s' = wake (not_empty (que s)) (if intr then s\<lparr>que := q'\<lparr>not_empty := None\<rparr>\<rparr> else at t Away (s\<lparr>que := q'\<lparr>not_empty := None\<rparr>\<rparr>))"
      using byte(7) g by simp_all
    have w: "spot s u = Get_asleep \<longleftrightarrow> not_empty (que s) = Some u" "holds (spot s u) \<longleftrightarrow> qlock (que s) = Some u" for u
      using inv by (simp_all add: queue_inv_def)
    show ?thesis using byte s'(1) na ne w nh unfolding s'(2) queue_inv_def
      by (cases "not_empty (que s)") (auto simp: place_woken)
  qed
qed

lemma release_inv:
  assumes inv: "queue_inv s" and x: "spot s t = Get_woken \<and> x = Get_again \<or> (\<exists>b. spot s t = Put_woken b \<and> x = Put_again b)"
    and r: "release_lock t x s = Some s'"
  shows "queue_inv s' \<and> contents (que s') = contents (que s)"
proof -
  have l: "qlock (que s) = Some t" and s': "s' = at t x (s\<lparr>que := (que s)\<lparr>qlock := None\<rparr>\<rparr>)"
    using r by (auto simp: release_lock_def split: if_splits)
  have h: "holds (spot s u) \<longleftrightarrow> u = t" for u using inv l by (auto simp: queue_inv_def)
  have nx: "\<not> holds x" "\<not> put_sleeps x" "x \<noteq> Get_asleep" "\<not> put_sleeps (spot s t)" "spot s t \<noteq> Get_asleep" using x by auto
  show ?thesis using inv h nx unfolding s' queue_inv_def by auto
qed

lemma qstep_inv:
  assumes inv: "queue_inv s" and st: "qstep t s (Some (m, s'))"
  shows "queue_inv s' \<and> effect m (contents (que s)) (contents (que s'))"
  using st
proof (cases rule: qstep.cases)
  case get
  show ?thesis by (rule getc_inv [OF inv]) (use get in auto)
next
  case get_locked
  then show ?thesis using get_sleep_inv [OF inv, of t s'] by auto
next
  case get_woken
  then show ?thesis using release_inv [OF inv, of t Get_again s'] by auto
next
  case get_again
  show ?thesis by (rule getc_inv [OF inv]) (use get_again in auto)
next
  case (put b)
  show ?thesis by (rule putc_inv [OF inv]) (use put in auto)
next
  case (put_locked b)
  then show ?thesis using put_sleep_inv [OF inv, of t b s'] by auto
next
  case (put_woken b)
  then show ?thesis using release_inv [OF inv, of t "Put_again b" s'] by auto
next
  case (put_again b)
  show ?thesis by (rule putc_inv [OF inv]) (use put_again in auto)
next
  case intr_get
  show ?thesis by (rule getc_inv [OF inv]) (use intr_get in auto)
next
  case (intr_put b)
  show ?thesis by (rule putc_inv [OF inv]) (use intr_put in auto)
qed

text \<open>The bytes added and taken in a history.\<close>

fun added :: "move list \<Rightarrow> byte list" where
  "added [] = []"
| "added (Added b # ms) = added ms @ [b]"
| "added (_ # ms) = added ms"

fun taken :: "move list \<Rightarrow> byte list" where
  "taken [] = []"
| "taken (Taken c # ms) = taken ms @ [c]"
| "taken (_ # ms) = taken ms"

lemma qrun_inv:
  assumes "qrun T q0 ms s" "length (buf q0) = INTQ_BUFSIZE"
  shows "queue_inv s \<and> added ms = taken ms @ contents (que s)"
  using assms
proof induction
  case qrun_init
  then show ?case using intq_init_ok [of q0] by (auto simp: queue_inv_def intq_init_def)
next
  case (qrun_step ms s t m s')
  then have i: "queue_inv s" "added ms = taken ms @ contents (que s)" by simp_all
  from qstep_inv [OF i(1) qrun_step.hyps(3)] i(2) show ?case by (cases m) auto
qed


section \<open>One thread\<close>

text \<open>With one thread the lock is never contended.\<close>

definition alone :: "nat \<Rightarrow> qsys \<Rightarrow> bool" where
  "alone t s \<longleftrightarrow> queue_inv s \<and> (\<forall>u. u \<noteq> t \<longrightarrow> spot s u = Away) \<and> spot s t \<noteq> Get_lock \<and> (\<forall>b. spot s t \<noteq> Put_lock b)"

lemma alone_lock: "alone t s \<Longrightarrow> qlock (que s) = None \<or> qlock (que s) = Some t"
  unfolding alone_def queue_inv_def by (metis holds.simps(5) not_None_eq)

lemma alone_free:
  assumes "alone t s" "\<not> holds (spot s t)"
  shows "qlock (que s) = None"
  using alone_lock [OF assms(1)] assms by (auto simp: alone_def queue_inv_def)

lemma alone_wake:
  assumes "alone t s" "w = not_full (que s) \<or> w = not_empty (que s)"
  shows "w = None \<or> w = Some t"
proof (cases w)
  case (Some u)
  then have "put_sleeps (spot s u) \<or> spot s u = Get_asleep" using assms by (auto simp: alone_def queue_inv_def)
  then show ?thesis using assms(1) Some by (cases "u = t") (auto simp: alone_def)
qed simp

lemma woken_no_lock: "woken x = Get_lock \<longleftrightarrow> x = Get_lock" "woken x = Put_lock b \<longleftrightarrow> x = Put_lock b"
  by (cases x; simp)+

lemma get_alone:
  assumes a: "alone t s" and n: "\<not> holds (spot s t)"
  shows "\<exists>m s'. intq_getc False t s = Some (m, s') \<and> alone t s'"
proof -
  have inv: "queue_inv s" and ok: "intq_ok (que s)" using a by (auto simp: alone_def queue_inv_def)
  note l = alone_free [OF a n]
  from ok show ?thesis
  proof (cases rule: getc_cases [of s False t])
    case sleep
    obtain s' where s': "get_sleep t s = Some s'" "\<forall>u. u \<noteq> t \<longrightarrow> spot s' u = spot s u" "spot s' t = Get_asleep"
      using l sleep(1) by (auto simp: get_sleep_def wait_not_empty_def)
    then show ?thesis using sleep(3) get_sleep_inv [OF inv n s'(1)] a by (auto simp: alone_def)
  next
    case (byte c q')
    note i = getc_inv [OF inv _ byte(7)]
    show ?thesis using byte(7) i n a alone_wake [OF a, of "not_full (que s)"]
      unfolding alone_def by (auto simp: woken_no_lock)
  qed simp
qed

lemma put_alone:
  assumes a: "alone t s" and n: "\<not> holds (spot s t)"
  shows "\<exists>m s'. intq_putc False t b s = Some (m, s') \<and> alone t s'"
proof -
  have inv: "queue_inv s" and ok: "intq_ok (que s)" using a by (auto simp: alone_def queue_inv_def)
  note l = alone_free [OF a n]
  from ok show ?thesis
  proof (cases rule: putc_cases [of s False t b])
    case sleep
    obtain s' where s': "put_sleep t b s = Some s'" "\<forall>u. u \<noteq> t \<longrightarrow> spot s' u = spot s u" "spot s' t = Put_asleep b"
      using l sleep(1) by (auto simp: put_sleep_def wait_not_full_def)
    then show ?thesis using sleep(3) put_sleep_inv [OF inv n s'(1)] a by (auto simp: alone_def)
  next
    case (byte q')
    note i = putc_inv [OF inv _ byte(7)]
    show ?thesis using byte(7) i n a alone_wake [OF a, of "not_empty (que s)"]
      unfolding alone_def by (auto simp: woken_no_lock)
  qed simp
qed

lemma intr_alone:
  assumes a: "alone t s" and r: "\<not> intq_empty (que s) \<and> r = intq_getc True t s \<or> \<not> intq_full (que s) \<and> r = intq_putc True t b s"
  shows "\<exists>m s'. r = Some (m, s') \<and> alone t s'"
proof -
  have inv: "queue_inv s" and ok: "intq_ok (que s)" using a by (auto simp: alone_def queue_inv_def)
  from r show ?thesis
  proof
    assume g: "\<not> intq_empty (que s) \<and> r = intq_getc True t s"
    from ok show ?thesis
    proof (cases rule: getc_cases [of s True t])
      case (byte c q')
      show ?thesis using byte(7) g getc_inv [OF inv _ byte(7)] a alone_wake [OF a, of "not_full (que s)"]
        unfolding alone_def by (auto simp: woken_no_lock)
    qed (use g in simp_all)
  next
    assume g: "\<not> intq_full (que s) \<and> r = intq_putc True t b s"
    from ok show ?thesis
    proof (cases rule: putc_cases [of s True t b])
      case (byte q')
      show ?thesis using byte(7) g putc_inv [OF inv _ byte(7)] a alone_wake [OF a, of "not_empty (que s)"]
        unfolding alone_def by (auto simp: woken_no_lock)
    qed (use g in simp_all)
  qed
qed

lemma release_alone:
  assumes a: "alone t s" and x: "spot s t = Get_woken \<and> x = Get_again \<or> (\<exists>b. spot s t = Put_woken b \<and> x = Put_again b)"
  shows "\<exists>s'. release_lock t x s = Some s' \<and> alone t s'"
proof -
  have inv: "queue_inv s" using a by (simp add: alone_def)
  have "holds (spot s t)" using x by auto
  then have l: "qlock (que s) = Some t" using inv by (simp add: queue_inv_def)
  then obtain s' where s': "release_lock t x s = Some s'" "s' = at t x (s\<lparr>que := (que s)\<lparr>qlock := None\<rparr>\<rparr>)" by (simp add: release_lock_def)
  show ?thesis using s' release_inv [OF inv x s'(1)] a x by (auto simp: alone_def)
qed

lemma qstep_alone:
  assumes a: "alone t s" and st: "qstep t s r"
  shows "\<exists>m s'. r = Some (m, s') \<and> alone t s'"
  using st
proof (cases rule: qstep.cases)
  case get
  then show ?thesis using get_alone [OF a] by simp
next
  case get_locked
  then show ?thesis using a by (simp add: alone_def)
next
  case get_woken
  then show ?thesis using release_alone [OF a, of Get_again] by (auto simp: quiet_def)
next
  case get_again
  then show ?thesis using get_alone [OF a] by simp
next
  case (put b)
  then show ?thesis using put_alone [OF a] by simp
next
  case (put_locked b)
  then show ?thesis using a by (simp add: alone_def)
next
  case (put_woken b)
  then show ?thesis using release_alone [OF a, of "Put_again b"] by (auto simp: quiet_def)
next
  case (put_again b)
  then show ?thesis using put_alone [OF a] by simp
next
  case intr_get
  then show ?thesis using intr_alone [OF a] by blast
next
  case (intr_put b)
  then show ?thesis using intr_alone [OF a] by blast
qed

lemma qrun_alone:
  assumes "qrun {t} q0 ms s" "length (buf q0) = INTQ_BUFSIZE"
  shows "alone t s"
  using assms
proof induction
  case qrun_init
  then show ?case using intq_init_ok [of q0] by (auto simp: alone_def queue_inv_def intq_init_def)
next
  case (qrun_step ms s u m s')
  then show ?case using qstep_alone [of t s "Some (m, s')"] by auto
qed

section \<open>Properties\<close>

definition demo_q :: intq where
  "demo_q = intq_init \<lparr>qlock = None, not_full = None, not_empty = None, buf = replicate 64 0, head = 0, tail = 0\<rparr>"


lemmas queue_eval = demo_q_def intq_init_def intq_empty_def intq_full_def next_pos_def INTQ_BUFSIZE_def get_sleep_def wait_not_empty_def
  intq_getc_def intq_putc_def take_byte_def add_byte_def signal_not_full_def signal_not_empty_def release_lock_def at_def wake_def quiet_def Let_def

text \<open>Thread 2 sleeps in \<^verbatim>\<open>intq_getc\<close> with the lock, thread 3 waits for it; two bytes come in and thread 2 takes one.\<close>

lemma two_readers:
  "\<exists>ms s. qrun {2, 3} demo_q ms s \<and> spot s 3 = Get_lock \<and> qlock (que s) = None \<and> \<not> intq_empty (que s) \<and>
     added ms = [97, 98] \<and> taken ms = [97]"
proof -
  let ?q = "\<lambda>l e bs h t. \<lparr>qlock = l, not_full = None, not_empty = e, buf = bs, head = h, tail = t\<rparr>"
  let ?z = "replicate 64 (0 :: byte)"
  let ?s = "\<lambda>q x y. \<lparr>que = q, spot = (\<lambda>_. Away)(2 := x, 3 := y)\<rparr>"
  have sw: "(f :: nat \<Rightarrow> place)(3 := y, 2 := x) = f(2 := x, 3 := y)" for f x y by (simp add: fun_upd_twist)
  have 0: "qrun {2, 3} demo_q [] (?s (?q None None ?z 0 0) Away Away)"
    using qrun_init [of "{2, 3}" demo_q] by (simp add: demo_q_def intq_init_def fun_upd_idem)
  have 1: "qrun {2, 3} demo_q [Quiet] (?s (?q (Some 2) (Some 2) ?z 0 0) Get_asleep Away)"
    by (rule qrun_step [OF 0, of 2], simp, rule back_subst [of "qstep 2 _", OF get]) (simp_all add: queue_eval sw)
  have 2: "qrun {2, 3} demo_q [Quiet, Quiet] (?s (?q (Some 2) (Some 2) ?z 0 0) Get_asleep Get_lock)"
    by (rule qrun_step [OF 1, of 3], simp, rule back_subst [of "qstep 3 _", OF get]) (simp_all add: queue_eval sw)
  have 3: "qrun {2, 3} demo_q [Added 97, Quiet, Quiet] (?s (?q (Some 2) None (?z[0 := 97]) 1 0) Get_woken Get_lock)"
    by (rule qrun_step [OF 2, of 2], simp, rule back_subst [of "qstep 2 _", OF intr_put [of _ _ 97]]) (simp_all add: queue_eval sw)
  have 4: "qrun {2, 3} demo_q [Added 98, Added 97, Quiet, Quiet] (?s (?q (Some 2) None (?z[0 := 97, 1 := 98]) 2 0) Get_woken Get_lock)"
    by (rule qrun_step [OF 3, of 2], simp, rule back_subst [of "qstep 2 _", OF intr_put [of _ _ 98]]) (simp_all add: queue_eval sw)
  have 5: "qrun {2, 3} demo_q [Quiet, Added 98, Added 97, Quiet, Quiet] (?s (?q None None (?z[0 := 97, 1 := 98]) 2 0) Get_again Get_lock)"
    by (rule qrun_step [OF 4, of 2], simp, rule back_subst [of "qstep 2 _", OF get_woken]) (simp_all add: queue_eval sw)
  have 6: "qrun {2, 3} demo_q [Taken 97, Quiet, Added 98, Added 97, Quiet, Quiet] (?s (?q None None (?z[0 := 97, 1 := 98]) 2 1) Away Get_lock)"
    by (rule qrun_step [OF 5, of 2], simp, rule back_subst [of "qstep 2 _", OF get_again]) (simp_all add: queue_eval sw)
  show ?thesis by (intro exI conjI, rule 6) (simp_all add: intq_empty_def)
qed




text \<open>C27: Two readers can panic the kernel: the second one waits for the lock while the first one sleeps; when two
  bytes have come in and the first reader has taken one, the second reader gets the lock and \<open>wait\<close> asserts that
  the queue is empty, which was tested before the lock was taken.\<close>

theorem intq_two_readers_panic:
  "\<exists>ms s. qrun {2, 3} demo_q ms s \<and> length (contents (que s)) = 1 \<and> qstep 3 s None"
proof -
  obtain ms s where r: "qrun {2, 3} demo_q ms s" "spot s 3 = Get_lock" "qlock (que s) = None" "\<not> intq_empty (que s)"
    "added ms = [97, 98]" "taken ms = [97]" using two_readers by blast
  have "length (buf demo_q) = INTQ_BUFSIZE" by (simp add: demo_q_def intq_init_def INTQ_BUFSIZE_def)
  from qrun_inv [OF r(1) this] r(5,6) have "contents (que s) = [98]" by simp
  then have c: "length (contents (que s)) = 1" by simp
  have "get_sleep 3 s = None" using r by (simp add: get_sleep_def wait_not_empty_def intq_empty_def)
  then have "qstep 3 s None" using get_locked [of s 3] r by (simp add: quiet_def)
  with r(1) c show ?thesis by blast
qed

end
