(* ===== verification/Ustar.thy ===== *)
theory Ustar
  imports Stdio
begin

text \<open>
  \<^verbatim>\<open>lib/ustar.c\<close>: headers of tar archives, read and written by \<^verbatim>\<open>fsutil.c\<close>. A header is 512 bytes; its fields
  are lists of bytes of fixed length. A string is the list of its bytes without the terminator.
\<close>

section \<open>The header\<close>

definition USTAR_HEADER_SIZE :: nat where "USTAR_HEADER_SIZE = 512"

datatype ustar_type = USTAR_REGULAR | USTAR_DIRECTORY | USTAR_EOF

fun type_byte :: "ustar_type \<Rightarrow> byte" where
  "type_byte USTAR_REGULAR = asc CHR ''0''"
| "type_byte USTAR_DIRECTORY = asc CHR ''5''"
| "type_byte USTAR_EOF = - 1"

record ustar_header =
  uh_name :: "byte list"
  uh_mode :: "byte list"
  uh_uid :: "byte list"
  uh_gid :: "byte list"
  uh_size :: "byte list"
  uh_mtime :: "byte list"
  uh_chksum :: "byte list"
  uh_typeflag :: byte
  uh_linkname :: "byte list"
  uh_magic :: "byte list"
  uh_version :: "byte list"
  uh_uname :: "byte list"
  uh_gname :: "byte list"
  uh_devmajor :: "byte list"
  uh_devminor :: "byte list"
  uh_prefix :: "byte list"
  uh_padding :: "byte list"

text \<open>The bytes of a header: those in front of the checksum, the checksum, and those behind it.\<close>

definition head_bytes :: "ustar_header \<Rightarrow> byte list" where
  "head_bytes h = uh_name h @ uh_mode h @ uh_uid h @ uh_gid h @ uh_size h @ uh_mtime h"

definition tail_bytes :: "ustar_header \<Rightarrow> byte list" where
  "tail_bytes h = uh_typeflag h # uh_linkname h @ uh_magic h @ uh_version h @ uh_uname h @ uh_gname h @ uh_devmajor h @
     uh_devminor h @ uh_prefix h @ uh_padding h"

definition header_bytes :: "ustar_header \<Rightarrow> byte list" where
  "header_bytes h = head_bytes h @ uh_chksum h @ tail_bytes h"

definition sub :: "nat \<Rightarrow> nat \<Rightarrow> byte list \<Rightarrow> byte list" where
  "sub ofs n bs = take n (drop ofs bs)"

definition header_at :: "byte list \<Rightarrow> ustar_header" where
  "header_at bs = \<lparr>uh_name = sub 0 100 bs, uh_mode = sub 100 8 bs, uh_uid = sub 108 8 bs, uh_gid = sub 116 8 bs,
     uh_size = sub 124 12 bs, uh_mtime = sub 136 12 bs, uh_chksum = sub 148 8 bs, uh_typeflag = bs ! 156,
     uh_linkname = sub 157 100 bs, uh_magic = sub 257 6 bs, uh_version = sub 263 2 bs, uh_uname = sub 265 32 bs,
     uh_gname = sub 297 32 bs, uh_devmajor = sub 329 8 bs, uh_devminor = sub 337 8 bs, uh_prefix = sub 345 155 bs,
     uh_padding = sub 500 12 bs\<rparr>"

text \<open>The checksum takes its own field for spaces.\<close>

definition calculate_chksum :: "byte list \<Rightarrow> u32" where
  "calculate_chksum header =
     fold (\<lambda>i chksum. chksum + (if i \<ge> 148 \<and> i < 156 then ucast (asc CHR '' '') else ucast (header ! i))) [0..<USTAR_HEADER_SIZE] 0"

section \<open>Names\<close>

definition starts :: "string \<Rightarrow> byte list \<Rightarrow> bool" where
  "starts p s \<longleftrightarrow> take (length p) s = ascs p"

function strip_loop :: "byte list \<Rightarrow> byte list" where
  "strip_loop s =
     (if starts ''/'' s \<or> starts ''./'' s \<or> starts ''../'' s then strip_loop (tl (dropWhile (\<lambda>c. c \<noteq> asc CHR ''/'') s)) else s)"
  by auto
termination
proof (relation "measure length")
  fix s assume "starts ''/'' s \<or> starts ''./'' s \<or> starts ''../'' s"
  then have "s \<noteq> []" by (auto simp: starts_def ascs_def)
  then have "length (tl (dropWhile (\<lambda>c. c \<noteq> asc CHR ''/'') s)) < length s"
    using length_dropWhile_le [of "\<lambda>c. c \<noteq> asc CHR ''/''" s] by (cases s) (simp_all add: less_Suc_eq_le)
  then show "(tl (dropWhile (\<lambda>c. c \<noteq> asc CHR ''/'') s), s) \<in> measure length" by simp
qed simp

declare strip_loop.simps [simp del]

definition strip_antisocial_prefixes :: "byte list \<Rightarrow> byte list" where
  "strip_antisocial_prefixes file_name =
     (let s = strip_loop file_name in if s = [] \<or> s = ascs ''..'' then ascs ''.'' else s)"

section \<open>Making a header\<close>

text \<open>A string copied into a field of zeros.\<close>

definition into_field :: "nat \<Rightarrow> byte list \<Rightarrow> byte list" where
  "into_field n s = take (n - 1) s @ replicate (n - length (take (n - 1) s)) 0"

text \<open>What \<^verbatim>\<open>snprintf\<close> prints for \<^verbatim>\<open>%07o\<close> and \<^verbatim>\<open>%011o\<close>.\<close>

definition octal :: "int \<Rightarrow> u32 \<Rightarrow> byte list" where
  "octal w v = format_integer (ucast v) False False base_o (plain_conversion\<lparr>flags := ZERO, width := w\<rparr>)"

definition ustar_fill :: "byte list \<Rightarrow> ustar_type \<Rightarrow> u32 \<Rightarrow> ustar_header" where
  "ustar_fill name ty sz =
     \<lparr>uh_name = into_field 100 name,
      uh_mode = into_field 8 (octal 7 (if ty = USTAR_REGULAR then 420 else 493)),
      uh_uid = into_field 8 (ascs ''0000000''), uh_gid = into_field 8 (ascs ''0000000''),
      uh_size = into_field 12 (octal 11 sz), uh_mtime = into_field 12 (octal 11 1136102400),
      uh_chksum = replicate 8 0, uh_typeflag = type_byte ty, uh_linkname = replicate 100 0,
      uh_magic = into_field 6 (ascs ''ustar''), uh_version = ascs ''00'',
      uh_uname = into_field 32 (ascs ''root''), uh_gname = into_field 32 (ascs ''root''),
      uh_devmajor = replicate 8 0, uh_devminor = replicate 8 0, uh_prefix = replicate 155 0, uh_padding = replicate 12 0\<rparr>"

text \<open>\<open>None\<close> is a failed assertion, \<open>Some None\<close> a name that is too long.\<close>

definition ustar_make_header :: "byte list \<Rightarrow> ustar_type \<Rightarrow> u32 \<Rightarrow> byte list option option" where
  "ustar_make_header file_name ty sz = do {
     ASSERT (ty = USTAR_REGULAR \<or> ty = USTAR_DIRECTORY);
     let file_name = strip_antisocial_prefixes file_name;
     if length file_name > 99 then Some None
     else do {
       let h = ustar_fill file_name ty sz;
       let chksum = calculate_chksum (header_bytes h);
       Some (Some (header_bytes (h\<lparr>uh_chksum := into_field 8 (octal 7 chksum)\<rparr>))) } }"

section \<open>Parsing a header\<close>

fun octal_loop :: "byte list \<Rightarrow> nat \<Rightarrow> u32 \<Rightarrow> u32 option" where
  "octal_loop [] ofs v = None"
| "octal_loop (c # s) ofs v =
     (if asc CHR ''0'' \<le> c \<and> c \<le> asc CHR ''7'' then
        if v > 0xffffffff div 8 then None else octal_loop s (ofs + 1) (ucast (c - asc CHR ''0'') + v * 8)
      else if c = asc CHR '' '' \<or> c = 0 then if ofs > 0 then Some v else None
      else None)"

definition parse_octal_field :: "byte list \<Rightarrow> u32 option" where
  "parse_octal_field s = octal_loop s 0 0"

definition is_all_zeros :: "byte list \<Rightarrow> bool" where
  "is_all_zeros block = list_all (\<lambda>c. c = 0) block"

text \<open>The result is the message, or the name, the type and the size; the name is null at the end of an archive.\<close>

definition ustar_parse_header :: "byte list \<Rightarrow> string + byte list option \<times> ustar_type \<times> int" where
  "ustar_parse_header header =
     (let h = header_at header
      in if is_all_zeros header then Inr (None, USTAR_EOF, 0)
      else if uh_magic h \<noteq> ascs ''ustar'' @ [0] then Inl ''not a ustar archive''
      else if uh_version h ! 0 \<noteq> asc CHR ''0'' \<or> uh_version h ! 1 \<noteq> asc CHR ''0'' then Inl ''invalid ustar version''
      else case parse_octal_field (uh_chksum h) of None \<Rightarrow> Inl ''corrupt chksum field''
      | Some chksum \<Rightarrow>
          if chksum \<noteq> calculate_chksum header then Inl ''checksum mismatch''
          else if uh_name h ! 99 \<noteq> 0 \<or> uh_prefix h ! 0 \<noteq> 0 then Inl ''file name too long''
          else if uh_typeflag h \<noteq> type_byte USTAR_REGULAR \<and> uh_typeflag h \<noteq> type_byte USTAR_DIRECTORY
          then Inl ''unimplemented file type''
          else
            let name = strip_antisocial_prefixes (takeWhile (\<lambda>c. c \<noteq> 0) (uh_name h))
            in if uh_typeflag h = type_byte USTAR_REGULAR then
                 (case parse_octal_field (uh_size h) of None \<Rightarrow> Inl ''corrupt file size field''
                  | Some size_ul \<Rightarrow>
                      if uint size_ul > 0x7fffffff then Inl ''file too large''
                      else Inr (Some name, USTAR_REGULAR, uint size_ul))
               else Inr (Some name, USTAR_DIRECTORY, 0))"

section \<open>Octal numbers\<close>

fun nval :: "nat \<Rightarrow> byte list \<Rightarrow> nat" where
  "nval v [] = v"
| "nval v (d # ds) = nval (v * 8 + unat (d - asc CHR ''0'')) ds"

definition oct_digit :: "byte \<Rightarrow> bool" where
  "oct_digit d \<longleftrightarrow> asc CHR ''0'' \<le> d \<and> d \<le> asc CHR ''7''"

lemma nval_append: "nval v (xs @ ys) = nval (nval v xs) ys"
  by (induction xs arbitrary: v) auto

lemma nval_mono: "v \<le> nval v ds"
proof (induction ds arbitrary: v)
  case (Cons d ds)
  have "v \<le> v * 8 + unat (d - asc CHR ''0'')" by simp
  also have "\<dots> \<le> nval (v * 8 + unat (d - asc CHR ''0'')) ds" by (rule Cons.IH)
  finally show ?case by simp
qed simp

lemma octal_loop_digits:
  "list_all oct_digit ds \<Longrightarrow> nval (unat v) ds < 2 ^ 32 \<Longrightarrow>
     octal_loop (ds @ rest) ofs v = octal_loop rest (ofs + length ds) (of_nat (nval (unat v) ds))"
proof (induction ds arbitrary: ofs v)
  case (Cons d ds)
  let ?d = "d - asc CHR ''0''"
  have b: "unat v * 8 + unat ?d < 2 ^ 32" using nval_mono [of "unat v * 8 + unat ?d" ds] Cons.prems(2) by simp
  then have v: "\<not> v > 0xffffffff div 8" by (simp add: word_less_nat_alt unat_div)
  have u: "unat (ucast ?d + v * 8 :: u32) = unat v * 8 + unat ?d"
  proof -
    have "unat (v * 8) = unat v * 8" using b by (simp add: unat_mult_lem [THEN iffD1])
    moreover have "unat (ucast ?d :: u32) = unat ?d" by (simp add: unsigned_ucast_eq take_bit_nat_eq_self unsigned_less [THEN less_le_trans])
    ultimately show ?thesis using b unat_add_lem [of "ucast ?d :: u32" "v * 8"] by simp
  qed
  have "octal_loop ((d # ds) @ rest) ofs v = octal_loop (ds @ rest) (ofs + 1) (ucast ?d + v * 8)"
    using Cons.prems(1) v by (simp add: oct_digit_def)
  also have "\<dots> = octal_loop rest (ofs + 1 + length ds) (of_nat (nval (unat (ucast ?d + v * 8 :: u32)) ds))"
    by (rule Cons.IH) (use Cons.prems in \<open>simp_all add: u\<close>)
  finally show ?case by (simp add: u)
qed simp

lemma base_o_simps [simp]: "base base_o = 8" "base_x base_o = 0" "digits base_o = ascs ''01234567''"
  by (simp_all add: base_o_def)

lemma octal_digit:
  assumes "k < 8"
  shows "unat (digits base_o ! k - asc CHR ''0'') = k \<and> oct_digit (digits base_o ! k)"
proof -
  have "k = 0 \<or> k = 1 \<or> k = 2 \<or> k = 3 \<or> k = 4 \<or> k = 5 \<or> k = 6 \<or> k = 7" using assms by presburger
  then show ?thesis by (elim disjE) (simp_all add: ascs_def asc_def oct_digit_def)
qed

lemma octal_step:
  "v \<noteq> 0 \<Longrightarrow> digits_of base_o False n v = digits base_o ! unat (v mod 8) # digits_of base_o False (n + 1) (v div 8)"
  by (subst digits_of.simps) (simp add: word_le_nat_alt)

lemma octal_digits:
  "list_all oct_digit (digits_of base_o False n v) \<and> nval 0 (rev (digits_of base_o False n v)) = unat v"
proof (induction "unat v" arbitrary: n v rule: less_induct)
  case less
  show ?case
  proof (cases "v = 0")
    case False
    then have l: "unat (v div 8) < unat v" by (simp add: unat_div unat_gt_0)
    have m: "unat (v mod 8) < 8" by (simp add: unat_mod)
    have "unat (v div 8) * 8 + unat (v mod 8) = unat v" by (simp add: unat_div unat_mod)
    then show ?thesis using less.hyps [OF l, of "n + 1"] octal_digit [OF m] by (simp add: octal_step [OF False] nval_append)
  qed simp
qed

lemma octal_length: "unat v < 8 ^ k \<Longrightarrow> length (digits_of base_o False n v) \<le> k"
proof (induction k arbitrary: n v)
  case (Suc k)
  show ?case
  proof (cases "v = 0")
    case False
    have "unat (v div 8) < 8 ^ k" using Suc.prems by (simp add: unat_div less_mult_imp_div_less)
    then show ?thesis using Suc.IH [of "v div 8" "n + 1"] by (simp add: octal_step [OF False])
  qed simp
qed (simp add: unat_eq_zero)

lemma nval_zeros: "nval 0 (replicate n (asc CHR ''0'') @ ds) = nval 0 ds"
  by (induction n) (simp_all add: asc_def)

text \<open>An octal field is exactly as wide as its width and reads back.\<close>

lemma octal_ok:
  assumes "unat v < 8 ^ w" "0 < w" "w < 60"
  shows "length (octal (int w) v) = w" "list_all oct_digit (octal (int w) v)" "nval 0 (octal (int w) v) = unat v"
proof -
  let ?c = "plain_conversion\<lparr>flags := ZERO, width := int w\<rparr>"
  let ?d = "digits_of base_o False 0 (ucast v)"
  let ?b = "?d @ replicate (1 - length ?d) (asc CHR ''0'')"
  have u: "unat (ucast v :: u64) = unat v" by (simp add: unsigned_ucast_eq take_bit_nat_eq_self unsigned_less [THEN less_le_trans])
  have b: "integer_buf (ucast v) base_o ?c = ?b" by (simp add: integer_buf_def Let_def ZERO_def GROUP_def POUND_def)
  have l: "length ?b \<le> w" using octal_length [of "ucast v" w 0] assms by (simp add: u)
  have o: "octal (int w) v = replicate (w - length ?b) (asc CHR ''0'') @ rev ?b"
    unfolding octal_def format_integer_def b using l by (simp add: Let_def ZERO_def MINUS_def POUND_def nat_diff_distrib)
  show "length (octal (int w) v) = w" unfolding o using l by simp
  have z: "oct_digit (asc CHR ''0'')" by (simp add: oct_digit_def asc_def)
  show "list_all oct_digit (octal (int w) v)" unfolding o using octal_digits [of 0 "ucast v"] z by (auto simp: list_all_iff)
  have e: "rev ?b = replicate (1 - length ?d) (asc CHR ''0'') @ rev ?d" by simp
  show "nval 0 (octal (int w) v) = unat v" unfolding o nval_zeros e nval_zeros using octal_digits [of 0 "ucast v"] u by simp
qed

lemma octal_field:
  assumes "unat v < 8 ^ w" "0 < w" "w < 60"
  shows "parse_octal_field (into_field (w + 1) (octal (int w) v)) = Some v" "length (into_field (w + 1) (octal (int w) v)) = w + 1"
proof -
  note o = octal_ok [OF assms]
  have f: "into_field (w + 1) (octal (int w) v) = octal (int w) v @ [0]" using o(1) by (simp add: into_field_def)
  have "nval (unat (0 :: u32)) (octal (int w) v) < 2 ^ 32" using o(3) unsigned_less [of v] by simp
  then show "parse_octal_field (into_field (w + 1) (octal (int w) v)) = Some v"
    unfolding f parse_octal_field_def using octal_loop_digits [OF o(2), of 0 "[0]" 0] o(1,3) assms(2) by (simp add: asc_def)
  show "length (into_field (w + 1) (octal (int w) v)) = w + 1" unfolding f using o(1) by simp
qed

end
