(* ===== verification/UstarProps.thy ===== *)
theory UstarProps
  imports Ustar
begin

text \<open>
  Headers of tar archives: what \<^verbatim>\<open>ustar_make_header\<close> writes, \<^verbatim>\<open>ustar_parse_header\<close> reads.
\<close>

section \<open>The fields of a header\<close>

definition widths_ok :: "ustar_header \<Rightarrow> bool" where
  "widths_ok h \<longleftrightarrow> length (uh_name h) = 100 \<and> length (uh_mode h) = 8 \<and> length (uh_uid h) = 8 \<and> length (uh_gid h) = 8 \<and>
     length (uh_size h) = 12 \<and> length (uh_mtime h) = 12 \<and> length (uh_chksum h) = 8 \<and> length (uh_linkname h) = 100 \<and>
     length (uh_magic h) = 6 \<and> length (uh_version h) = 2 \<and> length (uh_uname h) = 32 \<and> length (uh_gname h) = 32 \<and>
     length (uh_devmajor h) = 8 \<and> length (uh_devminor h) = 8 \<and> length (uh_prefix h) = 155 \<and> length (uh_padding h) = 12"

lemma head_tail_length:
  "widths_ok h \<Longrightarrow> length (head_bytes h) = 148" "widths_ok h \<Longrightarrow> length (tail_bytes h) = 356"
  "widths_ok h \<Longrightarrow> length (header_bytes h) = 512"
  by (simp_all add: widths_ok_def header_bytes_def head_bytes_def tail_bytes_def)

lemma header_at_bytes: "widths_ok h \<Longrightarrow> header_at (header_bytes h) = h"
  by (cases h) (simp add: widths_ok_def header_at_def header_bytes_def head_bytes_def tail_bytes_def sub_def nth_append)

lemma length_into_field [simp]: "0 < n \<Longrightarrow> length (into_field n s) = n"
  by (simp add: into_field_def)

lemma widths_fill: "widths_ok (ustar_fill name ty sz)"
  by (simp add: widths_ok_def ustar_fill_def ascs_def)

section \<open>The checksum\<close>

lemma chksum_other_field:
  assumes "widths_ok h" "length c = 8"
  shows "calculate_chksum (header_bytes (h\<lparr>uh_chksum := c\<rparr>)) = calculate_chksum (header_bytes h)"
proof -
  have e: "head_bytes (h\<lparr>uh_chksum := c\<rparr>) = head_bytes h" "tail_bytes (h\<lparr>uh_chksum := c\<rparr>) = tail_bytes h"
    by (simp_all add: head_bytes_def tail_bytes_def)
  have l: "length (head_bytes h) = 148" "length (uh_chksum h) = 8" using assms(1) head_tail_length(1) by (simp_all add: widths_ok_def)
  have "(head_bytes h @ c @ tail_bytes h) ! i = (head_bytes h @ uh_chksum h @ tail_bytes h) ! i" if "\<not> (i \<ge> 148 \<and> i < 156)" for i
    using that l assms(2) by (auto simp: nth_append)
  then show ?thesis unfolding calculate_chksum_def header_bytes_def e by (intro fold_cong) (simp_all add: fun_eq_iff)
qed

lemma unat_add_le: "unat (a + b) \<le> unat a + unat (b :: 'a::len word)"
  by (simp add: unat_word_ariths)

lemma fold_sum_bound: "(\<And>i. unat (f i) \<le> 255) \<Longrightarrow> unat (fold (\<lambda>i c. c + f i) is (c :: u32)) \<le> unat c + 255 * length is"
proof (induction "is" arbitrary: c)
  case (Cons i "is")
  have "unat (fold (\<lambda>i c. c + f i) is (c + f i)) \<le> unat (c + f i) + 255 * length is" by (rule Cons.IH) (rule Cons.prems)
  also have "\<dots> \<le> unat c + 255 + 255 * length is" using unat_add_le [of c "f i"] Cons.prems [of i] by linarith
  finally show ?case by simp
qed simp

lemma byte_255: "unat (ucast (b :: byte) :: u32) \<le> 255"
  using unsigned_less [of b, where 'a = nat] by (simp add: unsigned_ucast_eq take_bit_nat_eq_self)

lemma chksum_bound: "unat (calculate_chksum bs) < 8 ^ 7"
proof -
  have "unat (calculate_chksum bs) \<le> unat (0 :: u32) + 255 * length [0..<USTAR_HEADER_SIZE]"
    unfolding calculate_chksum_def by (rule fold_sum_bound) (simp add: byte_255)
  then show ?thesis by (simp add: USTAR_HEADER_SIZE_def)
qed

section \<open>Names\<close>

lemma strip_loop_stops: "\<not> (starts ''/'' (strip_loop s) \<or> starts ''./'' (strip_loop s) \<or> starts ''../'' (strip_loop s))"
proof (induction s rule: strip_loop.induct)
  case (1 s)
  show ?case
  proof (cases "starts ''/'' s \<or> starts ''./'' s \<or> starts ''../'' s")
    case True
    then show ?thesis using 1 by (subst (1 2 3) strip_loop.simps) simp
  next
    case False
    then show ?thesis by (subst (1 2 3) strip_loop.simps) simp
  qed
qed

lemma strip_loop_fix: "strip_loop (strip_loop s) = strip_loop s"
  using strip_loop_stops [of s] by (subst strip_loop.simps) simp

lemma strip_dot: "strip_antisocial_prefixes (ascs ''.'') = ascs ''.''"
proof -
  have "strip_loop (ascs ''.'') = ascs ''.''" by (subst strip_loop.simps) (simp add: starts_def ascs_def asc_def)
  then show ?thesis by (simp add: strip_antisocial_prefixes_def)
qed

lemma strip_idem: "strip_antisocial_prefixes (strip_antisocial_prefixes s) = strip_antisocial_prefixes s"
proof (cases "strip_loop s = [] \<or> strip_loop s = ascs ''..''")
  case True
  then have "strip_antisocial_prefixes s = ascs ''.''" by (simp add: strip_antisocial_prefixes_def Let_def)
  then show ?thesis by (simp only: strip_dot)
next
  case False
  then show ?thesis by (simp add: strip_antisocial_prefixes_def Let_def strip_loop_fix)
qed

lemma strip_loop_set: "set (strip_loop s) \<subseteq> set s"
proof (induction s rule: strip_loop.induct)
  case (1 s)
  have t: "set (tl (dropWhile P s)) \<subseteq> set s" for P
  proof -
    have "set (tl xs) \<subseteq> set xs" for xs :: "byte list" by (cases xs) auto
    then show ?thesis by (blast dest: set_dropWhileD)
  qed
  show ?case
  proof (cases "starts ''/'' s \<or> starts ''./'' s \<or> starts ''../'' s")
    case True
    then show ?thesis using 1 [OF True] t by (subst strip_loop.simps) (simp, blast)
  next
    case False
    then show ?thesis by (subst strip_loop.simps) simp
  qed
qed

lemma strip_no_zero: "0 \<notin> set s \<Longrightarrow> 0 \<notin> set (strip_antisocial_prefixes s)"
  using strip_loop_set [of s] by (auto simp: strip_antisocial_prefixes_def Let_def ascs_def asc_def)

lemma takeWhile_field:
  assumes "0 \<notin> set s" "length s < n"
  shows "takeWhile (\<lambda>c. c \<noteq> 0) (into_field n s) = s"
proof -
  obtain k where k: "n - length s = Suc k" using assms(2) by (cases "n - length s") auto
  have "takeWhile (\<lambda>c. c \<noteq> 0) (s @ 0 # replicate k 0) = s @ takeWhile (\<lambda>c. c \<noteq> 0) (0 # replicate k 0)"
    by (rule takeWhile_append2) (use assms(1) in auto)
  then show ?thesis using assms(2) k by (simp add: into_field_def)
qed

lemma into_field_last: "0 < n \<Longrightarrow> into_field n s ! (n - 1) = 0"
  by (simp add: into_field_def nth_append)

section \<open>Round trip\<close>

text \<open>C28: \<^verbatim>\<open>ustar_parse_header\<close> accepts every header that \<^verbatim>\<open>ustar_make_header\<close> makes for a file
  of less than 2 GB or for a directory. The header is 512 bytes long; from it come back the name without its antisocial
  prefixes, the type, and the size of the file (0 for a directory).\<close>

theorem ustar_roundtrip:
  assumes "0 \<notin> set name" "uint sz < 2 ^ 31" "ustar_make_header name ty sz = Some (Some hdr)"
  shows "length hdr = USTAR_HEADER_SIZE \<and>
    ustar_parse_header hdr = Inr (Some (strip_antisocial_prefixes name), ty, if ty = USTAR_REGULAR then uint sz else 0)"
proof -
  let ?n = "strip_antisocial_prefixes name"
  let ?h = "ustar_fill ?n ty sz"
  let ?k = "calculate_chksum (header_bytes ?h)"
  let ?g = "?h\<lparr>uh_chksum := into_field 8 (octal 7 ?k)\<rparr>"
  have ty: "ty = USTAR_REGULAR \<or> ty = USTAR_DIRECTORY" and n: "length ?n < 100" and hdr: "hdr = header_bytes ?g"
    using assms(3) by (auto simp: ustar_make_header_def ASSERT_def Let_def split: if_splits)
  have w: "widths_ok ?g" using widths_fill [of ?n ty sz] by (simp add: widths_ok_def)
  have len: "length hdr = USTAR_HEADER_SIZE" using head_tail_length(3) [OF w] by (simp add: hdr USTAR_HEADER_SIZE_def)
  have at: "header_at hdr = ?g" using header_at_bytes [OF w] by (simp add: hdr)
  have k: "calculate_chksum hdr = ?k" unfolding hdr by (rule chksum_other_field) (simp_all add: widths_fill)
  have p: "parse_octal_field (uh_chksum ?g) = Some ?k" using octal_field(1) [OF chksum_bound, of "header_bytes ?h"] by simp
  have z: "\<not> is_all_zeros hdr"
  proof -
    have "type_byte ty \<in> set hdr" by (simp add: hdr header_bytes_def tail_bytes_def ustar_fill_def)
    moreover have "type_byte ty \<noteq> 0" using ty by (auto simp: asc_def)
    ultimately show ?thesis by (auto simp: is_all_zeros_def list_all_iff)
  qed
  have m: "uh_magic ?g = ascs ''ustar'' @ [0]" "uh_version ?g = ascs ''00''"
    by (simp_all add: ustar_fill_def into_field_def ascs_def)
  have nm: "takeWhile (\<lambda>c. c \<noteq> 0) (uh_name ?g) = ?n" "uh_name ?g ! 99 = 0" "uh_prefix ?g ! 0 = 0"
    using takeWhile_field [OF strip_no_zero [OF assms(1)] n] into_field_last [of 100 ?n] by (simp_all add: ustar_fill_def)
  have t: "uh_typeflag ?g = type_byte ty" by (simp add: ustar_fill_def)
  have sz: "unat sz < 8 ^ 11" using unsigned_less [of sz, where 'a = nat] by simp
  have s: "parse_octal_field (uh_size ?g) = Some sz" using octal_field(1) [OF sz] by (simp add: ustar_fill_def)
  have d: "type_byte USTAR_REGULAR \<noteq> type_byte USTAR_DIRECTORY" by (simp add: asc_def)
  have "ustar_parse_header hdr = Inr (Some ?n, ty, if ty = USTAR_REGULAR then uint sz else 0)"
    unfolding ustar_parse_header_def Let_def at
    using z k p m nm t s d ty assms(2) by (auto simp: strip_idem ascs_def)
  then show ?thesis using len by simp
qed

text \<open>A file named \<open>/a\<close> of eight bytes.\<close>

lemma ustar_roundtrip_witness:
  "\<exists>hdr. ustar_make_header (ascs ''/a'') USTAR_REGULAR 8 = Some (Some hdr) \<and>
     ustar_parse_header hdr = Inr (Some (strip_antisocial_prefixes (ascs ''/a'')), USTAR_REGULAR, 8) \<and> length hdr = 512"
proof -
  have l: "strip_antisocial_prefixes (ascs ''/a'') = ascs ''a''" by code_simp
  then obtain hdr where h: "ustar_make_header (ascs ''/a'') USTAR_REGULAR 8 = Some (Some hdr)"
    by (simp add: ustar_make_header_def ASSERT_def Let_def ascs_def)
  have z: "0 \<notin> set (ascs ''/a'')" by (simp add: ascs_def asc_def)
  show ?thesis using ustar_roundtrip [OF z _ h] h by (simp add: USTAR_HEADER_SIZE_def)
qed

end
