(* ===== verification/Mlfqs.thy ===== *)
theory Mlfqs
  imports Thread Stdio "HOL-Library.Signed_Division"
begin

text \<open>
  The scheduler of the first project (\<^verbatim>\<open>project1-threads\<close>), which the later projects replaced:
  an unsorted ready list that is searched for its maximum, sleeping threads that count their remaining ticks, and the
  multi-level feedback queue scheduler with the fixed-point numbers of \<^verbatim>\<open>threads/float.h\<close>. The
  names end in \<open>1\<close> where theory Thread has the same function of the fourth project.

  A thread that blocks inside the loop of \<^verbatim>\<open>sema_down\<close> remembers the semaphore (\<open>down1\<close>); when it
  runs again it tests the semaphore again (\<open>sema_round1\<close>). A thread inside \<^verbatim>\<open>lock_acquire\<close>
  remembers the lock (\<open>taking1\<close>, see theory MlfqsLocks). All other functions that switch threads have nothing left to do when
  their thread resumes.
\<close>

section \<open>Fixed-point numbers\<close>

text \<open>A C \<^verbatim>\<open>int\<close> is an integer that \<open>int32\<close> wraps after each operation, an \<^verbatim>\<open>int64_t\<close> one that
  \<open>int64\<close> wraps; \<open>sdiv\<close> truncates.\<close>

definition int64 :: "int \<Rightarrow> int" where "int64 = signed_take_bit 63"

definition F :: int where "F = 16384"

definition CONVERT_N_TO_FIXED_POINT :: "int \<Rightarrow> int" where
  "CONVERT_N_TO_FIXED_POINT n = int32 (n * F)"

definition CONVERT_X_TO_INTEGER_NEAREST :: "int \<Rightarrow> int" where
  "CONVERT_X_TO_INTEGER_NEAREST x = (if x \<ge> 0 then int32 (x + F sdiv 2) sdiv F else int32 (x - F sdiv 2) sdiv F)"

definition ADD_X_AND_N :: "int \<Rightarrow> int \<Rightarrow> int" where
  "ADD_X_AND_N x n = int32 (x + int32 (n * F))"

definition MULTIPLY_X_BY_Y :: "int \<Rightarrow> int \<Rightarrow> int" where
  "MULTIPLY_X_BY_Y x y = int64 (x * y) sdiv F"

definition MULTIPLY_X_BY_N :: "int \<Rightarrow> int \<Rightarrow> int" where
  "MULTIPLY_X_BY_N x n = int32 (x * n)"

text \<open>\<open>None\<close> is a division by zero.\<close>

definition DIVIDE_X_BY_Y :: "int \<Rightarrow> int \<Rightarrow> int option" where
  "DIVIDE_X_BY_Y x y = do { ASSERT (y \<noteq> 0); Some (int64 (x * F) sdiv y) }"

definition DIVIDE_X_BY_N :: "int \<Rightarrow> int \<Rightarrow> int" where
  "DIVIDE_X_BY_N x n = x sdiv n"

section \<open>State\<close>

definition TIMER_FREQ :: int where "TIMER_FREQ = 100"

record thread1 =
  status1 :: thread_status
  priority1 :: int
  old_priority :: int
  locks1 :: "nat list"
  waiting1 :: "nat option"
  ticks_remain :: int
  nice :: int
  recent_cpu :: int
  down1 :: "sema_id option"
  taking1 :: "nat option"

record sema1 =
  value1 :: nat
  waiters1 :: "nat list"

record lock1 =
  holder1 :: "nat option"
  max_priority :: int

record kernel1 =
  thr1 :: "nat \<Rightarrow> thread1"
  semas1 :: "sema_id \<Rightarrow> sema1"
  klocks1 :: "nat \<Rightarrow> lock1"
  ready1 :: "nat list"
  all1 :: "nat list"
  cur1 :: nat
  idle1 :: "nat option"
  initial1 :: nat
  freed1 :: "nat list"
  load_avg :: int
  ticks1 :: int
  thread_ticks1 :: nat
  idle_ticks1 :: nat
  kernel_ticks1 :: nat
  in_intr1 :: bool
  yield_on_return1 :: bool
  thread_mlfqs :: bool

definition upd1 :: "nat \<Rightarrow> (thread1 \<Rightarrow> thread1) \<Rightarrow> kernel1 \<Rightarrow> kernel1" where
  "upd1 t f k = k\<lparr>thr1 := (thr1 k)(t := f (thr1 k t))\<rparr>"

definition upd_sema1 :: "sema_id \<Rightarrow> (sema1 \<Rightarrow> sema1) \<Rightarrow> kernel1 \<Rightarrow> kernel1" where
  "upd_sema1 s f k = k\<lparr>semas1 := (semas1 k)(s := f (semas1 k s))\<rparr>"

section \<open>Scheduling\<close>

definition pri_cmp :: "kernel1 \<Rightarrow> nat \<Rightarrow> nat \<Rightarrow> bool" where
  "pri_cmp k a b \<longleftrightarrow> priority1 (thr1 k a) < priority1 (thr1 k b)"

definition next_thread_to_run1 :: "kernel1 \<Rightarrow> (nat \<times> kernel1) option" where
  "next_thread_to_run1 k =
     (case ready1 k of
        [] \<Rightarrow> do { t \<leftarrow> idle1 k; Some (t, k) }
      | t # r \<Rightarrow> let m = kl_max (pri_cmp k) t r in Some (m, k\<lparr>ready1 := remove1 m (ready1 k)\<rparr>))"

definition thread_schedule_tail1 :: "nat option \<Rightarrow> kernel1 \<Rightarrow> kernel1 option" where
  "thread_schedule_tail1 prev k = do {
     let k = upd1 (cur1 k) (\<lambda>t. t\<lparr>status1 := THREAD_RUNNING\<rparr>) k;
     let k = k\<lparr>thread_ticks1 := 0\<rparr>;
     case prev of None \<Rightarrow> Some k
     | Some p \<Rightarrow>
         if status1 (thr1 k p) = THREAD_DYING \<and> p \<noteq> initial1 k then do {
           ASSERT (p \<noteq> cur1 k);
           Some (k\<lparr>freed1 := p # freed1 k\<rparr>) }
         else Some k }"

definition schedule1 :: "kernel1 \<Rightarrow> kernel1 option" where
  "schedule1 k = do {
     let c = cur1 k;
     (n, k) \<leftarrow> next_thread_to_run1 k;
     ASSERT (status1 (thr1 k c) \<noteq> THREAD_RUNNING);
     if c \<noteq> n then thread_schedule_tail1 (Some c) (k\<lparr>cur1 := n\<rparr>)
     else thread_schedule_tail1 None k }"

definition thread_current1 :: "kernel1 \<Rightarrow> nat option" where
  "thread_current1 k = do { ASSERT (status1 (thr1 k (cur1 k)) = THREAD_RUNNING); Some (cur1 k) }"

definition thread_block1 :: "kernel1 \<Rightarrow> kernel1 option" where
  "thread_block1 k = do {
     ASSERT (\<not> in_intr1 k);
     c \<leftarrow> thread_current1 k;
     schedule1 (upd1 c (\<lambda>t. t\<lparr>status1 := THREAD_BLOCKED\<rparr>) k) }"

definition thread_unblock1 :: "nat \<Rightarrow> kernel1 \<Rightarrow> kernel1 option" where
  "thread_unblock1 t k = do {
     ASSERT (status1 (thr1 k t) = THREAD_BLOCKED);
     let k = k\<lparr>ready1 := ready1 k @ [t]\<rparr>;
     Some (upd1 t (\<lambda>t. t\<lparr>status1 := THREAD_READY\<rparr>) k) }"

definition thread_yield1 :: "kernel1 \<Rightarrow> kernel1 option" where
  "thread_yield1 k = do {
     c \<leftarrow> thread_current1 k;
     ASSERT (\<not> in_intr1 k);
     let k = (if Some c \<noteq> idle1 k then k\<lparr>ready1 := ready1 k @ [c]\<rparr> else k);
     schedule1 (upd1 c (\<lambda>t. t\<lparr>status1 := THREAD_READY\<rparr>) k) }"

definition thread_exit1 :: "kernel1 \<Rightarrow> kernel1 option" where
  "thread_exit1 k = do {
     ASSERT (\<not> in_intr1 k);
     c \<leftarrow> thread_current1 k;
     let k = k\<lparr>all1 := remove1 c (all1 k)\<rparr>;
     schedule1 (upd1 c (\<lambda>t. t\<lparr>status1 := THREAD_DYING\<rparr>) k) }"

definition init_thread1 :: "nat \<Rightarrow> int \<Rightarrow> kernel1 \<Rightarrow> kernel1 option" where
  "init_thread1 t pri k = do {
     ASSERT (PRI_MIN \<le> pri \<and> pri \<le> PRI_MAX);
     let k = upd1 t (\<lambda>_. \<lparr>status1 = THREAD_BLOCKED, priority1 = pri, old_priority = pri, locks1 = [], waiting1 = None,
       ticks_remain = 0, nice = 0, recent_cpu = CONVERT_N_TO_FIXED_POINT 0, down1 = None, taking1 = None\<rparr>) k;
     Some (k\<lparr>all1 := all1 k @ [t]\<rparr>) }"

text \<open>The page of the new thread is a parameter; the result is false for \<^verbatim>\<open>TID_ERROR\<close>.\<close>

definition thread_create1 :: "nat option \<Rightarrow> int \<Rightarrow> kernel1 \<Rightarrow> (bool \<times> kernel1) option" where
  "thread_create1 page pri k =
     (case page of None \<Rightarrow> Some (False, k)
      | Some t \<Rightarrow> do {
          k \<leftarrow> init_thread1 t pri k;
          k \<leftarrow> thread_unblock1 t k;
          c \<leftarrow> thread_current1 k;
          k \<leftarrow> (if priority1 (thr1 k c) < pri then thread_yield1 k else Some k);
          Some (True, k) })"

text \<open>One pass through the body of \<^verbatim>\<open>idle\<close>'s loop.\<close>

definition idle_round1 :: "kernel1 \<Rightarrow> kernel1 option" where
  "idle_round1 k = thread_block1 k"

section \<open>Priorities\<close>

fun max_priority_loop :: "kernel1 \<Rightarrow> nat list \<Rightarrow> int \<Rightarrow> int" where
  "max_priority_loop k [] res = res"
| "max_priority_loop k (t # ts) res = max_priority_loop k ts (if priority1 (thr1 k t) > res then priority1 (thr1 k t) else res)"

definition all_threads_max_priority :: "kernel1 \<Rightarrow> int" where
  "all_threads_max_priority k = (if all1 k = [] then - 1 else max_priority_loop k (all1 k) (- 1))"

definition thread_set_priority1 :: "int \<Rightarrow> kernel1 \<Rightarrow> kernel1 option" where
  "thread_set_priority1 new_priority k = do {
     t \<leftarrow> thread_current1 k;
     let k = upd1 t (\<lambda>x. x\<lparr>old_priority := new_priority\<rparr>) k;
     let k = (if locks1 (thr1 k t) = [] \<or> new_priority > priority1 (thr1 k t)
       then upd1 t (\<lambda>x. x\<lparr>priority1 := new_priority\<rparr>) k else k);
     if priority1 (thr1 k t) < all_threads_max_priority k then thread_yield1 k else Some k }"

definition new_priority :: "thread1 \<Rightarrow> int" where
  "new_priority t =
     (let p = int32 (int32 (PRI_MAX - CONVERT_X_TO_INTEGER_NEAREST (DIVIDE_X_BY_N (recent_cpu t) 4)) - int32 (nice t * 2));
          p = (if p > PRI_MAX then PRI_MAX else p)
      in if p < PRI_MIN then PRI_MIN else p)"

definition update_priority :: "nat \<Rightarrow> kernel1 \<Rightarrow> kernel1 option" where
  "update_priority t k =
     (if Some t = idle1 k then Some k else Some (upd1 t (\<lambda>x. x\<lparr>priority1 := new_priority x\<rparr>) k))"

definition inc_recent_cpu :: "kernel1 \<Rightarrow> kernel1 option" where
  "inc_recent_cpu k = do {
     t \<leftarrow> thread_current1 k;
     if Some t \<noteq> idle1 k then Some (upd1 t (\<lambda>x. x\<lparr>recent_cpu := ADD_X_AND_N (recent_cpu x) 1\<rparr>) k) else Some k }"

text \<open>The quotient and the product are 64 bits wide, the result is stored into an \<^verbatim>\<open>int\<close>.\<close>

definition update_recent_cpu :: "nat \<Rightarrow> kernel1 \<Rightarrow> kernel1 option" where
  "update_recent_cpu t k =
     (if Some t = idle1 k then Some k
      else do {
        let twice = MULTIPLY_X_BY_N (load_avg k) 2;
        coefficient \<leftarrow> DIVIDE_X_BY_Y twice (ADD_X_AND_N twice 1);
        Some (upd1 t (\<lambda>x. x\<lparr>recent_cpu :=
          int32 (int64 (MULTIPLY_X_BY_Y coefficient (recent_cpu x) + int32 (nice x * F)))\<rparr>) k) })"

text \<open>The number of ready threads is a \<^verbatim>\<open>size_t\<close>: the second summand is unsigned.\<close>

definition update_load_avg :: "kernel1 \<Rightarrow> kernel1 option" where
  "update_load_avg k = do {
     t \<leftarrow> thread_current1 k;
     let n = int (length (ready1 k)) + (if Some t \<noteq> idle1 k then 1 else 0);
     Some (k\<lparr>load_avg :=
       int32 (DIVIDE_X_BY_N (MULTIPLY_X_BY_N (load_avg k) 59) 60 + take_bit 32 (n * F) div 60)\<rparr>) }"

definition thread_get_priority1 :: "kernel1 \<Rightarrow> int option" where
  "thread_get_priority1 k = do { t \<leftarrow> thread_current1 k; Some (priority1 (thr1 k t)) }"

definition thread_set_nice :: "int \<Rightarrow> kernel1 \<Rightarrow> kernel1 option" where
  "thread_set_nice n k = do {
     t \<leftarrow> thread_current1 k;
     let n = (if n > 20 then 20 else n);
     let n = (if n < - 20 then - 20 else n);
     k \<leftarrow> update_priority t (upd1 t (\<lambda>x. x\<lparr>nice := n\<rparr>) k);
     thread_yield1 k }"

definition thread_get_nice :: "kernel1 \<Rightarrow> int option" where
  "thread_get_nice k = do { t \<leftarrow> thread_current1 k; Some (nice (thr1 k t)) }"

definition thread_get_load_avg :: "kernel1 \<Rightarrow> int" where
  "thread_get_load_avg k = CONVERT_X_TO_INTEGER_NEAREST (MULTIPLY_X_BY_N (load_avg k) 100)"

definition thread_get_recent_cpu :: "kernel1 \<Rightarrow> int option" where
  "thread_get_recent_cpu k = do {
     t \<leftarrow> thread_current1 k; Some (CONVERT_X_TO_INTEGER_NEAREST (MULTIPLY_X_BY_N (recent_cpu (thr1 k t)) 100)) }"

section \<open>The timer\<close>

fun foreach_loop1 :: "(nat \<Rightarrow> kernel1 \<Rightarrow> kernel1 option) \<Rightarrow> nat list \<Rightarrow> kernel1 \<Rightarrow> kernel1 option" where
  "foreach_loop1 f [] k = Some k"
| "foreach_loop1 f (t # ts) k = do { k \<leftarrow> f t k; foreach_loop1 f ts k }"

definition thread_foreach1 :: "(nat \<Rightarrow> kernel1 \<Rightarrow> kernel1 option) \<Rightarrow> kernel1 \<Rightarrow> kernel1 option" where
  "thread_foreach1 f k = foreach_loop1 f (all1 k) k"

definition check_remain :: "nat \<Rightarrow> kernel1 \<Rightarrow> kernel1 option" where
  "check_remain t k =
     (if status1 (thr1 k t) = THREAD_BLOCKED \<and> ticks_remain (thr1 k t) > 0 then do {
        let k = upd1 t (\<lambda>x. x\<lparr>ticks_remain := ticks_remain x - 1\<rparr>) k;
        if ticks_remain (thr1 k t) = 0 then thread_unblock1 t k else Some k }
      else Some k)"

definition thread_tick1 :: "kernel1 \<Rightarrow> kernel1 option" where
  "thread_tick1 k = do {
     t \<leftarrow> thread_current1 k;
     let k = (if Some t = idle1 k then k\<lparr>idle_ticks1 := idle_ticks1 k + 1\<rparr> else k\<lparr>kernel_ticks1 := kernel_ticks1 k + 1\<rparr>);
     let k = k\<lparr>thread_ticks1 := thread_ticks1 k + 1\<rparr>;
     if thread_ticks1 k \<ge> TIME_SLICE then Some (k\<lparr>yield_on_return1 := True\<rparr>) else Some k }"

definition mlfqs_tick :: "kernel1 \<Rightarrow> kernel1 option" where
  "mlfqs_tick k = do {
     k \<leftarrow> inc_recent_cpu k;
     k \<leftarrow> (if ticks1 k smod TIMER_FREQ = 0 then do {
             k \<leftarrow> update_load_avg k;
             thread_foreach1 update_recent_cpu k }
           else Some k);
     if ticks1 k smod 4 = 0 then thread_foreach1 update_priority k else Some k }"

definition timer_interrupt1 :: "kernel1 \<Rightarrow> kernel1 option" where
  "timer_interrupt1 k = do {
     let k = k\<lparr>ticks1 := ticks1 k + 1\<rparr>;
     k \<leftarrow> thread_tick1 k;
     k \<leftarrow> thread_foreach1 check_remain k;
     if thread_mlfqs k then mlfqs_tick k else Some k }"

text \<open>The interrupt around the handler (\<^verbatim>\<open>intr_handler\<close>).\<close>

definition timer_intr1 :: "kernel1 \<Rightarrow> kernel1 option" where
  "timer_intr1 k = do {
     ASSERT (\<not> in_intr1 k);
     k \<leftarrow> timer_interrupt1 (k\<lparr>in_intr1 := True, yield_on_return1 := False\<rparr>);
     let k = k\<lparr>in_intr1 := False\<rparr>;
     if yield_on_return1 k then thread_yield1 k else Some k }"

definition timer_sleep :: "int \<Rightarrow> kernel1 \<Rightarrow> kernel1 option" where
  "timer_sleep n k = do {
     t \<leftarrow> thread_current1 k;
     let k = upd1 t (\<lambda>x. x\<lparr>ticks_remain := (if n \<ge> 0 then n else 0)\<rparr>) k;
     if ticks_remain (thr1 k t) > 0 then thread_block1 k else Some k }"

section \<open>Semaphores\<close>

text \<open>One test of the loop of \<^verbatim>\<open>sema_down\<close>, by the running thread.\<close>

definition sema_round1 :: "sema_id \<Rightarrow> kernel1 \<Rightarrow> kernel1 option" where
  "sema_round1 s k = do {
     c \<leftarrow> thread_current1 k;
     if value1 (semas1 k s) = 0 then
       thread_block1 (upd1 c (\<lambda>t. t\<lparr>down1 := Some s\<rparr>) (upd_sema1 s (\<lambda>x. x\<lparr>waiters1 := waiters1 x @ [c]\<rparr>) k))
     else Some (upd1 c (\<lambda>t. t\<lparr>down1 := None\<rparr>) (upd_sema1 s (\<lambda>x. x\<lparr>value1 := value1 x - 1\<rparr>) k)) }"

definition sema_down1 :: "sema_id \<Rightarrow> kernel1 \<Rightarrow> kernel1 option" where
  "sema_down1 s k = do { ASSERT (\<not> in_intr1 k); sema_round1 s k }"

definition sema_try_down1 :: "sema_id \<Rightarrow> kernel1 \<Rightarrow> bool \<times> kernel1" where
  "sema_try_down1 s k =
     (if value1 (semas1 k s) > 0 then (True, upd_sema1 s (\<lambda>x. x\<lparr>value1 := value1 x - 1\<rparr>) k) else (False, k))"

definition sema_up1 :: "sema_id \<Rightarrow> kernel1 \<Rightarrow> kernel1 option" where
  "sema_up1 s k =
     (case waiters1 (semas1 k s) of
        [] \<Rightarrow> thread_yield1 (upd_sema1 s (\<lambda>x. x\<lparr>value1 := value1 x + 1\<rparr>) k)
      | w # ws \<Rightarrow> do {
          let removed = kl_max (pri_cmp k) w ws;
          let k = upd_sema1 s (\<lambda>x. x\<lparr>waiters1 := remove1 removed (waiters1 x)\<rparr>) k;
          k \<leftarrow> thread_unblock1 removed k;
          let k = upd_sema1 s (\<lambda>x. x\<lparr>value1 := value1 x + 1\<rparr>) k;
          c \<leftarrow> thread_current1 k;
          if priority1 (thr1 k removed) > priority1 (thr1 k c) then thread_yield1 k else Some k })"

section \<open>Executions\<close>

text \<open>
  The steps of the system: timer interrupts, which may come at any time, the idle thread's loop, and the operations of
  the other threads. A thread inside \<^verbatim>\<open>sema_down\<close> goes on with its loop. A new thread gets a page that no
  thread has; there are fewer than \<open>MAX_THREADS\<close> of them.
\<close>

definition MAX_THREADS :: nat where "MAX_THREADS = 2000"

datatype op1 =
    Tick1 | Idle1 | Yield1 | Exit1 | Create1 nat int | SetPriority1 int | SetNice1 int | Sleep1 int
  | Down1 sema_id | TryDown1 sema_id | Round1 sema_id | Up1 sema_id

definition free_to_call :: "kernel1 \<Rightarrow> bool" where
  "free_to_call k \<longleftrightarrow> Some (cur1 k) \<noteq> idle1 k \<and> down1 (thr1 k (cur1 k)) = None \<and> taking1 (thr1 k (cur1 k)) = None"

fun allowed1 :: "op1 \<Rightarrow> kernel1 \<Rightarrow> bool" where
  "allowed1 Tick1 k \<longleftrightarrow> True"
| "allowed1 Idle1 k \<longleftrightarrow> Some (cur1 k) = idle1 k"
| "allowed1 (Round1 s) k \<longleftrightarrow> Some (cur1 k) \<noteq> idle1 k \<and> down1 (thr1 k (cur1 k)) = Some s"
| "allowed1 (Create1 t pri) k \<longleftrightarrow> free_to_call k \<and> t \<notin> set (all1 k) \<and> length (all1 k) < MAX_THREADS \<and> PRI_MIN \<le> pri \<and> pri \<le> PRI_MAX"
| "allowed1 _ k \<longleftrightarrow> free_to_call k"

fun exec1 :: "op1 \<Rightarrow> kernel1 \<Rightarrow> kernel1 option" where
  "exec1 Tick1 k = timer_intr1 k"
| "exec1 Idle1 k = idle_round1 k"
| "exec1 Yield1 k = thread_yield1 k"
| "exec1 Exit1 k = thread_exit1 k"
| "exec1 (Create1 t pri) k = map_option snd (thread_create1 (Some t) pri k)"
| "exec1 (SetPriority1 n) k = thread_set_priority1 n k"
| "exec1 (SetNice1 n) k = thread_set_nice n k"
| "exec1 (Sleep1 n) k = timer_sleep n k"
| "exec1 (Down1 s) k = sema_down1 s k"
| "exec1 (TryDown1 s) k = Some (snd (sema_try_down1 s k))"
| "exec1 (Round1 s) k = sema_round1 s k"
| "exec1 (Up1 s) k = sema_up1 s k"

text \<open>An execution with its number of timer interrupts.\<close>

inductive run1 :: "kernel1 \<Rightarrow> nat \<Rightarrow> kernel1 \<Rightarrow> bool" for k0 :: kernel1 where
  start1: "run1 k0 0 k0"
| step1: "run1 k0 m k \<Longrightarrow> allowed1 p k \<Longrightarrow> exec1 p k = Some k' \<Longrightarrow> run1 k0 (if p = Tick1 then Suc m else m) k'"

end
