(* ===== verification/MlfqsFacts.thy ===== *)
theory MlfqsFacts
  imports Mlfqs
begin

text \<open>
  The invariant of the first project's scheduler. The part of a kernel state that the scheduler's
  decisions rest on is its \<^emph>\<open>view\<close>: states, remaining ticks and semaphores of the threads, the lists of ready and of all
  threads, and the waiters. \<open>sched\<close> says what a view is like at any time, \<open>ok1\<close> adds what holds between two operations.
\<close>

section \<open>Views\<close>

definition st_of :: "kernel1 \<Rightarrow> nat \<Rightarrow> thread_status" where "st_of k t = status1 (thr1 k t)"
definition rm_of :: "kernel1 \<Rightarrow> nat \<Rightarrow> int" where "rm_of k t = ticks_remain (thr1 k t)"
definition dn_of :: "kernel1 \<Rightarrow> nat \<Rightarrow> sema_id option" where "dn_of k t = down1 (thr1 k t)"
definition ws_of :: "kernel1 \<Rightarrow> sema_id \<Rightarrow> nat list" where "ws_of k s = waiters1 (semas1 k s)"

lemma st_upd [simp]:
  "st_of (upd1 t f k) = (st_of k)(t := status1 (f (thr1 k t)))"
  "rm_of (upd1 t f k) = (rm_of k)(t := ticks_remain (f (thr1 k t)))"
  "dn_of (upd1 t f k) = (dn_of k)(t := down1 (f (thr1 k t)))"
  "ws_of (upd1 t f k) = ws_of k"
  "st_of (upd_sema1 s g k) = st_of k" "rm_of (upd_sema1 s g k) = rm_of k" "dn_of (upd_sema1 s g k) = dn_of k"
  "ws_of (upd_sema1 s g k) = (ws_of k)(s := waiters1 (g (semas1 k s)))"
  by (auto simp: st_of_def rm_of_def dn_of_def ws_of_def upd1_def upd_sema1_def)

lemma st_same [simp]:
  "(st_of k)(t := status1 (thr1 k t)) = st_of k" "(rm_of k)(t := ticks_remain (thr1 k t)) = rm_of k" "(dn_of k)(t := down1 (thr1 k t)) = dn_of k"
  by (auto simp: st_of_def rm_of_def dn_of_def)

lemma fields_upd [simp]:
  "ready1 (upd1 t f k) = ready1 k" "all1 (upd1 t f k) = all1 k" "cur1 (upd1 t f k) = cur1 k" "idle1 (upd1 t f k) = idle1 k"
  "in_intr1 (upd1 t f k) = in_intr1 k" "load_avg (upd1 t f k) = load_avg k" "semas1 (upd1 t f k) = semas1 k"
  "thr1 (upd1 t f k) = (thr1 k)(t := f (thr1 k t))" "initial1 (upd1 t f k) = initial1 k" "freed1 (upd1 t f k) = freed1 k"
  "ticks1 (upd1 t f k) = ticks1 k" "yield_on_return1 (upd1 t f k) = yield_on_return1 k" "thread_mlfqs (upd1 t f k) = thread_mlfqs k"
  "klocks1 (upd1 t f k) = klocks1 k"
  by (simp_all add: upd1_def)

lemma fields_upd_sema [simp]:
  "ready1 (upd_sema1 t g k) = ready1 k" "all1 (upd_sema1 t g k) = all1 k" "cur1 (upd_sema1 t g k) = cur1 k"
  "idle1 (upd_sema1 t g k) = idle1 k" "in_intr1 (upd_sema1 t g k) = in_intr1 k" "load_avg (upd_sema1 t g k) = load_avg k"
  "thr1 (upd_sema1 t g k) = thr1 k" "semas1 (upd_sema1 t g k) = (semas1 k)(t := g (semas1 k t))" "klocks1 (upd_sema1 t g k) = klocks1 k"
  by (simp_all add: upd_sema1_def)

lemma st_fields [simp]:
  "st_of (ready1_update a k) = st_of k" "st_of (all1_update a k) = st_of k" "st_of (cur1_update c k) = st_of k" "st_of (freed1_update a k) = st_of k"
  "st_of (load_avg_update i k) = st_of k" "st_of (ticks1_update i k) = st_of k" "st_of (thread_ticks1_update n k) = st_of k"
  "st_of (idle_ticks1_update n k) = st_of k" "st_of (kernel_ticks1_update n k) = st_of k" "st_of (in_intr1_update b k) = st_of k"
  "st_of (yield_on_return1_update b k) = st_of k"
  by (auto simp: st_of_def)

lemma rm_fields [simp]:
  "rm_of (ready1_update a k) = rm_of k" "rm_of (all1_update a k) = rm_of k" "rm_of (cur1_update c k) = rm_of k" "rm_of (freed1_update a k) = rm_of k"
  "rm_of (load_avg_update i k) = rm_of k" "rm_of (ticks1_update i k) = rm_of k" "rm_of (thread_ticks1_update n k) = rm_of k"
  "rm_of (idle_ticks1_update n k) = rm_of k" "rm_of (kernel_ticks1_update n k) = rm_of k" "rm_of (in_intr1_update b k) = rm_of k"
  "rm_of (yield_on_return1_update b k) = rm_of k"
  by (auto simp: rm_of_def)

lemma dn_fields [simp]:
  "dn_of (ready1_update a k) = dn_of k" "dn_of (all1_update a k) = dn_of k" "dn_of (cur1_update c k) = dn_of k" "dn_of (freed1_update a k) = dn_of k"
  "dn_of (load_avg_update i k) = dn_of k" "dn_of (ticks1_update i k) = dn_of k" "dn_of (thread_ticks1_update n k) = dn_of k"
  "dn_of (idle_ticks1_update n k) = dn_of k" "dn_of (kernel_ticks1_update n k) = dn_of k" "dn_of (in_intr1_update b k) = dn_of k"
  "dn_of (yield_on_return1_update b k) = dn_of k"
  by (auto simp: dn_of_def)

lemma ws_fields [simp]:
  "ws_of (ready1_update a k) = ws_of k" "ws_of (all1_update a k) = ws_of k" "ws_of (cur1_update c k) = ws_of k" "ws_of (freed1_update a k) = ws_of k"
  "ws_of (load_avg_update i k) = ws_of k" "ws_of (ticks1_update i k) = ws_of k" "ws_of (thread_ticks1_update n k) = ws_of k"
  "ws_of (idle_ticks1_update n k) = ws_of k" "ws_of (kernel_ticks1_update n k) = ws_of k" "ws_of (in_intr1_update b k) = ws_of k"
  "ws_of (yield_on_return1_update b k) = ws_of k"
  by (auto simp: ws_of_def)

section \<open>The invariant\<close>

definition sched0 ::
  "(nat \<Rightarrow> thread_status) \<Rightarrow> (nat \<Rightarrow> int) \<Rightarrow> (nat \<Rightarrow> sema_id option) \<Rightarrow> nat list \<Rightarrow> nat list \<Rightarrow> nat option \<Rightarrow> (sema_id \<Rightarrow> nat list) \<Rightarrow> bool" where
  "sched0 s r d al rd idl w \<longleftrightarrow>
     distinct al \<and> distinct rd \<and> (\<forall>t\<in>set rd. t \<in> set al \<and> s t = THREAD_READY) \<and>
     (\<exists>i. idl = Some i \<and> i \<in> set al \<and> i \<notin> set rd \<and> r i = 0) \<and>
     (\<forall>t\<in>set al. s t \<noteq> THREAD_DYING \<and> 0 \<le> r t \<and> (0 < r t \<longrightarrow> s t = THREAD_BLOCKED)) \<and>
     (\<forall>m. distinct (w m) \<and>
       (\<forall>t\<in>set (w m). t \<in> set al \<and> s t = THREAD_BLOCKED \<and> r t = 0 \<and> Some t \<noteq> idl \<and> d t = Some m))"

definition sched :: "kernel1 \<Rightarrow> bool" where
  "sched k \<longleftrightarrow> sched0 (st_of k) (rm_of k) (dn_of k) (all1 k) (ready1 k) (idle1 k) (ws_of k)"

definition load_ok :: "kernel1 \<Rightarrow> bool" where
  "load_ok k \<longleftrightarrow> 0 \<le> load_avg k \<and> load_avg k \<le> int MAX_THREADS * F \<and> length (all1 k) \<le> MAX_THREADS"

definition running :: "kernel1 \<Rightarrow> bool" where
  "running k \<longleftrightarrow> cur1 k \<in> set (all1 k) \<and> (\<forall>t\<in>set (all1 k). st_of k t = THREAD_RUNNING \<longleftrightarrow> t = cur1 k)"

definition ok1 :: "kernel1 \<Rightarrow> bool" where
  "ok1 k \<longleftrightarrow> sched k \<and> running k \<and> load_ok k \<and> \<not> in_intr1 k"

text \<open>Sleeping threads go on sleeping.\<close>

definition keeps :: "kernel1 \<Rightarrow> kernel1 \<Rightarrow> bool" where
  "keeps k k' \<longleftrightarrow> (\<forall>t. t \<in> set (all1 k) \<and> st_of k t = THREAD_BLOCKED \<and> 0 < rm_of k t \<longrightarrow>
     t \<in> set (all1 k') \<and> st_of k' t = THREAD_BLOCKED \<and> rm_of k' t = rm_of k t)"

text \<open>An operation returns, keeps the invariant and wakes no sleeper.\<close>

definition fine :: "kernel1 \<Rightarrow> kernel1 option \<Rightarrow> bool" where
  "fine k r \<longleftrightarrow> (\<exists>k'. r = Some k' \<and> ok1 k' \<and> keeps k k')"

lemma fineI: "r = Some k' \<Longrightarrow> ok1 k' \<Longrightarrow> keeps k k' \<Longrightarrow> fine k r"
  by (auto simp: fine_def)

lemma keeps_trans: "keeps k k' \<Longrightarrow> keeps k' k'' \<Longrightarrow> keeps k k''"
  by (simp add: keeps_def)

lemma keeps_fine: "keeps k k' \<Longrightarrow> fine k' r \<Longrightarrow> fine k r"
  by (auto simp: fine_def intro: keeps_trans)

section \<open>Steps on views\<close>

lemma sched0_waiter:
  "sched0 s r d al rd idl w \<Longrightarrow> t \<in> set (w m) \<Longrightarrow>
     t \<in> set al \<and> s t = THREAD_BLOCKED \<and> r t = 0 \<and> idl \<noteq> Some t \<and> d t = Some m"
  unfolding sched0_def by metis

lemma sched0_run:
  assumes "sched0 s r d al rd idl w" "n \<in> set rd \<or> idl = Some n"
  shows "sched0 (s(n := THREAD_RUNNING)) r d al (remove1 n rd) idl w"
proof -
  have "n \<notin> set (w m)" for m using assms by (auto simp: sched0_def)
  then show ?thesis using assms by (auto simp: sched0_def)
qed

lemma sched0_block:
  assumes "sched0 s r d al rd idl w" "s c = THREAD_RUNNING" "c \<in> set al"
  shows "sched0 (s(c := THREAD_BLOCKED)) r d al rd idl w"
  using assms by (fastforce simp: sched0_def)

lemma sched0_ready:
  assumes "sched0 s r d al rd idl w" "c \<in> set al" "s c \<noteq> THREAD_READY" "idl \<noteq> Some c" "r c = 0" "\<And>m. c \<notin> set (w m)"
  shows "sched0 (s(c := THREAD_READY)) r d al (rd @ [c]) idl w"
  using assms by (fastforce simp: sched0_def)

lemma sched0_ready_idle:
  assumes "sched0 s r d al rd idl w" "s c = THREAD_RUNNING" "idl = Some c"
  shows "sched0 (s(c := THREAD_READY)) r d al rd idl w"
  using assms by (fastforce simp: sched0_def)

lemma sched0_exit:
  assumes "sched0 s r d al rd idl w" "s c = THREAD_RUNNING" "idl \<noteq> Some c"
  shows "sched0 (s(c := THREAD_DYING)) r d (remove1 c al) rd idl w"
proof -
  have "distinct al" using assms(1) by (simp add: sched0_def)
  then show ?thesis using assms by (fastforce simp: sched0_def)
qed

lemma sched0_create:
  assumes "sched0 s r d al rd idl w" "t \<notin> set al"
  shows "sched0 (s(t := THREAD_BLOCKED)) (r(t := 0)) (d(t := None)) (al @ [t]) rd idl w"
proof -
  have "t \<notin> set (w m)" for m using assms by (auto simp: sched0_def)
  moreover have "t \<notin> set rd" using assms by (auto simp: sched0_def)
  ultimately show ?thesis using assms by (auto simp: sched0_def)
qed

lemma sched0_wait:
  assumes "sched0 s r d al rd idl w" "s c = THREAD_RUNNING" "c \<in> set al" "idl \<noteq> Some c"
  shows "sched0 s r (d(c := Some m)) al rd idl w" "sched0 (s(c := THREAD_BLOCKED)) r (d(c := Some m)) al rd idl (w(m := w m @ [c]))"
proof -
  have c: "c \<notin> set (w m)" for m using assms by (auto simp: sched0_def)
  have r: "r c = 0" using assms by (force simp: sched0_def)
  show "sched0 s r (d(c := Some m)) al rd idl w" using assms c by (auto simp: sched0_def)
  show "sched0 (s(c := THREAD_BLOCKED)) r (d(c := Some m)) al rd idl (w(m := w m @ [c]))"
    using assms c r by (auto simp: sched0_def)
qed

lemma sched0_done:
  assumes "sched0 s r d al rd idl w" "s c = THREAD_RUNNING"
  shows "sched0 s r (d(c := x)) al rd idl w"
proof -
  have c: "c \<notin> set (w m)" for m using assms by (auto simp: sched0_def)
  then show ?thesis using assms by (auto simp: sched0_def)
qed

lemma sched0_wake:
  assumes "sched0 s r d al rd idl w" "t \<in> set (w m)"
  shows "sched0 (s(t := THREAD_READY)) r d al (rd @ [t]) idl (w(m := remove1 t (w m)))"
proof -
  have "t \<notin> set rd" using assms by (auto simp: sched0_def)
  moreover have "t \<notin> set (w n)" if "n \<noteq> m" for n
  proof
    assume "t \<in> set (w n)"
    then have "d t = Some n" using sched0_waiter [OF assms(1)] by blast
    moreover have "d t = Some m" using sched0_waiter [OF assms] by blast
    ultimately show False using that by simp
  qed
  moreover have "t \<notin> set (remove1 t (w m))" using assms by (auto simp: sched0_def)
  ultimately show ?thesis using assms by (auto simp: sched0_def)
qed

lemma sched0_sleep:
  assumes "sched0 s r d al rd idl w" "s c = THREAD_RUNNING" "c \<in> set al" "idl \<noteq> Some c" "0 < n"
  shows "sched0 (s(c := THREAD_BLOCKED)) (r(c := n)) d al rd idl w"
proof -
  have c: "c \<notin> set (w m)" for m using assms by (auto simp: sched0_def)
  have "c \<notin> set rd" using assms by (auto simp: sched0_def)
  then show ?thesis using assms c by (auto simp: sched0_def)
qed

section \<open>Choosing the next thread\<close>

lemma kl_max_in: "kl_max lt m xs \<in> set (m # xs)"
  by (induction xs arbitrary: m) (auto split: if_splits)

text \<open>At the entry of \<open>schedule1\<close> no thread runs.\<close>

definition switching :: "kernel1 \<Rightarrow> bool" where
  "switching k \<longleftrightarrow> sched k \<and> (\<forall>t\<in>set (all1 k). st_of k t \<noteq> THREAD_RUNNING) \<and> st_of k (cur1 k) \<noteq> THREAD_RUNNING \<and>
     load_ok k \<and> \<not> in_intr1 k"

definition next_of :: "kernel1 \<Rightarrow> nat" where
  "next_of k = (case ready1 k of [] \<Rightarrow> the (idle1 k) | t # r \<Rightarrow> kl_max (pri_cmp k) t r)"

lemma next_of:
  assumes "sched k"
  shows "next_of k \<in> set (ready1 k) \<or> idle1 k = Some (next_of k)" "next_of k \<in> set (all1 k)"
    "next_thread_to_run1 k = Some (next_of k, k\<lparr>ready1 := remove1 (next_of k) (ready1 k)\<rparr>)"
proof -
  obtain i where i: "idle1 k = Some i" "i \<in> set (all1 k)" "i \<notin> set (ready1 k)" using assms by (auto simp: sched_def sched0_def)
  have a: "set (ready1 k) \<subseteq> set (all1 k)" using assms by (auto simp: sched_def sched0_def)
  have m: "kl_max (pri_cmp k) t r \<in> set (t # r)" for t r by (rule kl_max_in)
  show "next_of k \<in> set (ready1 k) \<or> idle1 k = Some (next_of k)" "next_of k \<in> set (all1 k)"
    using i a m by (auto simp: next_of_def split: list.splits)
  show "next_thread_to_run1 k = Some (next_of k, k\<lparr>ready1 := remove1 (next_of k) (ready1 k)\<rparr>)"
    using i by (auto simp: next_thread_to_run1_def next_of_def Let_def split: list.splits)
qed

lemma schedule_fine:
  assumes "switching k"
  shows "fine k (schedule1 k)" 
    "\<exists>k'. schedule1 k = Some k' \<and> cur1 k' = next_of k \<and> ready1 k' = remove1 (next_of k) (ready1 k) \<and> rm_of k' = rm_of k \<and>
       all1 k' = all1 k \<and> idle1 k' = idle1 k \<and> klocks1 k' = klocks1 k \<and> (\<forall>t. \<exists>x. thr1 k' t = thr1 k t\<lparr>status1 := x\<rparr>)"
proof -
  let ?n = "next_of k"
  let ?k = "upd1 ?n (\<lambda>t. t\<lparr>status1 := THREAD_RUNNING\<rparr>) (k\<lparr>ready1 := remove1 ?n (ready1 k), cur1 := ?n\<rparr>)\<lparr>thread_ticks1 := 0\<rparr>"
  have s: "sched k" and nr: "\<forall>t\<in>set (all1 k). st_of k t \<noteq> THREAD_RUNNING" "st_of k (cur1 k) \<noteq> THREAD_RUNNING" "load_ok k" "\<not> in_intr1 k"
    using assms by (simp_all add: switching_def)
  note n = next_of [OF s]
  obtain f where e: "schedule1 k = Some (?k\<lparr>freed1 := f\<rparr>)"
  proof (cases "cur1 k = ?n")
    case True
    have "schedule1 k = Some ?k"
      using nr(2) True by (simp add: schedule1_def n(3) thread_schedule_tail1_def st_of_def Let_def upd1_def)
    then show ?thesis using that [of "freed1 ?k"] by simp
  next
    case False
    then have "\<exists>f. schedule1 k = Some (?k\<lparr>freed1 := f\<rparr>)"
      using nr(2) by (auto simp: schedule1_def n(3) thread_schedule_tail1_def st_of_def Let_def upd1_def intro: exI [of _ "freed1 k"])
    then show ?thesis using that by blast
  qed
  have "sched ?k" using sched0_run [OF s [unfolded sched_def] n(1)] by (simp add: sched_def)
  then have sk: "sched (?k\<lparr>freed1 := f\<rparr>)" by (simp add: sched_def)
  have "ok1 (?k\<lparr>freed1 := f\<rparr>)" unfolding ok1_def running_def load_ok_def
    using sk n(2) nr by (auto simp: load_ok_def)
  moreover have "keeps k (?k\<lparr>freed1 := f\<rparr>)"
  proof -
    have "rm_of k ?n = 0 \<or> st_of k ?n = THREAD_READY" using s n(1) by (auto simp: sched_def sched0_def)
    then show ?thesis by (auto simp: keeps_def)
  qed
  ultimately show "fine k (schedule1 k)" using e by (rule fineI [rotated 1])
  have "\<exists>x. (thr1 k t :: thread1) = thr1 k t\<lparr>status1 := x\<rparr>" for t by (rule exI [of _ "status1 (thr1 k t)"]) simp
  then show "\<exists>k'. schedule1 k = Some k' \<and> cur1 k' = next_of k \<and> ready1 k' = remove1 (next_of k) (ready1 k) \<and> rm_of k' = rm_of k \<and>
       all1 k' = all1 k \<and> idle1 k' = idle1 k \<and> klocks1 k' = klocks1 k \<and> (\<forall>t. \<exists>x. thr1 k' t = thr1 k t\<lparr>status1 := x\<rparr>)"
    using e by auto
qed

end
