(* ===== verification/MlfqsSteps.thy ===== *)
theory MlfqsSteps
  imports MlfqsFacts
begin

text \<open>
  Every operation of the first project's scheduler returns in a state that satisfies the invariant, and
  keeps it. The timer interrupt counts each sleeper down by one.
\<close>

section \<open>Threads that switch\<close>

lemma ok_sched0: "ok1 k \<Longrightarrow> sched0 (st_of k) (rm_of k) (dn_of k) (all1 k) (ready1 k) (idle1 k) (ws_of k)"
  by (simp add: ok1_def sched_def)

lemma ok_cur:
  assumes "ok1 k"
  shows "st_of k (cur1 k) = THREAD_RUNNING" "cur1 k \<in> set (all1 k)" "thread_current1 k = Some (cur1 k)" "rm_of k (cur1 k) = 0"
    "cur1 k \<notin> set (ws_of k m)" "\<not> in_intr1 k" "status1 (thr1 k (cur1 k)) = THREAD_RUNNING"
proof -
  show r: "st_of k (cur1 k) = THREAD_RUNNING" "cur1 k \<in> set (all1 k)" using assms by (auto simp: ok1_def running_def)
  then show "thread_current1 k = Some (cur1 k)" "status1 (thr1 k (cur1 k)) = THREAD_RUNNING"
    by (simp_all add: thread_current1_def st_of_def)
  have "0 \<le> rm_of k (cur1 k) \<and> (0 < rm_of k (cur1 k) \<longrightarrow> st_of k (cur1 k) = THREAD_BLOCKED)"
    using ok_sched0 [OF assms] r(2) by (simp add: sched0_def)
  then show "rm_of k (cur1 k) = 0" using r(1) by simp
  show "cur1 k \<notin> set (ws_of k m)" using sched0_waiter [OF ok_sched0 [OF assms]] r(1) by fastforce
  show "\<not> in_intr1 k" using assms by (simp add: ok1_def)
qed

lemma ok_others: "ok1 k \<Longrightarrow> t \<in> set (all1 k) \<Longrightarrow> t \<noteq> cur1 k \<Longrightarrow> st_of k t \<noteq> THREAD_RUNNING"
  by (auto simp: ok1_def running_def)

lemma keeps_cur: "ok1 k \<Longrightarrow> (\<And>t. t \<noteq> cur1 k \<Longrightarrow> st_of k' t = st_of k t \<and> rm_of k' t = rm_of k t) \<Longrightarrow>
    (\<And>t. t \<in> set (all1 k) \<Longrightarrow> t \<noteq> cur1 k \<Longrightarrow> t \<in> set (all1 k')) \<Longrightarrow> keeps k k'"
  unfolding keeps_def using ok_cur(1) by (metis thread_status.distinct(3))

lemma block_fine: "ok1 k \<Longrightarrow> fine k (thread_block1 k)"
proof -
  assume k: "ok1 k"
  let ?k = "upd1 (cur1 k) (\<lambda>t. t\<lparr>status1 := THREAD_BLOCKED\<rparr>) k"
  have "sched ?k" using sched0_block [OF ok_sched0 ok_cur(1,2)] k by (simp add: sched_def)
  then have "switching ?k" using k ok_others [OF k] by (auto simp: switching_def ok1_def load_ok_def)
  then have "fine ?k (schedule1 ?k)" by (rule schedule_fine)
  then show ?thesis using keeps_cur [OF k, of ?k] keeps_fine ok_cur(3,6) [OF k] by (simp add: thread_block1_def)
qed

lemma yield_switching:
  assumes k: "ok1 k"
  shows "switching (upd1 (cur1 k) (\<lambda>t. t\<lparr>status1 := THREAD_READY\<rparr>)
    (if Some (cur1 k) \<noteq> idle1 k then k\<lparr>ready1 := ready1 k @ [cur1 k]\<rparr> else k))" (is "switching ?k")
proof -
  note s = ok_sched0 [OF k] and c = ok_cur [OF k]
  have "sched ?k"
  proof (cases "Some (cur1 k) = idle1 k")
    case True
    then show ?thesis using sched0_ready_idle [OF s c(1)] by (simp add: sched_def)
  next
    case False
    have "st_of k (cur1 k) \<noteq> THREAD_READY" using c(1) by simp
    then show ?thesis using sched0_ready [OF s c(2) _ _ c(4)] c(5) False by (auto simp: sched_def)
  qed
  then show ?thesis using k ok_others [OF k] by (auto simp: switching_def ok1_def load_ok_def)
qed

lemma yield_fine: "ok1 k \<Longrightarrow> fine k (thread_yield1 k)"
proof -
  assume k: "ok1 k"
  let ?j = "if Some (cur1 k) \<noteq> idle1 k then k\<lparr>ready1 := ready1 k @ [cur1 k]\<rparr> else k"
  let ?k = "upd1 (cur1 k) (\<lambda>t. t\<lparr>status1 := THREAD_READY\<rparr>) ?j"
  have "fine ?k (schedule1 ?k)" by (rule schedule_fine [OF yield_switching [OF k]])
  moreover have "keeps k ?k" by (rule keeps_cur [OF k]) auto
  moreover have "thread_yield1 k = schedule1 ?k" using ok_cur(3,6) [OF k] by (simp add: thread_yield1_def Let_def)
  ultimately show ?thesis using keeps_fine by metis
qed

lemma exit_fine:
  assumes k: "ok1 k" and i: "idle1 k \<noteq> Some (cur1 k)"
  shows "fine k (thread_exit1 k)"
proof -
  let ?k = "upd1 (cur1 k) (\<lambda>t. t\<lparr>status1 := THREAD_DYING\<rparr>) (k\<lparr>all1 := remove1 (cur1 k) (all1 k)\<rparr>)"
  have d: "distinct (all1 k)" using ok_sched0 [OF k] by (simp add: sched0_def)
  have "sched ?k" using sched0_exit [OF ok_sched0 ok_cur(1) i] k by (simp add: sched_def)
  then have "switching ?k" using k ok_others [OF k] d length_remove1 [of "cur1 k" "all1 k"]
    by (auto simp: switching_def ok1_def load_ok_def)
  then have "fine ?k (schedule1 ?k)" by (rule schedule_fine)
  moreover have "keeps k ?k" by (rule keeps_cur [OF k]) (auto simp: d)
  moreover have "thread_exit1 k = schedule1 ?k" using ok_cur(3,6) [OF k] by (simp add: thread_exit1_def Let_def)
  ultimately show ?thesis using keeps_fine by metis
qed

section \<open>Updates that do not matter to the scheduler\<close>

definition same_view :: "kernel1 \<Rightarrow> kernel1 \<Rightarrow> bool" where
  "same_view k k' \<longleftrightarrow> st_of k' = st_of k \<and> rm_of k' = rm_of k \<and> dn_of k' = dn_of k \<and> ws_of k' = ws_of k \<and> all1 k' = all1 k \<and> ready1 k' = ready1 k \<and>
     idle1 k' = idle1 k \<and> cur1 k' = cur1 k \<and> in_intr1 k' = in_intr1 k"

lemma same_view_trans: "same_view k k' \<Longrightarrow> same_view k' k'' \<Longrightarrow> same_view k k''"
  by (simp add: same_view_def)

lemma same_view_ok: "same_view k k' \<Longrightarrow> ok1 k \<Longrightarrow> load_ok k' \<Longrightarrow> ok1 k'"
  by (simp add: same_view_def ok1_def sched_def running_def)

lemma same_view_keeps: "same_view k k' \<Longrightarrow> keeps k k'"
  by (simp add: same_view_def keeps_def)

lemma view_ok_keeps:
  assumes "same_view k k'" "load_avg k' = load_avg k" "ok1 k"
  shows "ok1 k' \<and> keeps k k'"
proof -
  have "load_ok k'" using assms by (simp add: ok1_def load_ok_def same_view_def)
  then show ?thesis using same_view_ok [OF assms(1,3)] same_view_keeps [OF assms(1)] by simp
qed

lemma same_view_upd:
  "(\<And>x. status1 (f x) = status1 x \<and> ticks_remain (f x) = ticks_remain x \<and> down1 (f x) = down1 x) \<Longrightarrow> same_view k (upd1 t f k)"
  by (simp add: same_view_def)

lemma same_view_refl [simp]: "same_view k k"
  by (simp add: same_view_def)

lemma upd_ok:
  "ok1 k \<Longrightarrow> (\<And>x. status1 (f x) = status1 x \<and> ticks_remain (f x) = ticks_remain x \<and> down1 (f x) = down1 x) \<Longrightarrow>
     ok1 (upd1 t f k) \<and> keeps k (upd1 t f k)"
  using view_ok_keeps [OF same_view_upd [of f k t]] by simp

lemma yield_or_not: "ok1 k \<Longrightarrow> fine k (if P then thread_yield1 k else Some k)"
  using yield_fine [of k] fineI [of "Some k" k k] same_view_keeps [OF same_view_refl] by simp

lemma set_priority_fine: "ok1 k \<Longrightarrow> fine k (thread_set_priority1 n k)"
proof -
  assume k: "ok1 k"
  define j where "j = upd1 (cur1 k) (\<lambda>x. x\<lparr>old_priority := n\<rparr>) k"
  define l where "l = (if locks1 (thr1 j (cur1 k)) = [] \<or> n > priority1 (thr1 j (cur1 k))
    then upd1 (cur1 k) (\<lambda>x. x\<lparr>priority1 := n\<rparr>) j else j)"
  have j: "ok1 j" "keeps k j" using upd_ok [OF k] by (simp_all add: j_def)
  have l: "ok1 l" "keeps j l" using upd_ok [OF j(1)] same_view_keeps [OF same_view_refl] j by (simp_all add: l_def)
  have "thread_set_priority1 n k =
      (if priority1 (thr1 l (cur1 k)) < all_threads_max_priority l then thread_yield1 l else Some l)"
    using ok_cur(3) [OF k] by (simp add: thread_set_priority1_def Let_def l_def j_def)
  moreover have "fine l (if priority1 (thr1 l (cur1 k)) < all_threads_max_priority l then thread_yield1 l else Some l)"
    using yield_or_not [OF l(1)] .
  ultimately show ?thesis using keeps_fine [OF keeps_trans [OF j(2) l(2)]] by metis
qed

lemma set_nice_fine: "ok1 k \<Longrightarrow> fine k (thread_set_nice n k)"
proof -
  assume k: "ok1 k"
  define j where "j = upd1 (cur1 k) (\<lambda>x. x\<lparr>nice := (if (if n > 20 then 20 else n) < - 20 then - 20 else (if n > 20 then 20 else n))\<rparr>) k"
  define l where "l = (if Some (cur1 k) = idle1 j then j else upd1 (cur1 k) (\<lambda>x. x\<lparr>priority1 := new_priority x\<rparr>) j)"
  have j: "ok1 j" "keeps k j" using upd_ok [OF k] by (simp_all add: j_def)
  have l: "ok1 l" "keeps j l" using upd_ok [OF j(1)] same_view_keeps [OF same_view_refl] j by (simp_all add: l_def)
  have "thread_set_nice n k = thread_yield1 l"
    using ok_cur(3) [OF k] by (simp add: thread_set_nice_def update_priority_def Let_def l_def j_def)
  then show ?thesis using keeps_fine [OF keeps_trans [OF j(2) l(2)] yield_fine [OF l(1)]] by simp
qed

section \<open>Creation and sleeping\<close>

lemma create_fine:
  assumes k: "ok1 k" and t: "t \<notin> set (all1 k)" "length (all1 k) < MAX_THREADS" "PRI_MIN \<le> pri" "pri \<le> PRI_MAX"
  shows "fine k (map_option snd (thread_create1 (Some t) pri k))"
proof -
  note c = ok_cur [OF k]
  define i where "i = (\<lparr>status1 = THREAD_BLOCKED, priority1 = pri, old_priority = pri, locks1 = [], waiting1 = None,
       ticks_remain = 0, nice = 0, recent_cpu = CONVERT_N_TO_FIXED_POINT 0, down1 = None, taking1 = None\<rparr>)"
  define j where "j = upd1 t (\<lambda>_. i) k\<lparr>all1 := all1 k @ [t]\<rparr>"
  define l where "l = upd1 t (\<lambda>x. x\<lparr>status1 := THREAD_READY\<rparr>) (j\<lparr>ready1 := ready1 j @ [t]\<rparr>)"
  have tc: "t \<noteq> cur1 k" using t(1) c(2) by auto
  have s: "sched0 ((st_of k)(t := THREAD_BLOCKED)) ((rm_of k)(t := 0)) ((dn_of k)(t := None)) (all1 k @ [t]) (ready1 k) (idle1 k) (ws_of k)"
    by (rule sched0_create [OF ok_sched0 [OF k] t(1)])
  have w: "t \<notin> set (ws_of k m)" for m using sched0_waiter [OF ok_sched0 [OF k]] t(1) by blast
  have id: "idle1 k \<noteq> Some t" using ok_sched0 [OF k] t(1) by (auto simp: sched0_def)
  have "sched l" using sched0_ready [OF s, of t] w id by (simp add: sched_def l_def j_def i_def)
  moreover have "running l" using k tc by (auto simp: ok1_def running_def l_def j_def)
  ultimately have l: "ok1 l" using k t(2) by (simp add: ok1_def load_ok_def l_def j_def)
  have kl: "keeps k l" using t(1) by (auto simp: keeps_def l_def j_def)
  have a: "init_thread1 t pri k = Some j" using t(3,4) by (simp add: init_thread1_def j_def i_def)
  have b: "thread_unblock1 t j = Some l" by (simp add: thread_unblock1_def l_def j_def i_def)
  have e: "thread_create1 (Some t) pri k =
      map_option (Pair True) (if priority1 (thr1 l (cur1 l)) < pri then thread_yield1 l else Some l)"
    using ok_cur(3) [OF l] by (simp add: thread_create1_def a b map_option_case split: option.splits)
  have "fine l (if priority1 (thr1 l (cur1 l)) < pri then thread_yield1 l else Some l)"
    using yield_or_not [OF l] .
  then have "fine k (if priority1 (thr1 l (cur1 l)) < pri then thread_yield1 l else Some l)" by (rule keeps_fine [OF kl])
  then show ?thesis by (simp only: e option.map_comp comp_def snd_conv option.map_ident)
qed

lemma sleep_block:
  assumes k: "ok1 k" and i: "idle1 k \<noteq> Some (cur1 k)" and n: "0 < n"
  defines "j \<equiv> upd1 (cur1 k) (\<lambda>t. t\<lparr>status1 := THREAD_BLOCKED\<rparr>) (upd1 (cur1 k) (\<lambda>x. x\<lparr>ticks_remain := n\<rparr>) k)"
  shows "timer_sleep n k = schedule1 j" "switching j" "keeps k j"
proof -
  note c = ok_cur [OF k]
  show "timer_sleep n k = schedule1 j" using n c(3,6,7)
    by (simp add: timer_sleep_def Let_def thread_block1_def thread_current1_def j_def)
  have "sched j" using sched0_sleep [OF ok_sched0 [OF k] c(1,2) i n] by (simp add: sched_def j_def)
  then show "switching j" using k ok_others [OF k] by (auto simp: switching_def ok1_def load_ok_def j_def)
  show "keeps k j" by (rule keeps_cur [OF k]) (auto simp: j_def)
qed

lemma sleep_fine: "ok1 k \<Longrightarrow> idle1 k \<noteq> Some (cur1 k) \<Longrightarrow> fine k (timer_sleep n k)"
proof -
  assume k: "ok1 k" and i: "idle1 k \<noteq> Some (cur1 k)"
  show ?thesis
  proof (cases "0 < n")
    case True
    show ?thesis unfolding sleep_block(1) [OF k i True]
      by (rule keeps_fine [OF sleep_block(3) [OF k i True] schedule_fine(1) [OF sleep_block(2) [OF k i True]]])
  next
    case False
    let ?k = "upd1 (cur1 k) (\<lambda>x. x\<lparr>ticks_remain := 0\<rparr>) k"
    have "rm_of k = (rm_of k)(cur1 k := 0)" using ok_cur(4) [OF k] by auto
    then have "same_view k ?k" by (simp add: same_view_def)
    then have "ok1 ?k" "keeps k ?k" using k view_ok_keeps by simp_all
    moreover have "timer_sleep n k = Some ?k" using False ok_cur(3) [OF k] by (auto simp: timer_sleep_def Let_def)
    ultimately show ?thesis by (intro fineI)
  qed
qed

section \<open>Semaphores\<close>

lemma sema_round_fine:
  assumes k: "ok1 k" and i: "idle1 k \<noteq> Some (cur1 k)"
  shows "fine k (sema_round1 m k)"
proof (cases "value1 (semas1 k m) = 0")
  case True
  note c = ok_cur [OF k]
  let ?j = "upd1 (cur1 k) (\<lambda>t. t\<lparr>down1 := Some m\<rparr>) (upd_sema1 m (\<lambda>x. x\<lparr>waiters1 := waiters1 x @ [cur1 k]\<rparr>) k)"
  let ?l = "upd1 (cur1 k) (\<lambda>t. t\<lparr>status1 := THREAD_BLOCKED\<rparr>) ?j"
  have "sched ?l" using sched0_wait(2) [OF ok_sched0 [OF k] c(1,2) i, of m] by (simp add: sched_def ws_of_def)
  then have "switching ?l" using k ok_others [OF k] by (auto simp: switching_def ok1_def load_ok_def)
  then have f: "fine ?l (schedule1 ?l)" by (rule schedule_fine)
  have "keeps k ?l" by (rule keeps_cur [OF k]) auto
  then have "fine k (schedule1 ?l)" using f by (rule keeps_fine)
  moreover have "sema_round1 m k = schedule1 ?l"
    using True c(3,6,7) by (simp add: sema_round1_def thread_block1_def thread_current1_def)
  ultimately show ?thesis by (simp only:)
next
  case False
  let ?l = "upd1 (cur1 k) (\<lambda>t. t\<lparr>down1 := None\<rparr>) (upd_sema1 m (\<lambda>x. x\<lparr>value1 := value1 x - 1\<rparr>) k)"
  have w: "(ws_of k)(m := waiters1 (semas1 k m)) = ws_of k" by (auto simp: ws_of_def)
  have "sched ?l" using sched0_done [OF ok_sched0 [OF k] ok_cur(1) [OF k], of None] by (simp add: sched_def w)
  then have "ok1 ?l" using k by (simp add: ok1_def running_def load_ok_def)
  moreover have "keeps k ?l" by (rule keeps_cur [OF k]) auto
  moreover have "sema_round1 m k = Some ?l" using False ok_cur(3) [OF k] by (simp add: sema_round1_def)
  ultimately show ?thesis by (intro fineI)
qed

lemma sema_value_ok: "ok1 k \<Longrightarrow> ok1 (upd_sema1 m (\<lambda>x. x\<lparr>value1 := f (value1 x)\<rparr>) k) \<and>
    keeps k (upd_sema1 m (\<lambda>x. x\<lparr>value1 := f (value1 x)\<rparr>) k)"
proof -
  assume k: "ok1 k"
  have "(ws_of k)(m := waiters1 (semas1 k m)) = ws_of k" by (auto simp: ws_of_def)
  then have "same_view k (upd_sema1 m (\<lambda>x. x\<lparr>value1 := f (value1 x)\<rparr>) k)" by (simp add: same_view_def)
  then show ?thesis using view_ok_keeps k by simp
qed

text \<open>\<open>sema_up1\<close> updates the semaphore and perhaps the state of a thread, and then perhaps yields.\<close>

lemma sema_up_shape:
  assumes k: "ok1 k"
  shows "\<exists>l P. sema_up1 m k = (if P then thread_yield1 l else Some l) \<and> ok1 l \<and> keeps k l \<and> klocks1 l = klocks1 k \<and>
    (\<forall>t. \<exists>x. thr1 l t = thr1 k t\<lparr>status1 := x\<rparr>)"
proof (cases "waiters1 (semas1 k m)")
  case Nil
  let ?j = "upd_sema1 m (\<lambda>x. x\<lparr>value1 := value1 x + 1\<rparr>) k"
  have j: "ok1 ?j \<and> keeps k ?j" by (rule sema_value_ok [OF k])
  have "\<exists>x. thr1 ?j t = thr1 k t\<lparr>status1 := x\<rparr>" for t by (rule exI [of _ "status1 (thr1 k t)"]) simp
  moreover have "sema_up1 m k = (if True then thread_yield1 ?j else Some ?j)" using Nil by (simp add: sema_up1_def)
  moreover have "klocks1 ?j = klocks1 k" by simp
  ultimately show ?thesis using j by blast
next
  case (Cons w r)
  define t where "t = kl_max (pri_cmp k) w r"
  define j where "j = upd1 t (\<lambda>x. x\<lparr>status1 := THREAD_READY\<rparr>)
    (upd_sema1 m (\<lambda>x. x\<lparr>waiters1 := remove1 t (waiters1 x)\<rparr>) k\<lparr>ready1 := ready1 k @ [t]\<rparr>)"
  define l where "l = upd_sema1 m (\<lambda>x. x\<lparr>value1 := value1 x + 1\<rparr>) j"
  have t: "t \<in> set (ws_of k m)" using kl_max_in [of "pri_cmp k" w r] Cons by (simp add: t_def ws_of_def)
  note tw = sched0_waiter [OF ok_sched0 [OF k] t]
  have tc: "t \<noteq> cur1 k" using t ok_cur(5) [OF k] by auto
  have s: "sched j" using sched0_wake [OF ok_sched0 [OF k] t] by (simp add: sched_def j_def flip: ws_of_def)
  have "running j" using k tc by (auto simp: ok1_def running_def j_def)
  then have j: "ok1 j" using s k by (simp add: ok1_def load_ok_def j_def)
  have kj: "keeps k j" using tw by (auto simp: keeps_def j_def)
  note l = sema_value_ok [OF j, of m "\<lambda>v. v + 1", folded l_def]
  have b: "thread_unblock1 t (upd_sema1 m (\<lambda>x. x\<lparr>waiters1 := remove1 t (waiters1 x)\<rparr>) k) = Some j"
    using tw by (simp add: thread_unblock1_def j_def st_of_def)
  have "sema_up1 m k = do { c \<leftarrow> thread_current1 l; if priority1 (thr1 l t) > priority1 (thr1 l c) then thread_yield1 l else Some l }"
    unfolding l_def by (simp add: sema_up1_def Cons Let_def b cong del: if_weak_cong flip: t_def)
  then have e: "sema_up1 m k = (if priority1 (thr1 l t) > priority1 (thr1 l (cur1 l)) then thread_yield1 l else Some l)"
    using ok_cur(3) [of l] l by simp
  have "thr1 l u = thr1 k u\<lparr>status1 := (if u = t then THREAD_READY else status1 (thr1 k u))\<rparr>" for u
    by (simp add: l_def j_def)
  moreover have "klocks1 l = klocks1 k" by (simp add: l_def j_def)
  ultimately show ?thesis using e l keeps_trans [OF kj] by blast
qed

lemma sema_up_fine: "ok1 k \<Longrightarrow> fine k (sema_up1 m k)"
proof -
  assume k: "ok1 k"
  obtain l P where l: "sema_up1 m k = (if P then thread_yield1 l else Some l)" "ok1 l" "keeps k l"
    using sema_up_shape [OF k] by blast
  show ?thesis unfolding l(1) by (rule keeps_fine [OF l(3) yield_or_not [OF l(2)]])
qed

end
