(* ===== verification/MlfqsTick.thy ===== *)
theory MlfqsTick
  imports MlfqsSteps
begin

text \<open>
  The timer interrupt of the first project: it always returns, counts sleepers down, and computes the
  load average, the recent CPU time and the priorities without overflow.
\<close>

section \<open>Counting sleepers down\<close>

definition counted :: "kernel1 \<Rightarrow> kernel1 \<Rightarrow> nat \<Rightarrow> bool" where
  "counted k k' u \<longleftrightarrow>
     (if st_of k u = THREAD_BLOCKED \<and> 0 < rm_of k u then
        rm_of k' u = rm_of k u - 1 \<and>
        (if rm_of k u = 1 then st_of k' u = THREAD_READY \<and> u \<in> set (ready1 k') else st_of k' u = THREAD_BLOCKED)
      else st_of k' u = st_of k u \<and> rm_of k' u = rm_of k u)"

definition same_rest :: "kernel1 \<Rightarrow> kernel1 \<Rightarrow> bool" where
  "same_rest k k' \<longleftrightarrow> all1 k' = all1 k \<and> cur1 k' = cur1 k \<and> idle1 k' = idle1 k \<and> in_intr1 k' = in_intr1 k \<and> load_avg k' = load_avg k \<and>
     thread_mlfqs k' = thread_mlfqs k \<and> ticks1 k' = ticks1 k \<and> set (ready1 k) \<subseteq> set (ready1 k')"

lemma sched0_count:
  assumes "sched0 s r d al rd idl w" "s t = THREAD_BLOCKED" "1 < r t"
  shows "sched0 s (r(t := r t - 1)) d al rd idl w"
proof -
  have w: "t \<notin> set (w m)" for m using sched0_waiter [OF assms(1)] assms(3) by fastforce
  obtain i where "idl = Some i" "i \<noteq> t" using assms(1,3) by (fastforce simp: sched0_def)
  then show ?thesis using assms w by (auto simp: sched0_def)
qed

lemma sched0_due:
  assumes "sched0 s r d al rd idl w" "s t = THREAD_BLOCKED" "r t = 1" "t \<in> set al"
  shows "sched0 (s(t := THREAD_READY)) (r(t := 0)) d al (rd @ [t]) idl w"
proof -
  have w: "t \<notin> set (w m)" for m using sched0_waiter [OF assms(1)] assms(3) by fastforce
  have r: "t \<notin> set rd" using assms(1,2) by (auto simp: sched0_def)
  obtain i where "idl = Some i" "i \<noteq> t" using assms(1,3) by (fastforce simp: sched0_def)
  then show ?thesis using assms w r by (auto simp: sched0_def)
qed

lemma check_remain_spec:
  assumes "sched k" "t \<in> set (all1 k)"
  shows "\<exists>k'. check_remain t k = Some k' \<and> sched k' \<and> same_rest k k' \<and> counted k k' t \<and>
    (\<forall>u. u \<noteq> t \<longrightarrow> st_of k' u = st_of k u \<and> rm_of k' u = rm_of k u)"
proof (cases "st_of k t = THREAD_BLOCKED \<and> 0 < rm_of k t")
  case False
  then have "check_remain t k = Some k" by (auto simp: check_remain_def st_of_def rm_of_def)
  then show ?thesis using assms False by (auto simp: same_rest_def counted_def)
next
  case True
  let ?j = "upd1 t (\<lambda>x. x\<lparr>ticks_remain := ticks_remain x - 1\<rparr>) k"
  note s = assms(1) [unfolded sched_def]
  have e: "check_remain t k = (if rm_of k t = 1 then thread_unblock1 t ?j else Some ?j)"
    using True by (simp add: check_remain_def st_of_def rm_of_def)
  show ?thesis
  proof (cases "rm_of k t = 1")
    case one: True
    let ?l = "upd1 t (\<lambda>x. x\<lparr>status1 := THREAD_READY\<rparr>) (?j\<lparr>ready1 := ready1 k @ [t]\<rparr>)"
    have "check_remain t k = Some ?l" using e one True by (simp add: thread_unblock1_def st_of_def)
    moreover have "sched ?l" using sched0_due [OF s] True one assms(2) by (simp add: sched_def rm_of_def)
    moreover have "same_rest k ?l" by (auto simp: same_rest_def)
    moreover have "counted k ?l t" using True one by (simp add: counted_def rm_of_def)
    ultimately show ?thesis by (intro exI [of _ ?l]) simp
  next
    case more: False
    have "sched ?j" using sched0_count [OF s] True more by (simp add: sched_def rm_of_def)
    moreover have "same_rest k ?j" by (simp add: same_rest_def)
    moreover have "counted k ?j t" using True more by (simp add: counted_def rm_of_def)
    ultimately show ?thesis using e more by (intro exI [of _ ?j]) simp
  qed
qed

lemma counted_other: "st_of k' u = st_of k u \<Longrightarrow> rm_of k' u = rm_of k u \<Longrightarrow> counted k' k'' u \<Longrightarrow> counted k k'' u"
  by (simp add: counted_def)

lemma counted_later:
  "counted k k' u \<Longrightarrow> st_of k'' u = st_of k' u \<Longrightarrow> rm_of k'' u = rm_of k' u \<Longrightarrow> set (ready1 k') \<subseteq> set (ready1 k'') \<Longrightarrow> counted k k'' u"
  by (auto simp: counted_def split: if_splits)

lemma same_rest_trans: "same_rest k k' \<Longrightarrow> same_rest k' k'' \<Longrightarrow> same_rest k k''"
  by (auto simp: same_rest_def)

lemma check_loop_spec:
  "sched k \<Longrightarrow> distinct ts \<Longrightarrow> set ts \<subseteq> set (all1 k) \<Longrightarrow>
     \<exists>k'. foreach_loop1 check_remain ts k = Some k' \<and> sched k' \<and> same_rest k k' \<and> (\<forall>u\<in>set ts. counted k k' u) \<and>
       (\<forall>u. u \<notin> set ts \<longrightarrow> st_of k' u = st_of k u \<and> rm_of k' u = rm_of k u)"
proof (induction ts arbitrary: k)
  case Nil
  then show ?case by (simp add: same_rest_def)
next
  case (Cons t ts)
  obtain j where j: "check_remain t k = Some j" "sched j" "same_rest k j" "counted k j t"
      "\<forall>u. u \<noteq> t \<longrightarrow> st_of j u = st_of k u \<and> rm_of j u = rm_of k u"
    using check_remain_spec [OF Cons.prems(1), of t] Cons.prems(3) by auto
  have "distinct ts" "set ts \<subseteq> set (all1 j)" using Cons.prems(2,3) j(3) by (auto simp: same_rest_def)
  then obtain k' where k': "foreach_loop1 check_remain ts j = Some k'" "sched k'" "same_rest j k'"
      "\<forall>u\<in>set ts. counted j k' u" "\<forall>u. u \<notin> set ts \<longrightarrow> st_of k' u = st_of j u \<and> rm_of k' u = rm_of j u"
    using Cons.IH [OF j(2)] by auto
  have t: "t \<notin> set ts" using Cons.prems(2) by simp
  have "counted k k' t" by (rule counted_later [OF j(4)]) (use k' t in \<open>auto simp: same_rest_def\<close>)
  moreover have "counted k k' u" if "u \<in> set ts" for u
    by (rule counted_other [of j]) (use j(5) k'(4) t that in auto)
  ultimately show ?case using j k' same_rest_trans [OF j(3) k'(3)] by auto
qed

section \<open>Multi-level feedback queues\<close>

lemma int32_range: "- (2 ^ 31) \<le> x \<Longrightarrow> x < 2 ^ 31 \<Longrightarrow> int32 x = x"
  by (simp add: int32_def signed_take_bit_int_eq_self)

lemma sdiv_pos: "0 \<le> x \<Longrightarrow> 0 < y \<Longrightarrow> x sdiv y = x div (y :: int)"
  by (simp add: signed_divide_int_def sgn_if)

definition ready_threads :: "kernel1 \<Rightarrow> nat" where
  "ready_threads k = length (ready1 k) + (if Some (cur1 k) \<noteq> idle1 k then 1 else 0)"

text \<open>With the number of threads bounded the load average is computed without overflow.\<close>

lemma load_avg_new:
  assumes "0 \<le> l" "l \<le> int MAX_THREADS * F" "n \<le> MAX_THREADS"
  defines "l' \<equiv> int32 (DIVIDE_X_BY_N (MULTIPLY_X_BY_N l 59) 60 + take_bit 32 (int n * F) div 60)"
  shows "l' = l * 59 div 60 + int n * F div 60" "0 \<le> l'" "l' \<le> int MAX_THREADS * F"
    "60 * l' \<le> 59 * l + int n * F" "59 * l + int n * F < 60 * l' + 120"
proof -
  have b: "l \<le> 32768000" "int n * 16384 \<le> 32768000" using assms(2,3) by (simp_all add: MAX_THREADS_def F_def)
  have m: "MULTIPLY_X_BY_N l 59 = l * 59" unfolding MULTIPLY_X_BY_N_def by (rule int32_range) (use assms(1) b in simp_all)
  have t: "take_bit 32 (int n * F) = int n * F" using b by (simp add: take_bit_int_eq_self F_def)
  have d: "DIVIDE_X_BY_N (MULTIPLY_X_BY_N l 59) 60 = l * 59 div 60" using assms(1) by (simp add: m DIVIDE_X_BY_N_def sdiv_pos)
  have a: "0 \<le> l * 59 div 60" "l * 59 div 60 \<le> 32222000" "0 \<le> int n * F div 60" "int n * F div 60 \<le> 546200"
    using assms(1) b by (simp_all add: F_def)
  show l: "l' = l * 59 div 60 + int n * F div 60" unfolding l'_def t d by (rule int32_range) (use a in simp_all)
  then show "0 \<le> l'" using a by simp
  have r: "60 * (l * 59 div 60) + l * 59 mod 60 = l * 59" "60 * (int n * F div 60) + int n * F mod 60 = int n * F"
    by (simp_all only: mult_div_mod_eq)
  have mm: "0 \<le> l * 59 mod 60" "l * 59 mod 60 < 60" "0 \<le> int n * F mod 60" "int n * F mod 60 < 60" by simp_all
  have r': "60 * l' + l * 59 mod 60 + int n * F mod 60 = 59 * l + int n * F" unfolding l using r by (simp add: algebra_simps)
  show e: "60 * l' \<le> 59 * l + int n * F" using r' mm by linarith
  show "59 * l + int n * F < 60 * l' + 120" using r' mm by linarith
  have "int n * F \<le> int MAX_THREADS * F" using assms(3) by (simp add: F_def)
  then show "l' \<le> int MAX_THREADS * F" using e assms(2) by linarith
qed

lemma ready_bound:
  assumes "sched k" "running k" "load_ok k"
  shows "ready_threads k \<le> MAX_THREADS"
proof -
  have d: "distinct (ready1 k)" "set (ready1 k) \<subseteq> set (all1 k)" "distinct (all1 k)" and i: "\<exists>i. idle1 k = Some i \<and> i \<in> set (all1 k) - set (ready1 k)"
    using assms(1) by (auto simp: sched_def sched0_def)
  have "set (ready1 k) \<subset> set (all1 k)" using d(2) i by auto
  then have "card (set (ready1 k)) < card (set (all1 k))" by (intro psubset_card_mono) auto
  then have "length (ready1 k) < length (all1 k)" using d by (simp add: distinct_card)
  then show ?thesis using assms(3) by (simp add: ready_threads_def load_ok_def)
qed

lemma running_current: "running k \<Longrightarrow> thread_current1 k = Some (cur1 k)"
  by (auto simp: running_def thread_current1_def st_of_def)

lemma update_load_spec:
  assumes "sched k" "running k" "load_ok k"
  shows "\<exists>l. update_load_avg k = Some (k\<lparr>load_avg := l\<rparr>) \<and> 0 \<le> l \<and> l \<le> int MAX_THREADS * F"
proof -
  have l: "0 \<le> load_avg k" "load_avg k \<le> int MAX_THREADS * F" using assms(3) by (simp_all add: load_ok_def)
  note b = load_avg_new [OF l ready_bound [OF assms]]
  have n: "int (length (ready1 k)) + (if Some (cur1 k) \<noteq> idle1 k then 1 else 0) = int (ready_threads k)" by (simp add: ready_threads_def)
  have "update_load_avg k = Some (k\<lparr>load_avg :=
      int32 (DIVIDE_X_BY_N (MULTIPLY_X_BY_N (load_avg k) 59) 60 + take_bit 32 (int (ready_threads k) * F) div 60)\<rparr>)"
    using n by (simp add: update_load_avg_def running_current [OF assms(2)] Let_def)
  then show ?thesis using b(2,3) by blast
qed

text \<open>The loops over all threads change nothing the scheduler looks at.\<close>

lemma foreach_same_view:
  assumes "\<And>t k. Q k \<Longrightarrow> \<exists>k'. f t k = Some k' \<and> same_view k k' \<and> load_avg k' = load_avg k \<and> ticks1 k' = ticks1 k \<and> Q k'"
  shows "Q k \<Longrightarrow> \<exists>k'. foreach_loop1 f ts k = Some k' \<and> same_view k k' \<and> load_avg k' = load_avg k \<and> ticks1 k' = ticks1 k \<and> Q k'"
proof (induction ts arbitrary: k)
  case (Cons t ts)
  obtain j where j: "f t k = Some j" "same_view k j" "load_avg j = load_avg k" "ticks1 j = ticks1 k" "Q j" using assms [OF Cons.prems] by auto
  obtain l where "foreach_loop1 f ts j = Some l" "same_view j l" "load_avg l = load_avg j" "ticks1 l = ticks1 j" "Q l" using Cons.IH [OF j(5)] by auto
  then show ?case using j same_view_trans [of k j l] by simp
qed simp

lemma twice_load:
  assumes "0 \<le> load_avg k" "load_avg k \<le> int MAX_THREADS * F"
  shows "MULTIPLY_X_BY_N (load_avg k) 2 = load_avg k * 2" "ADD_X_AND_N (load_avg k * 2) 1 = load_avg k * 2 + F"
proof -
  have b: "load_avg k \<le> 32768000" using assms(2) by (simp add: MAX_THREADS_def F_def)
  show "MULTIPLY_X_BY_N (load_avg k) 2 = load_avg k * 2" unfolding MULTIPLY_X_BY_N_def
    by (rule int32_range) (use assms(1) b in simp_all)
  have "int32 (1 * F) = F" using int32_range [of "1 * F"] by (simp add: F_def)
  then show "ADD_X_AND_N (load_avg k * 2) 1 = load_avg k * 2 + F" unfolding ADD_X_AND_N_def
    by (simp only:) (rule int32_range, use assms(1) b in \<open>simp_all add: F_def\<close>)
qed

lemma update_recent_spec:
  assumes "0 \<le> load_avg k \<and> load_avg k \<le> int MAX_THREADS * F"
  shows "\<exists>k'. update_recent_cpu t k = Some k' \<and> same_view k k' \<and> load_avg k' = load_avg k \<and> ticks1 k' = ticks1 k \<and>
    0 \<le> load_avg k' \<and> load_avg k' \<le> int MAX_THREADS * F"
proof -
  have "load_avg k * 2 + F \<noteq> 0" using assms by (simp add: F_def)
  then show ?thesis using assms
    by (auto simp: update_recent_cpu_def twice_load DIVIDE_X_BY_Y_def Let_def intro!: same_view_upd)
qed

lemma mlfqs_tick_spec:
  assumes "sched k" "running k" "load_ok k"
  shows "\<exists>k'. mlfqs_tick k = Some k' \<and> same_view k k' \<and> load_ok k' \<and>
    (ticks1 k smod 4 = 0 \<longrightarrow> (\<exists>j. same_view k j \<and> thread_foreach1 update_priority j = Some k'))"
proof -
  obtain a where a: "inc_recent_cpu k = Some a" "same_view k a" "load_avg a = load_avg k" "ticks1 a = ticks1 k"
  proof (cases "Some (cur1 k) = idle1 k")
    case True
    then show ?thesis using that [of k] running_current [OF assms(2)] by (simp add: inc_recent_cpu_def flip: True)
  next
    case False
    let ?a = "upd1 (cur1 k) (\<lambda>x. x\<lparr>recent_cpu := ADD_X_AND_N (recent_cpu x) 1\<rparr>) k"
    have "same_view k ?a" by (rule same_view_upd) simp
    then show ?thesis using False that [of ?a] running_current [OF assms(2)] by (simp add: inc_recent_cpu_def)
  qed
  have a': "sched a" "running a" "load_ok a"
    using a(2,3) assms by (simp_all add: same_view_def sched_def running_def load_ok_def)
  define q where "q = (if ticks1 a smod TIMER_FREQ = 0 then do { k \<leftarrow> update_load_avg a; thread_foreach1 update_recent_cpu k } else Some a)"
  obtain b where b: "q = Some b" "same_view a b" "load_ok b" "ticks1 b = ticks1 a"
  proof (cases "ticks1 a smod TIMER_FREQ = 0")
    case True
    obtain l where l: "update_load_avg a = Some (a\<lparr>load_avg := l\<rparr>)" "0 \<le> l" "l \<le> int MAX_THREADS * F"
      using update_load_spec [OF a'] by auto
    have v: "same_view a (a\<lparr>load_avg := l\<rparr>)" by (simp add: same_view_def)
    obtain b where b: "thread_foreach1 update_recent_cpu (a\<lparr>load_avg := l\<rparr>) = Some b" "same_view (a\<lparr>load_avg := l\<rparr>) b"
        "load_avg b = l" "ticks1 b = ticks1 a"
      using foreach_same_view [where f = update_recent_cpu and Q = "\<lambda>k. 0 \<le> load_avg k \<and> load_avg k \<le> int MAX_THREADS * F", OF update_recent_spec, of "a\<lparr>load_avg := l\<rparr>"] l(2,3)
      by (auto simp: thread_foreach1_def)
    have "same_view a b" by (rule same_view_trans [OF v b(2)])
    moreover have "load_ok b" using a'(3) l(2,3) b(3) calculation by (simp add: load_ok_def same_view_def)
    ultimately show ?thesis using that l(1) b(1,4) True by (simp add: q_def)
  next
    case False
    then show ?thesis using that [of a] a'(3) by (simp add: q_def)
  qed
  have p: "\<exists>k'. update_priority t j = Some k' \<and> same_view j k' \<and> load_avg k' = load_avg j \<and> ticks1 k' = ticks1 j \<and> True" for t j
    by (auto simp: update_priority_def intro!: same_view_upd)
  obtain c where c: "thread_foreach1 update_priority b = Some c" "same_view b c" "load_avg c = load_avg b"
    using foreach_same_view [where f = update_priority and Q = "\<lambda>_. True" and k = b and ts = "all1 b", OF p] by (auto simp: thread_foreach1_def)
  have c': "load_ok c" using b(3) c(2,3) by (simp add: load_ok_def same_view_def)
  have e: "mlfqs_tick k = (if ticks1 b smod 4 = 0 then thread_foreach1 update_priority b else Some b)"
    using a(1) b(1) by (simp add: mlfqs_tick_def q_def)
  have ab: "same_view k b" by (rule same_view_trans [OF a(2) b(2)])
  show ?thesis
    using e b(3,4) a(4) c(1) c' ab same_view_trans [OF ab c(2)] by auto
qed

section \<open>The timer interrupt\<close>

definition awake :: "nat \<Rightarrow> kernel1 \<Rightarrow> bool" where
  "awake u k \<longleftrightarrow> u \<in> set (ready1 k) \<or> u = cur1 k"

lemma tick_spec:
  assumes k: "ok1 k"
  shows "\<exists>j r. timer_interrupt1 (k\<lparr>in_intr1 := True, yield_on_return1 := False\<rparr>) = Some j \<and> ok1 (j\<lparr>in_intr1 := False\<rparr>) \<and>
    all1 j = all1 k \<and> idle1 j = idle1 k \<and> (\<forall>u\<in>set (all1 k). counted k j u) \<and>
    (thread_mlfqs k \<and> (ticks1 k + 1) smod 4 = 0 \<longrightarrow> (\<exists>i. same_view i j \<and> thread_foreach1 update_priority i = Some j))"
proof -
  define a where "a = k\<lparr>in_intr1 := True, yield_on_return1 := False, ticks1 := ticks1 k + 1\<rparr>"
  obtain b where b: "thread_tick1 a = Some b" "same_view a b" "load_avg b = load_avg a" "thread_mlfqs b = thread_mlfqs a" "ticks1 b = ticks1 a"
  proof -
    have c: "thread_current1 a = Some (cur1 k)" using ok_cur(7) [OF k] by (simp add: thread_current1_def a_def)
    define x where "x = (if Some (cur1 k) = idle1 a then a\<lparr>idle_ticks1 := idle_ticks1 a + 1\<rparr> else a\<lparr>kernel_ticks1 := kernel_ticks1 a + 1\<rparr>)"
    define y where "y = x\<lparr>thread_ticks1 := thread_ticks1 x + 1\<rparr>"
    define z where "z = (if thread_ticks1 y \<ge> TIME_SLICE then y\<lparr>yield_on_return1 := True\<rparr> else y)"
    have "thread_tick1 a = Some z" unfolding z_def y_def x_def by (simp add: thread_tick1_def c Let_def)
    moreover have "same_view a z \<and> load_avg z = load_avg a \<and> thread_mlfqs z = thread_mlfqs a \<and> ticks1 z = ticks1 a"
      by (simp add: z_def y_def x_def same_view_def)
    ultimately show ?thesis using that by blast
  qed
  have v: "st_of b = st_of k" "rm_of b = rm_of k" "dn_of b = dn_of k" "ws_of b = ws_of k" "all1 b = all1 k" "ready1 b = ready1 k" "idle1 b = idle1 k"
      "cur1 b = cur1 k" "in_intr1 b"
    using b(2) by (simp_all add: same_view_def a_def)
  have sb: "sched b" using k v by (simp add: ok1_def sched_def)
  obtain c where c: "thread_foreach1 check_remain b = Some c" "sched c" "same_rest b c" "\<forall>u\<in>set (all1 b). counted b c u"
    using check_loop_spec [OF sb, of "all1 b"] sb by (auto simp: thread_foreach1_def sched_def sched0_def)
  have ck: "counted k c u" if "u \<in> set (all1 k)" for u using c(4) that v(1,2,5) by (simp add: counted_def)
  have run: "running c"
  proof -
    have "st_of c t = THREAD_RUNNING \<longleftrightarrow> st_of k t = THREAD_RUNNING" if "t \<in> set (all1 k)" for t
      using ck [OF that] by (auto simp: counted_def split: if_splits)
    then show ?thesis using k c(3) v(5,8) by (auto simp: running_def ok1_def same_rest_def)
  qed
  have load: "load_ok c" using k c(3) b(3) v(5) by (auto simp: ok1_def load_ok_def same_rest_def a_def)
  have fin: "ok1 (j\<lparr>in_intr1 := False\<rparr>) \<and> all1 j = all1 k \<and> idle1 j = idle1 k \<and> (\<forall>u\<in>set (all1 k). counted k j u)"
    if j: "same_view c j" "load_ok j" for j
  proof -
    have "sched (j\<lparr>in_intr1 := False\<rparr>)" "running (j\<lparr>in_intr1 := False\<rparr>)"
      using j(1) c(2) run by (simp_all add: same_view_def sched_def running_def)
    then have "ok1 (j\<lparr>in_intr1 := False\<rparr>)" using j(2) by (simp add: ok1_def load_ok_def)
    moreover have "counted k j u" if "u \<in> set (all1 k)" for u
      by (rule counted_later [OF ck [OF that]]) (use j(1) in \<open>simp_all add: same_view_def\<close>)
    ultimately show ?thesis using j(1) c(3) v(5,7) by (simp add: same_view_def same_rest_def)
  qed
  have m: "thread_mlfqs c = thread_mlfqs k" "ticks1 c = ticks1 k + 1" using c(3) b(4,5) by (simp_all add: same_rest_def a_def)
  have e: "timer_interrupt1 (k\<lparr>in_intr1 := True, yield_on_return1 := False\<rparr>) = (if thread_mlfqs k then mlfqs_tick c else Some c)"
    using b(1) c(1) m(1) by (simp add: timer_interrupt1_def a_def)
  show ?thesis
  proof (cases "thread_mlfqs k")
    case False
    then show ?thesis using e fin [of c] load by simp
  next
    case True
    obtain j where j: "mlfqs_tick c = Some j" "same_view c j" "load_ok j"
        "ticks1 c smod 4 = 0 \<longrightarrow> (\<exists>i. same_view c i \<and> thread_foreach1 update_priority i = Some j)"
      using mlfqs_tick_spec [OF c(2) run load] by auto
    have "same_view i j" if "same_view c i" for i using that j(2) by (simp add: same_view_def)
    then show ?thesis using e True j fin [OF j(2,3)] m(2) by auto
  qed
qed

end
