(* ===== verification/MlfqsProps.thy ===== *)
theory MlfqsProps
  imports MlfqsTick
begin

text \<open>
  What the first project's scheduler promises: no operation and no interrupt panics, a sleeping thread
  wakes at exactly its tick, the load average follows its formula, the priorities stay in their range.
\<close>

section \<open>Every step is fine\<close>

lemma yield_awake:
  assumes k: "ok1 k"
  shows "\<exists>k'. thread_yield1 k = Some k' \<and> rm_of k' = rm_of k \<and> klocks1 k' = klocks1 k \<and> all1 k' = all1 k \<and> idle1 k' = idle1 k \<and>
    (\<forall>u\<in>set (ready1 k). awake u k') \<and> (\<forall>t. \<exists>x. thr1 k' t = thr1 k t\<lparr>status1 := x\<rparr>)"
proof -
  let ?j = "upd1 (cur1 k) (\<lambda>t. t\<lparr>status1 := THREAD_READY\<rparr>) (if Some (cur1 k) \<noteq> idle1 k then k\<lparr>ready1 := ready1 k @ [cur1 k]\<rparr> else k)"
  have e: "thread_yield1 k = schedule1 ?j" using ok_cur(3,6) [OF k] by (simp add: thread_yield1_def Let_def)
  obtain k' where k': "schedule1 ?j = Some k'" "cur1 k' = next_of ?j" "ready1 k' = remove1 (next_of ?j) (ready1 ?j)"
      "rm_of k' = rm_of ?j \<and> klocks1 k' = klocks1 ?j" "all1 k' = all1 ?j" "idle1 k' = idle1 ?j" "\<forall>t. \<exists>x. thr1 k' t = thr1 ?j t\<lparr>status1 := x\<rparr>"
    using schedule_fine(2) [OF yield_switching [OF k]] by blast
  have "awake u k'" if "u \<in> set (ready1 k)" for u
    using that k'(2,3) by (cases "u = next_of ?j") (auto simp: awake_def)
  moreover have "\<exists>x. thr1 k' t = thr1 k t\<lparr>status1 := x\<rparr>" for t
  proof -
    obtain x where "thr1 k' t = thr1 ?j t\<lparr>status1 := x\<rparr>" using k'(7) by blast
    then have "thr1 k' t = thr1 k t\<lparr>status1 := x\<rparr>" by (cases "t = cur1 k") simp_all
    then show ?thesis by blast
  qed
  moreover have "rm_of k' = rm_of k \<and> klocks1 k' = klocks1 k" "all1 k' = all1 k" "idle1 k' = idle1 k" using k'(4-6) by simp_all
  ultimately show ?thesis using e k'(1) by auto
qed

lemma new_priority_other [simp]:
  "new_priority (t\<lparr>priority1 := x\<rparr>) = new_priority t" "new_priority (t\<lparr>status1 := y\<rparr>) = new_priority t"
  by (simp_all add: new_priority_def)

lemma priority_loop:
  "foreach_loop1 update_priority ts k = Some j \<Longrightarrow> idle1 j = idle1 k \<and>
     (\<forall>u. u \<in> set ts \<and> idle1 k \<noteq> Some u \<or> priority1 (thr1 k u) = new_priority (thr1 k u) \<longrightarrow>
       priority1 (thr1 j u) = new_priority (thr1 j u))"
proof (induction ts arbitrary: k)
  case (Cons t ts)
  obtain i where i: "update_priority t k = Some i" "foreach_loop1 update_priority ts i = Some j"
    using Cons.prems by (auto simp: bind_eq_Some_conv)
  have "i = (if Some t = idle1 k then k else upd1 t (\<lambda>x. x\<lparr>priority1 := new_priority x\<rparr>) k)"
    using i(1) by (auto simp: update_priority_def split: if_splits)
  then show ?case using Cons.IH [OF i(2)] by (auto split: if_splits)
qed simp

lemma tick_fine:
  assumes k: "ok1 k"
  shows "\<exists>k'. timer_intr1 k = Some k' \<and> ok1 k' \<and> all1 k' = all1 k \<and>
    (\<forall>u\<in>set (all1 k). st_of k u = THREAD_BLOCKED \<and> 0 < rm_of k u \<longrightarrow>
      (if rm_of k u = 1 then awake u k' else st_of k' u = THREAD_BLOCKED \<and> rm_of k' u = rm_of k u - 1)) \<and>
    (thread_mlfqs k \<and> (ticks1 k + 1) smod 4 = 0 \<longrightarrow>
      (\<forall>u\<in>set (all1 k). idle1 k \<noteq> Some u \<longrightarrow> priority1 (thr1 k' u) = new_priority (thr1 k' u)))"
proof -
  obtain j where j: "timer_interrupt1 (k\<lparr>in_intr1 := True, yield_on_return1 := False\<rparr>) = Some j" "ok1 (j\<lparr>in_intr1 := False\<rparr>)"
      "all1 j = all1 k" "idle1 j = idle1 k" "\<forall>u\<in>set (all1 k). counted k j u"
      "thread_mlfqs k \<and> (ticks1 k + 1) smod 4 = 0 \<longrightarrow> (\<exists>i. same_view i j \<and> thread_foreach1 update_priority i = Some j)"
    using tick_spec [OF k] by auto
  let ?l = "j\<lparr>in_intr1 := False\<rparr>"
  have e: "timer_intr1 k = (if yield_on_return1 j then thread_yield1 ?l else Some ?l)"
    using ok_cur(6) [OF k] j(1) by (simp add: timer_intr1_def Let_def)
  have c: "counted k ?l u" if "u \<in> set (all1 k)" for u using j(5) that by (simp add: counted_def)
  have sl: "if rm_of k u = 1 then u \<in> set (ready1 ?l) else st_of ?l u = THREAD_BLOCKED \<and> rm_of ?l u = rm_of k u - 1"
    if "u \<in> set (all1 k)" "st_of k u = THREAD_BLOCKED" "0 < rm_of k u" for u
    using c [OF that(1)] that by (simp add: counted_def split: if_splits)
  have p: "priority1 (thr1 ?l u) = new_priority (thr1 ?l u)"
    if a: "thread_mlfqs k" "(ticks1 k + 1) smod 4 = 0" "u \<in> set (all1 k)" "idle1 k \<noteq> Some u" for u
  proof -
    obtain i where i: "same_view i j" "thread_foreach1 update_priority i = Some j" using j(6) a(1,2) by blast
    then have "u \<in> set (all1 i)" "idle1 i \<noteq> Some u" using j(3,4) a(3,4) by (simp_all add: same_view_def)
    then show ?thesis using priority_loop [OF i(2) [unfolded thread_foreach1_def]] by simp
  qed
  show ?thesis
  proof (cases "yield_on_return1 j")
    case False
    have "if rm_of k u = 1 then awake u ?l else st_of ?l u = THREAD_BLOCKED \<and> rm_of ?l u = rm_of k u - 1"
      if "u \<in> set (all1 k)" "st_of k u = THREAD_BLOCKED" "0 < rm_of k u" for u
      using sl [OF that] by (simp add: awake_def split: if_splits)
    moreover have "timer_intr1 k = Some ?l" "all1 ?l = all1 k" using False e j(3) by simp_all
    ultimately show ?thesis using j(2) p by blast
  next
    case True
    obtain k' where k': "thread_yield1 ?l = Some k'" "rm_of k' = rm_of ?l" "all1 k' = all1 ?l" "\<forall>u\<in>set (ready1 ?l). awake u k'"
        "\<forall>t. \<exists>x. thr1 k' t = thr1 ?l t\<lparr>status1 := x\<rparr>"
      using yield_awake [OF j(2)] by auto
    have o: "ok1 k'" "keeps ?l k'" using yield_fine [OF j(2)] k'(1) by (simp_all add: fine_def)
    have "if rm_of k u = 1 then awake u k' else st_of k' u = THREAD_BLOCKED \<and> rm_of k' u = rm_of k u - 1"
      if u: "u \<in> set (all1 k)" "st_of k u = THREAD_BLOCKED" "0 < rm_of k u" for u
    proof (cases "rm_of k u = 1")
      case one: True
      then show ?thesis using sl [OF u] k'(4) by simp
    next
      case more: False
      then show ?thesis using sl [OF u] o(2) u j(3) by (simp add: keeps_def)
    qed
    moreover have "priority1 (thr1 k' u) = new_priority (thr1 k' u)"
      if a: "thread_mlfqs k" "(ticks1 k + 1) smod 4 = 0" "u \<in> set (all1 k)" "idle1 k \<noteq> Some u" for u
    proof -
      obtain x where "thr1 k' u = thr1 ?l u\<lparr>status1 := x\<rparr>" using k'(5) by blast
      then show ?thesis using p [OF a] by simp
    qed
    ultimately show ?thesis using e True k'(1,3) o(1) j(3) by auto
  qed
qed

lemma try_down_fine:
  assumes k: "ok1 k"
  shows "fine k (Some (snd (sema_try_down1 m k)))"
proof (cases "value1 (semas1 k m) = 0")
  case True
  then show ?thesis using k same_view_keeps [OF same_view_refl] by (auto simp: sema_try_down1_def intro: fineI)
next
  case False
  have "fine k (Some (upd_sema1 m (\<lambda>x. x\<lparr>value1 := value1 x - 1\<rparr>) k))"
    using sema_value_ok [OF k, of m "\<lambda>v. v - 1"] by (intro fineI [OF refl]) (simp_all only:)
  then show ?thesis using False by (simp add: sema_try_down1_def)
qed

lemma exec_fine:
  assumes "ok1 k" "allowed1 p k" "p \<noteq> Tick1"
  shows "fine k (exec1 p k)"
proof -
  have "idle1 k \<noteq> Some (cur1 k)" if "free_to_call k" using that by (auto simp: free_to_call_def)
  then show ?thesis
    using assms block_fine yield_fine exit_fine create_fine set_priority_fine set_nice_fine sleep_fine sema_round_fine
      sema_up_fine ok_cur(6)
    by (cases p) (auto simp: idle_round1_def sema_down1_def try_down_fine)
qed

section \<open>Executions\<close>

text \<open>A state after booting: one thread runs, the idle thread is blocked.\<close>

definition demo_thread1 :: "thread_status \<Rightarrow> int \<Rightarrow> thread1" where
  "demo_thread1 s p = \<lparr>status1 = s, priority1 = p, old_priority = p, locks1 = [], waiting1 = None, ticks_remain = 0,
     nice = 0, recent_cpu = 0, down1 = None, taking1 = None\<rparr>"

definition demo_kernel1 :: "bool \<Rightarrow> kernel1" where
  "demo_kernel1 mlfqs =
     \<lparr>thr1 = (\<lambda>t. if t = 2 then demo_thread1 THREAD_RUNNING 31 else demo_thread1 THREAD_BLOCKED 0),
      semas1 = (\<lambda>_. \<lparr>value1 = 0, waiters1 = []\<rparr>),
      klocks1 = (\<lambda>_. \<lparr>holder1 = None, max_priority = PRI_MIN\<rparr>), ready1 = [], all1 = [2, 3], cur1 = 2, idle1 = Some 3, initial1 = 2,
      freed1 = [], load_avg = 0, ticks1 = 0, thread_ticks1 = 0, idle_ticks1 = 0, kernel_ticks1 = 0, in_intr1 = False,
      yield_on_return1 = False, thread_mlfqs = mlfqs\<rparr>"

lemma demo_ok1: "ok1 (demo_kernel1 b)"
  by (simp add: ok1_def sched_def sched0_def running_def load_ok_def demo_kernel1_def st_of_def rm_of_def dn_of_def ws_of_def
      demo_thread1_def MAX_THREADS_def F_def)

lemma run1_ok: "run1 k0 m k \<Longrightarrow> ok1 k0 \<Longrightarrow> ok1 k"
proof (induction rule: run1.induct)
  case (step1 m k p k')
  show ?case
  proof (cases "p = Tick1")
    case True
    then show ?thesis using tick_fine [of k] step1 by auto
  next
    case False
    then show ?thesis using exec_fine [of k p] step1 by (auto simp: fine_def)
  qed
qed simp



section \<open>Sleeping\<close>

definition sleeping :: "nat \<Rightarrow> int \<Rightarrow> kernel1 \<Rightarrow> bool" where
  "sleeping c n k \<longleftrightarrow> c \<in> set (all1 k) \<and> st_of k c = THREAD_BLOCKED \<and> rm_of k c = n"

lemma run1_sleeping:
  "run1 k1 m k2 \<Longrightarrow> ok1 k1 \<Longrightarrow> sleeping c n k1 \<Longrightarrow> int m < n \<Longrightarrow> sleeping c (n - int m) k2"
proof (induction rule: run1.induct)
  case (step1 m k p k')
  have k: "ok1 k" by (rule run1_ok [OF step1.hyps(1) step1.prems(1)])
  have s: "sleeping c (n - int m) k" using step1.IH step1.prems by (auto split: if_splits)
  show ?case
  proof (cases "p = Tick1")
    case True
    then have "timer_intr1 k = Some k'" "int m + 1 < n" using step1.hyps(3) step1.prems(3) by simp_all
    then show ?thesis using tick_fine [OF k] s True by (auto simp: sleeping_def)
  next
    case False
    then have "keeps k k'" using exec_fine [OF k step1.hyps(2)] step1.hyps(3) by (auto simp: fine_def)
    then show ?thesis using s False step1.prems(3) by (auto simp: sleeping_def keeps_def)
  qed
qed simp

text \<open>C30: \<^verbatim>\<open>timer_sleep\<close> of the first project sleeps for exactly the ticks it was asked for, whatever
  the other threads do: until the last of them the thread is blocked and does not run, and the interrupt of this tick makes
  it ready or runs it.\<close>

theorem sleep_exact:
  assumes "ok1 k" "free_to_call k" "0 < n" "timer_sleep n k = Some k1" "run1 k1 m k2" "int m < n"
  shows "status1 (thr1 k2 (cur1 k)) = THREAD_BLOCKED \<and> cur1 k2 \<noteq> cur1 k \<and> cur1 k \<notin> set (ready1 k2) \<and>
    (int m + 1 = n \<longrightarrow> (\<exists>k3. exec1 Tick1 k2 = Some k3 \<and> (cur1 k \<in> set (ready1 k3) \<or> cur1 k = cur1 k3)))"
proof -
  have i: "idle1 k \<noteq> Some (cur1 k)" using assms(2) by (auto simp: free_to_call_def)
  let ?j = "upd1 (cur1 k) (\<lambda>t. t\<lparr>status1 := THREAD_BLOCKED\<rparr>) (upd1 (cur1 k) (\<lambda>x. x\<lparr>ticks_remain := n\<rparr>) k)"
  note b = sleep_block [OF assms(1) i assms(3)]
  have k1: "ok1 k1" "keeps ?j k1" using schedule_fine(1) [OF b(2)] assms(4) b(1) by (auto simp: fine_def)
  have "sleeping (cur1 k) n ?j" using ok_cur(2) [OF assms(1)] by (simp add: sleeping_def)
  then have "sleeping (cur1 k) n k1" using k1(2) assms(3) by (simp add: sleeping_def keeps_def)
  then have s: "sleeping (cur1 k) (n - int m) k2" by (rule run1_sleeping [OF assms(5) k1(1) _ assms(6)])
  have k2: "ok1 k2" by (rule run1_ok [OF assms(5) k1(1)])
  have "cur1 k \<notin> set (ready1 k2)" using ok_sched0 [OF k2] s by (auto simp: sched0_def sleeping_def)
  moreover have "cur1 k2 \<noteq> cur1 k" using ok_cur(1) [OF k2] s by (auto simp: sleeping_def)
  moreover have "status1 (thr1 k2 (cur1 k)) = THREAD_BLOCKED" using s by (simp add: sleeping_def st_of_def)
  moreover have "\<exists>k3. exec1 Tick1 k2 = Some k3 \<and> (cur1 k \<in> set (ready1 k3) \<or> cur1 k = cur1 k3)" if "int m + 1 = n"
  proof -
    have "n - int m = 1" using that by simp
    then have "sleeping (cur1 k) 1 k2" using s by simp
    then show ?thesis using tick_fine [OF k2] by (auto simp: sleeping_def awake_def)
  qed
  ultimately show ?thesis by simp
qed

theorem sleep_exact_witness:
  "\<exists>k1 k3. timer_sleep 1 (demo_kernel1 False) = Some k1 \<and> exec1 Tick1 k1 = Some k3 \<and> (2 \<in> set (ready1 k3) \<or> 2 = cur1 k3)"
proof -
  have f: "free_to_call (demo_kernel1 False)" by (simp add: free_to_call_def demo_kernel1_def demo_thread1_def)
  have c: "cur1 (demo_kernel1 False) = 2" by (simp add: demo_kernel1_def)
  obtain k1 where k1: "timer_sleep 1 (demo_kernel1 False) = Some k1"
    using sleep_fine [OF demo_ok1, of False 1] f by (auto simp: free_to_call_def fine_def)
  show ?thesis using sleep_exact [OF demo_ok1 f _ k1 start1] k1 c by auto
qed

section \<open>Multi-level feedback queues\<close>

text \<open>C31: The load average of the first project is computed without overflow for up to
  \<open>MAX_THREADS\<close> threads: in every state of an execution the update returns, the new load average is within two units of the last
  place of 59/60 of the old one plus 1/60 of the number of ready and running threads, and it stays between 0 and this bound.\<close>

theorem load_avg_formula:
  assumes "ok1 k0" "run1 k0 m k"
  shows "\<exists>l. update_load_avg k = Some (k\<lparr>load_avg := l\<rparr>) \<and> 0 \<le> l \<and> l \<le> int MAX_THREADS * F \<and>
    60 * l \<le> 59 * load_avg k + int (ready_threads k) * F \<and> 59 * load_avg k + int (ready_threads k) * F < 60 * l + 120"
proof -
  have k: "sched k" "running k" "load_ok k" using run1_ok [OF assms(2,1)] by (simp_all add: ok1_def)
  have l: "0 \<le> load_avg k" "load_avg k \<le> int MAX_THREADS * F" using k(3) by (simp_all add: load_ok_def)
  note b = load_avg_new [OF l ready_bound [OF k]]
  have n: "int (length (ready1 k)) + (if Some (cur1 k) \<noteq> idle1 k then 1 else 0) = int (ready_threads k)" by (simp add: ready_threads_def)
  have "update_load_avg k = Some (k\<lparr>load_avg :=
      int32 (DIVIDE_X_BY_N (MULTIPLY_X_BY_N (load_avg k) 59) 60 + take_bit 32 (int (ready_threads k) * F) div 60)\<rparr>)"
    using n by (simp add: update_load_avg_def running_current [OF k(2)] Let_def)
  then show ?thesis using b(2-5) by blast
qed

theorem load_avg_formula_witness:
  "\<exists>l. update_load_avg (demo_kernel1 True) = Some ((demo_kernel1 True)\<lparr>load_avg := l\<rparr>) \<and> 0 \<le> l"
  using load_avg_formula [OF demo_ok1 start1] by blast

end
