(* ===== verification/Partition.thy ===== *)
theory Partition
  imports Block Stdio
begin

text \<open>
  The devices of a machine: the registry of \<^verbatim>\<open>devices/block.c\<close>, partitions
  (\<^verbatim>\<open>devices/partition.c\<close>) and the choice of a device for each role
  (\<^verbatim>\<open>threads/init.c\<close>). A device is named by its place in the registry; a disk's driver is a
  \<open>disk\<close> from sectors to bytes, as in theory Block, a partition forwards to the device below it. The heap only matters
  as the number of its remaining blocks: \<^verbatim>\<open>malloc\<close> fails when there is none. Messages are not modelled.
\<close>

section \<open>Devices\<close>

datatype bops = Disk_ops nat | Partition_ops nat u32

record dev =
  d_name :: "byte list"
  d_type :: block_type
  d_size :: u32
  d_ops :: bops
  d_reads :: u64
  d_writes :: u64

record registry =
  all_blocks :: "dev list"
  block_by_role :: "block_type \<Rightarrow> nat option"
  disk :: "nat \<Rightarrow> u32 \<Rightarrow> byte list"
  heap_left :: nat

definition upd_dev :: "nat \<Rightarrow> (dev \<Rightarrow> dev) \<Rightarrow> registry \<Rightarrow> registry" where
  "upd_dev d f r = r\<lparr>all_blocks := (all_blocks r)[d := f (all_blocks r ! d)]\<rparr>"

text \<open>\<^verbatim>\<open>malloc\<close> whose failure is a panic, and \<^verbatim>\<open>free\<close>.\<close>

definition heap_alloc :: "registry \<Rightarrow> registry option" where
  "heap_alloc r = (if heap_left r = 0 then None else Some (r\<lparr>heap_left := heap_left r - 1\<rparr>))"

definition heap_free :: "registry \<Rightarrow> registry" where
  "heap_free r = r\<lparr>heap_left := heap_left r + 1\<rparr>"

definition is_role :: "block_type \<Rightarrow> bool" where
  "is_role t \<longleftrightarrow> t \<in> {BLOCK_KERNEL, BLOCK_FILESYS, BLOCK_SCRATCH, BLOCK_SWAP}"

definition block_get_role :: "block_type \<Rightarrow> registry \<Rightarrow> nat option option" where
  "block_get_role role r = do { ASSERT (is_role role); Some (block_by_role r role) }"

definition block_set_role :: "block_type \<Rightarrow> nat option \<Rightarrow> registry \<Rightarrow> registry option" where
  "block_set_role role d r = do { ASSERT (is_role role); Some (r\<lparr>block_by_role := (block_by_role r)(role := d)\<rparr>) }"

definition list_elem_to_block :: "nat \<Rightarrow> registry \<Rightarrow> nat option" where
  "list_elem_to_block e r = (if e < length (all_blocks r) then Some e else None)"

definition block_first :: "registry \<Rightarrow> nat option" where
  "block_first r = list_elem_to_block 0 r"

definition block_next :: "nat \<Rightarrow> registry \<Rightarrow> nat option" where
  "block_next d r = list_elem_to_block (d + 1) r"

text \<open>\<^verbatim>\<open>strlcpy\<close> cuts the name to 15 bytes.\<close>

definition block_register :: "byte list \<Rightarrow> block_type \<Rightarrow> u32 \<Rightarrow> bops \<Rightarrow> registry \<Rightarrow> (nat \<times> registry) option" where
  "block_register name type sz ops r = do {
     r \<leftarrow> heap_alloc r;
     Some (length (all_blocks r), r\<lparr>all_blocks := all_blocks r @
       [\<lparr>d_name = take 15 name, d_type = type, d_size = sz, d_ops = ops, d_reads = 0, d_writes = 0\<rparr>]\<rparr>) }"

text \<open>A device's operations; a partition's are those of the device below it at a later sector.\<close>

partial_function (option) dev_read :: "nat \<Rightarrow> u32 \<Rightarrow> registry \<Rightarrow> (byte list \<times> registry) option" where
  [code]: "dev_read d sector r =
     (if sector \<ge> d_size (all_blocks r ! d) then None
      else case d_ops (all_blocks r ! d) of
        Disk_ops n \<Rightarrow> Some (disk r n sector, upd_dev d (\<lambda>x. x\<lparr>d_reads := d_reads x + 1\<rparr>) r)
      | Partition_ops b start \<Rightarrow> do {
          (buffer, r) \<leftarrow> dev_read b (start + sector) r;
          Some (buffer, upd_dev d (\<lambda>x. x\<lparr>d_reads := d_reads x + 1\<rparr>) r) })"

partial_function (option) dev_write :: "nat \<Rightarrow> u32 \<Rightarrow> byte list \<Rightarrow> registry \<Rightarrow> registry option" where
  [code]: "dev_write d sector buffer r =
     (if sector \<ge> d_size (all_blocks r ! d) then None
      else if d_type (all_blocks r ! d) = BLOCK_FOREIGN then None
      else case d_ops (all_blocks r ! d) of
        Disk_ops n \<Rightarrow> Some (upd_dev d (\<lambda>x. x\<lparr>d_writes := d_writes x + 1\<rparr>) (r\<lparr>disk := (disk r)(n := (disk r n)(sector := buffer))\<rparr>))
      | Partition_ops b start \<Rightarrow> do {
          r \<leftarrow> dev_write b (start + sector) buffer r;
          Some (upd_dev d (\<lambda>x. x\<lparr>d_writes := d_writes x + 1\<rparr>) r) })"

section \<open>Partition tables\<close>

record pentry =
  e_type :: byte
  e_offset :: u32
  e_size :: u32

definition word_at :: "byte list \<Rightarrow> nat \<Rightarrow> u32" where
  "word_at bs i = un_le32 (bs ! i) (bs ! (i + 1)) (bs ! (i + 2)) (bs ! (i + 3))"

definition entry_at :: "byte list \<Rightarrow> nat \<Rightarrow> pentry" where
  "entry_at bs i = \<lparr>e_type = bs ! (446 + 16 * i + 4), e_offset = word_at bs (446 + 16 * i + 8), e_size = word_at bs (446 + 16 * i + 12)\<rparr>"

definition table_entries :: "byte list \<Rightarrow> pentry list" where
  "table_entries bs = [entry_at bs 0, entry_at bs 1, entry_at bs 2, entry_at bs 3]"

definition signature_ok :: "byte list \<Rightarrow> bool" where
  "signature_ok bs \<longleftrightarrow> bs ! 510 = 0x55 \<and> bs ! 511 = 0xaa"

definition is_extended :: "byte \<Rightarrow> bool" where
  "is_extended t \<longleftrightarrow> t \<in> {0x05, 0x0f, 0x85, 0xc5}"

definition part_type :: "byte \<Rightarrow> block_type" where
  "part_type t = (if t = 0x20 then BLOCK_KERNEL else if t = 0x21 then BLOCK_FILESYS else if t = 0x22 then BLOCK_SCRATCH
     else if t = 0x23 then BLOCK_SWAP else BLOCK_FOREIGN)"

definition part_name :: "byte list \<Rightarrow> nat \<Rightarrow> byte list" where
  "part_name b nr = take 15 (b @ format_integer (of_nat nr) True False base_d plain_conversion)"

definition found_partition :: "nat \<Rightarrow> byte \<Rightarrow> u32 \<Rightarrow> u32 \<Rightarrow> nat \<Rightarrow> registry \<Rightarrow> registry option" where
  "found_partition d t start sz nr r =
     (if start \<ge> d_size (all_blocks r ! d) then Some r
      else if start + sz < start \<or> start + sz > d_size (all_blocks r ! d) then Some r
      else do {
        r \<leftarrow> heap_alloc r;
        (_, r) \<leftarrow> block_register (part_name (d_name (all_blocks r ! d)) nr) (part_type t) sz (Partition_ops d start) r;
        Some r })"

text \<open>
  The beginning of \<^verbatim>\<open>read_partition_table\<close>, up to the signature test: the bytes of the table, \<open>None\<close> in the pair
  when there is none. The sector it reads is sector 0, as in the source.
\<close>

definition load_table :: "nat \<Rightarrow> u32 \<Rightarrow> registry \<Rightarrow> (byte list option \<times> registry) option" where
  "load_table d sector r =
     (if sector \<ge> d_size (all_blocks r ! d) then Some (None, r)
      else do {
        r \<leftarrow> heap_alloc r;
        (pt, r) \<leftarrow> dev_read d 0 r;
        if \<not> signature_ok pt then Some (None, heap_free r) else Some (Some pt, r) })"

text \<open>The loop over the entries, which contains the recursive call.\<close>

partial_function (option) entries_loop :: "nat \<Rightarrow> u32 \<Rightarrow> u32 \<Rightarrow> pentry list \<Rightarrow> nat \<Rightarrow> registry \<Rightarrow> (nat \<times> registry) option" where
  [code]: "entries_loop d sector primary es nr r =
     (case es of
        [] \<Rightarrow> Some (nr, r)
      | e # es \<Rightarrow>
          if e_size e = 0 \<or> e_type e = 0 then entries_loop d sector primary es nr r
          else if is_extended (e_type e) then do {
            (pt, r) \<leftarrow> load_table d (if sector = 0 then e_offset e else e_offset e + primary) r;
            case pt of None \<Rightarrow> entries_loop d sector primary es nr r
            | Some bs \<Rightarrow> do {
                (nr, r) \<leftarrow> entries_loop d (if sector = 0 then e_offset e else e_offset e + primary)
                   (if sector = 0 then e_offset e else primary) (table_entries bs) nr r;
                entries_loop d sector primary es nr (heap_free r) } }
          else do {
            r \<leftarrow> found_partition d (e_type e) (e_offset e + sector) (e_size e) (nr + 1) r;
            entries_loop d sector primary es (nr + 1) r })"

definition read_partition_table :: "nat \<Rightarrow> u32 \<Rightarrow> u32 \<Rightarrow> nat \<Rightarrow> registry \<Rightarrow> (nat \<times> registry) option" where
  "read_partition_table d sector primary nr r = do {
     (pt, r) \<leftarrow> load_table d sector r;
     case pt of None \<Rightarrow> Some (nr, r)
     | Some bs \<Rightarrow> do {
         (nr, r) \<leftarrow> entries_loop d sector primary (table_entries bs) nr r;
         Some (nr, heap_free r) } }"

definition partition_scan :: "nat \<Rightarrow> registry \<Rightarrow> registry option" where
  "partition_scan d r = map_option snd (read_partition_table d 0 0 0 r)"

section \<open>Roles\<close>

text \<open>\<^verbatim>\<open>locate_block_device\<close>: by name, or the first device of the type.\<close>

fun name_loop :: "dev list \<Rightarrow> byte list \<Rightarrow> nat \<Rightarrow> nat option" where
  "name_loop [] name i = None"
| "name_loop (b # bs) name i = (if name = d_name b then Some i else name_loop bs name (i + 1))"

partial_function (option) type_loop :: "block_type \<Rightarrow> nat option \<Rightarrow> registry \<Rightarrow> nat option option" where
  [code]: "type_loop role d r =
     (case d of None \<Rightarrow> Some None
      | Some i \<Rightarrow> if d_type (all_blocks r ! i) = role then Some (Some i) else type_loop role (block_next i r) r)"

definition locate_block_device :: "block_type \<Rightarrow> byte list option \<Rightarrow> registry \<Rightarrow> registry option" where
  "locate_block_device role name r = do {
     d \<leftarrow> (case name of
         Some n \<Rightarrow> do { let d = name_loop (all_blocks r) n 0; ASSERT (d \<noteq> None); Some d }
       | None \<Rightarrow> type_loop role (block_first r) r);
     case d of None \<Rightarrow> Some r | Some _ \<Rightarrow> block_set_role role d r }"

section \<open>Partitions on a disk\<close>

text \<open>\<open>device_ok\<close>: a disk, or a partition that lies inside a disk.\<close>

definition is_disk :: "registry \<Rightarrow> nat \<Rightarrow> nat \<Rightarrow> bool" where
  "is_disk r d n \<longleftrightarrow> d < length (all_blocks r) \<and> d_ops (all_blocks r ! d) = Disk_ops n \<and> d_type (all_blocks r ! d) \<noteq> BLOCK_FOREIGN"

definition part_ok :: "registry \<Rightarrow> nat \<Rightarrow> dev \<Rightarrow> bool" where
  "part_ok r d p \<longleftrightarrow> (\<exists>start. d_ops p = Partition_ops d start \<and> start < d_size (all_blocks r ! d) \<and>
     start \<le> start + d_size p \<and> start + d_size p \<le> d_size (all_blocks r ! d))"

lemma word_inside:
  assumes "(start :: u32) \<le> start + sz" "sector < sz"
  shows "start + sector < start + sz" "unat (start + sector) = unat start + unat sector"
proof -
  have "unat sz < 2 ^ 32" using unsigned_less [of sz, where 'a = nat] by simp
  then have "unat (start + sz) = unat start + unat sz"
    using assms(1) by (simp add: unat_plus_if' word_le_nat_alt split: if_splits)
  moreover have "unat start + unat sector < unat start + unat sz" using assms(2) by (simp add: word_less_nat_alt)
  moreover have "unat (start + sz) < 2 ^ 32" using unsigned_less [of "start + sz", where 'a = nat] by simp
  ultimately show "unat (start + sector) = unat start + unat sector" by (simp add: unat_plus_if' split: if_splits)
  then show "start + sector < start + sz" using \<open>unat (start + sz) = _\<close> \<open>unat start + unat sector < _\<close> by (simp add: word_less_nat_alt)
qed

lemma dev_read_disk:
  "is_disk r d n \<Longrightarrow> sector < d_size (all_blocks r ! d) \<Longrightarrow>
     dev_read d sector r = Some (disk r n sector, upd_dev d (\<lambda>x. x\<lparr>d_reads := d_reads x + 1\<rparr>) r)"
  by (subst dev_read.simps) (simp add: is_disk_def)

lemma dev_write_disk:
  "is_disk r d n \<Longrightarrow> sector < d_size (all_blocks r ! d) \<Longrightarrow>
     dev_write d sector buf r = Some (upd_dev d (\<lambda>x. x\<lparr>d_writes := d_writes x + 1\<rparr>) (r\<lparr>disk := (disk r)(n := (disk r n)(sector := buf))\<rparr>))"
  by (subst dev_write.simps) (simp add: is_disk_def)

lemma upd_dev_simps [simp]:
  "length (all_blocks (upd_dev d f r)) = length (all_blocks r)" "disk (upd_dev d f r) = disk r"
  "block_by_role (upd_dev d f r) = block_by_role r" "heap_left (upd_dev d f r) = heap_left r"
  by (simp_all add: upd_dev_def)

lemma upd_dev_nth:
  "(\<And>x. d_size (f x) = d_size x \<and> d_ops (f x) = d_ops x \<and> d_type (f x) = d_type x \<and> d_name (f x) = d_name x) \<Longrightarrow>
     d_size (all_blocks (upd_dev d f r) ! e) = d_size (all_blocks r ! e) \<and> d_ops (all_blocks (upd_dev d f r) ! e) = d_ops (all_blocks r ! e) \<and>
     d_type (all_blocks (upd_dev d f r) ! e) = d_type (all_blocks r ! e) \<and> d_name (all_blocks (upd_dev d f r) ! e) = d_name (all_blocks r ! e)"
  by (cases "d < length (all_blocks r)"; cases "e = d") (simp_all add: upd_dev_def list_update_beyond)

section \<open>A disk as a device sees it\<close>

text \<open>A device's contents: the disk below it, from the device's first sector on.\<close>

definition dev_start :: "registry \<Rightarrow> nat \<Rightarrow> u32" where
  "dev_start r p = (case d_ops (all_blocks r ! p) of Disk_ops _ \<Rightarrow> 0 | Partition_ops _ start \<Rightarrow> start)"

definition same_devs :: "registry \<Rightarrow> registry \<Rightarrow> bool" where
  "same_devs r r' \<longleftrightarrow> length (all_blocks r') = length (all_blocks r) \<and> (\<forall>e. d_size (all_blocks r' ! e) = d_size (all_blocks r ! e) \<and>
     d_ops (all_blocks r' ! e) = d_ops (all_blocks r ! e) \<and> d_type (all_blocks r' ! e) = d_type (all_blocks r ! e))"

lemma partition_io:
  assumes d: "is_disk r d n" and p: "p < length (all_blocks r)" "part_ok r d (all_blocks r ! p)"
    and s: "sector < d_size (all_blocks r ! p)"
  shows "\<exists>r'. dev_read p sector r = Some (disk r n (dev_start r p + sector), r') \<and> disk r' = disk r \<and> same_devs r r'"
    and "d_type (all_blocks r ! p) \<noteq> BLOCK_FOREIGN \<Longrightarrow> \<exists>r'. dev_write p sector buf r = Some r' \<and> same_devs r r' \<and>
      disk r' = (disk r)(n := (disk r n)(dev_start r p + sector := buf))"
proof -
  obtain start where st: "d_ops (all_blocks r ! p) = Partition_ops d start" "start < d_size (all_blocks r ! d)"
      "start \<le> start + d_size (all_blocks r ! p)" "start + d_size (all_blocks r ! p) \<le> d_size (all_blocks r ! d)"
    using p(2) by (auto simp: part_ok_def)
  have ds: "dev_start r p = start" using st(1) by (simp add: dev_start_def)
  have lt: "start + sector < d_size (all_blocks r ! d)" using word_inside(1) [OF st(3) s] st(4) by (rule less_le_trans)
  let ?q = "upd_dev d (\<lambda>x. x\<lparr>d_reads := d_reads x + 1\<rparr>) r"
  have "dev_read p sector r = Some (disk r n (start + sector), upd_dev p (\<lambda>x. x\<lparr>d_reads := d_reads x + 1\<rparr>) ?q)"
    by (subst dev_read.simps) (use s st(1) dev_read_disk [OF d lt] in \<open>simp add: not_le\<close>)
  moreover have "same_devs r (upd_dev p (\<lambda>x. x\<lparr>d_reads := d_reads x + 1\<rparr>) ?q)" by (simp add: same_devs_def upd_dev_nth)
  ultimately show "\<exists>r'. dev_read p sector r = Some (disk r n (dev_start r p + sector), r') \<and> disk r' = disk r \<and> same_devs r r'"
    using ds by simp
  assume f: "d_type (all_blocks r ! p) \<noteq> BLOCK_FOREIGN"
  let ?w = "upd_dev d (\<lambda>x. x\<lparr>d_writes := d_writes x + 1\<rparr>) (r\<lparr>disk := (disk r)(n := (disk r n)(start + sector := buf))\<rparr>)"
  have "dev_write p sector buf r = Some (upd_dev p (\<lambda>x. x\<lparr>d_writes := d_writes x + 1\<rparr>) ?w)"
    by (subst dev_write.simps) (use s st(1) f dev_write_disk [OF d lt] in \<open>simp add: not_le\<close>)
  moreover have "same_devs r (upd_dev p (\<lambda>x. x\<lparr>d_writes := d_writes x + 1\<rparr>) ?w)" by (simp add: same_devs_def upd_dev_nth)
  ultimately show "\<exists>r'. dev_write p sector buf r = Some r' \<and> same_devs r r' \<and>
      disk r' = (disk r)(n := (disk r n)(dev_start r p + sector := buf))"
    using ds by simp
qed

end
