(* ===== verification/PartitionProps.thy ===== *)
theory PartitionProps
  imports Partition
begin

text \<open>
  Partitions: a partition table is read into the registry, partitions do not touch each other, and a disk with
  an extended partition stops the machine.
\<close>

section \<open>Scanning keeps the disks\<close>

definition kept :: "nat \<Rightarrow> nat \<Rightarrow> registry \<Rightarrow> registry \<Rightarrow> bool" where
  "kept d n r r' \<longleftrightarrow> disk r' = disk r \<and> is_disk r' d n \<and> d_size (all_blocks r' ! d) = d_size (all_blocks r ! d)"

lemma kept_trans: "kept d n r r' \<Longrightarrow> kept d n r' r'' \<Longrightarrow> kept d n r r''"
  by (simp add: kept_def)

lemma kept_disk: "kept d n r r' \<Longrightarrow> is_disk r' d n"
  by (simp add: kept_def)

lemma kept_heap: "is_disk r d n \<Longrightarrow> kept d n r (r\<lparr>heap_left := h\<rparr>)"
  by (simp add: kept_def is_disk_def)

lemma kept_dealloc: "is_disk r d n \<Longrightarrow> kept d n r (heap_free r)"
  by (simp add: heap_free_def kept_heap)

lemma kept_read: "is_disk r d n \<Longrightarrow> kept d n r (upd_dev d (\<lambda>x. x\<lparr>d_reads := d_reads x + 1\<rparr>) r)"
  by (simp add: kept_def is_disk_def upd_dev_nth)

lemma register_kept:
  "is_disk r d n \<Longrightarrow> block_register name t sz ops r = Some (i, r') \<Longrightarrow> kept d n r r'"
  by (auto simp: block_register_def heap_alloc_def kept_def is_disk_def nth_append split: if_splits)

lemma found_kept: "is_disk r d n \<Longrightarrow> found_partition d t start sz nr r = Some r' \<Longrightarrow> kept d n r r'"
proof -
  assume d: "is_disk r d n" and f: "found_partition d t start sz nr r = Some r'"
  show ?thesis
  proof (cases "start \<ge> d_size (all_blocks r ! d) \<or> start + sz < start \<or> start + sz > d_size (all_blocks r ! d)")
    case True
    then have "r' = r" using f by (auto simp: found_partition_def split: if_splits)
    then show ?thesis using d by (simp add: kept_def)
  next
    case False
    then obtain q i where q: "heap_alloc r = Some q"
        "block_register (part_name (d_name (all_blocks q ! d)) nr) (part_type t) sz (Partition_ops d start) q = Some (i, r')"
      using f by (auto simp: found_partition_def bind_eq_Some_conv split: if_splits)
    have "kept d n r q" using q(1) kept_heap [OF d] by (auto simp: heap_alloc_def split: if_splits)
    then show ?thesis using register_kept [OF kept_disk q(2)] kept_trans by blast
  qed
qed

lemma load_table_eq:
  assumes d: "is_disk r d n" and s: "sector < d_size (all_blocks r ! d)" and h: "0 < heap_left r"
  shows "\<exists>q. load_table d sector r = Some (if signature_ok (disk r n 0) then (Some (disk r n 0), q) else (None, heap_free q)) \<and>
    kept d n r q \<and> heap_left q = heap_left r - 1 \<and> all_blocks q = all_blocks (upd_dev d (\<lambda>x. x\<lparr>d_reads := d_reads x + 1\<rparr>) r)"
proof -
  let ?a = "r\<lparr>heap_left := heap_left r - 1\<rparr>"
  let ?q = "upd_dev d (\<lambda>x. x\<lparr>d_reads := d_reads x + 1\<rparr>) ?a"
  have a: "is_disk ?a d n" using kept_disk [OF kept_heap [OF d]] .
  have z: "0 < d_size (all_blocks ?a ! d)" using le_less_trans [OF word_zero_le s] by simp
  have "dev_read d 0 ?a = Some (disk r n 0, ?q)" using dev_read_disk [OF a z] by simp
  then have "load_table d sector r = Some (if signature_ok (disk r n 0) then (Some (disk r n 0), ?q) else (None, heap_free ?q))"
    using s h by (simp add: load_table_def heap_alloc_def not_le)
  moreover have "kept d n r ?q" by (rule kept_trans [OF kept_heap [OF d] kept_read [OF a]])
  ultimately show ?thesis by (intro exI [of _ ?q]) (simp add: upd_dev_def)
qed

lemma load_kept:
  assumes d: "is_disk r d n" and l: "load_table d sector r = Some (pt, r')"
  shows "kept d n r r'" "pt = None \<or> pt = Some (disk r n 0)"
    "sector < d_size (all_blocks r ! d) \<Longrightarrow> signature_ok (disk r n 0) \<Longrightarrow> pt = Some (disk r n 0)"
proof -
  have "kept d n r r' \<and> (pt = None \<or> pt = Some (disk r n 0)) \<and>
      (sector < d_size (all_blocks r ! d) \<and> signature_ok (disk r n 0) \<longrightarrow> pt = Some (disk r n 0))"
  proof (cases "sector < d_size (all_blocks r ! d)")
    case False
    then show ?thesis using l d by (auto simp: load_table_def kept_def not_less)
  next
    case True
    have "0 < heap_left r" using l True by (auto simp: load_table_def heap_alloc_def split: if_splits)
    from load_table_eq [OF d True this] obtain q where
      "load_table d sector r = Some (if signature_ok (disk r n 0) then (Some (disk r n 0), q) else (None, heap_free q))" "kept d n r q" by auto
    then show ?thesis using l kept_trans [OF _ kept_dealloc [OF kept_disk]] by (auto split: if_splits)
  qed
  then show "kept d n r r'" "pt = None \<or> pt = Some (disk r n 0)"
    "sector < d_size (all_blocks r ! d) \<Longrightarrow> signature_ok (disk r n 0) \<Longrightarrow> pt = Some (disk r n 0)" by auto
qed

section \<open>Extended partitions\<close>

text \<open>An extended partition whose table, were it read, would be in the disk.\<close>

definition hang_entry :: "u32 \<Rightarrow> byte list \<Rightarrow> pentry \<Rightarrow> bool" where
  "hang_entry dsz bs e \<longleftrightarrow> signature_ok bs \<and> e \<in> set (table_entries bs) \<and> is_extended (e_type e) \<and> e_size e \<noteq> 0 \<and>
     0 < e_offset e \<and> unat (e_offset e) + unat (e_offset e) < unat dsz"

lemma extended_not_0: "is_extended t \<Longrightarrow> t \<noteq> 0"
  by (auto simp: is_extended_def)

lemma hang_sector:
  assumes "hang_entry dsz bs e"
  shows "e_offset e + e_offset e < dsz" "e_offset e + e_offset e \<noteq> 0" "e_offset e < dsz" "e_offset e \<noteq> 0"
proof -
  have b: "unat (e_offset e) + unat (e_offset e) < unat dsz" "0 < e_offset e" using assms by (simp_all add: hang_entry_def)
  then have p: "0 < unat (e_offset e)" by (simp add: word_less_nat_alt)
  have "unat dsz < 2 ^ 32" using unsigned_less [of dsz, where 'a = nat] by simp
  then have u: "unat (e_offset e + e_offset e) = unat (e_offset e) + unat (e_offset e)" using b(1) unfolding unat_plus_if' by simp
  then show "e_offset e + e_offset e < dsz" using b(1) by (simp add: word_less_nat_alt)
  show "e_offset e + e_offset e \<noteq> 0" using u p by auto
  show "e_offset e < dsz" using b(1) by (simp add: word_less_nat_alt)
  show "e_offset e \<noteq> 0" using b(2) by auto
qed

definition looping :: "registry \<Rightarrow> nat \<Rightarrow> nat \<Rightarrow> u32 \<Rightarrow> u32 \<Rightarrow> pentry list \<Rightarrow> bool" where
  "looping r d n sector primary es \<longleftrightarrow>
     (\<exists>e\<in>set es. hang_entry (d_size (all_blocks r ! d)) (disk r n 0) e \<and> (sector = 0 \<or> primary = e_offset e))"

definition loop_result :: "nat \<Rightarrow> nat \<Rightarrow> u32 \<Rightarrow> u32 \<Rightarrow> pentry list \<Rightarrow> registry \<Rightarrow> nat \<times> registry \<Rightarrow> bool" where
  "loop_result n d sector primary es r y \<longleftrightarrow> (is_disk r d n \<longrightarrow> kept d n r (snd y) \<and> \<not> looping r d n sector primary es)"

lemma looping_kept: "kept d n r r' \<Longrightarrow> looping r' d n sector primary es = looping r d n sector primary es"
  by (simp add: looping_def kept_def)

lemma loop_result_kept:
  "kept d n r r' \<Longrightarrow> loop_result n d sector primary es r' y \<Longrightarrow>
     kept d n r (snd y) \<and> \<not> looping r d n sector primary es"
  using looping_kept kept_trans kept_disk by (metis loop_result_def)

lemma loop_never_returns:
  assumes "entries_loop d sector primary es nr r = Some y"
  shows "loop_result n d sector primary es r y"
proof (rule entries_loop.raw_induct [where P = "\<lambda>d sector primary es nr r y. loop_result n d sector primary es r y", OF _ assms])
  fix f :: "nat \<Rightarrow> u32 \<Rightarrow> u32 \<Rightarrow> pentry list \<Rightarrow> nat \<Rightarrow> registry \<Rightarrow> (nat \<times> registry) option" and d :: nat and sector primary :: u32 and es :: "pentry list" and nr :: nat and r :: registry and y :: "nat \<times> registry"
  assume IH: "\<And>d sector primary es nr r y. f d sector primary es nr r = Some y \<Longrightarrow> loop_result n d sector primary es r y"
  let ?s = "\<lambda>e. if sector = 0 then e_offset e else e_offset e + primary"
  let ?p = "\<lambda>e. if sector = 0 then e_offset e else primary"
  assume y: "(case es of [] \<Rightarrow> Some (nr, r)
      | e # es \<Rightarrow>
          if e_size e = 0 \<or> e_type e = 0 then f d sector primary es nr r
          else if is_extended (e_type e) then do {
            (pt, r) \<leftarrow> load_table d (?s e) r;
            case pt of None \<Rightarrow> f d sector primary es nr r
            | Some bs \<Rightarrow> do {
                (nr, r) \<leftarrow> f d (?s e) (?p e) (table_entries bs) nr r;
                f d sector primary es nr (heap_free r) } }
          else do {
            r \<leftarrow> found_partition d (e_type e) (e_offset e + sector) (e_size e) (nr + 1) r;
            f d sector primary es (nr + 1) r }) = Some y"
  show "loop_result n d sector primary es r y"
  proof (cases es)
    case Nil
    then show ?thesis using y by (auto simp: loop_result_def looping_def kept_def)
  next
    case (Cons e es')
    consider "e_size e = 0 \<or> e_type e = 0" | "e_size e \<noteq> 0" "e_type e \<noteq> 0" "is_extended (e_type e)"
      | "e_size e \<noteq> 0" "e_type e \<noteq> 0" "\<not> is_extended (e_type e)" by blast
    then show ?thesis
    proof cases
      case 1
      then have "loop_result n d sector primary es' r y" using y Cons IH by simp
      moreover have "\<not> hang_entry dsz bs e" for dsz bs using 1 extended_not_0 by (auto simp: hang_entry_def)
      ultimately show ?thesis by (simp add: loop_result_def looping_def Cons)
    next
      case 3
      then obtain q where q: "found_partition d (e_type e) (e_offset e + sector) (e_size e) (nr + 1) r = Some q"
          "f d sector primary es' (nr + 1) q = Some y"
        using y Cons by (auto simp: bind_eq_Some_conv)
      have "\<not> hang_entry dsz bs e" for dsz bs using 3 by (simp add: hang_entry_def)
      then show ?thesis using loop_result_kept [OF found_kept [OF _ q(1)] IH [OF q(2)]]
        by (simp add: loop_result_def looping_def Cons)
    next
      case 2
      then obtain pt q where q: "load_table d (?s e) r = Some (pt, q)"
          "(case pt of None \<Rightarrow> f d sector primary es' nr q
            | Some bs \<Rightarrow> do { (nr, r) \<leftarrow> f d (?s e) (?p e) (table_entries bs) nr q; f d sector primary es' nr (heap_free r) }) = Some y"
        using y Cons by (auto simp: bind_eq_Some_conv)
      show ?thesis unfolding loop_result_def
      proof
        assume d: "is_disk r d n"
        note l = load_kept [OF d q(1)]
        have not_e: "\<not> (hang_entry (d_size (all_blocks r ! d)) (disk r n 0) e \<and> (sector = 0 \<or> primary = e_offset e))"
        proof
          assume a: "hang_entry (d_size (all_blocks r ! d)) (disk r n 0) e \<and> (sector = 0 \<or> primary = e_offset e)"
          then have h: "hang_entry (d_size (all_blocks r ! d)) (disk r n 0) e" by simp
          have s: "?s e < d_size (all_blocks r ! d)" "?p e = e_offset e" using a hang_sector [OF h] by auto
          have "pt = Some (disk r n 0)" using l(3) [OF s(1)] h by (simp add: hang_entry_def)
          then obtain z where "f d (?s e) (?p e) (table_entries (disk r n 0)) nr q = Some z"
            using q(2) by (auto simp: bind_eq_Some_conv)
          from loop_result_kept [OF l(1) IH [OF this]]
          have "\<not> looping r d n (?s e) (?p e) (table_entries (disk r n 0))" by simp
          then show False using h unfolding looping_def s(2) by (auto simp: hang_entry_def)
        qed
        have rest: "kept d n r (snd y) \<and> \<not> looping r d n sector primary es'"
        proof (cases pt)
          case None
          then show ?thesis using loop_result_kept [OF l(1) IH] q(2) by simp
        next
          case (Some bs)
          then obtain m z where z: "f d (?s e) (?p e) (table_entries bs) nr q = Some (m, z)" "f d sector primary es' m (heap_free z) = Some y"
            using q(2) by (auto simp: bind_eq_Some_conv)
          have k: "kept d n r z" using loop_result_kept [OF l(1) IH [OF z(1)]] by simp
          show ?thesis by (rule loop_result_kept [OF kept_trans [OF k kept_dealloc [OF kept_disk [OF k]]] IH [OF z(2)]])
        qed
        show "kept d n r (snd y) \<and> \<not> looping r d n sector primary es" using rest not_e by (simp add: looping_def Cons)
      qed
    qed
  qed
qed


text \<open>A disk of a thousand sectors with a DOS extended partition at sector 63.\<close>

definition demo_table :: "byte list" where
  "demo_table = replicate 450 0 @ [0x05, 0, 0, 0] @ [63, 0, 0, 0] @ [100, 0, 0, 0] @ replicate 48 0 @ [0x55, 0xaa]"

definition demo_registry :: "nat \<Rightarrow> registry" where
  "demo_registry h = \<lparr>all_blocks = [\<lparr>d_name = ascs ''hda'', d_type = BLOCK_RAW, d_size = 1000, d_ops = Disk_ops 0, d_reads = 0, d_writes = 0\<rparr>],
     block_by_role = (\<lambda>_. None), disk = (\<lambda>_ _. demo_table), heap_left = h\<rparr>"


section \<open>Reading and writing partitions\<close>

text \<open>Partitions are devices of their own: what is written to a sector of one is read back from it, and a
  partition that shares no sector with it reads as before.\<close>

theorem partition_isolated:
  assumes "is_disk r d n" "p < length (all_blocks r)" "part_ok r d (all_blocks r ! p)" "d_type (all_blocks r ! p) \<noteq> BLOCK_FOREIGN"
    and "q < length (all_blocks r)" "part_ok r d (all_blocks r ! q)"
    and "sector < d_size (all_blocks r ! p)" "tsector < d_size (all_blocks r ! q)"
    and "dev_start r p + sector \<noteq> dev_start r q + tsector"
  shows "\<exists>r'. dev_write p sector buf r = Some r' \<and>
    (\<exists>r''. dev_read p sector r' = Some (buf, r'')) \<and>
    (\<exists>r'' s''. dev_read q tsector r = Some (disk r n (dev_start r q + tsector), s'') \<and> dev_read q tsector r' = Some (disk r n (dev_start r q + tsector), r''))"
proof -
  obtain r' where r': "dev_write p sector buf r = Some r'" "same_devs r r'" "disk r' = (disk r)(n := (disk r n)(dev_start r p + sector := buf))"
    using partition_io(2) [OF assms(1-3,7,4)] by blast
  have s: "is_disk r' d n" "part_ok r' d (all_blocks r' ! p)" "part_ok r' d (all_blocks r' ! q)" "dev_start r' p = dev_start r p"
      "dev_start r' q = dev_start r q" "p < length (all_blocks r')" "q < length (all_blocks r')"
      "sector < d_size (all_blocks r' ! p)" "tsector < d_size (all_blocks r' ! q)"
    using r'(2) assms by (simp_all add: same_devs_def is_disk_def part_ok_def dev_start_def)
  have "\<exists>r''. dev_read p sector r' = Some (buf, r'')"
    using partition_io(1) [OF s(1,6,2,8)] by (auto simp: r'(3) s(4))
  moreover have "\<exists>r''. dev_read q tsector r' = Some (disk r n (dev_start r q + tsector), r'')"
    using partition_io(1) [OF s(1,7,3,9)] assms(9) by (auto simp: r'(3) s(5))
  moreover have "\<exists>s''. dev_read q tsector r = Some (disk r n (dev_start r q + tsector), s'')"
    using partition_io(1) [OF assms(1,5,6,8)] by auto
  ultimately show ?thesis using r'(1) by blast
qed

definition demo_parts :: registry where
  "demo_parts = (demo_registry 0)\<lparr>all_blocks := all_blocks (demo_registry 0) @
     [\<lparr>d_name = ascs ''hda1'', d_type = BLOCK_FILESYS, d_size = 100, d_ops = Partition_ops 0 1, d_reads = 0, d_writes = 0\<rparr>,
      \<lparr>d_name = ascs ''hda2'', d_type = BLOCK_SWAP, d_size = 50, d_ops = Partition_ops 0 101, d_reads = 0, d_writes = 0\<rparr>]\<rparr>"

theorem partition_isolated_witness: "\<exists>r'. dev_write 1 99 demo_table demo_parts = Some r' \<and> (\<exists>r''. dev_read 2 0 r' = Some (demo_table, r''))"
proof -
  have e: "dev_start demo_parts (Suc 0) = 1" "dev_start demo_parts 2 = 101" "disk demo_parts 0 101 = demo_table"
    by (simp_all add: dev_start_def demo_parts_def demo_registry_def)
  have "is_disk demo_parts 0 0" "part_ok demo_parts 0 (all_blocks demo_parts ! 1)" "part_ok demo_parts 0 (all_blocks demo_parts ! 2)"
      "1 < length (all_blocks demo_parts)" "2 < length (all_blocks demo_parts)" "d_type (all_blocks demo_parts ! 1) \<noteq> BLOCK_FOREIGN"
      "(99 :: u32) < d_size (all_blocks demo_parts ! 1)" "(0 :: u32) < d_size (all_blocks demo_parts ! 2)"
    by (simp_all add: is_disk_def part_ok_def demo_parts_def demo_registry_def)
  from partition_isolated [where buf = demo_table, OF this(1,4,2,6,5,3,7,8)] show ?thesis by (simp add: e) blast
qed

section \<open>Scanning a table of primary partitions\<close>

definition used :: "pentry \<Rightarrow> bool" where
  "used e \<longleftrightarrow> e_size e \<noteq> 0 \<and> e_type e \<noteq> 0"

text \<open>The partitions of a table that lie inside a disk of \<open>dsz\<close> sectors.\<close>

definition fits :: "u32 \<Rightarrow> pentry \<Rightarrow> bool" where
  "fits dsz e \<longleftrightarrow> used e \<and> e_offset e < dsz \<and> e_offset e \<le> e_offset e + e_size e \<and> e_offset e + e_size e \<le> dsz"

definition describe :: "dev \<Rightarrow> block_type \<times> bops \<times> u32" where
  "describe p = (d_type p, d_ops p, d_size p)"

definition found :: "nat \<Rightarrow> u32 \<Rightarrow> pentry list \<Rightarrow> (block_type \<times> bops \<times> u32) list" where
  "found d dsz es = map (\<lambda>e. (part_type (e_type e), Partition_ops d (e_offset e), e_size e)) (filter (fits dsz) es)"

lemma found_partition_result:
  assumes "2 \<le> heap_left r" "d < length (all_blocks r)"
  shows "\<exists>r' b. found_partition d t start sz nr r = Some r' \<and> all_blocks r' = all_blocks r @ b \<and>
    map describe b = (if start < d_size (all_blocks r ! d) \<and> start \<le> start + sz \<and> start + sz \<le> d_size (all_blocks r ! d)
      then [(part_type t, Partition_ops d start, sz)] else []) \<and>
    heap_left r - 2 \<le> heap_left r' \<and> disk r' = disk r \<and> block_by_role r' = block_by_role r"
proof (cases "start < d_size (all_blocks r ! d) \<and> start \<le> start + sz \<and> start + sz \<le> d_size (all_blocks r ! d)")
  case True
  then show ?thesis using assms
    by (auto simp: found_partition_def heap_alloc_def block_register_def describe_def not_le not_less)
next
  case False
  then have "found_partition d t start sz nr r = Some r" by (auto simp: found_partition_def not_le not_less)
  then show ?thesis using False by auto
qed

lemma entries_loop_primary:
  "2 * length es \<le> heap_left r \<Longrightarrow> d < length (all_blocks r) \<Longrightarrow> \<forall>e\<in>set es. used e \<longrightarrow> \<not> is_extended (e_type e) \<Longrightarrow>
     \<exists>m r' b. entries_loop d 0 0 es nr r = Some (m, r') \<and> all_blocks r' = all_blocks r @ b \<and>
       map describe b = found d (d_size (all_blocks r ! d)) es \<and> disk r' = disk r \<and> block_by_role r' = block_by_role r"
proof (induction es arbitrary: nr r)
  case Nil
  show ?case by (subst entries_loop.simps) (simp add: found_def)
next
  case (Cons e es)
  show ?case
  proof (cases "used e")
    case False
    then have e: "entries_loop d 0 0 (e # es) nr r = entries_loop d 0 0 es nr r"
      by (subst entries_loop.simps) (auto simp: used_def)
    have "\<not> fits dsz e" for dsz using False by (simp add: fits_def)
    then show ?thesis using Cons.IH [of r nr] Cons.prems by (simp add: e found_def)
  next
    case True
    obtain q b where q: "found_partition d (e_type e) (e_offset e) (e_size e) (nr + 1) r = Some q" "all_blocks q = all_blocks r @ b"
        "map describe b = found d (d_size (all_blocks r ! d)) [e]" "heap_left r - 2 \<le> heap_left q" "disk q = disk r"
        "block_by_role q = block_by_role r"
      using found_partition_result [of r d "e_type e" "e_offset e" "e_size e" "nr + 1"] Cons.prems True
      by (auto simp: found_def fits_def split: if_splits)
    have e: "entries_loop d 0 0 (e # es) nr r = entries_loop d 0 0 es (nr + 1) q"
      using True Cons.prems(3) q(1) by (subst entries_loop.simps) (auto simp: used_def)
    have "d < length (all_blocks q)" "d_size (all_blocks q ! d) = d_size (all_blocks r ! d)" "2 * length es \<le> heap_left q"
      using q(2,4) Cons.prems(1,2) by (auto simp: nth_append)
    then obtain m r' c where r': "entries_loop d 0 0 es (nr + 1) q = Some (m, r')" "all_blocks r' = all_blocks q @ c"
        "map describe c = found d (d_size (all_blocks r ! d)) es" "disk r' = disk q" "block_by_role r' = block_by_role q"
      using Cons.IH [of q "nr + 1"] Cons.prems(3) by auto
    have "map describe (b @ c) = found d (d_size (all_blocks r ! d)) (e # es)" using q(3) r'(3) by (simp add: found_def)
    then show ?thesis using e r' q(2,5,6) by (intro exI [of _ m] exI [of _ r'] exI [of _ "b @ c"]) simp
  qed
qed

text \<open>C32: On a disk without extended partitions \<open>partition_scan\<close> registers exactly the partitions of the table that lie
  inside the disk, in their order, each with its place, its size and its type; the devices registered before stay first, and the
  disks are not changed.\<close>

theorem partition_scan_registers:
  assumes "is_disk r d n" "0 < d_size (all_blocks r ! d)" "signature_ok (disk r n 0)" "9 \<le> heap_left r"
    and "\<forall>e\<in>set (table_entries (disk r n 0)). used e \<longrightarrow> \<not> is_extended (e_type e)"
  shows "\<exists>r'. partition_scan d r = Some r' \<and> disk r' = disk r \<and>
    map describe (all_blocks r') = map describe (all_blocks r) @ found d (d_size (all_blocks r ! d)) (table_entries (disk r n 0)) \<and>
    (\<forall>p. length (all_blocks r) \<le> p \<and> p < length (all_blocks r') \<longrightarrow> part_ok r' d (all_blocks r' ! p))"
proof -
  obtain q where q: "load_table d 0 r = Some (Some (disk r n 0), q)" "kept d n r q" "heap_left q = heap_left r - 1"
      "all_blocks q = all_blocks (upd_dev d (\<lambda>x. x\<lparr>d_reads := d_reads x + 1\<rparr>) r)"
    using load_table_eq [OF assms(1,2)] assms(3,4) by auto
  have d: "d < length (all_blocks q)" using q(2) by (simp add: kept_def is_disk_def)
  have s: "d_size (all_blocks q ! d) = d_size (all_blocks r ! d)" using q(2) by (simp add: kept_def)
  have "2 * length (table_entries (disk r n 0)) \<le> heap_left q" using q(3) assms(4) by (simp add: table_entries_def)
  from entries_loop_primary [OF this d assms(5), of 0] obtain m z b where
    z: "entries_loop d 0 0 (table_entries (disk r n 0)) 0 q = Some (m, z)" "all_blocks z = all_blocks q @ b"
      "map describe b = found d (d_size (all_blocks r ! d)) (table_entries (disk r n 0))" "disk z = disk q"
    by (auto simp: s)
  let ?r = "heap_free z"
  have e: "partition_scan d r = Some ?r" using q(1) z(1) by (simp add: partition_scan_def read_partition_table_def)
  have bl: "all_blocks ?r = all_blocks q @ b" using z(2) by (simp add: heap_free_def)
  have m: "map describe (all_blocks q) = map describe (all_blocks r)"
    by (rule nth_equalityI) (simp_all add: q(4) describe_def upd_dev_nth nth_map)
  have l: "length (all_blocks q) = length (all_blocks r)" using q(4) by simp
  have "part_ok ?r d (all_blocks ?r ! p)" if "length (all_blocks r) \<le> p" "p < length (all_blocks ?r)" for p
  proof -
    define i where "i = p - length (all_blocks r)"
    have i: "i < length b" "all_blocks ?r ! p = b ! i" using that by (simp_all add: bl l i_def nth_append)
    then have "describe (b ! i) \<in> set (found d (d_size (all_blocks r ! d)) (table_entries (disk r n 0)))"
      using z(3) by (metis length_map nth_map nth_mem)
    then obtain e where "fits (d_size (all_blocks r ! d)) e" "describe (b ! i) = (part_type (e_type e), Partition_ops d (e_offset e), e_size e)"
      by (auto simp: found_def)
    moreover have "d_size (all_blocks ?r ! d) = d_size (all_blocks r ! d)" using s d by (simp add: bl nth_append)
    ultimately show ?thesis unfolding i(2) by (auto simp: part_ok_def fits_def describe_def)
  qed
  moreover have "disk ?r = disk r" using z(4) q(2) by (simp add: kept_def heap_free_def)
  ultimately show ?thesis using e bl m z(3) by (intro exI [of _ ?r]) simp
qed

definition demo_primary :: registry where
  "demo_primary = (demo_registry 100)\<lparr>disk := (\<lambda>_ _. replicate 450 0 @ [0x21, 0, 0, 0] @ [63, 0, 0, 0] @ [100, 0, 0, 0] @ replicate 48 0 @ [0x55, 0xaa])\<rparr>"

theorem partition_scan_registers_witness:
  "\<exists>r'. partition_scan 0 demo_primary = Some r' \<and> disk r' = disk demo_primary"
proof -
  have t: "table_entries (disk demo_primary 0 0) = [\<lparr>e_type = 0x21, e_offset = 63, e_size = 100\<rparr>,
      \<lparr>e_type = 0, e_offset = 0, e_size = 0\<rparr>, \<lparr>e_type = 0, e_offset = 0, e_size = 0\<rparr>, \<lparr>e_type = 0, e_offset = 0, e_size = 0\<rparr>]"
    by (simp add: table_entries_def entry_at_def word_at_def demo_primary_def nth_append un_le32_def)
  have "is_disk demo_primary 0 0" "0 < d_size (all_blocks demo_primary ! 0)" "signature_ok (disk demo_primary 0 0)" "9 \<le> heap_left demo_primary"
    by (simp_all add: is_disk_def demo_primary_def demo_registry_def signature_ok_def nth_append)
  moreover have "\<forall>e\<in>set (table_entries (disk demo_primary 0 0)). used e \<longrightarrow> \<not> is_extended (e_type e)"
    by (simp add: t used_def is_extended_def)
  ultimately show ?thesis using partition_scan_registers by blast
qed

section \<open>Roles\<close>

text \<open>Without a name the first device of the type gets the role, if there is one.\<close>

lemma type_loop_first:
  "type_loop role (list_elem_to_block i r) r = Some None \<and> (\<forall>j. i \<le> j \<and> j < length (all_blocks r) \<longrightarrow> d_type (all_blocks r ! j) \<noteq> role) \<or>
   (\<exists>k. type_loop role (list_elem_to_block i r) r = Some (Some k) \<and> i \<le> k \<and> k < length (all_blocks r) \<and>
      d_type (all_blocks r ! k) = role \<and> (\<forall>j. i \<le> j \<and> j < k \<longrightarrow> d_type (all_blocks r ! j) \<noteq> role))"
proof (induction "length (all_blocks r) - i" arbitrary: i)
  case 0
  then show ?case by (subst (1 2) type_loop.simps) (auto simp: list_elem_to_block_def)
next
  case (Suc n)
  then have i: "i < length (all_blocks r)" by simp
  show ?case
  proof (cases "d_type (all_blocks r ! i) = role")
    case True
    then show ?thesis using i by (subst (1 2) type_loop.simps) (auto simp: list_elem_to_block_def)
  next
    case False
    then have e: "type_loop role (list_elem_to_block i r) r = type_loop role (list_elem_to_block (i + 1) r) r"
      using i by (subst type_loop.simps) (simp add: list_elem_to_block_def block_next_def)
    have j: "d_type (all_blocks r ! j) \<noteq> role" if "i + 1 \<le> j \<Longrightarrow> d_type (all_blocks r ! j) \<noteq> role" "i \<le> j" for j
      using that False by (cases "i = j") auto
    have "n = length (all_blocks r) - (i + 1)" using Suc.hyps(2) by simp
    from Suc.hyps(1) [OF this] show ?thesis
    proof (elim disjE exE conjE)
      fix k
      assume k: "type_loop role (list_elem_to_block (i + 1) r) r = Some (Some k)" "i + 1 \<le> k" "k < length (all_blocks r)"
        "d_type (all_blocks r ! k) = role" "\<forall>j. i + 1 \<le> j \<and> j < k \<longrightarrow> d_type (all_blocks r ! j) \<noteq> role"
      have "\<forall>j. i \<le> j \<and> j < k \<longrightarrow> d_type (all_blocks r ! j) \<noteq> role" 
      proof (intro allI impI)
        fix j' assume "i \<le> j' \<and> j' < k"
        then show "d_type (all_blocks r ! j') \<noteq> role" using j [of j'] k(5) by blast
      qed
      then show ?thesis using k(1-4) e by (intro disjI2 exI [of _ k]) simp
    next
      assume a: "type_loop role (list_elem_to_block (i + 1) r) r = Some None"
        "\<forall>j. i + 1 \<le> j \<and> j < length (all_blocks r) \<longrightarrow> d_type (all_blocks r ! j) \<noteq> role"
      have "\<forall>j. i \<le> j \<and> j < length (all_blocks r) \<longrightarrow> d_type (all_blocks r ! j) \<noteq> role"
      proof (intro allI impI)
        fix j' assume "i \<le> j' \<and> j' < length (all_blocks r)"
        then show "d_type (all_blocks r ! j') \<noteq> role" using j [of j'] a(2) by blast
      qed
      then show ?thesis using e a(1) by (intro disjI1) simp
    qed
  qed
qed

lemma locate_first:
  assumes "is_role role" "j < length (all_blocks r)" "d_type (all_blocks r ! j) = role"
  shows "\<exists>k r'. locate_block_device role None r = Some r' \<and> block_by_role r' role = Some k \<and> k \<le> j \<and>
    d_type (all_blocks r ! k) = role \<and> (\<forall>i<k. d_type (all_blocks r ! i) \<noteq> role)"
proof -
  obtain k where k: "type_loop role (block_first r) r = Some (Some k)" "d_type (all_blocks r ! k) = role"
      "\<forall>i. 0 \<le> i \<and> i < k \<longrightarrow> d_type (all_blocks r ! i) \<noteq> role"
    using type_loop_first [of role 0 r] assms(2,3) by (auto simp: block_first_def)
  have "k \<le> j"
  proof (rule ccontr)
    assume "\<not> k \<le> j"
    then show False using k(3) assms(3) by simp
  qed
  moreover have "locate_block_device role None r = Some (r\<lparr>block_by_role := (block_by_role r)(role := Some k)\<rparr>)"
    using k(1) assms(1) by (simp add: locate_block_device_def block_set_role_def)
  ultimately show ?thesis using k(2,3) by auto
qed

end
