(* ===== verification/Spec2Isabelle.thy ===== *)
theory Spec2Isabelle
  imports Demo ThreadProps LibProps CallProps ProcProps MallocProps IntqProps UstarProps MlfqsProps PartitionProps
begin

text \<open>
  Verification library of the PintOS kernel of \<^verbatim>\<open>src/project4-file_system/src\<close>, the last of the
  four project trees of the repository, and of the scheduler of \<^verbatim>\<open>src/project1-threads/src\<close>, which the
  later trees replaced. Paths below are relative to the first of these unless they name another tree.

  The program. PintOS is a small i386 kernel. The scheduler (\<^verbatim>\<open>threads/thread.c\<close>,
  \<^verbatim>\<open>threads/synch.c\<close>) keeps threads on intrusive lists (\<^verbatim>\<open>lib/kernel/list.c\<close>). User programs are
  loaded from ELF files and run as processes (\<^verbatim>\<open>userprog/process.c\<close>); they enter the kernel by system
  calls (\<^verbatim>\<open>userprog/syscall.c\<close>) and by page faults (\<^verbatim>\<open>userprog/exception.c\<close>). The virtual memory
  system (\<^verbatim>\<open>vm/\<close>) keeps the pages of a process in a hash table (\<^verbatim>\<open>lib/kernel/hash.c\<close>), maps them in
  page directories (\<^verbatim>\<open>userprog/pagedir.c\<close>), takes frames from the page allocator
  (\<^verbatim>\<open>threads/palloc.c\<close>), evicts them by a clock and moves pages to a swap device whose slots are a
  bitmap (\<^verbatim>\<open>lib/kernel/bitmap.c\<close>). The file system (\<^verbatim>\<open>filesys/\<close>) stores inodes with direct, indirect
  and doubly indirect blocks on a block device (\<^verbatim>\<open>devices/block.c\<close>) behind a write-back buffer cache
  and allocates sectors from a free map, again a bitmap. The C library (\<^verbatim>\<open>lib/\<close>) has strings,
  formatted output, sorting and 64-bit division.

  The theories, bottom up.

  \<^item> Prelude: shared names (\<open>ASSERT\<close>, words of 32 bits, addresses) and generic lemmas on lists,
    options and words. A panic or failed assertion of the kernel is the value \<open>None\<close>.
  \<^item> KList, KListSort: \<^verbatim>\<open>lib/kernel/list.c\<close> on a heap of \<^verbatim>\<open>prev\<close>/\<^verbatim>\<open>next\<close> links. \<open>dlist h l xs\<close> says that
    the list object at \<open>l\<close> has the elements \<open>xs\<close>; every operation is refined to an operation on
    \<open>xs\<close> (\<open>kl_insert\<close>, \<open>kl_sort\<close>, ...). The locale \<open>list_order\<close> is the contract of a comparison function.
  \<^item> Bitmap: \<^verbatim>\<open>lib/kernel/bitmap.c\<close> on 32-bit words, with the wrap-around of \<^verbatim>\<open>size_t\<close>.
  \<^item> HashTable: \<^verbatim>\<open>lib/kernel/hash.c\<close>, a bucket being the sequence of its list; the locale of hash and
    comparison functions gives the laws of lookup after insertion, deletion and rehashing.
  \<^item> CString, Stdlib, Stdio, Arith, LibProps: \<^verbatim>\<open>lib/string.c\<close>, \<^verbatim>\<open>stdlib.c\<close>, \<^verbatim>\<open>stdio.c\<close> and
    \<^verbatim>\<open>arithmetic.c\<close> on a memory of bytes; \<open>cstr m p s\<close> is a terminated string. The heap sort and the
    binary search take a comparison that keeps the contract of the locale \<open>comparator\<close>.
  \<^item> Block, Cache: \<^verbatim>\<open>devices/block.c\<close> and \<^verbatim>\<open>filesys/cache.c\<close>. The locale \<open>block_store\<close> is the contract of
    an array of sectors; the device and the cache over it are both interpretations.
  \<^item> Inode, InodeFacts, FreeMap, Directory: \<^verbatim>\<open>filesys/inode.c\<close>, \<^verbatim>\<open>free-map.c\<close>, \<^verbatim>\<open>file.c\<close>, \<^verbatim>\<open>directory.c\<close>,
    \<^verbatim>\<open>filesys.c\<close>. The state \<open>fsys\<close> holds the cache, the free map and the open inodes; InodeFacts
    proves reading and writing of file bytes against the sequence of data sectors.
  \<^item> Vaddr, Paging, PagingFacts: \<^verbatim>\<open>threads/vaddr.h\<close>, \<^verbatim>\<open>pte.h\<close>, \<^verbatim>\<open>palloc.c\<close> and \<^verbatim>\<open>userprog/pagedir.c\<close>. The
    state \<open>machine\<close> has the bytes of memory, the two pools and the active directory; \<open>pd_entry\<close> reads
    the entry of a page, and every operation is stated by its effect on that map.
  \<^item> Supt, Swap, Frame, FrameFacts, Page, VmProps: \<^verbatim>\<open>vm/page.c\<close>, \<^verbatim>\<open>swap.c\<close> and \<^verbatim>\<open>frame.c\<close>. The
    supplemental page table is a partial map from pages to entries, the swap device a map from slots
    to pages (locale \<open>page_store\<close>), and the frame table a hash table beside the list of the clock.
  \<^item> Exec, UserProps: the ELF loader, the first stack and its arguments in \<^verbatim>\<open>userprog/process.c\<close>.
  \<^item> Fault, Syscall, SyscallFacts, CallProps: the page fault handler, checked access to user memory,
    and every system call. A call ends in an \<open>outcome\<close>: it returns, the process exits, the machine
    halts, or the thread waits for the file system lock (\<open>Blocked\<close>). \<open>post\<close> is the weakest
    precondition through which the invariants of the dispatcher are proved call by call.
    \<^verbatim>\<open>process_execute\<close> and \<^verbatim>\<open>process_wait\<close> are arguments of \<open>dispatch\<close>.
  \<^item> Process, ProcessFacts, ProcProps: the protocol of \<^verbatim>\<open>process_execute\<close>, \<^verbatim>\<open>start_process\<close>,
    \<^verbatim>\<open>process_wait\<close> and \<^verbatim>\<open>process_exit\<close> on control blocks as a step relation, with a switch of threads
    between any two accesses. The code has a window between \<^verbatim>\<open>exited = true\<close> and the end of
    \<^verbatim>\<open>sema_up\<close>; \<open>calm_run\<close> are the executions in which no other thread runs inside it, and
    \<open>wait_exit_race\<close> shows what happens in the others.
  \<^item> Thread, Synch: \<^verbatim>\<open>threads/thread.c\<close>, \<^verbatim>\<open>threads/synch.c\<close>. The state \<open>kernel\<close> has the threads,
    semaphores, locks, conditions and lists. A context switch happens in the middle of a
    function; the rest of its work is a \<open>frame\<close> of its thread, and \<open>kstep\<close> is the transition
    relation: a call of the running thread, the continuation of one, or a timer interrupt.
    SynchFacts, SchedFacts and ThreadProps hold the invariants: mutual exclusion, the ready
    list, priorities, donation, round robin, the timer.
  \<^item> Malloc, MallocFacts, MallocRelease, MallocProps: \<^verbatim>\<open>threads/malloc.c\<close> over the page allocator of
    Paging. The state \<open>mheap\<close> has the descriptors with their free lists and the arena headers; the
    invariant says which blocks are allocated and that they do not overlap. Malloc holds the operations,
    MallocFacts allocation, MallocRelease release, MallocProps the properties.
  \<^item> Intq, IntqProps: \<^verbatim>\<open>devices/intq.c\<close>, the queue between threads and interrupt handlers. A thread is at
    a \<open>place\<close> inside a call; \<open>qstep\<close> is a step of a thread or a call of a handler, \<open>qrun\<close> an execution with the
    bytes that were added and taken. The locale \<open>byte_queue\<close> is the contract of a queue of bytes.
  \<^item> Partition, PartitionProps: the registry and the roles of \<^verbatim>\<open>devices/block.c\<close>, \<^verbatim>\<open>devices/partition.c\<close>,
    and \<^verbatim>\<open>locate_block_device\<close> of \<^verbatim>\<open>threads/init.c\<close>. The recursion over partition tables is a
    \<open>partial_function (option)\<close>: one theorem gives the result for tables without extended partitions, another shows
    that with one there is none.
  \<^item> Ustar, UstarProps: the headers of tar archives of \<^verbatim>\<open>lib/ustar.c\<close>.
  \<^item> Mlfqs, MlfqsFacts, MlfqsSteps, MlfqsTick, MlfqsProps: the scheduler of the first project
    (\<^verbatim>\<open>threads/thread.c\<close>, \<^verbatim>\<open>threads/float.h\<close>, \<^verbatim>\<open>devices/timer.c\<close>, the semaphores of \<^verbatim>\<open>threads/synch.c\<close>). \<open>exec1\<close> is an
    operation of the running thread or a timer interrupt, \<open>run1\<close> an execution that counts the interrupts, \<open>ok1\<close>
    the invariant; MlfqsSteps proves it for the operations, MlfqsTick for the interrupt. An \<^verbatim>\<open>int\<close> is an integer that
    wraps at 32 bits. \<open>MAX_THREADS\<close> bounds the threads by 2000, up to which the load average does not overflow.
  \<^item> Demo: concrete states, on which the properties below and in ThreadProps are applied.

  The groups of lemmas: for lists and bitmaps, functional correctness on every branch; for the
  hash table, the page tables and the swap device, refinement of a partial map; for the cache,
  refinement of an array of sectors and durability of a close; for inodes, reading back what was
  written; for the library, bounds of the buffers and reading back what was printed; for threads and
  processes, invariants over the step relations by rule induction, termination of the donation loop
  and the conditions under which the kernel panics; for system calls, the invariants of the tables
  and of the lock on every branch of the dispatcher.

  Loops. A loop of the code is a structural recursion where it counts, and otherwise a
  \<open>partial_function (option)\<close> whose \<open>None\<close> is a loop that does not end; the theorems state that a
  result is returned. \<open>free_map_allocate\<close> and the inode operations it calls back recurse through
  the file that stores the free map; the recursion has a depth argument, and one level is used
  when the free map file is not open or is not extended while it is written.

  Assumptions. Outside theory Malloc an allocation takes its address from a supply of fresh pointers
  and succeeds or fails by an argument of the operation; the medium of a block device keeps what is
  written to it; interrupts are disabled in the scheduler's functions, an interrupt being a step of
  its own; locks that only serialise the operations of one component (cache, pools, frame table) are
  left out, each such operation being one step.

  Not modelled. Assembly and the machine below C (start-up, context switch, interrupt entry,
  descriptor tables), since the models have no processor; the drivers of disks, keyboard, serial line,
  screen and clock, which are port input and output, a disk being its contents in Block and Partition;
  the console, debugging and statistics output; the boot sequence and the actions of the kernel command
  line (\<^verbatim>\<open>init.c\<close>, \<^verbatim>\<open>filesys/fsutil.c\<close>), glue between modelled parts; the random numbers of
  \<^verbatim>\<open>lib/random.c\<close>, which only tests use; the user-side library, the tests and the examples. Of the earlier
  project trees the second and the third are earlier states of the code of the fourth with the same
  libraries, so that a model of them would repeat this one; of the first the locks with their older form
  of priority donation are left out.
\<close>

section \<open>Kernel lists\<close>

text \<open>C5: \<open>list_sort\<close> returns on every well-formed list whose comparison is a strict weak order; the
  result is linked in both directions, is a sorted permutation of the list, keeps the order of
  elements that compare equal, and no other memory changes.\<close>

theorem list_sort_correct:
  assumes "list_order lt" "dlist h l xs"
  shows "\<exists>h' ys. list_sort lt l h = Some h' \<and> dlist h' l ys \<and> mset ys = mset xs \<and>
    sorted_wrt (\<lambda>x y. \<not> lt y x) ys \<and>
    (\<forall>x. filter (\<lambda>y. \<not> lt x y \<and> \<not> lt y x) ys = filter (\<lambda>y. \<not> lt x y \<and> \<not> lt y x) xs) \<and>
    same_except (set (full l xs)) h h'"
proof -
  obtain h' where "list_sort lt l h = Some h'" "dlist h' l (kl_sort lt xs)"
    "same_except (set (full l xs)) h h'" using list_sort_dlist [OF assms] by blast
  then show ?thesis
    by (intro exI [of _ h'] exI [of _ "kl_sort lt xs"])
      (simp add: list_order.sort_in_order [OF assms(1)] list_order.sort_stable [OF assms(1)])
qed

theorem list_sort_correct_witness:
  "\<exists>h' ys. list_sort (<) 200 demo_heap = Some h' \<and> dlist h' 200 ys \<and> mset ys = mset [24, 8, 16]"
  using list_sort_correct [OF nat_list_order demo_dlist] by blast

text \<open>\<open>list_insert_ordered\<close> returns and links the element behind every element that is not greater
  and in front of the first greater one; an ordered list stays ordered.\<close>

theorem list_insert_ordered_correct:
  assumes "list_order lt" "dlist h l xs" "e \<noteq> NULL" "e \<notin> set (full l xs)" "sorted_wrt (\<lambda>x y. \<not> lt y x) xs"
  shows "\<exists>h' P R. list_insert_ordered lt l e h = Some h' \<and> xs = P @ R \<and> dlist h' l (P @ e # R) \<and>
    (\<forall>x \<in> set P. \<not> lt e x) \<and> (R \<noteq> [] \<longrightarrow> lt e (hd R)) \<and> sorted_wrt (\<lambda>x y. \<not> lt y x) (P @ e # R) \<and>
    same_except (insert e (set (full l xs))) h h'"
proof -
  obtain P R where "xs = P @ R" "kl_insert lt e xs = P @ e # R" "\<forall>x \<in> set P. \<not> lt e x"
    "R \<noteq> [] \<longrightarrow> lt e (hd R)" using kl_insert_decomp [of xs lt e] by blast
  moreover have "sorted_wrt (\<lambda>x y. \<not> lt y x) (kl_insert lt e xs)"
    using list_order.insert_in_order [OF assms(1), of e xs] assms(5) by simp
  ultimately show ?thesis using list_insert_ordered_dlist [OF assms(2-4), of lt] by auto
qed

theorem list_insert_ordered_correct_witness:
  "\<exists>h' P R. list_insert_ordered (\<lambda>a b. a > b) 200 50 demo_heap3 = Some h' \<and> dlist h' 200 (P @ 50 # R)"
  using list_insert_ordered_correct [OF nat_greater_order demo_dlist3, of 50]
  by (auto simp: full_def head_of_def tail_of_def)

text \<open>\<open>list_reverse\<close> returns and reverses the list in place.\<close>

theorem list_reverse_correct:
  assumes "dlist h l xs"
  shows "\<exists>h'. list_reverse l h = Some h' \<and> dlist h' l (rev xs) \<and> same_except (set (full l xs)) h h'"
  using list_reverse_dlist [OF assms] by blast

theorem list_reverse_correct_witness: "\<exists>h'. list_reverse 200 demo_heap = Some h' \<and> dlist h' 200 [16, 8, 24]"
  using list_reverse_correct [OF demo_dlist] by auto

text \<open>\<open>list_unique\<close> returns, leaves one element of every run of equal elements and appends the
  others to \<open>duplicates\<close>; no element is lost.\<close>

theorem list_unique_correct:
  assumes "dlist h l xs" "dlist h dl D" "set (full l xs) \<inter> set (full dl D) = {}"
  shows "\<exists>h' u d. list_unique lt l dl h = Some h' \<and> dlist h' l u \<and> dlist h' dl (D @ d) \<and>
    kl_unique lt xs = (u, d) \<and> mset u + mset d = mset xs \<and>
    same_except (set (full l xs) \<union> set (full dl D)) h h'"
proof -
  obtain u d where "kl_unique lt xs = (u, d)" by (cases "kl_unique lt xs")
  then show ?thesis using list_unique_dlist [OF assms, of lt] mset_kl_unique [of lt xs] by auto
qed

theorem list_unique_correct_witness:
  "\<exists>h' u d. list_unique (\<lambda>a b. a div 2 < b div 2) 200 300 demo_heap2 = Some h' \<and> dlist h' 200 u \<and> dlist h' 300 d"
  using list_unique_correct [OF demo_dlist2, of "\<lambda>a b. a div 2 < b div 2"]
  by (auto simp: full_def head_of_def tail_of_def)

section \<open>Bitmaps\<close>

text \<open>\<open>bitmap_scan_and_flip\<close> finds the first group of \<open>cnt\<close> bits with the wanted value at or behind
  \<open>start\<close> and flips exactly these bits; when there is none it returns \<open>BITMAP_ERROR\<close> and changes
  nothing.\<close>

theorem bitmap_scan_and_flip_correct:
  assumes "bm_wf b" "start \<le> bit_cnt b"
  shows "\<exists>r b'. bitmap_scan_and_flip b start cnt v = Some (r, b') \<and>
    (if \<exists>j \<ge> start. bgroup b j cnt v
     then r \<noteq> BITMAP_ERROR \<and> start \<le> r \<and> bgroup b r cnt v \<and> (\<forall>j \<in> {start..<r}. \<not> bgroup b j cnt v) \<and>
          bm_upd b b' {r..<r + cnt} (\<not> v)
     else r = BITMAP_ERROR \<and> b' = b)"
  by (rule scan_and_flip_bmap [OF assms])

theorem bitmap_scan_and_flip_correct_witness:
  "\<exists>r b'. bitmap_scan_and_flip \<lparr>bit_cnt = 40, bits = [7, 0]\<rparr> 0 2 False = Some (r, b') \<and>
     ((\<exists>j. bgroup \<lparr>bit_cnt = 40, bits = [7, 0]\<rparr> j 2 False) \<or> r = BITMAP_ERROR)"
  using bitmap_scan_and_flip_correct [of "\<lparr>bit_cnt = 40, bits = [7, 0]\<rparr>" 0 2 False]
  by (auto simp: bm_wf_def elem_cnt_eq SIZE_MOD_def split: if_splits)

text \<open>\<open>bitmap_count\<close> is the number of bits of the range with the given value.\<close>

theorem bitmap_count_correct:
  assumes "bm_wf b" "start + cnt \<le> bit_cnt b"
  shows "bitmap_count b start cnt v = Some (card {k \<in> {start..<start + cnt}. bmap b k = v})"
  by (rule count_bmap [OF assms])

theorem bitmap_count_correct_witness:
  "bitmap_count \<lparr>bit_cnt = 40, bits = [7, 0]\<rparr> 1 30 True =
     Some (card {k \<in> {1..<31}. bmap \<lparr>bit_cnt = 40, bits = [7, 0]\<rparr> k})"
  using bitmap_count_correct [of "\<lparr>bit_cnt = 40, bits = [7, 0]\<rparr>" 1 30 True]
  by (simp add: bm_wf_def elem_cnt_eq SIZE_MOD_def)

section \<open>The supplemental page table\<close>

text \<open>Installing a page on a frame refines the update of a partial map: a page that has no entry gets
  exactly the new one and the call succeeds; a page that has one keeps it and the call fails.\<close>

theorem supt_install_frame_refines:
  assumes "supt_ok st" "p \<noteq> NULL" "p \<notin> supt_ptrs st" "tmp \<notin> supt_ptrs st" "tmp \<noteq> p"
    "htable.elem_cnt (page_map st) + 2 < 2 ^ 32"
  shows "\<exists>st' e. vm_supt_install_frame mm p st up kp = Some (supt_map tmp st up = None, st') \<and> supt_ok st' \<and>
    upage e = up \<and> kpage e = kp \<and> status e = ON_FRAME \<and> \<not> pdirty e \<and>
    supt_map tmp st' = (if supt_map tmp st up = None then (supt_map tmp st)(up \<mapsto> e) else supt_map tmp st)"
proof -
  let ?f = "\<lambda>e::spte. e\<lparr>upage := up, kpage := kp, status := ON_FRAME, pdirty := False, swap_index := - 1\<rparr>"
  have "upage (?f (entries st p)) = up" by simp
  with supt_insert_ok [OF assms, where mem = mm and f = ?f] show ?thesis
    by (auto simp: vm_supt_install_frame_def intro!: exI [of _ "?f (entries st p)"])
qed

theorem supt_install_frame_refines_witness:
  "\<exists>st' e. vm_supt_install_frame (\<lambda>_. True) 8 demo_supt 4096 8192 = Some (True, st') \<and>
     supt_map 16 st' 4096 = Some e \<and> kpage e = 8192"
  using supt_install_frame_refines [OF demo_supt_ok, of 8 16 "\<lambda>_. True" 4096 8192] demo_supt_facts by auto

text \<open>Marking a page as swapped out changes that page's entry only, and fails exactly when the page
  has no entry.\<close>

theorem supt_set_swap_refines:
  assumes "supt_ok st" "tmp \<notin> supt_ptrs st" "vm_supt_set_swap tmp st page idx = (r, st')"
  shows "(r \<longleftrightarrow> supt_map tmp st page \<noteq> None) \<and> supt_ok st' \<and>
    supt_map tmp st' = (supt_map tmp st)(page := map_option (\<lambda>e. e\<lparr>status := ON_SWAP, kpage := 0, swap_index := idx\<rparr>)
       (supt_map tmp st page))"
  using assms upd_spte_map [OF assms(1,2), of page _ "\<lambda>e. e\<lparr>status := ON_SWAP, kpage := 0, swap_index := idx\<rparr>"]
  by (auto simp: vm_supt_set_swap_def supt_map_def fun_upd_idem split: option.splits)

theorem supt_set_swap_refines_witness: "\<not> fst (vm_supt_set_swap 16 demo_supt 4096 3)"
  using supt_set_swap_refines [OF demo_supt_ok, of 16 4096 3] demo_supt_facts
  by (cases "vm_supt_set_swap 16 demo_supt 4096 3") auto

section \<open>The buffer cache\<close>



text \<open>C13: Closing the cache leaves on the device what readers saw in the cache: no write is lost.\<close>

theorem cache_close_durable:
  assumes "cache_ok c"
  shows "\<exists>c'. buffer_cache_close c = Some c' \<and> cache_ok c' \<and> (\<forall>t. medium (device c') t = cview c t)"
  using close_ok [OF assms] by blast

theorem cache_close_durable_witness: "\<exists>c'. buffer_cache_close demo_cache = Some c' \<and> cache_ok c'"
  using cache_close_durable [OF demo_cache_ok(1)] by blast

text \<open>The clock loop always finds a victim: eviction returns a free slot and what readers see stays.\<close>

theorem cache_evict_total:
  assumes "cache_ok c"
  shows "\<exists>slot c'. buffer_cache_evict c = Some (slot, c') \<and> cache_ok c' \<and> slot < BUFFER_CACHE_SIZE \<and>
    \<not> occupied (cache c' ! slot) \<and> (\<forall>t. cview c' t = cview c t)"
  using evict_ok [OF assms] by blast

theorem cache_evict_total_witness: "\<exists>slot c'. buffer_cache_evict demo_cache = Some (slot, c') \<and> slot < 64"
  using cache_evict_total [OF demo_cache_ok(1)] by (auto simp: BUFFER_CACHE_SIZE_def)

section \<open>Files\<close>

text \<open>C10: \<open>inode_read_at\<close> returns exactly the bytes of the file from the offset up to the requested
  size or the end of the file, whichever comes first, through direct, indirect and doubly indirect
  blocks, and changes nothing a reader can see.\<close>

theorem inode_read_correct:
  assumes "fs_ok st" "heap st ip = Some i" "layout_ok (bc st) (data i)" "0 \<le> offset"
  shows "\<exists>st'. inode_read_at ip sz offset st =
      Some (map (fbyte (bc st) (data i)) [nat offset..<nat (min (offset + sz) (ilength (data i)))], st') \<and> fs_same st st'"
  using inode_read_at_ok [OF assms] by (simp add: fbytes_def)

theorem inode_read_correct_witness:
  "\<exists>st'. inode_read_at 7 100 990 demo_fs = Some (map (fbyte (bc demo_fs) (data demo_inode)) [990..<1000], st')"
  using inode_read_correct [OF demo_fs_ok demo_heap_at demo_layout, of 990 100]
  by (auto simp: demo_inode_def)

text \<open>C11: Writing inside a file reports all bytes written, and reading the same range back returns
  the bytes written; the allocator is not consulted.\<close>

theorem inode_write_then_read:
  assumes ok: "fs_ok st" and h: "heap st ip = Some i" and dw: "deny_write_cnt i = 0"
    and l: "layout_ok (bc st) (data i)" and r: "0 \<le> offset" "0 < int (length src)" "offset + int (length src) \<le> ilength (data i)"
  shows "\<exists>st' st''. inode_write_at alloc ip src (int (length src)) offset st = Some (int (length src), st') \<and>
    inode_read_at ip (int (length src)) offset st' = Some (src, st'')"
proof -
  obtain st' where st': "inode_write_at alloc ip src (int (length src)) offset st = Some (int (length src), st')"
    "wrote (data i) (nat offset) src st st'"
    using inode_write_at_ok [OF ok h dw l r] by force
  note w = wroteD [OF st'(2)]
  have "fbytes (bc st') (data i) (nat offset) (nat offset + length src) = src"
  proof (rule nth_equalityI)
    fix k assume k: "k < length (fbytes (bc st') (data i) (nat offset) (nat offset + length src))"
    then have "(nat offset + k) div 512 < nsec (data i)" using r by (simp add: nsec_iff)
    then show "fbytes (bc st') (data i) (nat offset) (nat offset + length src) ! k = src ! k"
      using st'(2) k by (simp add: wrote_def fbytes_def overwritten_def)
  qed simp
  moreover have "nat (min (offset + int (length src)) (ilength (data i))) = nat offset + length src" using r by simp
  ultimately have "\<exists>st''. inode_read_at ip (int (length src)) offset st' = Some (src, st'')"
    using inode_read_at_ok [OF w(1) _ w(3) r(1), of ip "int (length src)"] h w(2) by auto
  with st'(1) show ?thesis by blast
qed

theorem inode_write_then_read_witness:
  "\<exists>st' st''. inode_write_at (free_map_allocate 1 1) 7 [1, 2, 3] 3 600 demo_fs = Some (3, st') \<and>
     inode_read_at 7 3 600 st' = Some ([1, 2, 3], st'')"
  using inode_write_then_read [OF demo_fs_ok demo_heap_at _ demo_layout, of 600 "[1, 2, 3]"]
  by (auto simp: demo_inode_def)

text \<open>A write of no bytes at offset 0 truncates the file: \<open>byte_to_sector\<close> of offset -1 is taken for
  an offset past the end and the length is set to 0 (the comment promises that only a write past
  the end changes the length).\<close>

theorem zero_write_truncates:
  assumes ok: "fs_ok st" and h: "heap st ip = Some i" and dw: "deny_write_cnt i = 0" and s: "sector i < csize (bc st)"
    and dl: "length (direct_blocks (data i)) = 123"
  shows "\<exists>st'. inode_write_at alloc ip [] 0 0 st = Some (0, st') \<and> inode_length ip st' = Some 0"
proof -
  let ?d = "(data i)\<lparr>ilength := 0\<rparr>"
  let ?st = "st\<lparr>heap := (heap st)(ip \<mapsto> i\<lparr>data := ?d\<rparr>)\<rparr>"
  have "fs_ok ?st" using ok by (simp add: fs_ok_def)
  then obtain st' where st': "bwrite (sector i) (enc_inode ?d) ?st = Some st'" "fs_frame ?st st'"
    using bwrite_ok [of ?st "sector i" "enc_inode ?d"] s dl by (auto simp: length_enc_inode)
  have "byte_to_sector ip (- 1) st = Some (NO_SECTOR, st)" using h by (simp add: byte_to_sector_def)
  then have "write_extend alloc ip 0 st = Some (True, st')"
    using st'(1) h by (simp add: write_extend_def inode_reserve_0 upd_inode_def)
  then have "inode_write_at alloc ip [] 0 0 st = Some (0, st')"
    using h dw by (simp add: inode_write_at_def write_loop.simps)
  then show ?thesis using st'(2) by (simp add: inode_length_def fs_frame_def)
qed

theorem zero_write_truncates_witness:
  "\<exists>st'. inode_write_at (free_map_allocate 1 1) 7 [] 0 0 demo_fs = Some (0, st') \<and> inode_length 7 st' = Some 0 \<and>
     inode_length 7 demo_fs = Some 1000"
  using zero_write_truncates [OF demo_fs_ok demo_heap_at, of "free_map_allocate 1 1"]
  by (auto simp: demo_inode_def demo_fs_def demo_cache_ok inode_length_def)

section \<open>Strings\<close>

text \<open>The \<open>strtok_r\<close> loop returns, its tokens are the maximal runs of non-delimiters in order, each a
  terminated string in the final memory, and only the string itself is written.\<close>

theorem strtok_loop_correct:
  assumes "cstr m d ds" "cstr m p s" "p + length s < d \<or> d + length ds < p"
  shows "\<exists>ts m'. token_loop p d 0 m [] = Some (ts, m') \<and> list_all2 (cstr m') ts (tokens (set ds) s) \<and>
    (\<forall>x. x < p \<or> p + length s \<le> x \<longrightarrow> m' x = m x)"
  using token_loop_ok [OF assms(1,2) _ assms(3), of p 0 "[]"] by auto

theorem strtok_loop_correct_witness:
  "\<exists>ts m'. token_loop 100 50 0 demo_mem [] = Some (ts, m') \<and> list_all2 (cstr m') ts (tokens {47} [47, 97, 47, 98])"
  using strtok_loop_correct [OF demo_mem_strings] by (simp del: cstr_Cons cstr_Nil) blast

text \<open>\<open>memmove\<close> copies correctly whether or not the blocks overlap, but when the destination lies below
  the source it returns the address behind the copy and not the destination its comment promises.\<close>

theorem memmove_correct:
  assumes "dst \<noteq> 0" "src \<noteq> 0"
  shows "\<exists>m'. memmove dst src n m = Some (if dst < src then dst + n else dst, m') \<and>
    bytes_at m' dst n = bytes_at m src n \<and> (\<forall>x. x < dst \<or> dst + n \<le> x \<longrightarrow> m' x = m x)"
  using memmove_ok [OF assms, of n m] by (auto simp: bytes_at_eq)

theorem memmove_correct_witness: "\<exists>m'. memmove 100 101 3 demo_mem = Some (103, m') \<and> bytes_at m' 100 3 = [97, 47, 98]"
proof -
  have "bytes_at demo_mem 101 3 = [97, 47, 98]" by (simp add: bytes_at_def demo_mem_def upt_rec)
  then show ?thesis using memmove_correct [of 100 101 3 demo_mem] by auto
qed

text \<open>\<open>strlcpy\<close> into a buffer of \<open>n > 0\<close> bytes returns the length of the source, leaves a terminated
  prefix of at most \<open>n - 1\<close> bytes and writes nothing outside the buffer.\<close>

theorem strlcpy_correct:
  assumes "cstr m src s" "dst \<noteq> 0" "0 < n" "dst + n \<le> src \<or> src + length s < dst"
  shows "\<exists>m'. strlcpy dst src n m = Some (length s, m') \<and> cstr m' dst (take (n - 1) s) \<and>
    (\<forall>x. x < dst \<or> dst + n \<le> x \<longrightarrow> m' x = m x)"
  by (rule strlcpy_ok [OF assms])

theorem strlcpy_correct_witness: "\<exists>m'. strlcpy 10 100 3 demo_mem = Some (4, m') \<and> cstr m' 10 [47, 97]"
  using strlcpy_correct [of demo_mem 100 "[47, 97, 47, 98]" 10 3] demo_mem_strings by auto

text \<open>\<open>strlcat\<close> appends as much as fits, always terminated inside the buffer, and returns the length the
  whole string would have.\<close>

theorem strlcat_correct:
  assumes "cstr m src s" "cstr m dst t" "length t < n" "dst + n \<le> src \<or> src + length s < dst"
  shows "\<exists>m'. strlcat dst src n m = Some (length s + length t, m') \<and> cstr m' dst (take (n - 1) (t @ s)) \<and>
    (\<forall>x. x < dst \<or> dst + n \<le> x \<longrightarrow> m' x = m x)"
  by (rule strlcat_ok [OF assms])

theorem strlcat_correct_witness: "\<exists>m'. strlcat 50 100 4 demo_mem = Some (5, m') \<and> cstr m' 50 [47, 47, 97]"
  using strlcat_correct [of demo_mem 100 "[47, 97, 47, 98]" 50 "[47]" 4] demo_mem_strings by auto

text \<open>\<open>strcmp\<close> returns on terminated strings and is the lexicographic comparison of unsigned bytes; it is
  0 exactly on equal strings.\<close>

theorem strcmp_correct:
  assumes "cstr m a s" "cstr m b t"
  shows "strcmp a b m = Some (lex_cmp s t) \<and> (strcmp a b m = Some 0 \<longleftrightarrow> s = t)"
  using strcmp_ok [OF assms] lex_cmp_0 by auto

theorem strcmp_correct_witness: "strcmp 50 100 demo_mem = Some (- 1)"
  using strcmp_correct [of demo_mem 50 "[47]" 100 "[47, 97, 47, 98]"] demo_mem_strings by simp

end
